(* ===== verification/Prelude.thy ===== *)
theory Prelude
  imports Main "HOL-Library.Word" "HOL-Library.Multiset"
begin

unbundle bit_operations_syntax

text \<open>
  Shared vocabulary of the development: the C integer types as words, the result type of
  operations that may stop the program, and generic lemmas on lists and words.
\<close>

section \<open>C integers\<close>

type_synonym u8 = "8 word"
type_synonym u16 = "16 word"
type_synonym u32 = "32 word"
type_synonym u64 = "64 word"

text \<open>A C \<open>int\<close> is the same 32 bits, compared through \<open>sint\<close>.\<close>

type_synonym i32 = "32 word"

section \<open>Results\<close>

text \<open>
  \<open>Fatal msg\<close> is a call of \<open>FATAL\<close> (which prints and then loops forever) or of
  \<open>panic\<close> (\<open>exit(1)\<close> in mkfs, \<open>FATAL\<close> in the kernel); \<open>Undefined\<close> is an access that C
  leaves undefined, such as a read past the end of an array.
\<close>

datatype fault = Fatal string | Undefined

text \<open>Sequencing: the first fault ends the computation.\<close>

fun bindr :: "fault + 'a \<Rightarrow> ('a \<Rightarrow> fault + 'b) \<Rightarrow> fault + 'b" where
  "bindr (Inl e) f = Inl e"
| "bindr (Inr x) f = f x"

lemma bindr_eq_Inr_iff: "bindr m f = Inr y \<longleftrightarrow> (\<exists>x. m = Inr x \<and> f x = Inr y)"
  by (cases m) auto

lemma bindr_assoc: "bindr (bindr m f) g = bindr m (\<lambda>x. bindr (f x) g)"
  by (cases m) auto

lemma bindr_cong [fundef_cong]:
  "m = m' \<Longrightarrow> (\<And>x. m' = Inr x \<Longrightarrow> f x = g x) \<Longrightarrow> bindr m f = bindr m' g"
  by (cases m') auto

section \<open>Words\<close>

lemma unat_plus_one_less: "(x :: 'a::len word) < y \<Longrightarrow> unat (x + 1) = Suc (unat x)"
proof -
  assume "x < y"
  then have "unat x < unat y"
    by (simp add: word_less_nat_alt)
  moreover have "unat y < 2 ^ LENGTH('a)"
    by (rule unsigned_less)
  ultimately have "Suc (unat x) < 2 ^ LENGTH('a)"
    by linarith
  then show ?thesis
    by (simp add: unat_word_ariths)
qed

lemma plus_one_le: "(x :: 'a::len word) < y \<Longrightarrow> x + 1 \<le> y"
  by (simp add: word_le_nat_alt word_less_nat_alt unat_plus_one_less)

lemma le_plus_one: "(x :: 'a::len word) < y \<Longrightarrow> x \<le> x + 1"
  by (simp add: word_le_nat_alt unat_plus_one_less)

lemma less_plus_one: "(x :: 'a::len word) + 1 \<noteq> 0 \<Longrightarrow> x < x + 1"
  by (metis add.commute unatSuc word_less_nat_alt lessI)

lemma minus_one_le: "(x :: 'a::len word) \<noteq> 0 \<Longrightarrow> x \<le> y \<Longrightarrow> x - 1 \<le> y"
  by (simp add: word_le_nat_alt unat_minus_one)

lemma unat_of_nat_less: "n < 2 ^ LENGTH('a) \<Longrightarrow> unat (of_nat n :: 'a::len word) = n"
  by (simp add: unat_of_nat)

section \<open>Lists\<close>

lemma nth_list_update_le: "j < length xs \<Longrightarrow> xs[i := x] ! j = (if i = j then x else xs ! j)"
  by (cases "i = j") simp_all

lemma mset_concat_update:
  "i < length ts \<Longrightarrow>
   mset (concat (map f (ts[i := x]))) + mset (f (ts ! i)) = mset (concat (map f ts)) + mset (f x)"
proof (induction ts arbitrary: i)
  case (Cons t ts)
  show ?case
  proof (cases i)
    case (Suc j)
    with Cons show ?thesis
      by (simp add: add.assoc)
  qed (simp add: ac_simps)
qed simp

lemma concat_replicate_Nil: "concat (replicate n []) = []"
  by (induction n) auto

lemma distinct_concat_nth: "distinct (concat xss) \<Longrightarrow> i < length xss \<Longrightarrow> distinct (xss ! i)"
  by (auto simp: distinct_concat_iff)

lemma distinct_concat_disjoint:
  "distinct (concat xss) \<Longrightarrow> i < length xss \<Longrightarrow> j < length xss \<Longrightarrow> i \<noteq> j \<Longrightarrow>
   set (xss ! i) \<inter> set (xss ! j) = {}"
proof (induction xss arbitrary: i j)
  case (Cons xs xss)
  have "set xs \<inter> set (xss ! k) = {}" if "k < length xss" for k
    using Cons.prems(1) nth_mem [OF that] by auto
  with Cons show ?case
    by (cases i; cases j) auto
qed simp

end
