(* ===== verification/Inode_Store.thy ===== *)
theory Inode_Store
  imports Prelude
begin

text \<open>
  The interface between the file systems and the store below them: \<open>struct inode_store\<close> of
  library/file/inode.h, the block type of library/file/disk.h, and the laws a fixed-size store
  of blocks keeps, as the locale \<open>block_store\<close>.
\<close>

section \<open>Blocks\<close>

text \<open>
  A \<open>block_t\<close> holds \<open>BLOCK_SIZE\<close> = 512 bytes. The file system reads a block only through
  \<open>union treedisk_block\<close>, whose members are arrays of 32-bit words, so the model's block is
  the list of its 128 words.
\<close>

type_synonym block = "u32 list"

definition BLOCK_SIZE :: nat where
  "BLOCK_SIZE = 512"

definition REFS_PER_BLOCK :: nat where
  "REFS_PER_BLOCK = BLOCK_SIZE div 4"

definition null_block :: block where
  "null_block = replicate REFS_PER_BLOCK 0"

lemma REFS_PER_BLOCK_eq [simp]: "REFS_PER_BLOCK = 128"
  by (simp add: REFS_PER_BLOCK_def BLOCK_SIZE_def)

lemma length_null_block [simp]: "length null_block = 128"
  by (simp add: null_block_def)

lemma null_block_nth [simp]: "i < 128 \<Longrightarrow> null_block ! i = 0"
  by (simp add: null_block_def)

section \<open>The interface\<close>

text \<open>
  The four methods take the state they work on and the inode number. \<open>read\<close> returns \<open>None\<close>
  for a negative return code and \<open>Some b\<close> for 0 with \<open>*block = b\<close>; \<open>write\<close> and \<open>setsize\<close>
  return their code and the new state.
\<close>

record 's inode_store =
  st_getsize :: "'s \<Rightarrow> u32 \<Rightarrow> fault + int"
  st_setsize :: "'s \<Rightarrow> u32 \<Rightarrow> u32 \<Rightarrow> fault + (int \<times> 's)"
  st_read :: "'s \<Rightarrow> u32 \<Rightarrow> u32 \<Rightarrow> fault + block option"
  st_write :: "'s \<Rightarrow> u32 \<Rightarrow> u32 \<Rightarrow> block \<Rightarrow> fault + (int \<times> 's)"

definition NINODES :: u32 where
  "NINODES = 128"

section \<open>The laws of a store of blocks\<close>

text \<open>
  What the client relies on: the blocks below \<open>nblks\<close> of inode \<open>ino\<close> can be read and
  written, a read returns what was last written, and a write changes no other block. \<open>content\<close>
  is the abstraction of the store's state, \<open>inv\<close> its invariant.
\<close>

locale block_store =
  fixes store :: "'s inode_store"
    and ino :: u32
    and content :: "'s \<Rightarrow> u32 \<Rightarrow> block"
    and inv :: "'s \<Rightarrow> bool"
    and nblks :: u32
  assumes store_getsize: "inv s \<Longrightarrow> st_getsize store s ino = Inr (uint nblks)"
    and store_read: "inv s \<Longrightarrow> off < nblks \<Longrightarrow> st_read store s ino off = Inr (Some (content s off))"
    and store_length: "inv s \<Longrightarrow> off < nblks \<Longrightarrow> length (content s off) = REFS_PER_BLOCK"
    and store_write: "inv s \<Longrightarrow> off < nblks \<Longrightarrow> length b = REFS_PER_BLOCK \<Longrightarrow>
      \<exists>s'. st_write store s ino off b = Inr (0, s') \<and> inv s' \<and>
           (\<forall>x<nblks. content s' x = (if x = off then b else content s x))"
begin

lemma store_writeE:
  assumes "inv s" "off < nblks" "length b = 128"
  obtains s' where "st_write store s ino off b = Inr (0, s')" "inv s'"
    "\<And>x. x < nblks \<Longrightarrow> content s' x = (if x = off then b else content s x)"
  using store_write [of s off b] assms by auto

end

end
