(* ===== verification/Ramdisk.thy ===== *)
theory Ramdisk
  imports Inode_Store
begin

text \<open>
  The store the image builder puts below the file system: \<open>ramread\<close> and \<open>ramwrite\<close> on the
  array \<open>fs\<close> of tools/mkfs.c, and its proof of the laws of a store of blocks.
\<close>

definition SIZE_2MB :: nat where
  "SIZE_2MB = 2 * 1024 * 1024"

definition FILE_SYS_DISK_SIZE :: nat where
  "FILE_SYS_DISK_SIZE = SIZE_2MB"

text \<open>\<open>char fs[SIZE_2MB]\<close>, as the blocks it is made of.\<close>

record ramdisk_state =
  fs :: "block list"

text \<open>
  \<open>fs + offset * BLOCK_SIZE\<close> is 32-bit arithmetic, so an offset of \<open>2^23\<close> or more wraps; a copy
  that leaves the array is undefined.
\<close>

definition ram_index :: "u32 \<Rightarrow> nat" where
  "ram_index offset = unat (offset * of_nat BLOCK_SIZE) div BLOCK_SIZE"

definition ram_in_bounds :: "u32 \<Rightarrow> bool" where
  "ram_in_bounds offset \<longleftrightarrow> unat (offset * of_nat BLOCK_SIZE) + BLOCK_SIZE \<le> SIZE_2MB"

definition ram_getsize :: "ramdisk_state \<Rightarrow> u32 \<Rightarrow> fault + int" where
  "ram_getsize s ino = Inr (int (FILE_SYS_DISK_SIZE div BLOCK_SIZE))"

text \<open>\<open>assert(0)\<close>\<close>

definition ram_setsize :: "ramdisk_state \<Rightarrow> u32 \<Rightarrow> u32 \<Rightarrow> fault + (int \<times> ramdisk_state)" where
  "ram_setsize s ino newsize = Inl (Fatal ''assert(0)'')"

definition ramread :: "ramdisk_state \<Rightarrow> u32 \<Rightarrow> u32 \<Rightarrow> fault + block option" where
  "ramread s ino offset =
     (if ram_in_bounds offset then Inr (Some (fs s ! ram_index offset)) else Inl Undefined)"

definition ramwrite :: "ramdisk_state \<Rightarrow> u32 \<Rightarrow> u32 \<Rightarrow> block \<Rightarrow> fault + (int \<times> ramdisk_state)" where
  "ramwrite s ino offset block =
     (if ram_in_bounds offset then Inr (0, s\<lparr>fs := (fs s)[ram_index offset := block]\<rparr>)
      else Inl Undefined)"

definition ramdisk :: "ramdisk_state inode_store" where
  "ramdisk = \<lparr>st_getsize = ram_getsize, st_setsize = ram_setsize, st_read = ramread, st_write = ramwrite\<rparr>"

section \<open>The laws\<close>

definition ram_inv :: "ramdisk_state \<Rightarrow> bool" where
  "ram_inv s \<longleftrightarrow> length (fs s) = FILE_SYS_DISK_SIZE div BLOCK_SIZE \<and>
                 (\<forall>b \<in> set (fs s). length b = REFS_PER_BLOCK)"

definition ram_content :: "ramdisk_state \<Rightarrow> u32 \<Rightarrow> block" where
  "ram_content s off = fs s ! unat off"

definition RAM_NBLOCKS :: u32 where
  "RAM_NBLOCKS = of_nat (FILE_SYS_DISK_SIZE div BLOCK_SIZE)"

lemmas ram_sizes = SIZE_2MB_def FILE_SYS_DISK_SIZE_def BLOCK_SIZE_def RAM_NBLOCKS_def

lemma RAM_NBLOCKS_eq: "RAM_NBLOCKS = 4096"
  by (simp add: ram_sizes)

lemma ram_offset:
  assumes "off < RAM_NBLOCKS"
  shows "unat (off * 512) = unat off * 512"
proof -
  have "unat off < 4096"
    using assms by (simp add: ram_sizes word_less_nat_alt)
  then show ?thesis
    by (simp add: unat_word_ariths)
qed

lemma ram_bounds:
  assumes "off < RAM_NBLOCKS"
  shows "ram_in_bounds off" "ram_index off = unat off" "unat off < 4096"
proof -
  show "unat off < 4096"
    using assms by (simp add: ram_sizes word_less_nat_alt)
  then show "ram_in_bounds off" "ram_index off = unat off"
    using ram_offset [OF assms] by (simp_all add: ram_in_bounds_def ram_index_def ram_sizes)
qed

interpretation ram: block_store ramdisk "ino" ram_content ram_inv RAM_NBLOCKS for ino
proof unfold_locales
  fix s :: ramdisk_state and off :: u32 and b :: block
  assume "ram_inv s" and off: "off < RAM_NBLOCKS"
  then have len: "length (fs s) = 4096" and bl: "\<forall>b \<in> set (fs s). length b = 128"
    by (simp_all add: ram_inv_def ram_sizes)
  note b = ram_bounds [OF off]
  show "st_read ramdisk s ino off = Inr (Some (ram_content s off))"
    by (simp add: ramdisk_def ramread_def b ram_content_def)
  show "length (ram_content s off) = REFS_PER_BLOCK"
    using len bl b by (simp add: ram_content_def)
  assume lb: "length b = REFS_PER_BLOCK"
  let ?s = "s\<lparr>fs := (fs s)[unat off := b]\<rparr>"
  have "st_write ramdisk s ino off b = Inr (0, ?s)"
    by (simp add: ramdisk_def ramwrite_def b)
  moreover have "ram_inv ?s"
    using len bl lb by (auto simp: ram_inv_def ram_sizes dest!: set_update_subset_insert [THEN subsetD])
  moreover have "\<forall>x<RAM_NBLOCKS. ram_content ?s x = (if x = off then b else ram_content s x)"
    using len b by (simp add: ram_content_def nth_list_update word_unat_eq_iff)
  ultimately show "\<exists>s'. st_write ramdisk s ino off b = Inr (0, s') \<and> ram_inv s' \<and>
       (\<forall>x<RAM_NBLOCKS. ram_content s' x = (if x = off then b else ram_content s x))"
    by blast
next
  fix s show "st_getsize ramdisk s ino = Inr (uint RAM_NBLOCKS)"
    by (simp add: ramdisk_def ram_getsize_def ram_sizes)
qed

end
