(* ===== verification/Treedisk.thy ===== *)
theory Treedisk
  imports Inode_Store
begin

text \<open>
  The tree file system of library/file/file1.c: the on-disk layout (library/file/file1.h), and
  one definition per C function, over any store below.
\<close>

section \<open>On-disk layout\<close>

text \<open>
  \<open>union treedisk_block\<close>: the superblock is words 0 and 1 of a block, inode \<open>i\<close> of an inode
  block is words \<open>2 * i\<close> (root) and \<open>2 * i + 1\<close> (nblocks), and a free-list or indirect block
  is 128 references.
\<close>

definition INODES_PER_BLOCK :: u32 where
  "INODES_PER_BLOCK = of_nat (BLOCK_SIZE div 8)"

definition n_inodeblocks :: "block \<Rightarrow> u32" where
  "n_inodeblocks sb = sb ! 0"

definition free_list :: "block \<Rightarrow> u32" where
  "free_list sb = sb ! 1"

definition root_slot :: "nat \<Rightarrow> nat" where
  "root_slot i = 2 * i"

definition nblocks_slot :: "nat \<Rightarrow> nat" where
  "nblocks_slot i = 2 * i + 1"

section \<open>State and snapshots\<close>

record 's treedisk_state =
  below :: "'s inode_store"
  below_ino :: u32
  ninodes :: u32

text \<open>The pointer \<open>inode\<close> into \<open>inodeblock\<close> is the index of the inode in it.\<close>

record treedisk_snapshot =
  superblock :: block
  inodeblock :: block
  inode_blockno :: u32
  inode_index :: nat

definition snap_root :: "treedisk_snapshot \<Rightarrow> u32" where
  "snap_root snap = inodeblock snap ! root_slot (inode_index snap)"

definition snap_nblocks :: "treedisk_snapshot \<Rightarrow> u32" where
  "snap_nblocks snap = inodeblock snap ! nblocks_slot (inode_index snap)"

section \<open>Shifts and levels\<close>

definition log_shift_r :: "u32 \<Rightarrow> nat \<Rightarrow> u32" where
  "log_shift_r x nbits = (if nbits \<ge> 32 then 0 else drop_bit nbits x)"

text \<open>
  The \<open>do ... while\<close> of \<open>treedisk_init\<close>: it increments \<open>log_rpb\<close> until
  \<open>(REFS_PER_BLOCK - 1) >> log_rpb\<close> is 0.
\<close>

function log_rpb_from :: "nat \<Rightarrow> nat" where
  "log_rpb_from n =
     (if (REFS_PER_BLOCK - 1) div 2 ^ Suc n \<noteq> 0 then log_rpb_from (Suc n) else Suc n)"
  by pat_completeness auto
termination
proof (relation "measure (\<lambda>n. 128 - n)")
  fix n :: nat
  assume "(REFS_PER_BLOCK - 1) div 2 ^ Suc n \<noteq> 0"
  then have "2 ^ Suc n \<le> (127::nat)"
    by (simp add: div_eq_0_iff)
  then have "2 * 2 ^ n \<le> (127::nat)"
    by simp
  with less_exp [of n] have "n < 128"
    by linarith
  then show "(Suc n, n) \<in> measure (\<lambda>n. 128 - n)"
    by simp
qed simp

definition log_rpb :: nat where
  "log_rpb = log_rpb_from 0"

text \<open>
  The loops that count the levels of a tree whose last block is \<open>x\<close>: \<open>nlevels\<close> goes up until
  the shifted value is 0.
\<close>

function levels_from :: "u32 \<Rightarrow> nat \<Rightarrow> nat" where
  "levels_from x n = (if log_shift_r x (n * log_rpb) \<noteq> 0 then levels_from x (Suc n) else n)"
  by pat_completeness auto
termination
proof (relation "measure (\<lambda>(x, n). 32 - n)")
  fix x :: u32 and n :: nat
  assume "log_shift_r x (n * log_rpb) \<noteq> 0"
  then have "n * log_rpb < 32"
    by (auto simp: log_shift_r_def split: if_splits)
  moreover have "log_rpb > 0"
    by (simp add: log_rpb_def log_rpb_from.simps [of 0] del: log_rpb_from.simps)
       (simp add: log_rpb_from.simps)
  moreover have "n * 1 \<le> n * log_rpb"
    using calculation by (intro mult_le_mono) auto
  ultimately have "n < 32"
    by linarith
  then show "((x, Suc n), x, n) \<in> measure (\<lambda>(x, n). 32 - n)"
    by simp
qed simp

declare log_rpb_from.simps [simp del] levels_from.simps [simp del]

text \<open>\<open>if (nblocks > 0) while (log_shift_r(nblocks - 1, ...) != 0) nlevels++\<close>\<close>

definition file_levels :: "u32 \<Rightarrow> nat" where
  "file_levels nblocks = (if nblocks > 0 then levels_from (nblocks - 1) 0 else 0)"

text \<open>\<open>log_shift_r(offset, nlevels * log_rpb) % REFS_PER_BLOCK\<close>\<close>

definition ref_index :: "u32 \<Rightarrow> nat \<Rightarrow> nat" where
  "ref_index offset nlevels = unat (log_shift_r offset (nlevels * log_rpb)) mod REFS_PER_BLOCK"

section \<open>Operations\<close>

definition treedisk_get_snapshot ::
  "'s treedisk_state \<Rightarrow> 's \<Rightarrow> u32 \<Rightarrow> fault + treedisk_snapshot option" where
  "treedisk_get_snapshot ts s inode_no =
     bindr (st_read (below ts) s (below_ino ts) 0) (\<lambda>r. case r of
       None \<Rightarrow> Inr None
     | Some sb \<Rightarrow>
         if inode_no \<ge> n_inodeblocks sb * INODES_PER_BLOCK then Inr None
         else
           let blockno = 1 + inode_no div INODES_PER_BLOCK in
           bindr (st_read (below ts) s (below_ino ts) blockno) (\<lambda>r. case r of
             None \<Rightarrow> Inr None
           | Some ib \<Rightarrow>
               Inr (Some \<lparr>superblock = sb, inodeblock = ib, inode_blockno = blockno,
                          inode_index = unat (inode_no mod INODES_PER_BLOCK)\<rparr>)))"

text \<open>\<open>for (i = REFS_PER_BLOCK; --i > 0;) if (refs[i] != 0) break;\<close>\<close>

fun last_ref :: "block \<Rightarrow> nat \<Rightarrow> nat" where
  "last_ref fl 0 = 0"
| "last_ref fl (Suc i) = (if i > 0 then (if fl ! i \<noteq> 0 then i else last_ref fl i) else i)"

definition treedisk_alloc_block ::
  "'s treedisk_state \<Rightarrow> treedisk_snapshot \<Rightarrow> 's \<Rightarrow> fault + (u32 \<times> treedisk_snapshot \<times> 's)" where
  "treedisk_alloc_block ts snap s =
     (let b = free_list (superblock snap) in
      if b = 0 then Inl (Fatal ''treedisk_alloc_block: inode store is full\<newline>'')
      else bindr (st_read (below ts) s (below_ino ts) b) (\<lambda>r. case r of
        None \<Rightarrow> Inl (Fatal ''treedisk_alloc_block'')
      | Some fl \<Rightarrow>
          let i = last_ref fl REFS_PER_BLOCK in
          if i = 0 then
            let sb = (superblock snap)[1 := fl ! 0] in
            bindr (st_write (below ts) s (below_ino ts) 0 sb) (\<lambda>(rc, s').
              if rc < 0 then Inl (Fatal ''treedisk_alloc_block: superblock'')
              else Inr (b, snap\<lparr>superblock := sb\<rparr>, s'))
          else
            bindr (st_write (below ts) s (below_ino ts) b (fl[i := 0])) (\<lambda>(rc, s').
              if rc < 0 then Inl (Fatal ''treedisk_alloc_block: freelistblock'')
              else Inr (fl ! i, snap, s'))))"

definition treedisk_getsize :: "'s treedisk_state \<Rightarrow> 's \<Rightarrow> u32 \<Rightarrow> fault + int" where
  "treedisk_getsize ts s ino =
     bindr (treedisk_get_snapshot ts s ino) (\<lambda>r. case r of
       None \<Rightarrow> Inr (-1)
     | Some snap \<Rightarrow> Inr (sint (snap_nblocks snap)))"

definition treedisk_setsize ::
  "'s treedisk_state \<Rightarrow> 's \<Rightarrow> u32 \<Rightarrow> u32 \<Rightarrow> fault + (int \<times> 's)" where
  "treedisk_setsize ts s ino nblocks = Inl (Fatal ''treedisk_setsize not implemented'')"

text \<open>The \<open>for (;;)\<close> of \<open>treedisk_read\<close>, with \<open>b\<close> and \<open>nlevels\<close> as its state.\<close>

fun read_walk ::
  "'s treedisk_state \<Rightarrow> 's \<Rightarrow> u32 \<Rightarrow> u32 \<Rightarrow> nat \<Rightarrow> fault + block option" where
  "read_walk ts s offset b nlevels =
     (if b = 0 then Inr (Some null_block)
      else bindr (st_read (below ts) s (below_ino ts) b) (\<lambda>r. case r of
        None \<Rightarrow> Inr None
      | Some blk \<Rightarrow>
          (case nlevels of
             0 \<Rightarrow> Inr (Some blk)
           | Suc n \<Rightarrow> read_walk ts s offset (blk ! ref_index offset n) n)))"

declare read_walk.simps [simp del]

definition treedisk_read :: "'s treedisk_state \<Rightarrow> 's \<Rightarrow> u32 \<Rightarrow> u32 \<Rightarrow> fault + block option" where
  "treedisk_read ts s ino offset =
     bindr (treedisk_get_snapshot ts s ino) (\<lambda>r. case r of
       None \<Rightarrow> Inr None
     | Some snap \<Rightarrow>
         if offset \<ge> snap_nblocks snap then Inr None
         else read_walk ts s offset (snap_root snap) (file_levels (snap_nblocks snap)))"

text \<open>
  The loop of \<open>treedisk_write\<close> that inserts indirect blocks above the root, \<open>grow\<close> times:
  it leaves the new root in the snapshot's inode.
\<close>

fun grow_tree ::
  "'s treedisk_state \<Rightarrow> treedisk_snapshot \<Rightarrow> 's \<Rightarrow> nat \<Rightarrow> fault + (treedisk_snapshot \<times> 's)" where
  "grow_tree ts snap s 0 = Inr (snap, s)"
| "grow_tree ts snap s (Suc grow) =
     bindr (treedisk_alloc_block ts snap s) (\<lambda>(indir, snap1, s1).
       let tib = null_block[0 := snap_root snap1];
           snap2 = snap1\<lparr>inodeblock := (inodeblock snap1)[root_slot (inode_index snap1) := indir]\<rparr> in
       bindr (st_write (below ts) s1 (below_ino ts) indir tib) (\<lambda>(rc, s2).
         if rc < 0 then Inl (Fatal ''treedisk_write: indirect block'')
         else grow_tree ts snap2 s2 grow))"

text \<open>
  The \<open>for (;;)\<close> of \<open>treedisk_write\<close>. Its state is the block that holds the reference to
  follow (\<open>parent_block\<close>, block \<open>parent_off\<close> on disk, the reference at word \<open>slot\<close>, which is
  where \<open>parent_no\<close> points) and \<open>nlevels\<close>; it returns the block number the data goes to.
\<close>

fun write_walk ::
  "'s treedisk_state \<Rightarrow> treedisk_snapshot \<Rightarrow> 's \<Rightarrow> u32 \<Rightarrow> block \<Rightarrow> u32 \<Rightarrow> nat \<Rightarrow> nat
   \<Rightarrow> fault + (u32 \<times> 's)" where
  "write_walk ts snap s offset parent_block parent_off slot nlevels =
     (let b = parent_block ! slot in
      if b = 0 then
        bindr (treedisk_alloc_block ts snap s) (\<lambda>(b', snap1, s1).
          bindr (st_write (below ts) s1 (below_ino ts) parent_off (parent_block[slot := b']))
            (\<lambda>(rc, s2).
              if rc < 0 then Inl (Fatal ''treedisk_write: parent'')
              else (case nlevels of
                  0 \<Rightarrow> Inr (b', s2)
                | Suc n \<Rightarrow>
                    write_walk ts snap1 s2 offset null_block b' (ref_index offset n) n)))
      else
        (case nlevels of
           0 \<Rightarrow> Inr (b, s)
         | Suc n \<Rightarrow>
             bindr (st_read (below ts) s (below_ino ts) b) (\<lambda>r. case r of
               None \<Rightarrow> Inl (Fatal ''treedisk_write'')
             | Some tib \<Rightarrow> write_walk ts snap s offset tib b (ref_index offset n) n)))"

declare write_walk.simps [simp del]

text \<open>
  Writing at \<open>offset >= nblocks\<close> sets \<open>nblocks\<close> to \<open>offset + 1\<close> in the inode; the test
  \<open>nblocks == 0\<close> that follows reads the updated field, so it holds only when \<open>offset + 1\<close>
  wraps to 0.
\<close>

definition treedisk_write ::
  "'s treedisk_state \<Rightarrow> 's \<Rightarrow> u32 \<Rightarrow> u32 \<Rightarrow> block \<Rightarrow> fault + (int \<times> 's)" where
  "treedisk_write ts s ino offset block =
     bindr (treedisk_get_snapshot ts s ino) (\<lambda>r. case r of
       None \<Rightarrow> Inr (-1, s)
     | Some snap \<Rightarrow>
         let nlevels = file_levels (snap_nblocks snap);
             extends = (offset \<ge> snap_nblocks snap);
             snap1 = (if extends
                      then snap\<lparr>inodeblock := (inodeblock snap)
                             [nblocks_slot (inode_index snap) := offset + 1]\<rparr>
                      else snap);
             nlevels_after = (if extends then levels_from offset 0 else nlevels);
             grow = (if snap_nblocks snap1 = 0 then 0 else nlevels_after - nlevels);
             nlevels1 = (if snap_nblocks snap1 = 0 then nlevels_after else nlevels + grow);
             dirty_inode = (extends \<or> grow > 0) in
         bindr (grow_tree ts snap1 s grow) (\<lambda>(snap2, s1).
         bindr (if dirty_inode
                then bindr (st_write (below ts) s1 (below_ino ts) (inode_blockno snap2)
                              (inodeblock snap2))
                       (\<lambda>(rc, s2). if rc < 0 then Inl (Fatal ''treedisk_write: inode block'')
                                    else Inr s2)
                else Inr s1) (\<lambda>s2.
         bindr (write_walk ts snap2 s2 offset (inodeblock snap2) (inode_blockno snap2)
                  (root_slot (inode_index snap2)) nlevels1) (\<lambda>(b, s3).
         bindr (st_write (below ts) s3 (below_ino ts) b block) (\<lambda>(rc, s4).
           if rc < 0 then Inl (Fatal ''treedisk_write: data block'') else Inr (0, s4))))))"

definition treedisk_init :: "'s inode_store \<Rightarrow> u32 \<Rightarrow> 's inode_store" where
  "treedisk_init blw blw_ino =
     (let ts = \<lparr>below = blw, below_ino = blw_ino, ninodes = 0\<rparr> in
      \<lparr>st_getsize = treedisk_getsize ts, st_setsize = treedisk_setsize ts,
       st_read = treedisk_read ts, st_write = treedisk_write ts\<rparr>)"

section \<open>Creating a file system\<close>

text \<open>
  The two inner loops of \<open>setup_freelist\<close>: the remaining \<open>k\<close> references of a free-list block
  are the next free blocks while there are any, then 0.
\<close>

fun fill_refs :: "nat \<Rightarrow> u32 \<Rightarrow> u32 \<Rightarrow> u32 list \<times> u32" where
  "fill_refs 0 next_free nblocks = ([], next_free)"
| "fill_refs (Suc k) next_free nblocks =
     (if next_free < nblocks
      then (let (refs, next') = fill_refs k (next_free + 1) nblocks in (next_free # refs, next'))
      else (replicate (Suc k) 0, next_free))"

lemma fill_refs_next:
  "next_free \<le> nblocks \<Longrightarrow> next_free \<le> snd (fill_refs k next_free nblocks) \<and>
     snd (fill_refs k next_free nblocks) \<le> nblocks"
proof (induction k arbitrary: next_free)
  case (Suc k)
  show ?case
  proof (cases "next_free < nblocks")
    case True
    then have "next_free + 1 \<le> nblocks" "next_free \<le> next_free + 1"
      by (rule plus_one_le, rule le_plus_one)
    with Suc.IH [of "next_free + 1"] True show ?thesis
      by (auto simp: case_prod_beta)
  qed (use Suc.prems in simp)
qed simp

text \<open>
  \<open>while (next_free < nblocks)\<close>: each round takes the next block for the list itself, links it
  in front of the list built so far, and fills the rest of it with the blocks that follow.
\<close>

function setup_freelist ::
  "'s inode_store \<Rightarrow> u32 \<Rightarrow> 's \<Rightarrow> u32 \<Rightarrow> u32 \<Rightarrow> u32 \<Rightarrow> fault + (u32 \<times> 's)" where
  "setup_freelist blw blw_ino s next_free nblocks freelist_block =
     (if next_free < nblocks then
        (let (refs, next') = fill_refs (REFS_PER_BLOCK - 1) (next_free + 1) nblocks in
         bindr (st_write blw s blw_ino next_free (freelist_block # refs)) (\<lambda>(rc, s').
           if rc < 0 then Inl (Fatal ''treedisk_setup_freelist'')
           else setup_freelist blw blw_ino s' next' nblocks next_free))
      else Inr (freelist_block, s))"
  by pat_completeness auto
termination
proof (relation "measure (\<lambda>(blw, blw_ino, s, next_free, nblocks, fb). unat nblocks - unat next_free)",
    goal_cases)
  case (2 blw blw_ino s next_free nblocks fb p refs next' q rc s')
  then have "snd (fill_refs (REFS_PER_BLOCK - 1) (next_free + 1) nblocks) = next'" "next_free < nblocks"
    by (metis snd_conv, simp)
  then have "next_free + 1 \<le> next'" "next_free < nblocks"
    using fill_refs_next [OF plus_one_le, of next_free nblocks "REFS_PER_BLOCK - 1"] by auto
  then have "unat next_free < unat next'" "unat next_free < unat nblocks"
    by (simp_all add: word_le_nat_alt word_less_nat_alt unat_plus_one_less)
  then show ?case
    by simp
qed simp

declare setup_freelist.simps [simp del]

text \<open>\<open>for (i = 1; i <= n_inodeblocks; i++)\<close>: the inode blocks \<open>i .. i + k - 1\<close> start out null.\<close>

fun clear_inodeblocks ::
  "'s inode_store \<Rightarrow> u32 \<Rightarrow> 's \<Rightarrow> u32 \<Rightarrow> nat \<Rightarrow> fault + (int \<times> 's)" where
  "clear_inodeblocks blw blw_ino s i 0 = Inr (0, s)"
| "clear_inodeblocks blw blw_ino s i (Suc k) =
     bindr (st_write blw s blw_ino i null_block) (\<lambda>(rc, s').
       if rc < 0 then Inr (-1, s') else clear_inodeblocks blw blw_ino s' (i + 1) k)"

definition treedisk_create ::
  "'s inode_store \<Rightarrow> u32 \<Rightarrow> 's \<Rightarrow> u32 \<Rightarrow> fault + (int \<times> 's)" where
  "treedisk_create blw blw_ino s n_inodes =
     (let k = (n_inodes + INODES_PER_BLOCK - 1) div INODES_PER_BLOCK in
      bindr (st_getsize blw s blw_ino) (\<lambda>size.
      let nblocks = word_of_int size in
      if nblocks < k + 2 then Inr (-1, s)
      else
        bindr (st_read blw s blw_ino 0) (\<lambda>r. case r of
          None \<Rightarrow> Inr (-1, s)
        | Some sb \<Rightarrow>
            if n_inodeblocks sb = 0 then
              bindr (setup_freelist blw blw_ino s (k + 1) nblocks 0) (\<lambda>(fl, s1).
              bindr (st_write blw s1 blw_ino 0 (null_block[0 := k, 1 := fl])) (\<lambda>(rc, s2).
                if rc < 0 then Inr (-1, s2)
                else clear_inodeblocks blw blw_ino s2 1 (unat k)))
            else Inr (0, s))))"

end
