(* ===== verification/Treedisk_Tree.thy ===== *)
theory Treedisk_Tree
  imports Treedisk
begin

text \<open>
  The tree of blocks behind an inode, apart from the disk: the arithmetic of levels and reference
  indices, the shape a tree has on disk, the address of the data block of an offset, and what
  one write does to a tree.
\<close>

section \<open>Levels and reference indices\<close>

lemma log_rpb_eq [simp]: "log_rpb = 7"
  by (simp add: log_rpb_def log_rpb_from.simps)

text \<open>The word of a level-\<open>m\<close> block on the path to offset \<open>o\<close>.\<close>

definition slot :: "nat \<Rightarrow> nat \<Rightarrow> nat" where
  "slot off m = off div 128 ^ m mod 128"

lemma slot_less [simp]: "slot off m < 128"
  by (simp add: slot_def)

lemma mod_Suc_slot: "off mod 128 ^ Suc m = 128 ^ m * slot off m + off mod (128::nat) ^ m"
  by (simp add: slot_def mod_mult2_eq mult.commute [of 128])

lemma mod_Suc_neqD:
  "off mod 128 ^ Suc m \<noteq> p mod 128 ^ Suc m \<Longrightarrow>
   slot off m \<noteq> slot p m \<or> off mod (128::nat) ^ m \<noteq> p mod 128 ^ m"
  by (auto simp: mod_Suc_slot simp del: power_Suc)

lemma slot_top: "off < 128 ^ m \<Longrightarrow> slot off m = 0"
  by (simp add: slot_def)

lemma slot_top_nonzero: "128 ^ m \<le> off \<Longrightarrow> off < 128 ^ Suc m \<Longrightarrow> slot off m \<noteq> 0"
proof -
  assume "128 ^ m \<le> off" "off < 128 ^ Suc m"
  then have "off div 128 ^ m < 128" "off div 128 ^ m \<noteq> 0"
    by (simp_all add: less_mult_imp_div_less div_eq_0_iff)
  then show ?thesis
    by (simp add: slot_def)
qed

lemma log_shift_r_unat: "unat (log_shift_r x (n * 7)) = unat x div 128 ^ n"
proof -
  have p: "(128::nat) ^ n = 2 ^ (n * 7)"
    by (simp add: power_mult [symmetric] mult.commute [of n] power_mult)
  show ?thesis
  proof (cases "n * 7 \<ge> 32")
    case True
    have "unat x < 2 ^ 32"
      using unsigned_less [of x, where ?'a = nat] by simp
    also have "(2::nat) ^ 32 \<le> 128 ^ n"
      unfolding p using True by (rule power_increasing) simp
    finally show ?thesis
      using True by (simp add: log_shift_r_def)
  next
    case False
    then have "unat (log_shift_r x (n * 7)) = unat (drop_bit (n * 7) x)"
      by (simp add: log_shift_r_def)
    also have "\<dots> = unat x div 128 ^ n"
      by (simp only: unat_drop_bit_eq) (simp only: drop_bit_eq_div p)
    finally show ?thesis .
  qed
qed

lemma log_shift_r_nonzero: "log_shift_r x (n * 7) \<noteq> 0 \<longleftrightarrow> 128 ^ n \<le> unat x"
proof -
  have "log_shift_r x (n * 7) \<noteq> 0 \<longleftrightarrow> unat x div 128 ^ n \<noteq> 0"
    by (simp only: log_shift_r_unat [symmetric] unsigned_eq_0_iff)
  then show ?thesis
    by (simp add: div_eq_0_iff not_less)
qed

lemma ref_index_slot: "ref_index off m = slot (unat off) m"
  by (simp add: ref_index_def slot_def log_shift_r_unat)

lemma levels_from_spec:
  "unat x < 128 ^ levels_from x n \<and> (\<forall>m. n \<le> m \<and> m < levels_from x n \<longrightarrow> 128 ^ m \<le> unat x)
   \<and> n \<le> levels_from x n"
proof (induction x n rule: levels_from.induct)
  case (1 x n)
  show ?case
  proof (cases "128 ^ n \<le> unat x")
    case True
    then have "levels_from x n = levels_from x (Suc n)"
      by (simp add: levels_from.simps [of x n] log_shift_r_nonzero)
    with "1.IH" True show ?thesis
      by (auto simp: log_shift_r_nonzero) (metis Suc_leI le_eq_less_or_eq)
  next
    case False
    then have "levels_from x n = n"
      by (simp add: levels_from.simps [of x n] log_shift_r_nonzero)
    with False show ?thesis
      by simp
  qed
qed

lemma levels_less: "unat x < 128 ^ levels_from x 0"
  using levels_from_spec by blast

lemma levels_le: "unat x < 128 ^ m \<Longrightarrow> levels_from x 0 \<le> m"
  using levels_from_spec [of x 0] by (meson le0 not_le)

lemma levels_mono: "x \<le> y \<Longrightarrow> levels_from x 0 \<le> levels_from y 0"
  by (meson le_less_trans levels_le levels_less word_le_nat_alt)

lemma levels_le_5: "levels_from x 0 \<le> 5"
proof (rule levels_le)
  have "unat x < 2 ^ 32"
    using unsigned_less [of x, where ?'a = nat] by simp
  then show "unat x < 128 ^ 5"
    by simp
qed

lemma file_levels_le_5: "file_levels nb \<le> 5"
  by (simp add: file_levels_def levels_le_5)

lemma file_levels_size: "unat nb \<le> 128 ^ file_levels nb"
proof (cases "nb = 0")
  case False
  then have "unat nb - 1 < 128 ^ file_levels nb"
    using levels_less [of "nb - 1"] by (simp add: file_levels_def unat_minus_one word_gt_0)
  then show ?thesis
    by simp
qed (simp add: file_levels_def)

lemma file_levels_plus_one:
  "offset + 1 \<noteq> 0 \<Longrightarrow> file_levels (offset + 1) = levels_from offset 0"
  by (simp add: file_levels_def word_gt_0)

section \<open>Trees of blocks\<close>

text \<open>A reference is a hole (0), a data block, or an indirect block with its 128 references.\<close>

datatype btree = Hole | Data u32 | Indir u32 "btree list"

fun root_of :: "btree \<Rightarrow> u32" where
  "root_of Hole = 0"
| "root_of (Data b) = b"
| "root_of (Indir b ts) = b"

fun addrs :: "btree \<Rightarrow> u32 list" where
  "addrs Hole = []"
| "addrs (Data b) = [b]"
| "addrs (Indir b ts) = b # concat (map addrs ts)"

fun inner :: "btree \<Rightarrow> u32 set" where
  "inner (Indir b ts) = insert b (\<Union>t \<in> set ts. inner t)"
| "inner t = {}"

text \<open>The tree of \<open>n\<close> levels that block contents \<open>d\<close> hold below a reference.\<close>

fun tree_at :: "(u32 \<Rightarrow> block) \<Rightarrow> nat \<Rightarrow> btree \<Rightarrow> bool" where
  "tree_at d n Hole \<longleftrightarrow> True"
| "tree_at d n (Data b) \<longleftrightarrow> n = 0 \<and> b \<noteq> 0"
| "tree_at d n (Indir b ts) \<longleftrightarrow>
     n > 0 \<and> b \<noteq> 0 \<and> length ts = 128 \<and> d b = map root_of ts \<and> (\<forall>t \<in> set ts. tree_at d (n - 1) t)"

text \<open>The data block of an offset, 0 in a hole.\<close>

fun leaf_addr :: "btree \<Rightarrow> nat \<Rightarrow> nat \<Rightarrow> u32" where
  "leaf_addr Hole n off = 0"
| "leaf_addr (Data b) n off = b"
| "leaf_addr (Indir b ts) 0 off = 0"
| "leaf_addr (Indir b ts) (Suc m) off = leaf_addr (ts ! slot off m) m off"

lemma tree_at_root: "tree_at d n t \<Longrightarrow> root_of t = 0 \<longleftrightarrow> t = Hole"
  by (cases t) auto

lemma inner_subset_addrs: "inner t \<subseteq> set (addrs t)"
  by (induction t rule: inner.induct) auto

lemma root_in_addrs: "t \<noteq> Hole \<Longrightarrow> root_of t \<in> set (addrs t)"
  by (cases t) auto

lemma tree_at_cong:
  "tree_at d n t \<Longrightarrow> (\<And>x. x \<in> inner t \<Longrightarrow> d' x = d x) \<Longrightarrow> tree_at d' n t"
  by (induction d n t rule: tree_at.induct) auto

lemma addrs_nonzero: "tree_at d n t \<Longrightarrow> 0 \<notin> set (addrs t)"
  by (induction d n t rule: tree_at.induct) auto

lemma leaf_addr_in_addrs:
  "tree_at d n t \<Longrightarrow> leaf_addr t n off \<noteq> 0 \<Longrightarrow> leaf_addr t n off \<in> set (addrs t)"
proof (induction t n off rule: leaf_addr.induct)
  case (4 b ts m off)
  then have "ts ! slot off m \<in> set ts"
    by (intro nth_mem) simp
  with 4 show ?case
    by (auto intro!: bexI [of _ "ts ! slot off m"])
qed auto

lemma addrs_nth_subset: "i < length ts \<Longrightarrow> set (addrs (ts ! i)) \<subseteq> (\<Union>t \<in> set ts. set (addrs t))"
  using nth_mem by blast

lemma leaf_not_inner:
  "tree_at d n t \<Longrightarrow> distinct (addrs t) \<Longrightarrow> leaf_addr t n off \<noteq> 0 \<Longrightarrow> leaf_addr t n off \<notin> inner t"
proof (induction t n off rule: leaf_addr.induct)
  case (4 b ts m off)
  let ?c = "ts ! slot off m"
  let ?a = "leaf_addr ?c m off"
  have i: "slot off m < length ts"
    using "4.prems" by simp
  have c: "?c \<in> set ts" "tree_at d m ?c"
    using i "4.prems" by auto
  have dc: "distinct (addrs ?c)"
    using "4.prems" i distinct_concat_nth [of "map addrs ts" "slot off m"] by simp
  have a: "?a \<in> set (addrs ?c)"
    using leaf_addr_in_addrs [OF c(2)] "4.prems" by simp
  have "?a \<notin> inner ?c"
    using "4.IH" c dc "4.prems" by simp
  moreover have "?a \<notin> inner (ts ! j)" if j: "j < length ts" "j \<noteq> slot off m" for j
  proof
    assume "?a \<in> inner (ts ! j)"
    then have "?a \<in> set (addrs (ts ! j))"
      using inner_subset_addrs by blast
    moreover have "set (addrs ?c) \<inter> set (addrs (ts ! j)) = {}"
      using "4.prems"(2) i j distinct_concat_disjoint [of "map addrs ts" "slot off m" j] by simp
    ultimately show False
      using a by blast
  qed
  moreover have "?a \<noteq> b"
    using a c "4.prems"(2) by auto
  ultimately show ?case
    by (auto simp: in_set_conv_nth) metis
qed auto

text \<open>Different offsets have different data blocks.\<close>

lemma leaf_addr_inj:
  "tree_at d n t \<Longrightarrow> distinct (addrs t) \<Longrightarrow> leaf_addr t n p = leaf_addr t n off \<Longrightarrow>
   leaf_addr t n off \<noteq> 0 \<Longrightarrow> p mod 128 ^ n = off mod 128 ^ n"
proof (induction n arbitrary: t)
  case (Suc m)
  then obtain b ts where t: "t = Indir b ts" "length ts = 128" "\<forall>u \<in> set ts. tree_at d m u"
    "distinct (concat (map addrs ts))"
    by (cases t) auto
  let ?f = "\<lambda>q. ts ! slot q m"
  have in_addrs: "leaf_addr (?f q) m q \<in> set (addrs (?f q))" if "leaf_addr (?f q) m q \<noteq> 0" for q
    using t that leaf_addr_in_addrs [of d m "?f q" q] by simp
  have eq: "leaf_addr (?f p) m p = leaf_addr (?f off) m off" "leaf_addr (?f off) m off \<noteq> 0"
    using Suc.prems t(1) by simp_all
  have s: "slot p m = slot off m"
  proof (rule ccontr)
    assume "slot p m \<noteq> slot off m"
    then have "set (addrs (?f p)) \<inter> set (addrs (?f off)) = {}"
      using distinct_concat_disjoint [OF t(4), of "slot p m" "slot off m"] t(2) by simp
    then show False
      using eq in_addrs [of p] in_addrs [of off] by auto
  qed
  have "distinct (addrs (?f off))"
    using distinct_concat_nth [OF t(4), of "slot off m"] t(2) by simp
  then have "p mod 128 ^ m = off mod 128 ^ m"
    using Suc.IH [of "?f off"] eq s t by simp
  then show ?case
    using s by (simp only: mod_Suc_slot)
qed simp

section \<open>What one write does to a tree\<close>

text \<open>
  \<open>grafts n off t t' new b\<close>: on the path of \<open>off\<close>, the holes of \<open>t\<close> are filled with the blocks
  \<open>new\<close> (in the order they are allocated, from the root down), giving \<open>t'\<close>, whose data block for
  \<open>off\<close> is \<open>b\<close>.
\<close>

inductive grafts :: "nat \<Rightarrow> nat \<Rightarrow> btree \<Rightarrow> btree \<Rightarrow> u32 list \<Rightarrow> u32 \<Rightarrow> bool" where
  new_data: "b \<noteq> 0 \<Longrightarrow> grafts 0 off Hole (Data b) [b] b"
| old_data: "grafts 0 off (Data b) (Data b) [] b"
| new_indir: "a \<noteq> 0 \<Longrightarrow> grafts m off Hole t' new b \<Longrightarrow>
    grafts (Suc m) off Hole (Indir a ((replicate 128 Hole)[slot off m := t'])) (a # new) b"
| old_indir: "length ts = 128 \<Longrightarrow> grafts m off (ts ! slot off m) t' new b \<Longrightarrow>
    grafts (Suc m) off (Indir a ts) (Indir a (ts[slot off m := t'])) new b"

lemma grafts_mset: "grafts n off t t' new b \<Longrightarrow> mset (addrs t') = mset (addrs t) + mset new"
proof (induction rule: grafts.induct)
  case (new_indir a m off t' new b)
  have "mset (concat (map addrs ((replicate 128 Hole)[slot off m := t']))) = mset new"
    using mset_concat_update [of "slot off m" "replicate 128 Hole" addrs t'] new_indir
    by (simp add: concat_replicate_Nil)
  then show ?case
    by simp
next
  case (old_indir ts m off t' new b a)
  then show ?case
    using mset_concat_update [of "slot off m" ts addrs t'] by simp
qed auto

lemma grafts_nonzero:
  "grafts n off t t' new b \<Longrightarrow> tree_at d n t \<Longrightarrow> b \<noteq> 0 \<and> 0 \<notin> set new \<and> root_of t' \<noteq> 0"
proof (induction rule: grafts.induct)
  case (old_indir ts m off t' new b a)
  then have "ts ! slot off m \<in> set ts"
    by simp
  with old_indir show ?case
    by auto
qed auto

lemma grafts_leaf: "grafts n off t t' new b \<Longrightarrow> leaf_addr t' n off = b"
  by (induction rule: grafts.induct) auto

lemma leaf_addr_Indir_Hole [simp]: "leaf_addr (Indir a (replicate 128 Hole)) n off = 0"
  by (cases n) auto

lemma grafts_leaf_other:
  "grafts n off t t' new b \<Longrightarrow> p mod 128 ^ n \<noteq> off mod 128 ^ n \<Longrightarrow> leaf_addr t' n p = leaf_addr t n p"
proof (induction rule: grafts.induct)
  case (new_indir a m off t' new b)
  then show ?case
    using mod_Suc_neqD [OF new_indir.prems] by (cases "slot p m = slot off m") auto
next
  case (old_indir ts m off t' new b a)
  then show ?case
    using mod_Suc_neqD [OF old_indir.prems] by (cases "slot p m = slot off m") auto
qed auto

lemma grafts_new_leaf:
  "grafts n off t t' new b \<Longrightarrow> tree_at d n t \<Longrightarrow>
     (if leaf_addr t n off = 0 then b \<in> set new else b = leaf_addr t n off \<and> new = [])"
proof (induction rule: grafts.induct)
  case (old_indir ts m off t' new b a)
  then have "ts ! slot off m \<in> set ts"
    by simp
  with old_indir show ?case
    by simp
qed auto

lemma grafts_length: "grafts n off t t' new b \<Longrightarrow> length new \<le> Suc n"
  by (induction rule: grafts.induct) auto

text \<open>The number of blocks a write at \<open>off\<close> has to allocate below a reference.\<close>

fun holes_on :: "btree \<Rightarrow> nat \<Rightarrow> nat \<Rightarrow> nat" where
  "holes_on Hole n off = Suc n"
| "holes_on (Data b) n off = 0"
| "holes_on (Indir b ts) 0 off = 0"
| "holes_on (Indir b ts) (Suc m) off = holes_on (ts ! slot off m) m off"

lemma holes_on_le: "holes_on t n off \<le> Suc n"
  by (induction t n off rule: holes_on.induct) auto

text \<open>Growing a tree by one level puts it at reference 0 of a new indirect block.\<close>

definition raise_tree :: "u32 \<Rightarrow> btree \<Rightarrow> btree" where
  "raise_tree a t = Indir a ((replicate 128 Hole)[0 := t])"

lemma raise_tree_mset: "mset (addrs (raise_tree a t)) = add_mset a (mset (addrs t))"
  using mset_concat_update [of 0 "replicate 128 Hole" addrs t]
  by (simp add: raise_tree_def concat_replicate_Nil del: list_update_code)

lemma raise_tree_root [simp]: "root_of (raise_tree a t) = a"
  by (simp add: raise_tree_def)

lemma raise_tree_leaf:
  "p < 128 ^ n \<Longrightarrow> leaf_addr (raise_tree a t) (Suc n) p = leaf_addr t n p"
  by (simp add: raise_tree_def slot_top)

lemma raise_tree_leaf_hole:
  "128 ^ n \<le> p \<Longrightarrow> p < 128 ^ Suc n \<Longrightarrow> leaf_addr (raise_tree a t) (Suc n) p = 0"
  using slot_top_nonzero [of n p] by (simp add: raise_tree_def del: power_Suc)

lemma map_root_replicate_update:
  "i < 128 \<Longrightarrow> map root_of ((replicate 128 Hole)[i := t]) = null_block[i := root_of t]"
  by (simp add: map_update null_block_def)

lemma set_update_cases: "x \<in> set (xs[i := y]) \<Longrightarrow> x = y \<or> x \<in> set xs"
  by (metis insert_iff set_update_subset_insert subsetD)

lemma tree_at_hole_node:
  "a \<noteq> 0 \<Longrightarrow> i < 128 \<Longrightarrow> tree_at d n t \<Longrightarrow> d a = null_block[i := root_of t] \<Longrightarrow>
   tree_at d (Suc n) (Indir a ((replicate 128 Hole)[i := t]))"
  using map_root_replicate_update [of i t] by (auto dest!: set_update_cases)

lemma tree_at_update:
  assumes "tree_at d (Suc m) (Indir a ts)" "i < 128" "tree_at d' m t'"
    and "d' a = (d a)[i := root_of t']"
    and frame: "\<And>j x. j < 128 \<Longrightarrow> j \<noteq> i \<Longrightarrow> x \<in> inner (ts ! j) \<Longrightarrow> d' x = d x"
  shows "tree_at d' (Suc m) (Indir a (ts[i := t']))"
proof -
  have "tree_at d' m (ts[i := t'] ! j)" if "j < 128" for j
  proof (cases "j = i")
    case False
    then have "tree_at d' m (ts ! j)"
      using assms(1) that frame [of j] by (intro tree_at_cong [of d m "ts ! j" d']) auto
    with False show ?thesis
      by simp
  qed (use assms in auto)
  then have "\<forall>t \<in> set (ts[i := t']). tree_at d' m t"
    using assms(1) by (auto simp: in_set_conv_nth)
  with assms show ?thesis
    by (auto simp: map_update)
qed

end
