(* ===== verification/Treedisk_Walk.thy ===== *)
theory Treedisk_Walk
  imports Treedisk_Tree
begin

text \<open>
  The loops of the file system on a store that keeps the block laws: allocation from the free
  list, growing a tree, walking down for a write and for a read. Each loop's effect is stated
  over the trees of \<open>Treedisk_Tree\<close> and the list of free blocks.
\<close>

section \<open>The free list\<close>

text \<open>
  \<open>freelist d b F\<close>: the chain of free-list blocks that starts at \<open>b\<close> holds exactly the free
  blocks \<open>F\<close>: each chain block itself and the non-null references after its first one, which
  links to the next chain block.
\<close>

inductive freelist :: "(u32 \<Rightarrow> block) \<Rightarrow> u32 \<Rightarrow> u32 list \<Rightarrow> bool" for d where
  free_nil: "freelist d 0 []"
| free_cons: "b \<noteq> 0 \<Longrightarrow> freelist d (d b ! 0) bs \<Longrightarrow>
    freelist d b (b # filter (\<lambda>r. r \<noteq> 0) (tl (d b)) @ bs)"

inductive_cases freelistE: "freelist d b F"

lemma freelist_Nil_iff: "freelist d b F \<Longrightarrow> F = [] \<longleftrightarrow> b = 0"
  by (auto elim: freelistE)

lemma freelist_cong:
  "freelist d b F \<Longrightarrow> (\<And>x. x \<in> set F \<Longrightarrow> d' x = d x) \<Longrightarrow> freelist d' b F"
proof (induction rule: freelist.induct)
  case (free_cons b bs)
  then have b: "d' b = d b"
    by simp
  have "freelist d' (d' b ! 0) bs"
    using free_cons b by simp
  from freelist.free_cons [OF free_cons.hyps(1) this] show ?case
    by (simp add: b)
qed (simp add: free_nil)

lemma last_ref_spec:
  "(last_ref fl n = 0 \<longrightarrow> (\<forall>i. 0 < i \<and> i < n \<longrightarrow> fl ! i = 0)) \<and>
   (last_ref fl n \<noteq> 0 \<longrightarrow> last_ref fl n < n \<and> fl ! last_ref fl n \<noteq> 0 \<and>
      (\<forall>i. last_ref fl n < i \<and> i < n \<longrightarrow> fl ! i = 0))"
proof (induction n)
  case (Suc n)
  show ?case
  proof (cases "n > 0 \<and> fl ! n = 0")
    case True
    then have "last_ref fl (Suc n) = last_ref fl n"
      by simp
    with Suc.IH True show ?thesis
      by (auto simp: less_Suc_eq)
  next
    case False
    then have "last_ref fl (Suc n) = n"
      by auto
    with False show ?thesis
      by auto
  qed
qed simp

lemma last_ref_zero_filter:
  assumes "last_ref fl (length fl) = 0"
  shows "filter (\<lambda>r. r \<noteq> 0) (tl fl) = []"
proof -
  have "r = 0" if r: "r \<in> set (tl fl)" for r
  proof -
    obtain i where i: "i < length (tl fl)" "r = tl fl ! i"
      using r unfolding in_set_conv_nth by metis
    then have "r = fl ! Suc i" "Suc i < length fl"
      by (simp_all add: nth_tl)
    with last_ref_spec [of fl "length fl"] assms show ?thesis
      by simp
  qed
  then show ?thesis
    by (auto simp: filter_empty_conv)
qed

lemma last_ref_filter:
  assumes "last_ref fl (length fl) = i" "i \<noteq> 0"
  shows "filter (\<lambda>r. r \<noteq> 0) (tl fl) = filter (\<lambda>r. r \<noteq> 0) (tl (fl[i := 0])) @ [fl ! i]"
proof -
  have i: "i < length fl" "fl ! i \<noteq> 0" and z: "\<forall>j. i < j \<and> j < length fl \<longrightarrow> fl ! j = 0"
    using last_ref_spec [of fl "length fl"] assms by auto
  have drop0: "filter (\<lambda>r. r \<noteq> 0) (drop (Suc i) fl) = []"
    using z by (auto simp: filter_empty_conv in_set_conv_nth)
  obtain i' where i': "i = Suc i'"
    using assms by (cases i) auto
  then obtain x xs where fl: "fl = x # xs"
    using i by (cases fl) auto
  have "filter (\<lambda>r. r \<noteq> 0) xs = filter (\<lambda>r. r \<noteq> 0) (take i' xs) @ [xs ! i']"
    using i drop0 unfolding fl i'
    by (subst id_take_nth_drop [of i' xs]) auto
  moreover have "filter (\<lambda>r. r \<noteq> 0) (xs[i' := 0]) = filter (\<lambda>r. r \<noteq> 0) (take i' xs)"
    using i drop0 unfolding fl i' by (simp add: upd_conv_take_nth_drop)
  ultimately show ?thesis
    by (simp add: fl i')
qed

section \<open>A file system on a store\<close>

locale treedisk_on = block_store "below ts" "below_ino ts" content st_inv nblks
  for ts :: "'s treedisk_state" and content st_inv nblks
begin

lemma alloc_block:
  assumes inv: "st_inv s" and sync: "superblock snap = content s 0"
    and free: "freelist (content s) (free_list (content s 0)) F" and dist: "distinct F"
    and range: "\<And>x. x \<in> set F \<Longrightarrow> 0 < x \<and> x < nblks" and ne: "F \<noteq> []"
  obtains b s' F' where
    "treedisk_alloc_block ts snap s = Inr (b, snap\<lparr>superblock := content s' 0\<rparr>, s')" "st_inv s'"
    "freelist (content s') (free_list (content s' 0)) F'" "mset F = add_mset b (mset F')"
    "n_inodeblocks (content s' 0) = n_inodeblocks (content s 0)"
    "\<And>x. x < nblks \<Longrightarrow> x \<noteq> 0 \<Longrightarrow> x \<notin> set F' \<Longrightarrow> content s' x = content s x"
proof -
  define b where "b = free_list (content s 0)"
  define fl where "fl = content s b"
  have "b \<noteq> 0"
    using freelist_Nil_iff [OF free] ne by (simp add: b_def)
  with free obtain bs where F: "F = b # filter (\<lambda>r. r \<noteq> 0) (tl fl) @ bs"
    and bs: "freelist (content s) (fl ! 0) bs"
    unfolding b_def fl_def by (auto elim: freelistE)
  have b: "b < nblks" and nz: "0 < nblks"
    using range F by (auto, metis list.set_intros(1) range order.strict_trans)
  have read: "st_read (below ts) s (below_ino ts) b = Inr (Some fl)" and lfl: "length fl = 128"
    using store_read [OF inv b] store_length [OF inv b] by (simp_all add: fl_def)
  have lsb: "length (content s 0) = 128"
    using store_length [OF inv nz] by simp
  show thesis
  proof (cases "last_ref fl 128 = 0")
    case True
    obtain s' where w: "st_write (below ts) s (below_ino ts) 0 ((content s 0)[1 := fl ! 0]) = Inr (0, s')"
      "st_inv s'" "\<And>x. x < nblks \<Longrightarrow> content s' x = (if x = 0 then (content s 0)[1 := fl ! 0] else content s x)"
      using store_writeE [OF inv nz, of "(content s 0)[1 := fl ! 0]"] lsb by auto
    have F': "F = b # bs"
      using F last_ref_zero_filter [of fl] True lfl by simp
    have "freelist (content s') (fl ! 0) bs"
      using bs w range F' by (intro freelist_cong [OF bs]) (metis list.set_intros(2) less_irrefl)
    then have "freelist (content s') (free_list (content s' 0)) bs"
      using w(3) [OF nz] lsb by (simp add: free_list_def)
    moreover have "treedisk_alloc_block ts snap s = Inr (b, snap\<lparr>superblock := content s' 0\<rparr>, s')"
      using w(1) w(3) [OF nz] read True \<open>b \<noteq> 0\<close> sync
      by (simp add: treedisk_alloc_block_def b_def [symmetric] Let_def)
    ultimately show thesis
      using w nz F' lsb by (intro that [of b s' bs]) (auto simp: n_inodeblocks_def)
  next
    case False
    define i where "i = last_ref fl 128"
    have i: "0 < i" "i < 128" "fl ! i \<noteq> 0"
      using False last_ref_spec [of fl 128] by (auto simp: i_def)
    obtain s' where w: "st_write (below ts) s (below_ino ts) b (fl[i := 0]) = Inr (0, s')"
      "st_inv s'" "\<And>x. x < nblks \<Longrightarrow> content s' x = (if x = b then fl[i := 0] else content s x)"
      using store_writeE [OF inv b, of "fl[i := 0]"] lfl by auto
    define F' where "F' = b # filter (\<lambda>r. r \<noteq> 0) (tl (fl[i := 0])) @ bs"
    have sb: "content s' 0 = content s 0"
      using w(3) [OF nz] \<open>b \<noteq> 0\<close> by simp
    have m: "mset F = add_mset (fl ! i) (mset F')"
      using last_ref_filter [of fl i] i lfl by (simp add: F F'_def i_def)
    have "freelist (content s') (fl ! 0) bs"
      using w dist range F by (intro freelist_cong [OF bs]) auto
    moreover have "content s' b = fl[i := 0]"
      using w(3) [OF b] by simp
    ultimately have "freelist (content s') b F'"
      using freelist.free_cons [of b "content s'" bs] \<open>b \<noteq> 0\<close> i by (simp add: F'_def)
    moreover have "treedisk_alloc_block ts snap s = Inr (fl ! i, snap\<lparr>superblock := content s' 0\<rparr>, s')"
      using w(1) read False \<open>b \<noteq> 0\<close> sync sb
      by (simp add: treedisk_alloc_block_def b_def [symmetric] Let_def i_def)
    moreover have "b \<in> set F'"
      by (simp add: F'_def)
    ultimately show thesis
      using w nz sb m by (intro that [of "fl ! i" s' F']) (auto simp: b_def)
  qed
qed

lemma alloc_full:
  assumes "superblock snap = content s 0" "freelist (content s) (free_list (content s 0)) []"
  shows "treedisk_alloc_block ts snap s = Inl (Fatal ''treedisk_alloc_block: inode store is full\<newline>'')"
  using assms freelist_Nil_iff [of "content s" "free_list (content s 0)" "[]"]
  by (simp add: treedisk_alloc_block_def)

text \<open>
  The state between the calls of a write: \<open>F\<close> is what is free, and the snapshot's superblock is
  the one on disk.
\<close>

definition write_state :: "treedisk_snapshot \<Rightarrow> 's \<Rightarrow> u32 list \<Rightarrow> bool" where
  "write_state snap s F \<longleftrightarrow>
     st_inv s \<and> superblock snap = content s 0 \<and>
     freelist (content s) (free_list (content s 0)) F \<and> distinct F \<and>
     (\<forall>x \<in> set F. 0 < x \<and> x < nblks)"

lemma write_stateD:
  assumes "write_state snap s F"
  shows "st_inv s" "superblock snap = content s 0" "freelist (content s) (free_list (content s 0)) F"
    "distinct F" "\<And>x. x \<in> set F \<Longrightarrow> 0 < x \<and> x < nblks"
  using assms by (auto simp: write_state_def)

lemma alloc_write_state:
  assumes ws: "write_state snap s F" and "F \<noteq> []"
  obtains b s' F' where
    "treedisk_alloc_block ts snap s = Inr (b, snap\<lparr>superblock := content s' 0\<rparr>, s')"
    "write_state (snap\<lparr>superblock := content s' 0\<rparr>) s' F'"
    "mset F = add_mset b (mset F')" "0 < b" "b < nblks" "b \<notin> set F'"
    "n_inodeblocks (content s' 0) = n_inodeblocks (content s 0)"
    "\<And>x. x < nblks \<Longrightarrow> x \<noteq> 0 \<Longrightarrow> x \<notin> set F' \<Longrightarrow> content s' x = content s x"
proof -
  note w = write_stateD [OF ws]
  obtain b s' F' where a:
    "treedisk_alloc_block ts snap s = Inr (b, snap\<lparr>superblock := content s' 0\<rparr>, s')" "st_inv s'"
    "freelist (content s') (free_list (content s' 0)) F'" "mset F = add_mset b (mset F')"
    "n_inodeblocks (content s' 0) = n_inodeblocks (content s 0)"
    "\<And>x. x < nblks \<Longrightarrow> x \<noteq> 0 \<Longrightarrow> x \<notin> set F' \<Longrightarrow> content s' x = content s x"
    using alloc_block [OF w assms(2)] by blast
  have "set F = insert b (set F')"
    using a(4) by (metis set_mset_add_mset_insert set_mset_mset)
  moreover have "distinct (b # F')"
    using a(4) w(4) by (metis mset.simps(2) mset_eq_imp_distinct_iff)
  ultimately show thesis
    using a w by (intro that [of b s' F']) (auto simp: write_state_def)
qed

text \<open>Writing a block that is neither free nor the superblock.\<close>

lemma write_other:
  assumes ws: "write_state snap s F" and b: "b < nblks" "b \<noteq> 0" "b \<notin> set F" "length blk = 128"
  obtains s' where "st_write (below ts) s (below_ino ts) b blk = Inr (0, s')"
    "write_state snap s' F" "content s' 0 = content s 0" "content s' b = blk"
    "\<And>x. x < nblks \<Longrightarrow> x \<noteq> b \<Longrightarrow> content s' x = content s x"
proof -
  note w = write_stateD [OF ws]
  obtain s' where s': "st_write (below ts) s (below_ino ts) b blk = Inr (0, s')" "st_inv s'"
    "\<And>x. x < nblks \<Longrightarrow> content s' x = (if x = b then blk else content s x)"
    using store_writeE [OF w(1) b(1) b(4)] by blast
  have "0 < nblks"
    using b by (metis word_gt_0 order.strict_trans)
  then have sb: "content s' 0 = content s 0"
    using s'(3) b by auto
  have "freelist (content s') (free_list (content s 0)) F"
    using s'(3) b w(5) by (intro freelist_cong [OF w(3)]) metis
  then show thesis
    using s' sb w b by (intro that [of s']) (auto simp: write_state_def)
qed

lemma write_state_snap:
  "write_state snap s F \<Longrightarrow> superblock snap' = superblock snap \<Longrightarrow> write_state snap' s F"
  by (simp add: write_state_def)

text \<open>The result of growing a tree, and of running out of blocks while doing it.\<close>

definition grown :: "treedisk_snapshot \<Rightarrow> 's \<Rightarrow> u32 list \<Rightarrow> nat \<Rightarrow> btree \<Rightarrow> nat
    \<Rightarrow> 's \<Rightarrow> u32 list \<Rightarrow> btree \<Rightarrow> u32 list \<Rightarrow> bool" where
  "grown snap s F n t g s' F' t' new \<longleftrightarrow>
     write_state (snap\<lparr>superblock := content s' 0\<rparr>) s' F' \<and>
     mset F = mset new + mset F' \<and> length new = g \<and> mset (addrs t') = mset (addrs t) + mset new \<and>
     tree_at (content s') (n + g) t' \<and>
     n_inodeblocks (content s' 0) = n_inodeblocks (content s 0) \<and>
     (\<forall>x<nblks. x \<noteq> 0 \<longrightarrow> x \<notin> set F \<longrightarrow> content s' x = content s x) \<and>
     (\<forall>p<128 ^ n. leaf_addr t' (n + g) p = leaf_addr t n p) \<and>
     (\<forall>p. 128 ^ n \<le> p \<and> p < 128 ^ (n + g) \<longrightarrow> leaf_addr t' (n + g) p = 0)"

lemma grow_tree_spec:
  assumes "write_state snap s F" "g \<le> length F" "tree_at (content s) n t"
    "root_of t = snap_root snap" "set (addrs t) \<inter> set F = {}" "\<forall>x \<in> set (addrs t). x < nblks"
    "root_slot (inode_index snap) < length (inodeblock snap)"
  shows "\<exists>s' F' t' new. grow_tree ts snap s g = Inr (snap\<lparr>superblock := content s' 0,
       inodeblock := (inodeblock snap)[root_slot (inode_index snap) := root_of t']\<rparr>, s') \<and>
     grown snap s F n t g s' F' t' new"
  using assms
proof (induction g arbitrary: snap s F n t)
  case 0
  have "grow_tree ts snap s 0 = Inr (snap\<lparr>superblock := content s 0,
      inodeblock := (inodeblock snap)[root_slot (inode_index snap) := root_of t]\<rparr>, s)"
    using 0 by (simp add: write_state_def snap_root_def)
  moreover have "grown snap s F n t 0 s F t []"
    using 0 by (auto simp: grown_def write_state_def)
  ultimately show ?case
    by blast
next
  case (Suc g)
  let ?r = "root_slot (inode_index snap)"
  have "F \<noteq> []"
    using Suc.prems(2) by auto
  then obtain b s1 F1 where a:
    "treedisk_alloc_block ts snap s = Inr (b, snap\<lparr>superblock := content s1 0\<rparr>, s1)"
    "write_state (snap\<lparr>superblock := content s1 0\<rparr>) s1 F1" "mset F = add_mset b (mset F1)"
    "0 < b" "b < nblks" "b \<notin> set F1" "n_inodeblocks (content s1 0) = n_inodeblocks (content s 0)"
    "\<And>x. x < nblks \<Longrightarrow> x \<noteq> 0 \<Longrightarrow> x \<notin> set F1 \<Longrightarrow> content s1 x = content s x"
    using alloc_write_state [OF Suc.prems(1)] by blast
  have F: "set F = insert b (set F1)" "length F = Suc (length F1)"
    using a(3) by (metis set_mset_add_mset_insert set_mset_mset, metis size_add_mset size_mset)
  let ?tib = "null_block[0 := snap_root snap]"
  obtain s2 where w: "st_write (below ts) s1 (below_ino ts) b ?tib = Inr (0, s2)"
    "write_state (snap\<lparr>superblock := content s1 0\<rparr>) s2 F1" "content s2 0 = content s1 0"
    "content s2 b = ?tib" "\<And>x. x < nblks \<Longrightarrow> x \<noteq> b \<Longrightarrow> content s2 x = content s1 x"
    using write_other [OF a(2) a(5) _ a(6), of ?tib] a(4) by auto
  have frame: "content s2 x = content s x" if "x < nblks" "x \<noteq> 0" "x \<notin> set F" for x
    using that w(5) a(8) F by auto
  have nz: "x \<noteq> 0" if "x \<in> set (addrs t)" for x
    using addrs_nonzero [OF Suc.prems(3)] that by metis
  have t2: "tree_at (content s2) n t"
    using Suc.prems(5,6) inner_subset_addrs [of t] nz
    by (intro tree_at_cong [OF Suc.prems(3)] frame) auto
  let ?t1 = "raise_tree b t"
  let ?snap2 = "snap\<lparr>superblock := content s1 0, inodeblock := (inodeblock snap)[?r := b]\<rparr>"
  have t1: "tree_at (content s2) (Suc n) ?t1"
    unfolding raise_tree_def
    using a(4) t2 w(4) Suc.prems(4) by (intro tree_at_hole_node) auto
  have "write_state ?snap2 s2 F1"
    using w(2) by (rule write_state_snap) simp
  moreover have "set (addrs ?t1) = insert b (set (addrs t))"
    using raise_tree_mset [of b t] by (metis set_mset_add_mset_insert set_mset_mset)
  then have "set (addrs ?t1) \<inter> set F1 = {}" "\<forall>x \<in> set (addrs ?t1). x < nblks"
    using Suc.prems(5,6) F(1) a(5,6) by auto
  moreover have "root_of ?t1 = snap_root ?snap2"
    using Suc.prems(7) by (simp add: snap_root_def)
  ultimately obtain s' F' t' new where ih:
    "grow_tree ts ?snap2 s2 g = Inr (?snap2\<lparr>superblock := content s' 0,
       inodeblock := (inodeblock ?snap2)[?r := root_of t']\<rparr>, s')"
    "grown ?snap2 s2 F1 (Suc n) ?t1 g s' F' t' new"
    using Suc.IH [of ?snap2 s2 F1 "Suc n" ?t1] Suc.prems(2,7) F(2) t1 by auto
  have "grow_tree ts snap s (Suc g) = Inr (snap\<lparr>superblock := content s' 0,
       inodeblock := (inodeblock snap)[?r := root_of t']\<rparr>, s')"
    using a(1) w(1) ih(1) by (simp add: snap_root_def Let_def)
  moreover have "grown snap s F n t (Suc g) s' F' t' (b # new)"
  proof -
    note G = ih(2) [unfolded grown_def]
    have "write_state (snap\<lparr>superblock := content s' 0\<rparr>) s' F'"
      using G by (auto intro: write_state_snap)
    moreover have "mset (addrs t') = mset (addrs t) + mset (b # new)"
      using G raise_tree_mset [of b t] by simp
    moreover have "\<forall>x<nblks. x \<noteq> 0 \<longrightarrow> x \<notin> set F \<longrightarrow> content s' x = content s x"
      using G frame F by auto
    moreover have "\<forall>p<128 ^ n. leaf_addr t' (n + Suc g) p = leaf_addr t n p"
      using G raise_tree_leaf [of _ n b t] by auto
    moreover have "leaf_addr t' (n + Suc g) p = 0" if "128 ^ n \<le> p" "p < 128 ^ (n + Suc g)" for p
      using G raise_tree_leaf_hole [of n p b t] that by (cases "p < 128 ^ Suc n") auto
    ultimately show ?thesis
      using G a(3,7) w(3) by (auto simp: grown_def)
  qed
  ultimately show ?case
    by blast
qed

lemma grow_tree_full:
  assumes "write_state snap s F" "length F < g"
  shows "grow_tree ts snap s g = Inl (Fatal ''treedisk_alloc_block: inode store is full\<newline>'')"
  using assms
proof (induction g arbitrary: snap s F)
  case (Suc g)
  show ?case
  proof (cases "F = []")
    case True
    then show ?thesis
      using alloc_full [of snap s] write_stateD(2,3) [OF Suc.prems(1)] by simp
  next
    case False
    then obtain b s1 F1 where a:
      "treedisk_alloc_block ts snap s = Inr (b, snap\<lparr>superblock := content s1 0\<rparr>, s1)"
      "write_state (snap\<lparr>superblock := content s1 0\<rparr>) s1 F1" "mset F = add_mset b (mset F1)"
      "0 < b" "b < nblks" "b \<notin> set F1"
      using alloc_write_state [OF Suc.prems(1) False] by metis
    have F: "length F = Suc (length F1)"
      using a(3) by (metis size_add_mset size_mset)
    let ?tib = "null_block[0 := snap_root snap]"
    obtain s2 where w: "st_write (below ts) s1 (below_ino ts) b ?tib = Inr (0, s2)"
      "write_state (snap\<lparr>superblock := content s1 0\<rparr>) s2 F1"
      using write_other [OF a(2) a(5) _ a(6), of ?tib] a(4) by auto
    let ?snap2 = "snap\<lparr>superblock := content s1 0,
        inodeblock := (inodeblock snap)[root_slot (inode_index snap) := b]\<rparr>"
    have "write_state ?snap2 s2 F1"
      using w(2) by (rule write_state_snap) simp
    then have "grow_tree ts ?snap2 s2 g = Inl (Fatal ''treedisk_alloc_block: inode store is full\<newline>'')"
      using Suc.prems(2) F by (intro Suc.IH) auto
    then show ?thesis
      using a(1) w(1) by (simp add: snap_root_def Let_def)
  qed
qed simp

section \<open>The walk of a write\<close>

text \<open>
  \<open>walk_pre\<close>: the walk is about to follow the reference at word \<open>sl\<close> of block \<open>poff\<close>, whose
  content in memory is \<open>P\<close>, into the tree \<open>t\<close> of \<open>n\<close> levels. \<open>walked\<close>: what it has done when it
  returns the data block \<open>b\<close>.
\<close>

definition walk_pre :: "treedisk_snapshot \<Rightarrow> 's \<Rightarrow> u32 list \<Rightarrow> block \<Rightarrow> u32 \<Rightarrow> nat \<Rightarrow> nat \<Rightarrow> btree \<Rightarrow> bool" where
  "walk_pre snap s F P poff sl n t \<longleftrightarrow>
     write_state snap s F \<and> poff < nblks \<and> poff \<noteq> 0 \<and> poff \<notin> set F \<and> length P = 128 \<and> sl < 128 \<and>
     tree_at (content s) n t \<and> root_of t = P ! sl \<and> distinct (addrs t) \<and>
     set (addrs t) \<inter> set F = {} \<and> poff \<notin> set (addrs t) \<and> (\<forall>x \<in> set (addrs t). x < nblks)"

definition walked :: "treedisk_snapshot \<Rightarrow> 's \<Rightarrow> u32 list \<Rightarrow> nat \<Rightarrow> block \<Rightarrow> u32 \<Rightarrow> nat \<Rightarrow> nat \<Rightarrow> btree
    \<Rightarrow> u32 \<Rightarrow> 's \<Rightarrow> u32 list \<Rightarrow> btree \<Rightarrow> u32 list \<Rightarrow> bool" where
  "walked snap s F off P poff sl n t b s' F' t' new \<longleftrightarrow>
     write_state (snap\<lparr>superblock := content s' 0\<rparr>) s' F' \<and> mset F = mset new + mset F' \<and>
     grafts n off t t' new b \<and> tree_at (content s') n t' \<and>
     content s' poff = (if P ! sl = 0 then P[sl := root_of t'] else content s poff) \<and>
     (P ! sl \<noteq> 0 \<longrightarrow> root_of t' = P ! sl) \<and>
     n_inodeblocks (content s' 0) = n_inodeblocks (content s 0) \<and>
     (\<forall>x<nblks. x \<notin> insert 0 (insert poff (set F \<union> inner t)) \<longrightarrow> content s' x = content s x)"

lemma write_walk_hole:
  assumes "P ! sl = 0"
    "treedisk_alloc_block ts snap s = Inr (b, snap1, s1)"
    "st_write (below ts) s1 (below_ino ts) poff (P[sl := b]) = Inr (0, s2)"
  shows "write_walk ts snap s offset P poff sl n =
    (case n of 0 \<Rightarrow> Inr (b, s2)
     | Suc m \<Rightarrow> write_walk ts snap1 s2 offset null_block b (ref_index offset m) m)"
  using assms by (subst write_walk.simps) (simp split: nat.split)

lemma write_walk_block:
  assumes "P ! sl \<noteq> 0" "st_read (below ts) s (below_ino ts) (P ! sl) = Inr (Some tib)"
  shows "write_walk ts snap s offset P poff sl (Suc m) =
    write_walk ts snap s offset tib (P ! sl) (ref_index offset m) m"
  using assms by (subst write_walk.simps) simp

lemma write_walk_data:
  "P ! sl \<noteq> 0 \<Longrightarrow> write_walk ts snap s offset P poff sl 0 = Inr (P ! sl, s)"
  by (subst write_walk.simps) simp

lemma walk_alloc_step:
  assumes pre: "walk_pre snap s F P poff sl n Hole" and ne: "F \<noteq> []"
  obtains b s1 s2 F1 where
    "treedisk_alloc_block ts snap s = Inr (b, snap\<lparr>superblock := content s1 0\<rparr>, s1)"
    "st_write (below ts) s1 (below_ino ts) poff (P[sl := b]) = Inr (0, s2)"
    "walk_pre (snap\<lparr>superblock := content s1 0\<rparr>) s2 F1 null_block b (slot off m) m Hole"
    "mset F = add_mset b (mset F1)" "0 < b" "content s2 poff = P[sl := b]"
    "content s2 0 = content s1 0" "n_inodeblocks (content s2 0) = n_inodeblocks (content s 0)"
    "\<And>x. x < nblks \<Longrightarrow> x \<notin> insert 0 (insert poff (set F)) \<Longrightarrow> content s2 x = content s x"
    "poff \<noteq> b" "poff \<notin> set F1"
proof -
  have ws: "write_state snap s F" and P: "poff < nblks" "poff \<noteq> 0" "poff \<notin> set F" "length P = 128"
    using pre by (auto simp: walk_pre_def)
  obtain b s1 F1 where a:
    "treedisk_alloc_block ts snap s = Inr (b, snap\<lparr>superblock := content s1 0\<rparr>, s1)"
    "write_state (snap\<lparr>superblock := content s1 0\<rparr>) s1 F1" "mset F = add_mset b (mset F1)"
    "0 < b" "b < nblks" "b \<notin> set F1" "n_inodeblocks (content s1 0) = n_inodeblocks (content s 0)"
    "\<And>x. x < nblks \<Longrightarrow> x \<noteq> 0 \<Longrightarrow> x \<notin> set F1 \<Longrightarrow> content s1 x = content s x"
    using alloc_write_state [OF ws ne] by metis
  have F: "set F = insert b (set F1)"
    using a(3) by (metis set_mset_add_mset_insert set_mset_mset)
  obtain s2 where w: "st_write (below ts) s1 (below_ino ts) poff (P[sl := b]) = Inr (0, s2)"
    "write_state (snap\<lparr>superblock := content s1 0\<rparr>) s2 F1" "content s2 0 = content s1 0"
    "content s2 poff = P[sl := b]" "\<And>x. x < nblks \<Longrightarrow> x \<noteq> poff \<Longrightarrow> content s2 x = content s1 x"
    using write_other [OF a(2) P(1,2), of "P[sl := b]"] P(3,4) F by auto
  have "walk_pre (snap\<lparr>superblock := content s1 0\<rparr>) s2 F1 null_block b (slot off m) m Hole"
    using w(2) a(4,5,6) by (simp add: walk_pre_def word_gt_0)
  then show thesis
    using a w P F by (intro that [of b s1 s2 F1]) auto
qed

lemma walk_child:
  assumes pre: "walk_pre snap s F P poff sl (Suc m) (Indir b us)"
  shows "P ! sl = b" "b \<noteq> 0" "st_read (below ts) s (below_ino ts) b = Inr (Some (content s b))"
    "content s b = map root_of us" "length us = 128"
    "walk_pre snap s F (content s b) b (slot off m) m (us ! slot off m)"
    "j < 128 \<Longrightarrow> j \<noteq> i \<Longrightarrow> i < 128 \<Longrightarrow> x \<in> inner (us ! j) \<Longrightarrow>
       x < nblks \<and> x \<notin> insert 0 (insert b (set F \<union> inner (us ! i)))"
proof -
  note p = pre [unfolded walk_pre_def]
  show b: "P ! sl = b" "b \<noteq> 0" "content s b = map root_of us" "length us = 128"
    using p by auto
  have rd: "b < nblks" "st_inv s"
    using p by (auto simp: write_state_def)
  then show "st_read (below ts) s (below_ino ts) b = Inr (Some (content s b))"
    by (simp add: store_read)
  let ?c = "us ! slot off m"
  have c: "?c \<in> set us" "slot off m < length us"
    using b by simp_all
  have d: "distinct (concat (map addrs us))"
    using p by simp
  have "distinct (addrs ?c)"
    using distinct_concat_nth [OF d, of "slot off m"] c by simp
  moreover have "set (addrs ?c) \<subseteq> set (addrs (Indir b us))" "b \<notin> set (addrs ?c)"
    using c p by auto
  moreover from this have "set (addrs ?c) \<inter> set F = {}"
    using p by blast
  ultimately show "walk_pre snap s F (content s b) b (slot off m) m ?c"
    using p c b rd by (auto simp: walk_pre_def)
  assume j: "j < 128" "j \<noteq> i" "i < 128" and x: "x \<in> inner (us ! j)"
  have uj: "us ! j \<in> set us"
    using j b by simp
  have xa: "x \<in> set (addrs (us ! j))"
    using x inner_subset_addrs by blast
  moreover have "set (addrs (us ! j)) \<inter> set (addrs (us ! i)) = {}"
    using distinct_concat_disjoint [OF d, of j i] j b by simp
  moreover have "x \<noteq> 0"
    using xa uj p addrs_nonzero [of "content s" m "us ! j"] by auto
  ultimately show "x < nblks \<and> x \<notin> insert 0 (insert b (set F \<union> inner (us ! i)))"
    using uj p inner_subset_addrs [of "us ! i"] by auto
qed

lemma write_walk_spec:
  assumes "walk_pre snap s F P poff sl n t" "holes_on t n (unat offset) \<le> length F"
  shows "\<exists>b s' F' t' new. write_walk ts snap s offset P poff sl n = Inr (b, s') \<and>
           walked snap s F (unat offset) P poff sl n t b s' F' t' new"
  using assms
proof (induction n arbitrary: snap s F P poff sl t)
  case 0
  note p = "0.prems"(1) [unfolded walk_pre_def]
  show ?case
  proof (cases t)
    case Hole
    then have z: "P ! sl = 0" "F \<noteq> []"
      using p "0.prems"(2) by auto
    obtain b s1 s2 F1 where a:
      "treedisk_alloc_block ts snap s = Inr (b, snap\<lparr>superblock := content s1 0\<rparr>, s1)"
      "st_write (below ts) s1 (below_ino ts) poff (P[sl := b]) = Inr (0, s2)"
      "walk_pre (snap\<lparr>superblock := content s1 0\<rparr>) s2 F1 null_block b (slot 0 0) 0 Hole"
      "mset F = add_mset b (mset F1)" "0 < b" "content s2 poff = P[sl := b]"
      "content s2 0 = content s1 0" "n_inodeblocks (content s2 0) = n_inodeblocks (content s 0)"
      "\<And>x. x < nblks \<Longrightarrow> x \<notin> insert 0 (insert poff (set F)) \<Longrightarrow> content s2 x = content s x"
      using walk_alloc_step [OF "0.prems"(1) [unfolded Hole] z(2), of 0 0] by metis
    have "walked snap s F (unat offset) P poff sl 0 t b s2 F1 (Data b) [b]"
      using a z Hole by (auto simp: walked_def walk_pre_def word_gt_0 intro: write_state_snap grafts.new_data)
    then show ?thesis
      using write_walk_hole [OF z(1) a(1,2), of offset 0] by auto
  next
    case (Data b)
    then have b: "P ! sl = b" "b \<noteq> 0"
      using p by auto
    have "walked snap s F (unat offset) P poff sl 0 t b s F (Data b) []"
      using p b Data by (auto simp: walked_def write_state_def intro: grafts.old_data)
    then show ?thesis
      using write_walk_data [of P sl snap s offset poff] b by auto
  qed (use p in simp)
next
  case (Suc m)
  note p = Suc.prems(1) [unfolded walk_pre_def]
  let ?o = "unat offset"
  show ?case
  proof (cases t)
    case Hole
    then have z: "P ! sl = 0" "F \<noteq> []"
      using p Suc.prems(2) by auto
    obtain b s1 s2 F1 where a:
      "treedisk_alloc_block ts snap s = Inr (b, snap\<lparr>superblock := content s1 0\<rparr>, s1)"
      "st_write (below ts) s1 (below_ino ts) poff (P[sl := b]) = Inr (0, s2)"
      "walk_pre (snap\<lparr>superblock := content s1 0\<rparr>) s2 F1 null_block b (slot ?o m) m Hole"
      "mset F = add_mset b (mset F1)" "0 < b" "content s2 poff = P[sl := b]"
      "content s2 0 = content s1 0" "n_inodeblocks (content s2 0) = n_inodeblocks (content s 0)"
      "\<And>x. x < nblks \<Longrightarrow> x \<notin> insert 0 (insert poff (set F)) \<Longrightarrow> content s2 x = content s x"
      "poff \<noteq> b" "poff \<notin> set F1"
      using walk_alloc_step [OF Suc.prems(1) [unfolded Hole] z(2), of ?o m] by metis
    have F: "set F = insert b (set F1)" "length F = Suc (length F1)"
      using a(4) by (metis set_mset_add_mset_insert set_mset_mset, metis size_add_mset size_mset)
    obtain c s' F' t' new where ih:
      "write_walk ts (snap\<lparr>superblock := content s1 0\<rparr>) s2 offset null_block b (slot ?o m) m = Inr (c, s')"
      "walked (snap\<lparr>superblock := content s1 0\<rparr>) s2 F1 ?o null_block b (slot ?o m) m Hole c s' F' t' new"
      using Suc.IH [OF a(3)] Suc.prems(2) F(2) Hole by auto
    let ?t' = "Indir b ((replicate 128 Hole)[slot ?o m := t'])"
    note w = ih(2) [unfolded walked_def]
    have "tree_at (content s') (Suc m) ?t'"
      using w a(5) by (intro tree_at_hole_node) (auto simp: word_gt_0)
    moreover have "content s' poff = P[sl := b]"
      using w a(6,10,11) p by auto
    moreover have "grafts (Suc m) ?o Hole ?t' (b # new) c"
      using w a(5) by (intro grafts.new_indir) (auto simp: word_gt_0)
    moreover have "\<forall>x<nblks. x \<notin> insert 0 (insert poff (set F)) \<longrightarrow> content s' x = content s x"
      using w a(9) F by auto
    ultimately have "walked snap s F ?o P poff sl (Suc m) t c s' F' ?t' (b # new)"
      using w z Hole a(4,7,8) by (auto simp: walked_def intro: write_state_snap)
    then show ?thesis
      using write_walk_hole [OF z(1) a(1,2), of offset "Suc m"] ih(1) by (auto simp: ref_index_slot)
  next
    case (Indir b us)
    note ch = walk_child [OF Suc.prems(1) [unfolded Indir]]
    let ?i = "slot ?o m"
    obtain c s' F' t' new where ih:
      "write_walk ts snap s offset (content s b) b ?i m = Inr (c, s')"
      "walked snap s F ?o (content s b) b ?i m (us ! ?i) c s' F' t' new"
      using Suc.IH [OF ch(6) [of ?o]] Suc.prems(2) Indir by auto
    note w = ih(2) [unfolded walked_def]
    have rb: "content s' b = (content s b)[?i := root_of t']"
      using w list_update_id [of "content s b" ?i] by (metis (full_types))
    have "tree_at (content s') (Suc m) (Indir b (us[?i := t']))"
    proof (rule tree_at_update)
      show "content s' x = content s x" if "j < 128" "j \<noteq> ?i" "x \<in> inner (us ! j)" for j x
        using w ch(7) [OF that(1,2) _ that(3)] by simp
    qed (use p Indir w rb in auto)
    moreover have "content s' poff = content s poff"
    proof -
      have "poff \<notin> insert 0 (insert b (set F \<union> inner (us ! ?i)))"
        using p Indir ch(5) inner_subset_addrs [of "us ! ?i"] nth_mem [of ?i us] by auto
      then show ?thesis
        using w p by auto
    qed
    moreover have "grafts (Suc m) ?o (Indir b us) (Indir b (us[?i := t'])) new c"
      using w ch(5) by (intro grafts.old_indir) auto
    moreover have "\<forall>x<nblks. x \<notin> insert 0 (insert poff (set F \<union> inner t)) \<longrightarrow> content s' x = content s x"
      using w Indir ch(5) nth_mem [of ?i us] by auto
    ultimately have "walked snap s F ?o P poff sl (Suc m) t c s' F' (Indir b (us[?i := t'])) new"
      using w ch(1,2) Indir by (auto simp: walked_def)
    then show ?thesis
      using write_walk_block [of P sl s "content s b" snap offset poff m] ch(1-3) ih(1)
      by (auto simp: ref_index_slot)
  qed (use p in simp)
qed

lemma write_walk_full:
  assumes "walk_pre snap s F P poff sl n t" "length F < holes_on t n (unat offset)"
  shows "write_walk ts snap s offset P poff sl n =
    Inl (Fatal ''treedisk_alloc_block: inode store is full\<newline>'')"
  using assms
proof (induction n arbitrary: snap s F P poff sl t)
  case 0
  note p = "0.prems"(1) [unfolded walk_pre_def]
  have t: "t = Hole" "F = []"
    using p "0.prems"(2) by (cases t; auto)+
  then have "treedisk_alloc_block ts snap s = Inl (Fatal ''treedisk_alloc_block: inode store is full\<newline>'')"
    using p write_stateD(2,3) [of snap s F] by (intro alloc_full) auto
  then show ?case
    using p t by (subst write_walk.simps) simp
next
  case (Suc m)
  note p = Suc.prems(1) [unfolded walk_pre_def]
  show ?case
  proof (cases t)
    case Hole
    show ?thesis
    proof (cases "F = []")
      case True
      then have "treedisk_alloc_block ts snap s =
          Inl (Fatal ''treedisk_alloc_block: inode store is full\<newline>'')"
        using p write_stateD(2,3) [of snap s F] by (intro alloc_full) auto
      then show ?thesis
        using p Hole by (subst write_walk.simps) simp
    next
      case False
      obtain b s1 s2 F1 where a:
        "treedisk_alloc_block ts snap s = Inr (b, snap\<lparr>superblock := content s1 0\<rparr>, s1)"
        "st_write (below ts) s1 (below_ino ts) poff (P[sl := b]) = Inr (0, s2)"
        "walk_pre (snap\<lparr>superblock := content s1 0\<rparr>) s2 F1 null_block b (slot (unat offset) m) m Hole"
        "mset F = add_mset b (mset F1)"
        using walk_alloc_step [OF Suc.prems(1) [unfolded Hole] False, of "unat offset" m] by metis
      have "length F = Suc (length F1)"
        using a(4) by (metis size_add_mset size_mset)
      then show ?thesis
        using Suc.IH [OF a(3)] Suc.prems(2) write_walk_hole [OF _ a(1,2), of offset "Suc m"] p Hole
        by (auto simp: ref_index_slot)
    qed
  next
    case (Indir b us)
    note ch = walk_child [OF Suc.prems(1) [unfolded Indir]]
    show ?thesis
      using write_walk_block [of P sl s "content s b" snap offset poff m] ch(1-3)
        Suc.IH [OF ch(6) [of "unat offset"]] Suc.prems(2) Indir
      by (auto simp: ref_index_slot)
  qed (use p in simp)
qed

section \<open>The walk of a read\<close>

lemma read_walk_spec:
  assumes "st_inv s" "tree_at (content s) n t" "\<forall>x \<in> set (addrs t). x < nblks"
  shows "read_walk ts s offset (root_of t) n =
    Inr (Some (if leaf_addr t n (unat offset) = 0 then null_block
               else content s (leaf_addr t n (unat offset))))"
  using assms(2,3)
proof (induction n arbitrary: t)
  case 0
  then show ?case
    using assms(1) by (cases t) (auto simp: read_walk.simps store_read)
next
  case (Suc m)
  show ?case
  proof (cases t)
    case Hole
    then show ?thesis
      by (simp add: read_walk.simps)
  next
    case (Indir b us)
    let ?c = "us ! slot (unat offset) m"
    have c: "?c \<in> set us" and b: "b < nblks" "b \<noteq> 0" "content s b = map root_of us"
      "slot (unat offset) m < length us"
      using Suc.prems Indir by auto
    then have "read_walk ts s offset b (Suc m) = read_walk ts s offset (root_of ?c) m"
      using assms(1) by (subst read_walk.simps) (simp add: store_read ref_index_slot)
    moreover have "tree_at (content s) m ?c" "\<forall>x \<in> set (addrs ?c). x < nblks"
      using Suc.prems Indir c by auto
    ultimately show ?thesis
      using Suc.IH [of ?c] Indir by simp
  qed (use Suc.prems in simp)
qed

end

end
