(* ===== verification/Treedisk_Spec.thy ===== *)
theory Treedisk_Spec
  imports Treedisk_Walk
begin

text \<open>
  What the file system promises: a map from inode numbers to files, each a size and a block per
  offset. The abstraction reads it off the disk, the invariant says that the trees of the inodes
  and the free list partition the disk, and reads, writes and creation refine the abstract
  operations.
\<close>

section \<open>Files\<close>

record vfile =
  fsize :: u32
  fblock :: "u32 \<Rightarrow> block"

type_synonym files = "u32 \<rightharpoonup> vfile"

definition empty_file :: vfile where
  "empty_file = \<lparr>fsize = 0, fblock = \<lambda>_. null_block\<rparr>"

definition spec_read :: "files \<Rightarrow> u32 \<Rightarrow> u32 \<Rightarrow> block option" where
  "spec_read m i off = (case m i of
     None \<Rightarrow> None
   | Some f \<Rightarrow> if off < fsize f then Some (fblock f off) else None)"

definition spec_getsize :: "files \<Rightarrow> u32 \<Rightarrow> int" where
  "spec_getsize m i = (case m i of None \<Rightarrow> -1 | Some f \<Rightarrow> sint (fsize f))"

definition write_file :: "vfile \<Rightarrow> u32 \<Rightarrow> block \<Rightarrow> vfile" where
  "write_file f off b = \<lparr>fsize = max (fsize f) (off + 1), fblock = (fblock f)(off := b)\<rparr>"

definition spec_write :: "files \<Rightarrow> u32 \<Rightarrow> u32 \<Rightarrow> block \<Rightarrow> files" where
  "spec_write m i off b = (case m i of None \<Rightarrow> m | Some f \<Rightarrow> m(i \<mapsto> write_file f off b))"

section \<open>The files on a disk\<close>

definition inode_blk :: "u32 \<Rightarrow> u32" where
  "inode_blk i = 1 + i div INODES_PER_BLOCK"

definition inode_word :: "u32 \<Rightarrow> nat" where
  "inode_word i = unat (i mod INODES_PER_BLOCK)"

definition disk_root :: "(u32 \<Rightarrow> block) \<Rightarrow> u32 \<Rightarrow> u32" where
  "disk_root d i = d (inode_blk i) ! root_slot (inode_word i)"

definition disk_nblocks :: "(u32 \<Rightarrow> block) \<Rightarrow> u32 \<Rightarrow> u32" where
  "disk_nblocks d i = d (inode_blk i) ! nblocks_slot (inode_word i)"

fun disk_lookup :: "(u32 \<Rightarrow> block) \<Rightarrow> u32 \<Rightarrow> nat \<Rightarrow> u32 \<Rightarrow> block" where
  "disk_lookup d b 0 off = (if b = 0 then null_block else d b)"
| "disk_lookup d b (Suc m) off =
     (if b = 0 then null_block else disk_lookup d (d b ! ref_index off m) m off)"

definition file_of :: "(u32 \<Rightarrow> block) \<Rightarrow> u32 \<Rightarrow> vfile" where
  "file_of d i =
     \<lparr>fsize = disk_nblocks d i,
      fblock = \<lambda>off. if off < disk_nblocks d i
                     then disk_lookup d (disk_root d i) (file_levels (disk_nblocks d i)) off
                     else null_block\<rparr>"

definition files_of :: "(u32 \<Rightarrow> block) \<Rightarrow> files" where
  "files_of d i = (if i < n_inodeblocks (d 0) * INODES_PER_BLOCK then Some (file_of d i) else None)"

lemma disk_lookup_tree:
  "tree_at d n t \<Longrightarrow> disk_lookup d (root_of t) n off =
     (if leaf_addr t n (unat off) = 0 then null_block else d (leaf_addr t n (unat off)))"
proof (induction n arbitrary: t)
  case 0
  then show ?case
    by (cases t) auto
next
  case (Suc m)
  show ?case
  proof (cases t)
    case (Indir b us)
    then have "us ! slot (unat off) m \<in> set us"
      using Suc.prems by simp
    then show ?thesis
      using Suc.prems Suc.IH [of "us ! slot (unat off) m"] Indir by (simp add: ref_index_slot)
  qed (use Suc.prems in auto)
qed

section \<open>Inode numbers\<close>

lemma INODES_PER_BLOCK_eq: "INODES_PER_BLOCK = 64"
  by (simp add: INODES_PER_BLOCK_def BLOCK_SIZE_def)

lemma inode_bounds:
  assumes "k < 2 ^ 26" "i < k * INODES_PER_BLOCK"
  shows "inode_blk i \<noteq> 0" "inode_blk i \<le> k" "inode_word i < 64"
proof -
  have k: "unat (k * 64) = unat k * 64"
    using assms(1) by (simp add: unat_word_ariths word_less_nat_alt)
  then have "unat i < unat k * 64"
    using assms(2) by (simp add: INODES_PER_BLOCK_eq word_less_nat_alt)
  then have d: "unat i div 64 < unat k"
    by (simp add: less_mult_imp_div_less)
  then have "unat (inode_blk i) = Suc (unat i div 64)"
    using assms(1)
    by (simp add: inode_blk_def INODES_PER_BLOCK_eq unat_word_ariths unat_div word_less_nat_alt)
  with d show "inode_blk i \<noteq> 0" "inode_blk i \<le> k"
    by (auto simp: word_le_nat_alt)
  show "inode_word i < 64"
    by (simp add: inode_word_def INODES_PER_BLOCK_eq unat_mod)
qed

lemma inode_blk_inj:
  assumes "inode_blk i = inode_blk j" "inode_word i = inode_word j"
  shows "i = j"
proof -
  have "i div 64 = j div 64" "i mod 64 = j mod 64"
    using assms unsigned_word_eqI [of "i mod 64" "j mod 64", where ?'a = nat]
    by (simp_all add: inode_blk_def inode_word_def INODES_PER_BLOCK_eq)
  then show ?thesis
    by (metis div_mult_mod_eq)
qed

lemma inode_slots_other:
  assumes "i \<noteq> j" "inode_blk i = inode_blk j"
  shows "root_slot (inode_word i) \<noteq> root_slot (inode_word j)"
    "root_slot (inode_word i) \<noteq> nblocks_slot (inode_word j)"
    "nblocks_slot (inode_word i) \<noteq> root_slot (inode_word j)"
    "nblocks_slot (inode_word i) \<noteq> nblocks_slot (inode_word j)"
  using inode_blk_inj [of i j] assms by (auto simp: root_slot_def nblocks_slot_def)

section \<open>The invariant of a file system\<close>

text \<open>
  \<open>inode_ok d t i\<close>: inode \<open>i\<close> is the tree \<open>t\<close>, with no block at or after the file's end.
\<close>

definition inode_ok :: "(u32 \<Rightarrow> block) \<Rightarrow> btree \<Rightarrow> u32 \<Rightarrow> bool" where
  "inode_ok d t i \<longleftrightarrow>
     tree_at d (file_levels (disk_nblocks d i)) t \<and> root_of t = disk_root d i \<and> distinct (addrs t) \<and>
     (\<forall>p. unat (disk_nblocks d i) \<le> p \<and> p < 128 ^ file_levels (disk_nblocks d i) \<longrightarrow>
          leaf_addr t (file_levels (disk_nblocks d i)) p = 0)"

definition fs_ok :: "(u32 \<Rightarrow> block) \<Rightarrow> u32 \<Rightarrow> u32 \<Rightarrow> (u32 \<Rightarrow> btree) \<Rightarrow> u32 list \<Rightarrow> bool" where
  "fs_ok d nb k T F \<longleftrightarrow>
     n_inodeblocks (d 0) = k \<and> k < 2 ^ 26 \<and> k < nb \<and>
     freelist d (free_list (d 0)) F \<and> distinct F \<and> (\<forall>x \<in> set F. k < x \<and> x < nb) \<and>
     (\<forall>i < k * INODES_PER_BLOCK. inode_ok d (T i) i \<and> set (addrs (T i)) \<inter> set F = {} \<and>
        (\<forall>x \<in> set (addrs (T i)). k < x \<and> x < nb)) \<and>
     (\<forall>i < k * INODES_PER_BLOCK. \<forall>j < k * INODES_PER_BLOCK.
        i \<noteq> j \<longrightarrow> set (addrs (T i)) \<inter> set (addrs (T j)) = {}) \<and>
     (\<forall>x. k < x \<longrightarrow> x < nb \<longrightarrow> x \<in> set F \<or> (\<exists>i < k * INODES_PER_BLOCK. x \<in> set (addrs (T i))))"

lemma inode_ok_lookup:
  assumes "inode_ok d t i"
  shows "disk_lookup d (disk_root d i) (file_levels (disk_nblocks d i)) off =
    (let a = leaf_addr t (file_levels (disk_nblocks d i)) (unat off) in
     if a = 0 then null_block else d a)"
proof -
  have "tree_at d (file_levels (disk_nblocks d i)) t" "disk_root d i = root_of t"
    using assms by (simp_all add: inode_ok_def)
  then show ?thesis
    by (simp add: disk_lookup_tree Let_def)
qed

lemma inode_ok_frame:
  assumes "inode_ok d t i" "disk_root d' i = disk_root d i" "disk_nblocks d' i = disk_nblocks d i"
    and frame: "\<And>x. x \<in> set (addrs t) \<Longrightarrow> d' x = d x"
  shows "inode_ok d' t i" "file_of d' i = file_of d i"
proof -
  have t: "tree_at d' (file_levels (disk_nblocks d i)) t"
    using assms(1) inner_subset_addrs [of t]
    by (intro tree_at_cong [of d _ t d'] frame) (auto simp: inode_ok_def)
  then show ok: "inode_ok d' t i"
    using assms(1-3) by (simp add: inode_ok_def)
  have "d' (leaf_addr t n p) = d (leaf_addr t n p)"
    if "leaf_addr t n p \<noteq> 0" "n = file_levels (disk_nblocks d i)" for n p
    using that t by (intro frame leaf_addr_in_addrs) auto
  then show "file_of d' i = file_of d i"
    using inode_ok_lookup [OF assms(1)] inode_ok_lookup [OF ok] assms(2,3)
    by (auto simp: file_of_def Let_def fun_eq_iff)
qed

text \<open>
  One inode changes its tree to \<open>t'\<close>, taking the blocks \<open>new\<close> from the free list; every other
  file stays as it is.
\<close>

lemma fs_ok_update:
  assumes ok: "fs_ok d nb k T F" and i: "i < k * INODES_PER_BLOCK"
    and sb: "n_inodeblocks (d' 0) = k" "freelist d' (free_list (d' 0)) F'"
    and F: "mset F = mset new + mset F'"
    and t': "inode_ok d' t' i" "mset (addrs t') = mset (addrs (T i)) + mset new"
    and inodes: "\<And>j. j < k * INODES_PER_BLOCK \<Longrightarrow> j \<noteq> i \<Longrightarrow>
      disk_root d' j = disk_root d j \<and> disk_nblocks d' j = disk_nblocks d j"
    and frame: "\<And>x. x < nb \<Longrightarrow> k < x \<Longrightarrow> x \<notin> set F \<Longrightarrow> x \<notin> set (addrs (T i)) \<Longrightarrow> d' x = d x"
  shows "fs_ok d' nb k (T(i := t')) F'" "files_of d' = (files_of d)(i \<mapsto> file_of d' i)"
proof -
  have sF: "set F = set new \<union> set F'"
    using F by (metis set_mset_mset set_mset_union)
  have st: "set (addrs t') = set (addrs (T i)) \<union> set new"
    using t'(2) by (metis set_mset_mset set_mset_union)
  have "distinct F" "mset (new @ F') = mset F"
    using F ok by (simp_all add: fs_ok_def)
  then have "distinct (new @ F')"
    using mset_eq_imp_distinct_iff by blast
  then have dF: "distinct F'" "set new \<inter> set F' = {}"
    by auto
  have other: "inode_ok d' (T j) j" "file_of d' j = file_of d j" if "j < k * INODES_PER_BLOCK" "j \<noteq> i" for j
  proof -
    have "set (addrs (T j)) \<inter> set (addrs (T i)) = {}"
      using ok i that by (simp add: fs_ok_def)
    moreover have "inode_ok d (T j) j" "set (addrs (T j)) \<inter> set F = {}"
      "\<forall>x \<in> set (addrs (T j)). k < x \<and> x < nb"
      using ok that by (auto simp: fs_ok_def)
    ultimately have "inode_ok d' (T j) j \<and> file_of d' j = file_of d j"
      using inodes [OF that] inode_ok_frame [of d "T j" j d'] frame by blast
    then show "inode_ok d' (T j) j" "file_of d' j = file_of d j"
      by simp_all
  qed
  show "files_of d' = (files_of d)(i \<mapsto> file_of d' i)"
  proof
    fix j
    have "n_inodeblocks (d 0) = k"
      using ok by (simp add: fs_ok_def)
    then show "files_of d' j = ((files_of d)(i \<mapsto> file_of d' i)) j"
      using other(2) [of j] i sb(1) by (cases "j = i") (simp_all add: files_of_def)
  qed
  show "fs_ok d' nb k (T(i := t')) F'"
    unfolding fs_ok_def
  proof (intro conjI)
    let ?T = "T(i := t')"
    show "n_inodeblocks (d' 0) = k" "freelist d' (free_list (d' 0)) F'" "distinct F'"
      by fact+
    show "k < 2 ^ 26" "k < nb" "\<forall>x \<in> set F'. k < x \<and> x < nb"
      using ok sF by (auto simp: fs_ok_def)
    show "\<forall>j < k * INODES_PER_BLOCK. inode_ok d' (?T j) j \<and> set (addrs (?T j)) \<inter> set F' = {} \<and>
        (\<forall>x \<in> set (addrs (?T j)). k < x \<and> x < nb)"
      using ok i other sF st t'(1) dF by (auto simp: fs_ok_def)
    show "\<forall>j < k * INODES_PER_BLOCK. \<forall>l < k * INODES_PER_BLOCK.
        j \<noteq> l \<longrightarrow> set (addrs (?T j)) \<inter> set (addrs (?T l)) = {}"
      using ok i sF st by (simp add: fs_ok_def) blast
    show "\<forall>x. k < x \<longrightarrow> x < nb \<longrightarrow>
        x \<in> set F' \<or> (\<exists>j < k * INODES_PER_BLOCK. x \<in> set (addrs (?T j)))"
    proof (intro allI impI)
      fix x assume "k < x" "x < nb"
      then have "x \<in> set F \<or> (\<exists>j < k * INODES_PER_BLOCK. x \<in> set (addrs (T j)))"
        using ok by (simp add: fs_ok_def)
      then show "x \<in> set F' \<or> (\<exists>j < k * INODES_PER_BLOCK. x \<in> set (addrs (?T j)))"
        using sF st i by (metis Un_iff fun_upd_other fun_upd_same)
    qed
  qed
qed

end
