(* ===== verification/Treedisk_Ops.thy ===== *)
theory Treedisk_Ops
  imports Treedisk_Spec
begin

text \<open>
  The operations of the tree file system against the abstract files, on any store of blocks:
  snapshots, reads, sizes, writes on every branch, and the run of a sequence of writes.
\<close>

definition out_of_blocks :: fault where
  "out_of_blocks = Fatal ''treedisk_alloc_block: inode store is full\<newline>''"

text \<open>
  A caller that issues writes one after the other and ignores their codes, as tools/mkfs.c does,
  and what that comes to on the abstract files.
\<close>

fun run_writes :: "('s \<Rightarrow> u32 \<Rightarrow> u32 \<Rightarrow> block \<Rightarrow> fault + (int \<times> 's)) \<Rightarrow> 's
    \<Rightarrow> (u32 \<times> u32 \<times> block) list \<Rightarrow> fault + 's" where
  "run_writes wr s [] = Inr s"
| "run_writes wr s ((i, off, b) # ws) = bindr (wr s i off b) (\<lambda>(rc, s'). run_writes wr s' ws)"

definition spec_writes :: "files \<Rightarrow> (u32 \<times> u32 \<times> block) list \<Rightarrow> files" where
  "spec_writes m ws = fold (\<lambda>(i, off, b) m. spec_write m i off b) ws m"

definition valid_write :: "u32 \<Rightarrow> u32 \<times> u32 \<times> block \<Rightarrow> bool" where
  "valid_write k w = (case w of (i, off, b) \<Rightarrow>
     i < k * INODES_PER_BLOCK \<and> off + 1 \<noteq> 0 \<and> length b = REFS_PER_BLOCK)"

lemma run_writes_append:
  "run_writes wr s (ws @ vs) = bindr (run_writes wr s ws) (\<lambda>s'. run_writes wr s' vs)"
  by (induction wr s ws rule: run_writes.induct)
     (auto simp: bindr_assoc case_prod_beta intro!: bindr_cong)

section \<open>What a write does to the disk\<close>

text \<open>The size of a file after a write at \<open>offset\<close>.\<close>

definition size_after :: "u32 \<Rightarrow> u32 \<Rightarrow> u32" where
  "size_after nb offset = (if nb \<le> offset then offset + 1 else nb)"

lemma size_after_facts:
  assumes "offset + 1 \<noteq> 0"
  shows "size_after nb offset \<noteq> 0" "nb \<le> size_after nb offset" "offset < size_after nb offset"
    "file_levels nb \<le> file_levels (size_after nb offset)"
    "size_after nb offset = max nb (offset + 1)"
proof -
  have o: "offset < offset + 1"
    using assms by (rule less_plus_one)
  then show "size_after nb offset \<noteq> 0" "nb \<le> size_after nb offset" "offset < size_after nb offset"
    using assms by (auto simp: size_after_def not_le)
  show "size_after nb offset = max nb (offset + 1)"
    using o plus_one_le [of offset nb] by (auto simp: size_after_def max_def)
  show "file_levels nb \<le> file_levels (size_after nb offset)"
  proof (cases "nb \<le> offset \<and> nb \<noteq> 0")
    case True
    then have "nb - 1 \<le> offset"
      by (simp add: minus_one_le)
    then show ?thesis
      using True assms levels_mono [of "nb - 1" offset]
      by (simp add: size_after_def file_levels_plus_one) (simp add: file_levels_def word_gt_0)
  qed (auto simp: size_after_def file_levels_def)
qed

text \<open>
  The disk \<open>d'\<close> after a write: inode \<open>i\<close> has the tree \<open>t'\<close> and its new size, the offset's block
  holds the data, every other offset keeps its block, and only free blocks and blocks of \<open>i\<close>
  changed. Then the invariant holds again and the files are those of the abstract write.
\<close>

lemma write_effect:
  assumes ok: "fs_ok d nblks k T F" and i: "i < k * INODES_PER_BLOCK" and off: "offset + 1 \<noteq> 0"
    and nb: "nb = disk_nblocks d i" "nb' = size_after nb offset"
    and n: "n = file_levels nb" "n' = file_levels nb'"
    and len: "length (d (inode_blk i)) = 128"
    and inode: "d' (inode_blk i) = (d (inode_blk i))
      [nblocks_slot (inode_word i) := nb', root_slot (inode_word i) := root_of t']"
    and sb: "n_inodeblocks (d' 0) = k" "freelist d' (free_list (d' 0)) F'"
    and F: "mset F = mset new + mset F'" and t': "mset (addrs t') = mset (addrs (T i)) + mset new"
      "tree_at d' n' t'"
    and leaf: "leaf_addr t' n' (unat offset) = b" "b \<noteq> 0" "d' b = blk"
    and others: "\<And>p. p < 128 ^ n' \<Longrightarrow> p \<noteq> unat offset \<Longrightarrow>
      leaf_addr t' n' p = (if p < 128 ^ n then leaf_addr (T i) n p else 0) \<and>
      (leaf_addr t' n' p \<noteq> 0 \<longrightarrow> d' (leaf_addr t' n' p) = d (leaf_addr t' n' p))"
    and frame: "\<And>x. x < nblks \<Longrightarrow> x \<noteq> 0 \<Longrightarrow> x \<noteq> inode_blk i \<Longrightarrow> x \<notin> set F \<Longrightarrow>
      x \<notin> set (addrs (T i)) \<Longrightarrow> d' x = d x"
  shows "fs_ok d' nblks k (T(i := t')) F'" "files_of d' = spec_write (files_of d) i offset blk"
proof -
  let ?o = "unat offset"
  have k: "k < 2 ^ 26" "k < nblks" "n_inodeblocks (d 0) = k"
    using ok by (simp_all add: fs_ok_def)
  have t: "inode_ok d (T i) i" "set (addrs (T i)) \<inter> set F = {}" "distinct F"
    "\<forall>x \<in> set F. k < x" "\<forall>x \<in> set (addrs (T i)). k < x"
    using ok i by (auto simp: fs_ok_def)
  have hole: "leaf_addr (T i) n p = 0" if "unat nb \<le> p" "p < 128 ^ n" for p
    using t(1) that nb n by (simp add: inode_ok_def)
  note sf = size_after_facts [OF off, of nb, folded nb(2)]
  have o: "?o < 128 ^ n'" "?o < unat nb'" "unat nb' \<le> 128 ^ n'" "unat nb \<le> 128 ^ n" "unat nb \<le> unat nb'"
    "(128::nat) ^ n \<le> 128 ^ n'"
    using sf file_levels_size [of nb'] file_levels_size [of nb] n nb
    by (auto simp: word_less_nat_alt word_le_nat_alt)
  note blk = inode_bounds [OF k(1) i]
  have new_inode: "disk_nblocks d' i = nb'" "disk_root d' i = root_of t'"
    using inode len blk(3) by (auto simp: disk_nblocks_def disk_root_def nblocks_slot_def root_slot_def)
  have inodes: "disk_root d' j = disk_root d j \<and> disk_nblocks d' j = disk_nblocks d j"
    if j: "j < k * INODES_PER_BLOCK" "j \<noteq> i" for j
  proof (cases "inode_blk j = inode_blk i")
    case True
    with inode inode_slots_other [OF j(2) True] show ?thesis
      by (simp add: disk_root_def disk_nblocks_def)
  next
    case False
    have "inode_blk j \<noteq> 0" "inode_blk j \<le> k"
      using inode_bounds [OF k(1) j(1)] by auto
    then have "d' (inode_blk j) = d (inode_blk j)"
      using t False k(2) by (intro frame) auto
    then show ?thesis
      by (simp add: disk_root_def disk_nblocks_def)
  qed
  have "distinct (addrs t')"
  proof -
    have "mset (addrs t' @ F') = mset (addrs (T i) @ F)"
      using F t' by simp
    moreover have "distinct (addrs (T i) @ F)"
      using t by (auto simp: inode_ok_def)
    ultimately show ?thesis
      using mset_eq_imp_distinct_iff distinct_append by blast
  qed
  moreover have "leaf_addr t' n' p = 0" if p: "unat nb' \<le> p" "p < 128 ^ n'" for p
    using others [OF p(2)] hole [of p] o p by auto
  ultimately have ok': "inode_ok d' t' i"
    using t'(2) new_inode n(2) by (simp add: inode_ok_def)
  have "fblock (file_of d' i) x = fblock (write_file (file_of d i) offset blk) x" for x
  proof (cases "x < nb'")
    case True
    have x: "unat x < 128 ^ n'"
      using True o by (simp add: word_less_nat_alt)
    have b': "fblock (file_of d' i) x = (let a = leaf_addr t' n' (unat x) in if a = 0 then null_block else d' a)"
      using inode_ok_lookup [OF ok'] True new_inode n(2) by (simp add: file_of_def)
    show ?thesis
    proof (cases "x = offset")
      case True
      then show ?thesis
        using b' leaf by (simp add: write_file_def)
    next
      case False
      then have ne: "unat x \<noteq> ?o"
        by (simp add: word_unat_eq_iff)
      have b: "fblock (file_of d i) x = (if x < nb then (let a = leaf_addr (T i) n (unat x) in
          if a = 0 then null_block else d a) else null_block)"
        using inode_ok_lookup [OF t(1)] n nb by (simp add: file_of_def)
      show ?thesis
      proof (cases "x < nb")
        case True
        then have "unat x < 128 ^ n"
          using o by (simp add: word_less_nat_alt)
        then show ?thesis
          using b b' True False others [OF x ne] by (auto simp: write_file_def Let_def)
      next
        case nlt: False
        then have "leaf_addr t' n' (unat x) = 0"
          using others [OF x ne] hole [of "unat x"] by (simp add: word_less_nat_alt)
        then show ?thesis
          using b b' nlt False by (simp add: write_file_def)
      qed
    qed
  next
    case False
    moreover have "\<not> x < nb" "x \<noteq> offset"
      using False sf(2,3) by (auto dest: less_le_trans)
    ultimately show ?thesis
      using new_inode nb by (simp add: file_of_def write_file_def)
  qed
  moreover have "fsize (file_of d' i) = fsize (write_file (file_of d i) offset blk)"
    using new_inode sf(5) nb by (simp add: file_of_def write_file_def)
  ultimately have "file_of d' i = write_file (file_of d i) offset blk"
    by (simp add: fun_eq_iff)
  moreover have fr: "d' x = d x" if "x < nblks" "k < x" "x \<notin> set F" "x \<notin> set (addrs (T i))" for x
    using that blk(2) by (intro frame) auto
  note up = fs_ok_update [OF ok i sb F ok' t'(1) inodes fr]
  show "fs_ok d' nblks k (T(i := t')) F'"
    by (rule up(1))
  have "files_of d i = Some (file_of d i)"
    using i k(3) by (simp add: files_of_def)
  with up(2) calculation show "files_of d' = spec_write (files_of d) i offset blk"
    by (simp add: spec_write_def)
qed

context treedisk_on
begin

lemma snapshot_some:
  assumes inv: "st_inv s" and ok: "fs_ok (content s) nblks k T F" and i: "i < k * INODES_PER_BLOCK"
    and j: "j < k * INODES_PER_BLOCK"
  shows "treedisk_get_snapshot ts s i = Inr (Some \<lparr>superblock = content s 0,
      inodeblock = content s (inode_blk i), inode_blockno = inode_blk i, inode_index = inode_word i\<rparr>)"
    "inode_blk i < nblks" "inode_blk i \<noteq> 0" "inode_blk i \<notin> set F" "inode_blk i \<notin> set (addrs (T j))"
proof -
  have k: "k < 2 ^ 26" "k < nblks" "n_inodeblocks (content s 0) = k"
    using ok by (simp_all add: fs_ok_def)
  note b = inode_bounds [OF k(1) i]
  show blk: "inode_blk i < nblks" "inode_blk i \<noteq> 0"
    using b k by auto
  then have "0 < nblks"
    by (metis word_gt_0 order.strict_trans)
  then show "treedisk_get_snapshot ts s i = Inr (Some \<lparr>superblock = content s 0,
      inodeblock = content s (inode_blk i), inode_blockno = inode_blk i, inode_index = inode_word i\<rparr>)"
    using store_read [OF inv, of 0] store_read [OF inv blk(1)] k(3) i
    by (simp add: treedisk_get_snapshot_def inode_blk_def inode_word_def Let_def)
  have "\<forall>x \<in> set F. k < x" "\<forall>x \<in> set (addrs (T j)). k < x"
    using ok j by (simp_all add: fs_ok_def)
  then show "inode_blk i \<notin> set F" "inode_blk i \<notin> set (addrs (T j))"
    using b(2) by auto
qed

lemma snapshot_none:
  assumes inv: "st_inv s" and ok: "fs_ok (content s) nblks k T F" and i: "\<not> i < k * INODES_PER_BLOCK"
  shows "treedisk_get_snapshot ts s i = Inr None"
proof -
  have k: "k < nblks" "n_inodeblocks (content s 0) = k"
    using ok by (simp_all add: fs_ok_def)
  then have "0 < nblks"
    by (metis word_gt_0 less_trans word_not_simps(1) not_less_iff_gr_or_eq)
  then show ?thesis
    using store_read [OF inv, of 0] k(2) i by (simp add: treedisk_get_snapshot_def not_less)
qed

lemma files_of_eq:
  assumes "fs_ok (content s) nblks k T F"
  shows "files_of (content s) i = (if i < k * INODES_PER_BLOCK then Some (file_of (content s) i) else None)"
  using assms by (simp add: files_of_def fs_ok_def)

theorem read_spec:
  assumes inv: "st_inv s" and ok: "fs_ok (content s) nblks k T F"
  shows "treedisk_read ts s i off = Inr (spec_read (files_of (content s)) i off)"
proof (cases "i < k * INODES_PER_BLOCK")
  case True
  have t: "inode_ok (content s) (T i) i" "\<forall>x \<in> set (addrs (T i)). x < nblks"
    using ok True by (auto simp: fs_ok_def)
  note [simp] = snapshot_some(1) [OF inv ok True True]
  let ?n = "file_levels (disk_nblocks (content s) i)"
  have "read_walk ts s off (disk_root (content s) i) ?n =
      Inr (Some (disk_lookup (content s) (disk_root (content s) i) ?n off))"
    using t read_walk_spec [OF inv, of ?n "T i" off] inode_ok_lookup [OF t(1), of off]
    by (simp add: inode_ok_def Let_def)
  then show ?thesis
    using True by (simp add: treedisk_read_def snap_nblocks_def snap_root_def spec_read_def
        files_of_eq [OF ok] file_of_def disk_nblocks_def disk_root_def not_less [symmetric])
next
  case False
  then show ?thesis
    using snapshot_none [OF inv ok] by (simp add: treedisk_read_def spec_read_def files_of_eq [OF ok])
qed

theorem getsize_spec:
  assumes inv: "st_inv s" and ok: "fs_ok (content s) nblks k T F"
  shows "treedisk_getsize ts s i = Inr (spec_getsize (files_of (content s)) i)"
  using snapshot_some(1) [OF inv ok] snapshot_none [OF inv ok]
  by (simp add: treedisk_getsize_def spec_getsize_def files_of_eq [OF ok] file_of_def
      snap_nblocks_def disk_nblocks_def)

section \<open>Writing\<close>

text \<open>The walk and the data write together, from a tree that is on disk.\<close>

lemma write_tail:
  assumes pre: "walk_pre snap s F P poff sl n t" and P: "content s poff = P"
    and free: "holes_on t n (unat offset) \<le> length F" and blk: "length blk = 128"
  obtains b s3 s4 F' t' new where
    "write_walk ts snap s offset P poff sl n = Inr (b, s3)"
    "st_write (below ts) s3 (below_ino ts) b blk = Inr (0, s4)"
    "write_state (snap\<lparr>superblock := content s4 0\<rparr>) s4 F'" "mset F = mset new + mset F'"
    "mset (addrs t') = mset (addrs t) + mset new" "length new \<le> Suc n" "tree_at (content s4) n t'"
    "content s4 poff = P[sl := root_of t']"
    "n_inodeblocks (content s4 0) = n_inodeblocks (content s 0)"
    "leaf_addr t' n (unat offset) = b" "b \<noteq> 0" "content s4 b = blk"
    "\<And>p. p mod 128 ^ n \<noteq> unat offset mod 128 ^ n \<Longrightarrow> leaf_addr t' n p = leaf_addr t n p \<and>
       (leaf_addr t n p \<noteq> 0 \<longrightarrow> content s4 (leaf_addr t n p) = content s (leaf_addr t n p))"
    "\<And>x. x < nblks \<Longrightarrow> x \<notin> insert 0 (insert poff (set F \<union> set (addrs t))) \<Longrightarrow>
       content s4 x = content s x"
proof -
  let ?o = "unat offset"
  note p = pre [unfolded walk_pre_def]
  obtain b s3 F' t' new where
    w: "write_walk ts snap s offset P poff sl n = Inr (b, s3)"
    and W: "walked snap s F ?o P poff sl n t b s3 F' t' new"
    using write_walk_spec [OF pre free] by blast
  note W = W [unfolded walked_def]
  have g: "grafts n ?o t t' new b" and F: "mset F = mset new + mset F'"
    and t': "tree_at (content s3) n t'" and ws: "write_state (snap\<lparr>superblock := content s3 0\<rparr>) s3 F'"
    using W by blast+
  have Wf: "content s3 x = content s x" if "x < nblks" "x \<notin> insert 0 (insert poff (set F \<union> inner t))" for x
    using W that by blast
  note gm = grafts_mset [OF g] and gn = grafts_nonzero [OF g, of "content s"]
    and gl = grafts_leaf [OF g] and go = grafts_leaf_other [OF g]
  have sF: "set F = set new \<union> set F'"
    using F by (metis set_mset_mset set_mset_union)
  have st: "set (addrs t') = set (addrs t) \<union> set new"
    using gm by (metis set_mset_mset set_mset_union)
  have "mset (addrs t' @ F') = mset (addrs t @ F)"
    using gm F by simp
  moreover have "distinct (addrs t @ F)"
    using p by (auto simp: write_state_def)
  ultimately have d: "distinct (addrs t' @ F')"
    using mset_eq_imp_distinct_iff by blast
  have b: "b \<noteq> 0" "b \<in> set (addrs t')" "b \<notin> inner t'"
    using gn p gl leaf_addr_in_addrs [OF t', of ?o] leaf_not_inner [OF t', of ?o] d by auto
  then have b': "b < nblks" "b \<notin> set F'" "b \<noteq> poff" "b \<in> set F \<union> set (addrs t)"
    using st sF d p by (auto simp: write_state_def)
  obtain s4 where s4: "st_write (below ts) s3 (below_ino ts) b blk = Inr (0, s4)"
    "write_state (snap\<lparr>superblock := content s3 0\<rparr>) s4 F'" "content s4 0 = content s3 0"
    "content s4 b = blk" "\<And>x. x < nblks \<Longrightarrow> x \<noteq> b \<Longrightarrow> content s4 x = content s3 x"
    using write_other [OF ws b'(1) b(1) b'(2) blk] by blast
  show thesis
  proof (rule that [OF w s4(1) _ F gm grafts_length [OF g] _ _ _ gl b(1) s4(4)])
    show "write_state (snap\<lparr>superblock := content s4 0\<rparr>) s4 F'"
      using s4(2,3) by simp
    have "x < nblks" if "x \<in> inner t'" for x
      using that inner_subset_addrs [of t'] st sF p by (auto simp: write_state_def)
    then show "tree_at (content s4) n t'"
      using b(3) by (intro tree_at_cong [OF t'] s4(5)) auto
    show "content s4 poff = P[sl := root_of t']"
      using W P p b'(3) s4(5) [of poff] by (metis list_update_id)
    show "n_inodeblocks (content s4 0) = n_inodeblocks (content s 0)"
      using W s4(3) by simp
    show "content s4 x = content s x"
      if "x < nblks" "x \<notin> insert 0 (insert poff (set F \<union> set (addrs t)))" for x
    proof -
      have "x \<noteq> b" "x \<notin> insert 0 (insert poff (set F \<union> inner t))"
        using that b'(4) inner_subset_addrs [of t] by auto
      then show ?thesis
        using that(1) s4(5) [of x] Wf [of x] by simp
    qed
    fix q assume q: "q mod 128 ^ n \<noteq> ?o mod 128 ^ n"
    let ?a = "leaf_addr t n q"
    have "content s4 ?a = content s ?a" if a: "?a \<noteq> 0"
    proof -
      have "?a \<in> set (addrs t)" "?a \<notin> inner t"
        using p a leaf_addr_in_addrs [of "content s" n t q] leaf_not_inner [of "content s" n t q] by auto
      moreover have "?a \<noteq> b"
        using leaf_addr_inj [OF t', of q ?o] go [OF q] gl b(1) d q by auto
      ultimately show ?thesis
        using Wf [of ?a] s4(5) [of ?a] p a by auto
    qed
    with go [OF q] show "leaf_addr t' n q = ?a \<and> (?a \<noteq> 0 \<longrightarrow> content s4 ?a = content s ?a)"
      by simp
  qed
qed

text \<open>
  The snapshot a write works on, once the size is updated.
\<close>

definition sized_snap :: "'s \<Rightarrow> u32 \<Rightarrow> u32 \<Rightarrow> treedisk_snapshot" where
  "sized_snap s i offset = \<lparr>superblock = content s 0,
     inodeblock = (content s (inode_blk i))
       [nblocks_slot (inode_word i) := size_after (disk_nblocks (content s) i) offset],
     inode_blockno = inode_blk i, inode_index = inode_word i\<rparr>"

lemma write_unfold:
  assumes inv: "st_inv s" and ok: "fs_ok (content s) nblks k T F" and i: "i < k * INODES_PER_BLOCK"
    and off: "offset + 1 \<noteq> 0"
    and nb: "disk_nblocks (content s) i = nb" and g: "g = file_levels (size_after nb offset) - file_levels nb"
  shows "treedisk_write ts s i offset blk =
    bindr (grow_tree ts (sized_snap s i offset) s g) (\<lambda>(snap2, s1).
    bindr (if nb \<le> offset \<or> 0 < g
           then bindr (st_write (below ts) s1 (below_ino ts) (inode_blockno snap2) (inodeblock snap2))
                  (\<lambda>(rc, s2). if rc < 0 then Inl (Fatal ''treedisk_write: inode block'') else Inr s2)
           else Inr s1) (\<lambda>s2.
    bindr (write_walk ts snap2 s2 offset (inodeblock snap2) (inode_blockno snap2)
             (root_slot (inode_index snap2)) (file_levels (size_after nb offset))) (\<lambda>(b, s3).
    bindr (st_write (below ts) s3 (below_ino ts) b blk) (\<lambda>(rc, s4).
      if rc < 0 then Inl (Fatal ''treedisk_write: data block'') else Inr (0, s4)))))"
proof -
  note sf = size_after_facts [OF off, of nb]
  have len: "length (content s (inode_blk i)) = 128"
    using store_length [OF inv snapshot_some(2) [OF inv ok i i]] by simp
  have b: "inode_word i < 64"
    using inode_bounds(3) [of k i] ok i by (simp add: fs_ok_def)
  have snap: "sized_snap s i offset = (if nb \<le> offset
      then \<lparr>superblock = content s 0, inodeblock = content s (inode_blk i),
             inode_blockno = inode_blk i, inode_index = inode_word i\<rparr>
        \<lparr>inodeblock := (content s (inode_blk i))[nblocks_slot (inode_word i) := offset + 1]\<rparr>
      else \<lparr>superblock = content s 0, inodeblock = content s (inode_blk i),
             inode_blockno = inode_blk i, inode_index = inode_word i\<rparr>)"
    using nb by (auto simp: sized_snap_def size_after_def disk_nblocks_def)
  have nb': "content s (inode_blk i) ! nblocks_slot (inode_word i) = nb"
    using nb by (simp add: disk_nblocks_def)
  have z: "nblocks_slot (inode_word i) < 128"
    using b by (simp add: nblocks_slot_def)
  show ?thesis
  proof (cases "nb \<le> offset")
    case True
    then have "levels_from offset 0 = file_levels (size_after nb offset)"
      using file_levels_plus_one [OF off] by (simp add: size_after_def)
    then show ?thesis
      using True snapshot_some(1) [OF inv ok i i] snap nb' len z sf off g
      by (simp add: treedisk_write_def snap_nblocks_def Let_def)
  next
    case False
    then have "nb \<noteq> 0" "size_after nb offset = nb"
      by (auto simp: size_after_def not_le)
    then show ?thesis
      using False snapshot_some(1) [OF inv ok i i] snap nb' g
      by (simp add: treedisk_write_def snap_nblocks_def Let_def)
  qed
qed

text \<open>
  The first half of a write: the tree grown to its new levels and the inode block written when
  it changed. Afterwards the walk can start.
\<close>

lemma write_head:
  assumes inv: "st_inv s" and ok: "fs_ok (content s) nblks k T F" and i: "i < k * INODES_PER_BLOCK"
    and off: "offset + 1 \<noteq> 0"
    and nb: "disk_nblocks (content s) i = nb" and n': "n' = file_levels (size_after nb offset)"
    and g: "g = n' - file_levels nb" and free: "g \<le> length F"
  obtains snap2 s1 s2 F1 t1 new where
    "grow_tree ts (sized_snap s i offset) s g = Inr (snap2, s1)"
    "(if nb \<le> offset \<or> 0 < g
      then bindr (st_write (below ts) s1 (below_ino ts) (inode_blockno snap2) (inodeblock snap2))
             (\<lambda>(rc, s2). if rc < 0 then Inl (Fatal ''treedisk_write: inode block'') else Inr s2)
      else Inr s1) = Inr s2"
    "walk_pre snap2 s2 F1 (inodeblock snap2) (inode_blk i) (root_slot (inode_word i)) n' t1"
    "content s2 (inode_blk i) = inodeblock snap2"
    "inode_blockno snap2 = inode_blk i" "inode_index snap2 = inode_word i"
    "inodeblock snap2 = (content s (inode_blk i))
       [nblocks_slot (inode_word i) := size_after nb offset, root_slot (inode_word i) := root_of t1]"
    "mset F = mset new + mset F1" "length new = g" "mset (addrs t1) = mset (addrs (T i)) + mset new"
    "n_inodeblocks (content s2 0) = k"
    "\<And>x. x < nblks \<Longrightarrow> x \<noteq> 0 \<Longrightarrow> x \<noteq> inode_blk i \<Longrightarrow> x \<notin> set F \<Longrightarrow> content s2 x = content s x"
    "\<And>p. p < 128 ^ n' \<Longrightarrow> leaf_addr t1 n' p =
       (if p < 128 ^ file_levels nb then leaf_addr (T i) (file_levels nb) p else 0)"
proof -
  let ?I = "inode_blk i" and ?r = "root_slot (inode_word i)" and ?z = "nblocks_slot (inode_word i)"
  let ?n = "file_levels nb" and ?sn = "sized_snap s i offset"
  note snap = snapshot_some(2-4) [OF inv ok i i]
  have k: "k < 2 ^ 26" "n_inodeblocks (content s 0) = k" and F: "\<forall>x \<in> set F. k < x \<and> x < nblks"
    and dF: "distinct F"
    using ok by (auto simp: fs_ok_def)
  have t: "inode_ok (content s) (T i) i" "set (addrs (T i)) \<inter> set F = {}"
    "\<forall>x \<in> set (addrs (T i)). k < x \<and> x < nblks"
    using ok i by (auto simp: fs_ok_def)
  have len: "length (content s ?I) = 128"
    using store_length [OF inv snap(1)] by simp
  have w: "inode_word i < 64"
    using inode_bounds(3) [OF k(1) i] .
  have sl: "?r < 128" "?z < 128" "?r \<noteq> ?z"
    using w by (auto simp: root_slot_def nblocks_slot_def)
  have n: "?n \<le> n'" "?n + g = n'"
    using size_after_facts(4) [OF off, of nb] n' g by auto
  have sn: "superblock ?sn = content s 0" "inodeblock ?sn = (content s ?I)[?z := size_after nb offset]"
    "inode_blockno ?sn = ?I" "inode_index ?sn = inode_word i"
    using nb by (simp_all add: sized_snap_def)
  have "k \<ge> 0"
    by simp
  then have ws: "write_state ?sn s F"
    using inv ok sn F by (auto simp: write_state_def fs_ok_def word_gt_0)
  have "root_of (T i) = snap_root ?sn"
    using t(1) sn sl by (simp add: inode_ok_def snap_root_def disk_root_def)
  then have "\<exists>s1 F1 t1 new. grow_tree ts ?sn s g = Inr (?sn\<lparr>superblock := content s1 0,
       inodeblock := (inodeblock ?sn)[?r := root_of t1]\<rparr>, s1) \<and> grown ?sn s F ?n (T i) g s1 F1 t1 new"
    using grow_tree_spec [OF ws free, of ?n "T i"] t nb sn sl len by (simp add: inode_ok_def)
  then obtain s1 F1 t1 new where
    gt: "grow_tree ts ?sn s g = Inr (?sn\<lparr>superblock := content s1 0,
       inodeblock := (inodeblock ?sn)[?r := root_of t1]\<rparr>, s1)"
    and G: "grown ?sn s F ?n (T i) g s1 F1 t1 new"
    by blast
  define snap2 where "snap2 = ?sn\<lparr>superblock := content s1 0, inodeblock := (inodeblock ?sn)[?r := root_of t1]\<rparr>"
  have s2: "inode_blockno snap2 = ?I" "inode_index snap2 = inode_word i"
    "inodeblock snap2 = (content s ?I)[?z := size_after nb offset, ?r := root_of t1]"
    by (simp_all add: snap2_def sn)
  note G = G [unfolded grown_def n(2)]
  have ws1: "write_state snap2 s1 F1"
    using G by (auto simp: snap2_def intro: write_state_snap)
  have mF: "mset F = mset new + mset F1" and mt: "mset (addrs t1) = mset (addrs (T i)) + mset new"
    and fr: "\<And>x. x < nblks \<Longrightarrow> x \<noteq> 0 \<Longrightarrow> x \<notin> set F \<Longrightarrow> content s1 x = content s x"
    and tr: "tree_at (content s1) n' t1"
    using G by blast+
  have sF: "set F = set new \<union> set F1" and st: "set (addrs t1) = set (addrs (T i)) \<union> set new"
    using mF mt by (metis set_mset_mset set_mset_union)+
  have IF: "?I \<notin> set F1" "?I \<notin> set (addrs t1)"
    using snap(3) sF st snapshot_some(5) [OF inv ok i i] by auto
  have "\<exists>s2. (if nb \<le> offset \<or> 0 < g
      then bindr (st_write (below ts) s1 (below_ino ts) (inode_blockno snap2) (inodeblock snap2))
             (\<lambda>(rc, s2). if rc < 0 then Inl (Fatal ''treedisk_write: inode block'') else Inr s2)
      else Inr s1) = Inr s2 \<and> write_state snap2 s2 F1 \<and> content s2 0 = content s1 0 \<and>
      content s2 ?I = inodeblock snap2 \<and> (\<forall>x<nblks. x \<noteq> ?I \<longrightarrow> content s2 x = content s1 x)"
  proof (cases "nb \<le> offset \<or> 0 < g")
    case True
    obtain s2 where "st_write (below ts) s1 (below_ino ts) ?I (inodeblock snap2) = Inr (0, s2)"
      "write_state snap2 s2 F1" "content s2 0 = content s1 0" "content s2 ?I = inodeblock snap2"
      "\<And>x. x < nblks \<Longrightarrow> x \<noteq> ?I \<Longrightarrow> content s2 x = content s1 x"
      using write_other [OF ws1 snap(1,2) IF(1), of "inodeblock snap2"] len s2 by auto
    then show ?thesis
      using True s2(1) by auto
  next
    case False
    then have "snap2 = ?sn"
      using gt [folded snap2_def] by auto
    then have "inodeblock snap2 = (content s ?I)[?z := nb]"
      using False sn(2) by (simp add: size_after_def)
    moreover have "(content s ?I)[?z := nb] = content s ?I"
      using nb by (auto simp: disk_nblocks_def)
    ultimately have "inodeblock snap2 = content s ?I"
      by simp
    then show ?thesis
      using False ws1 fr [OF snap(1,2,3)] by auto
  qed
  then obtain s2 where dirty: "(if nb \<le> offset \<or> 0 < g
      then bindr (st_write (below ts) s1 (below_ino ts) (inode_blockno snap2) (inodeblock snap2))
             (\<lambda>(rc, s2). if rc < 0 then Inl (Fatal ''treedisk_write: inode block'') else Inr s2)
      else Inr s1) = Inr s2"
    and S: "write_state snap2 s2 F1" "content s2 0 = content s1 0" "content s2 ?I = inodeblock snap2"
      "\<And>x. x < nblks \<Longrightarrow> x \<noteq> ?I \<Longrightarrow> content s2 x = content s1 x"
    by blast
  have "mset (addrs t1 @ F1) = mset (addrs (T i) @ F)"
    using mF mt by simp
  moreover have "distinct (addrs (T i) @ F)"
    using t dF by (auto simp: inode_ok_def)
  ultimately have d: "distinct (addrs t1 @ F1)"
    using mset_eq_imp_distinct_iff by blast
  have a1: "\<forall>x \<in> set (addrs t1). x < nblks"
    using st sF F t(3) by auto
  have "tree_at (content s2) n' t1"
    using a1 IF(2) inner_subset_addrs [of t1] by (intro tree_at_cong [OF tr] S(4)) auto
  then have "walk_pre snap2 s2 F1 (inodeblock snap2) ?I ?r n' t1"
    using S(1) snap(1,2) IF d a1 len sl s2(3) by (auto simp: walk_pre_def)
  moreover have "leaf_addr t1 n' p = (if p < 128 ^ ?n then leaf_addr (T i) ?n p else 0)" if "p < 128 ^ n'" for p
    using G that by auto
  moreover have "n_inodeblocks (content s2 0) = k"
    using G S(2) k(2) by simp
  moreover have "content s2 x = content s x" if "x < nblks" "x \<noteq> 0" "x \<noteq> ?I" "x \<notin> set F" for x
    using S(4) [of x] fr [of x] that by simp
  moreover have "length new = g"
    using G by simp
  ultimately show thesis
    using that [OF gt [folded snap2_def] dirty _ S(3) s2 mF _ mt] by simp
qed

theorem write_spec:
  assumes inv: "st_inv s" and ok: "fs_ok (content s) nblks k T F" and i: "i < k * INODES_PER_BLOCK"
    and off: "offset + 1 \<noteq> 0" and blk: "length blk = 128"
  shows "(treedisk_write ts s i offset blk = Inl out_of_blocks \<and> length F < 11) \<or>
    (\<exists>s' T' F'. treedisk_write ts s i offset blk = Inr (0, s') \<and> st_inv s' \<and>
       fs_ok (content s') nblks k T' F' \<and> set F' \<subseteq> set F \<and> length F \<le> length F' + 11 \<and>
       files_of (content s') = spec_write (files_of (content s)) i offset blk)"
proof -
  define nb where "nb = disk_nblocks (content s) i"
  define nb' where "nb' = size_after nb offset"
  define n n' where "n = file_levels nb" and "n' = file_levels nb'"
  define g where "g = n' - n"
  let ?I = "inode_blk i" and ?r = "root_slot (inode_word i)" and ?z = "nblocks_slot (inode_word i)"
  let ?o = "unat offset"
  note sf = size_after_facts [OF off, of nb, folded nb'_def]
  have n: "n \<le> n'" "n' \<le> 5" "g \<le> 5" "unat nb \<le> 128 ^ n" "unat nb' \<le> 128 ^ n'" "?o < 128 ^ n'"
    using sf file_levels_le_5 [of nb'] file_levels_size [of nb] file_levels_size [of nb']
    by (auto simp: n_def n'_def g_def word_less_nat_alt)
  note unfold = write_unfold [OF inv ok i off nb_def [symmetric] refl, of blk,
      folded nb'_def, folded n_def n'_def, folded g_def]
  show ?thesis
  proof (cases "g \<le> length F")
    case False
    have "write_state (sized_snap s i offset) s F"
      using inv ok by (auto simp: write_state_def fs_ok_def sized_snap_def word_gt_0)
    then have "grow_tree ts (sized_snap s i offset) s g = Inl out_of_blocks"
      using grow_tree_full False by (simp add: out_of_blocks_def)
    then show ?thesis
      using unfold False n by simp
  next
    case True
    obtain snap2 s1 s2 F1 t1 new where h:
      "grow_tree ts (sized_snap s i offset) s g = Inr (snap2, s1)"
      "(if nb \<le> offset \<or> 0 < g
        then bindr (st_write (below ts) s1 (below_ino ts) (inode_blockno snap2) (inodeblock snap2))
               (\<lambda>(rc, s2). if rc < 0 then Inl (Fatal ''treedisk_write: inode block'') else Inr s2)
        else Inr s1) = Inr s2"
      "walk_pre snap2 s2 F1 (inodeblock snap2) ?I ?r n' t1"
      "content s2 ?I = inodeblock snap2" "inode_blockno snap2 = ?I" "inode_index snap2 = inode_word i"
      "inodeblock snap2 = (content s ?I)[?z := nb', ?r := root_of t1]"
      "mset F = mset new + mset F1" "length new = g" "mset (addrs t1) = mset (addrs (T i)) + mset new"
      "n_inodeblocks (content s2 0) = k"
      "\<And>x. x < nblks \<Longrightarrow> x \<noteq> 0 \<Longrightarrow> x \<noteq> ?I \<Longrightarrow> x \<notin> set F \<Longrightarrow> content s2 x = content s x"
      "\<And>p. p < 128 ^ n' \<Longrightarrow> leaf_addr t1 n' p = (if p < 128 ^ n then leaf_addr (T i) n p else 0)"
      by (rule write_head [OF inv ok i off nb_def [symmetric] n'_def [unfolded nb'_def]
            g_def [unfolded n_def] True, folded nb'_def n_def]) (rule that)
    have lF: "length F = g + length F1"
      using h(8,9) by (metis size_mset size_union)
    show ?thesis
    proof (cases "holes_on t1 n' ?o \<le> length F1")
      case False
      then have "write_walk ts snap2 s2 offset (inodeblock snap2) ?I ?r n' = Inl out_of_blocks"
        using write_walk_full [OF h(3)] by (simp add: out_of_blocks_def)
      then show ?thesis
        using unfold h(1,2,5,6) lF False n holes_on_le [of t1 n' ?o] by simp
    next
      case True
      obtain b s3 s4 F' t' new2 where w:
        "write_walk ts snap2 s2 offset (inodeblock snap2) ?I ?r n' = Inr (b, s3)"
        "st_write (below ts) s3 (below_ino ts) b blk = Inr (0, s4)"
        "write_state (snap2\<lparr>superblock := content s4 0\<rparr>) s4 F'" "mset F1 = mset new2 + mset F'"
        "mset (addrs t') = mset (addrs t1) + mset new2" "length new2 \<le> Suc n'" "tree_at (content s4) n' t'"
        "content s4 ?I = (inodeblock snap2)[?r := root_of t']"
        "n_inodeblocks (content s4 0) = n_inodeblocks (content s2 0)"
        "leaf_addr t' n' ?o = b" "b \<noteq> 0" "content s4 b = blk"
        "\<And>p. p mod 128 ^ n' \<noteq> ?o mod 128 ^ n' \<Longrightarrow> leaf_addr t' n' p = leaf_addr t1 n' p \<and>
           (leaf_addr t1 n' p \<noteq> 0 \<longrightarrow> content s4 (leaf_addr t1 n' p) = content s2 (leaf_addr t1 n' p))"
        "\<And>x. x < nblks \<Longrightarrow> x \<notin> insert 0 (insert ?I (set F1 \<union> set (addrs t1))) \<Longrightarrow>
           content s4 x = content s2 x"
        by (rule write_tail [OF h(3,4) True blk]) (rule that)
      have wr: "treedisk_write ts s i offset blk = Inr (0, s4)"
        using unfold h(1,2,5,6) w(1,2) by simp
      have mF: "mset F = mset (new @ new2) + mset F'"
        using h(8) w(4) by simp
      have mt: "mset (addrs t') = mset (addrs (T i)) + mset (new @ new2)"
        using h(10) w(5) by simp
      have sF: "set F = set new \<union> set F1" "set (addrs t1) = set (addrs (T i)) \<union> set new"
        using h(8,10) by (metis set_mset_mset set_mset_union)+
      have ws: "st_inv s4" "freelist (content s4) (free_list (content s4 0)) F'"
        using write_stateD [OF w(3)] by simp_all
      have inode: "content s4 ?I = (content s ?I)[?z := nb', ?r := root_of t']"
        using w(8) h(7) by simp
      have len: "length (content s ?I) = 128"
        using store_length [OF inv snapshot_some(2) [OF inv ok i i]] by simp
      have others: "leaf_addr t' n' p = (if p < 128 ^ n then leaf_addr (T i) n p else 0) \<and>
          (leaf_addr t' n' p \<noteq> 0 \<longrightarrow> content s4 (leaf_addr t' n' p) = content s (leaf_addr t' n' p))"
        if p: "p < 128 ^ n'" "p \<noteq> ?o" for p
      proof -
        have l: "leaf_addr t' n' p = leaf_addr t1 n' p"
          "leaf_addr t1 n' p \<noteq> 0 \<longrightarrow> content s4 (leaf_addr t1 n' p) = content s2 (leaf_addr t1 n' p)"
          using w(13) [of p] p n by simp_all
        note l1 = h(13) [OF p(1)]
        have "content s2 a = content s a" if a: "a \<noteq> 0" "a = leaf_addr t1 n' p" for a
        proof -
          have "a = leaf_addr (T i) n p"
            using l1 a by (simp split: if_splits)
          moreover have "tree_at (content s) n (T i)"
            using ok i by (simp add: fs_ok_def inode_ok_def n_def nb_def)
          ultimately have "a \<in> set (addrs (T i))"
            using leaf_addr_in_addrs a(1) by metis
          moreover have "set (addrs (T i)) \<inter> set F = {}" "\<forall>x \<in> set (addrs (T i)). x < nblks"
            using ok i by (auto simp: fs_ok_def)
          ultimately show ?thesis
            using a(1) snapshot_some(5) [OF inv ok i i] by (intro h(12)) auto
        qed
        with l l1 show ?thesis
          by simp
      qed
      have frame: "content s4 x = content s x"
        if "x < nblks" "x \<noteq> 0" "x \<noteq> ?I" "x \<notin> set F" "x \<notin> set (addrs (T i))" for x
        using w(14) [of x] h(12) [of x] that sF by simp
      have sb: "n_inodeblocks (content s4 0) = k"
        using w(9) h(11) by simp
      note eff = write_effect [OF ok i off nb_def nb'_def n_def n'_def len inode sb ws(2) mF mt w(7)
          w(10,11,12) others frame]
      have "set F' \<subseteq> set F" "length F \<le> length F' + 11"
      proof -
        show "set F' \<subseteq> set F"
          using mF by (metis set_mset_mset set_mset_union Un_upper2)
        have "length F1 = length new2 + length F'" "length new2 \<le> Suc n'"
          using arg_cong [OF w(4), of size] w(6) by simp_all
        then show "length F \<le> length F' + 11"
          using lF n by simp
      qed
      then show ?thesis
        using wr ws(1) eff by blast
    qed
  qed
qed

section \<open>Writing at the last offset\<close>

text \<open>
  At offset \<open>2^32 - 1\<close> the new size \<open>offset + 1\<close> wraps to 0. On an empty file the write
  succeeds, storing the block below a tree of 5 levels, and the size stays 0.
\<close>

lemma write_wrap:
  assumes inv: "st_inv s" and ok: "fs_ok (content s) nblks k T F" and i: "i < k * INODES_PER_BLOCK"
    and off: "offset + 1 = 0" and empty: "disk_nblocks (content s) i = 0"
    and blk: "length blk = 128" and free: "6 \<le> length F"
  shows "\<exists>s'. treedisk_write ts s i offset blk = Inr (0, s') \<and>
    treedisk_read ts s' i offset = Inr None \<and> treedisk_getsize ts s' i = Inr 0"
proof -
  let ?I = "inode_blk i" and ?r = "root_slot (inode_word i)"
  let ?z = "nblocks_slot (inode_word i)" and ?n = "levels_from offset 0"
  note snap = snapshot_some [OF inv ok i i]
  have k: "n_inodeblocks (content s 0) = k" "0 < nblks" "k < 2 ^ 26"
    using ok by (auto simp: fs_ok_def intro: le_less_trans [of 0 k nblks])
  have len: "length (content s ?I) = 128"
    using store_length [OF inv snap(2)] by simp
  have sl: "?r < 128" "?z \<noteq> ?r"
    using inode_bounds(3) [OF k(3) i] by (auto simp: root_slot_def nblocks_slot_def)
  let ?snap = "\<lparr>superblock = content s 0, inodeblock = content s ?I, inode_blockno = ?I,
    inode_index = inode_word i\<rparr>"
  have z: "(content s ?I)[?z := 0] = content s ?I"
    using empty by (metis disk_nblocks_def list_update_id)
  have T: "inode_ok (content s) (T i) i"
    using ok i by (simp add: fs_ok_def)
  have hole: "T i = Hole" "disk_root (content s) i = 0"
  proof -
    have "leaf_addr (T i) 0 0 = 0" "tree_at (content s) 0 (T i)" "root_of (T i) = disk_root (content s) i"
      using T empty by (simp_all add: inode_ok_def file_levels_def)
    then show "T i = Hole" "disk_root (content s) i = 0"
      by (cases "T i"; auto)+
  qed
  have ws: "write_state ?snap s F"
    using inv ok by (auto simp: write_state_def fs_ok_def word_gt_0)
  obtain s1 where s1: "st_write (below ts) s (below_ino ts) ?I (content s ?I) = Inr (0, s1)"
    "write_state ?snap s1 F" "content s1 0 = content s 0" "content s1 ?I = content s ?I"
    using write_other [OF ws snap(2,3,4) len] by metis
  have pre: "walk_pre ?snap s1 F (content s ?I) ?I ?r ?n Hole"
    using s1(2) snap(2-4) len sl hole(2) by (simp add: walk_pre_def disk_root_def)
  have free': "holes_on Hole ?n (unat offset) \<le> length F"
    using levels_le_5 [of offset] free by simp
  obtain b s3 s4 F' t' new where w:
    "write_walk ts ?snap s1 offset (content s ?I) ?I ?r ?n = Inr (b, s3)"
    "st_write (below ts) s3 (below_ino ts) b blk = Inr (0, s4)"
    "write_state (?snap\<lparr>superblock := content s4 0\<rparr>) s4 F'"
    "content s4 ?I = (content s ?I)[?r := root_of t']"
    "n_inodeblocks (content s4 0) = n_inodeblocks (content s1 0)"
    using write_tail [OF pre s1(4) free' blk] by metis
  have "treedisk_write ts s i offset blk = Inr (0, s4)"
    using snap(1) s1(1) w(1,2) empty off z
    by (simp add: treedisk_write_def snap_nblocks_def disk_nblocks_def file_levels_def Let_def)
  moreover have "treedisk_get_snapshot ts s4 i = Inr (Some \<lparr>superblock = content s4 0,
      inodeblock = content s4 ?I, inode_blockno = ?I, inode_index = inode_word i\<rparr>)"
    using write_stateD(1) [OF w(3)] k(1,2) snap(2) w(5) s1(3) i
    by (simp add: treedisk_get_snapshot_def store_read inode_blk_def inode_word_def Let_def)
  moreover have "content s4 ?I ! ?z = 0"
    using w(4) sl(2) empty by (simp add: disk_nblocks_def)
  ultimately show ?thesis
    by (auto simp: treedisk_read_def treedisk_getsize_def snap_nblocks_def)
qed

section \<open>Sequences of writes\<close>

lemma run_writes_spec:
  assumes "st_inv s" "fs_ok (content s) nblks k T F" "\<forall>w \<in> set ws. valid_write k w"
    "11 * length ws \<le> length F"
  shows "\<exists>s' T' F'. run_writes (treedisk_write ts) s ws = Inr s' \<and> st_inv s' \<and>
    fs_ok (content s') nblks k T' F' \<and> set F' \<subseteq> set F \<and> length F \<le> length F' + 11 * length ws \<and>
    files_of (content s') = spec_writes (files_of (content s)) ws"
  using assms
proof (induction ws arbitrary: s T F)
  case Nil
  then show ?case
    by (auto simp: spec_writes_def)
next
  case (Cons w ws)
  obtain i off b where w: "w = (i, off, b)"
    by (cases w)
  have v: "i < k * INODES_PER_BLOCK" "off + 1 \<noteq> 0" "length b = 128"
    using Cons.prems(3) by (simp_all add: w valid_write_def)
  obtain s1 T1 F1 where s1: "treedisk_write ts s i off b = Inr (0, s1)" "st_inv s1"
    "fs_ok (content s1) nblks k T1 F1" "set F1 \<subseteq> set F" "length F \<le> length F1 + 11"
    "files_of (content s1) = spec_write (files_of (content s)) i off b"
    using write_spec [OF Cons.prems(1,2) v] Cons.prems(4) by auto
  obtain s' T' F' where s': "run_writes (treedisk_write ts) s1 ws = Inr s'" "st_inv s'"
    "fs_ok (content s') nblks k T' F'" "set F' \<subseteq> set F1" "length F1 \<le> length F' + 11 * length ws"
    "files_of (content s') = spec_writes (files_of (content s1)) ws"
    using Cons.IH [OF s1(2,3)] Cons.prems(3,4) s1(5) by auto
  have "run_writes (treedisk_write ts) s (w # ws) = Inr s'"
    using s1(1) s'(1) by (simp add: w)
  moreover have "files_of (content s') = spec_writes (files_of (content s)) (w # ws)"
    using s'(6) s1(6) by (simp add: spec_writes_def w)
  moreover have "set F' \<subseteq> set F" "length F \<le> length F' + 11 * length (w # ws)"
    using s'(4,5) s1(4,5) by auto
  ultimately show ?case
    using s'(2,3) by blast
qed

end

end
