(* ===== verification/Treedisk_Create.thy ===== *)
theory Treedisk_Create
  imports Treedisk_Ops
begin

text \<open>
  Creating a file system on a store of blocks: the free list holds every block after the inode
  blocks, and every file is empty.
\<close>

section \<open>The blocks of a range\<close>

definition block_range :: "u32 \<Rightarrow> u32 \<Rightarrow> u32 list" where
  "block_range a b = map of_nat [unat a ..< unat b]"

lemma set_block_range: "set (block_range a b) = {x. a \<le> x \<and> x < b}"
proof -
  have "x \<in> set (block_range a b) \<longleftrightarrow> a \<le> x \<and> x < b" for x
  proof
    assume "x \<in> set (block_range a b)"
    then obtain n where n: "x = of_nat n" "unat a \<le> n" "n < unat b"
      by (auto simp: block_range_def)
    moreover have "unat x = n"
      using n unsigned_less [of b, where ?'a = nat] by (simp add: unat_of_nat_less)
    ultimately show "a \<le> x \<and> x < b"
      by (simp add: word_le_nat_alt word_less_nat_alt)
  next
    assume "a \<le> x \<and> x < b"
    then show "x \<in> set (block_range a b)"
      by (auto simp: block_range_def word_le_nat_alt word_less_nat_alt
          intro!: image_eqI [of _ _ "unat x"])
  qed
  then show ?thesis
    by blast
qed

lemma distinct_block_range: "distinct (block_range a b)"
proof -
  have "inj_on (of_nat :: nat \<Rightarrow> u32) {unat a ..< unat b}"
  proof (rule inj_onI)
    fix x y assume "x \<in> {unat a ..< unat b}" "y \<in> {unat a ..< unat b}" "(of_nat x :: u32) = of_nat y"
    moreover have "unat b < 2 ^ LENGTH(32)"
      by (rule unsigned_less)
    ultimately show "x = y"
      by (metis atLeastLessThan_iff less_trans unat_of_nat_less)
  qed
  then show ?thesis
    by (simp add: block_range_def distinct_map)
qed

lemma block_range_Cons: "a < b \<Longrightarrow> block_range a b = a # block_range (a + 1) b"
  by (simp add: block_range_def unat_plus_one_less word_less_nat_alt upt_conv_Cons)

lemma block_range_append: "a \<le> b \<Longrightarrow> b \<le> c \<Longrightarrow> block_range a b @ block_range b c = block_range a c"
  using upt_add_eq_append [of "unat a" "unat b" "unat c - unat b"]
  by (simp add: block_range_def word_le_nat_alt flip: map_append)

lemma fill_refs_length: "length (fst (fill_refs k next_free nblocks)) = k"
  by (induction k arbitrary: next_free) (simp_all add: case_prod_beta)

lemma fill_refs_filter:
  "next_free \<le> nblocks \<Longrightarrow> 0 < next_free \<Longrightarrow> filter (\<lambda>r. r \<noteq> 0) (fst (fill_refs k next_free nblocks)) =
     block_range next_free (snd (fill_refs k next_free nblocks))"
proof (induction k arbitrary: next_free)
  case (Suc k)
  show ?case
  proof (cases "next_free < nblocks")
    case True
    let ?r = "fill_refs k (next_free + 1) nblocks"
    have p: "next_free + 1 \<le> nblocks" "next_free < next_free + 1"
      using plus_one_le [OF True] True by (simp_all add: word_less_nat_alt unat_plus_one_less)
    then have "0 < next_free + 1"
      by (metis word_gt_0 word_not_simps(1))
    moreover have "next_free < snd ?r"
      using fill_refs_next [OF p(1), of k] p(2) by (meson less_le_trans)
    ultimately show ?thesis
      using Suc.IH [OF p(1)] True Suc.prems block_range_Cons by (simp add: case_prod_beta word_gt_0)
  qed (simp add: block_range_def)
qed (simp add: block_range_def)

section \<open>Creation on a store\<close>

context block_store
begin

lemma setup_freelist_spec:
  assumes "inv s" "0 < next_free" "next_free \<le> nblks" "freelist (content s) fb F" "\<forall>x \<in> set F. x < next_free"
  shows "\<exists>s' fl F'. setup_freelist store ino s next_free nblks fb = Inr (fl, s') \<and> inv s' \<and>
    freelist (content s') fl F' \<and> mset F' = mset F + mset (block_range next_free nblks) \<and>
    (\<forall>x<next_free. content s' x = content s x)"
  using assms
proof (induction "unat nblks - unat next_free" arbitrary: s next_free fb F rule: less_induct)
  case less
  show ?case
  proof (cases "next_free < nblks")
    case False
    then show ?thesis
      using less.prems by (subst setup_freelist.simps) (auto simp: block_range_def)
  next
    case True
    let ?r = "fill_refs (REFS_PER_BLOCK - 1) (next_free + 1) nblks"
    have p: "next_free + 1 \<le> nblks" "next_free < next_free + 1"
      using plus_one_le [OF True] True by (simp_all add: word_less_nat_alt unat_plus_one_less)
    have nx: "next_free + 1 \<le> snd ?r" "snd ?r \<le> nblks"
      using fill_refs_next [OF p(1), of "REFS_PER_BLOCK - 1"] by auto
    then have lt: "next_free < snd ?r"
      using p(2) by (meson less_le_trans)
    have "length (fb # fst ?r) = 128"
      by (simp add: fill_refs_length)
    from store_writeE [OF less.prems(1) True this] obtain s1 where
      s1: "st_write store s ino next_free (fb # fst ?r) = Inr (0, s1)" "inv s1"
      "\<And>x. x < nblks \<Longrightarrow> content s1 x = (if x = next_free then fb # fst ?r else content s x)"
      by blast
    have lower: "content s1 x = content s x" if "x < next_free" for x
      using s1(3) [of x] that True by (metis less_trans less_irrefl)
    have at: "content s1 next_free = fb # fst ?r"
      using s1(3) [OF True] by simp
    have "freelist (content s1) fb F"
      using less.prems(5) lower by (intro freelist_cong [OF less.prems(4)]) auto
    then have "freelist (content s1) next_free
        (next_free # filter (\<lambda>r. r \<noteq> 0) (tl (content s1 next_free)) @ F)"
      using less.prems(2) at by (intro freelist.free_cons) (auto simp: word_gt_0)
    moreover have "0 < next_free + 1"
      using p(2) by (metis word_gt_0 word_not_simps(1))
    ultimately have fl: "freelist (content s1) next_free (next_free # block_range (next_free + 1) (snd ?r) @ F)"
      using at fill_refs_filter [OF p(1)] by simp
    have "\<forall>x \<in> set (next_free # block_range (next_free + 1) (snd ?r) @ F). x < snd ?r"
      using lt less.prems(5) by (auto simp: set_block_range)
    moreover have "unat nblks - unat (snd ?r) < unat nblks - unat next_free" "0 < snd ?r"
      using lt True less.prems(2) by (auto simp: word_less_nat_alt)
    ultimately obtain s' fl F' where ih: "setup_freelist store ino s1 (snd ?r) nblks next_free = Inr (fl, s')"
      "inv s'" "freelist (content s') fl F'"
      "mset F' = mset (next_free # block_range (next_free + 1) (snd ?r) @ F) + mset (block_range (snd ?r) nblks)"
      "\<And>x. x < snd ?r \<Longrightarrow> content s' x = content s1 x"
      using less.hyps [OF _ s1(2) _ nx(2) fl] by blast
    have "block_range next_free nblks = next_free # block_range (next_free + 1) (snd ?r) @ block_range (snd ?r) nblks"
      using block_range_Cons [OF True] block_range_append [OF nx] by simp
    then have "mset F' = mset F + mset (block_range next_free nblks)"
      using ih(4) by simp
    moreover have "\<forall>x<next_free. content s' x = content s x"
      using ih(5) lower lt by (metis less_trans)
    moreover have "setup_freelist store ino s next_free nblks fb = Inr (fl, s')"
      using ih(1) s1(1) True by (subst setup_freelist.simps) (simp add: case_prod_beta)
    ultimately show ?thesis
      using ih(2,3) by blast
  qed
qed

lemma clear_inodeblocks_spec:
  assumes "inv s" "unat i + m \<le> unat nblks"
  shows "\<exists>s'. clear_inodeblocks store ino s i m = Inr (0, s') \<and> inv s' \<and>
    (\<forall>x<nblks. content s' x = (if unat i \<le> unat x \<and> unat x < unat i + m then null_block else content s x))"
  using assms
proof (induction m arbitrary: s i)
  case (Suc m)
  then have i: "i < nblks"
    by (simp add: word_less_nat_alt)
  obtain s1 where s1: "st_write store s ino i null_block = Inr (0, s1)" "inv s1"
    "\<And>x. x < nblks \<Longrightarrow> content s1 x = (if x = i then null_block else content s x)"
    using store_writeE [OF Suc.prems(1) i, of null_block] by auto
  have u: "unat (i + 1) = Suc (unat i)"
    using i by (rule unat_plus_one_less)
  obtain s' where s': "clear_inodeblocks store ino s1 (i + 1) m = Inr (0, s')" "inv s'"
    "\<forall>x<nblks. content s' x = (if unat (i + 1) \<le> unat x \<and> unat x < unat (i + 1) + m then null_block
       else content s1 x)"
    using Suc.IH [OF s1(2), of "i + 1"] Suc.prems(2) u by auto
  have "content s' x = (if unat i \<le> unat x \<and> unat x < unat i + Suc m then null_block else content s x)"
    if "x < nblks" for x
    using that s1(3) [OF that] s'(3) u by (auto simp: word_unat_eq_iff)
  then show ?case
    using s1(1) s'(1,2) by auto
qed auto

lemma create_spec:
  assumes s: "inv s" and nz: "0 < nblks" and k: "k = (n + INODES_PER_BLOCK - 1) div INODES_PER_BLOCK"
  shows "nblks < k + 2 \<Longrightarrow> treedisk_create store ino s n = Inr (-1, s)"
    "k + 2 \<le> nblks \<Longrightarrow> n_inodeblocks (content s 0) \<noteq> 0 \<Longrightarrow> treedisk_create store ino s n = Inr (0, s)"
    "k + 2 \<le> nblks \<Longrightarrow> n_inodeblocks (content s 0) = 0 \<Longrightarrow>
      \<exists>s' F. treedisk_create store ino s n = Inr (0, s') \<and> inv s' \<and>
        fs_ok (content s') nblks k (\<lambda>_. Hole) F \<and> mset F = mset (block_range (k + 1) nblks) \<and>
        files_of (content s') = (\<lambda>i. if i < k * INODES_PER_BLOCK then Some empty_file else None)"
proof -
  note rd = store_read [OF s nz] store_getsize [OF s]
  show "nblks < k + 2 \<Longrightarrow> treedisk_create store ino s n = Inr (-1, s)"
    "k + 2 \<le> nblks \<Longrightarrow> n_inodeblocks (content s 0) \<noteq> 0 \<Longrightarrow> treedisk_create store ino s n = Inr (0, s)"
    using rd by (simp_all add: treedisk_create_def k Let_def)
  assume kn: "k + 2 \<le> nblks" and fresh: "n_inodeblocks (content s 0) = 0"
  have "unat k = unat (n + INODES_PER_BLOCK - 1) div 64"
    by (simp add: k INODES_PER_BLOCK_eq unat_div)
  moreover have "unat (n + INODES_PER_BLOCK - 1) < 2 ^ 32"
    using unsigned_less [of "n + INODES_PER_BLOCK - 1", where ?'a = nat] by simp
  ultimately have uk: "unat k < 2 ^ 26"
    by simp
  then have u: "unat (k + 1) = unat k + 1" "unat (k + 2) = unat k + 2"
    by (simp_all add: unat_word_ariths)
  then have k1: "0 < k + 1" "k + 1 \<le> nblks" "k < nblks" "unat k + 2 \<le> unat nblks" "k < 2 ^ 26"
    using kn uk by (simp_all add: word_less_nat_alt word_le_nat_alt)
  obtain s1 fl F where s1: "setup_freelist store ino s (k + 1) nblks 0 = Inr (fl, s1)" "inv s1"
    "freelist (content s1) fl F" "mset F = mset (block_range (k + 1) nblks)"
    using setup_freelist_spec [OF s k1(1,2) free_nil] by auto
  have sF: "set F = {x. k + 1 \<le> x \<and> x < nblks}" and dF: "distinct F"
    using s1(4) set_block_range distinct_block_range by (metis set_mset_mset, metis mset_eq_imp_distinct_iff)
  have Fk: "k < x \<and> x < nblks" if "x \<in> set F" for x
    using that sF u by (simp add: word_le_nat_alt word_less_nat_alt)
  let ?sb = "null_block[0 := k, 1 := fl]"
  obtain s2 where s2: "st_write store s1 ino 0 ?sb = Inr (0, s2)" "inv s2"
    "\<And>x. x < nblks \<Longrightarrow> content s2 x = (if x = 0 then ?sb else content s1 x)"
    using store_writeE [OF s1(2) nz, of ?sb] by auto
  obtain s3 where s3: "clear_inodeblocks store ino s2 1 (unat k) = Inr (0, s3)" "inv s3"
    "\<forall>x<nblks. content s3 x = (if 1 \<le> unat x \<and> unat x < 1 + unat k then null_block else content s2 x)"
    using clear_inodeblocks_spec [OF s2(2), of 1 "unat k"] k1(4) by auto
  have cr: "treedisk_create store ino s n = Inr (0, s3)"
    using rd fresh kn s1(1) s2(1) s3(1) by (simp add: treedisk_create_def k Let_def not_less)
  have sb: "content s3 0 = ?sb"
    using s3(3) s2(3) nz by simp
  have "content s3 x = content s1 x" if "x \<in> set F" for x
    using Fk [OF that] s3(3) s2(3) [of x] by (auto simp: word_less_nat_alt)
  then have fl: "freelist (content s3) (free_list (content s3 0)) F"
    using sb by (auto simp: free_list_def intro: freelist_cong [OF s1(3)])
  have ib: "content s3 (inode_blk i) = null_block" if "i < k * INODES_PER_BLOCK" for i
    using inode_bounds [OF k1(5) that] s3(3) k1(3)
    by (auto simp: word_less_nat_alt word_le_nat_alt unat_gt_0 Suc_le_eq)
  have io: "disk_nblocks (content s3) i = 0 \<and> disk_root (content s3) i = 0"
    if "i < k * INODES_PER_BLOCK" for i
    using ib [OF that] inode_bounds(3) [OF k1(5) that]
    by (simp add: disk_nblocks_def disk_root_def nblocks_slot_def root_slot_def)
  then have "\<forall>i < k * INODES_PER_BLOCK. inode_ok (content s3) Hole i"
    by (simp add: inode_ok_def)
  moreover have "\<forall>x. k < x \<longrightarrow> x < nblks \<longrightarrow> x \<in> set F"
    using sF plus_one_le [of k] by auto
  ultimately have "fs_ok (content s3) nblks k (\<lambda>_. Hole) F"
    using sb fl dF Fk k1 by (simp add: fs_ok_def n_inodeblocks_def)
  moreover have "files_of (content s3) = (\<lambda>i. if i < k * INODES_PER_BLOCK then Some empty_file else None)"
    using io sb by (auto simp: files_of_def n_inodeblocks_def file_of_def empty_file_def)
  ultimately show "\<exists>s' F. treedisk_create store ino s n = Inr (0, s') \<and> inv s' \<and>
        fs_ok (content s') nblks k (\<lambda>_. Hole) F \<and> mset F = mset (block_range (k + 1) nblks) \<and>
        files_of (content s') = (\<lambda>i. if i < k * INODES_PER_BLOCK then Some empty_file else None)"
    using cr s3(2) s1(4) by blast
qed

end

end
