(* ===== verification/Filesystem.thy ===== *)
theory Filesystem
  imports Ramdisk Treedisk_Create
begin

text \<open>
  The file system as tools/mkfs.c builds it: \<open>treedisk_init\<close> on the ramdisk. The ramdisk keeps
  the laws of a store of blocks, so the lemmas of \<open>Treedisk_Ops\<close> and \<open>Treedisk_Create\<close> hold of
  it.
\<close>

section \<open>The tree file system on the ramdisk\<close>

text \<open>\<open>filesys = treedisk_init(&ramdisk, 0)\<close>\<close>

definition filesys :: "ramdisk_state inode_store" where
  "filesys = treedisk_init ramdisk 0"

definition ram_ts :: "ramdisk_state treedisk_state" where
  "ram_ts = \<lparr>below = ramdisk, below_ino = 0, ninodes = 0\<rparr>"

interpretation fsys: treedisk_on ram_ts ram_content ram_inv RAM_NBLOCKS
proof -
  have "block_store ramdisk 0 ram_content ram_inv RAM_NBLOCKS"
    by (rule ram.block_store_axioms)
  then show "treedisk_on ram_ts ram_content ram_inv RAM_NBLOCKS"
    by (simp add: treedisk_on_def ram_ts_def)
qed

lemma filesys_methods:
  "st_read filesys = treedisk_read ram_ts" "st_write filesys = treedisk_write ram_ts"
  "st_getsize filesys = treedisk_getsize ram_ts" "st_setsize filesys = treedisk_setsize ram_ts"
  by (simp_all add: filesys_def treedisk_init_def ram_ts_def Let_def)

text \<open>
  \<open>fs_wf s k F\<close>: the ramdisk holds a well-formed file system of \<open>k\<close> inode blocks with free
  blocks \<open>F\<close>.
\<close>

definition fs_wf :: "ramdisk_state \<Rightarrow> u32 \<Rightarrow> u32 list \<Rightarrow> bool" where
  "fs_wf s k F \<longleftrightarrow> ram_inv s \<and> (\<exists>T. fs_ok (ram_content s) RAM_NBLOCKS k T F)"

definition fs_files :: "ramdisk_state \<Rightarrow> files" where
  "fs_files s = files_of (ram_content s)"

lemma fs_wfE:
  assumes "fs_wf s k F"
  obtains T where "ram_inv s" "fs_ok (ram_content s) RAM_NBLOCKS k T F"
  using assms by (auto simp: fs_wf_def)

lemma fs_filesD: "fs_wf s k F \<Longrightarrow> fs_files s i = Some f \<Longrightarrow> i < k * INODES_PER_BLOCK"
  by (auto simp: fs_wf_def fs_ok_def fs_files_def files_of_def split: if_splits)

section \<open>A new file system\<close>

definition zero_disk :: ramdisk_state where
  "zero_disk = \<lparr>fs = replicate 4096 null_block\<rparr>"

lemma zero_disk_inv: "ram_inv zero_disk" "n_inodeblocks (ram_content zero_disk 0) = 0"
  by (simp_all add: zero_disk_def ram_inv_def ram_sizes ram_content_def n_inodeblocks_def)

lemma create_new:
  assumes "ram_inv s" "n_inodeblocks (ram_content s 0) = 0"
    and "k = (n + INODES_PER_BLOCK - 1) div INODES_PER_BLOCK" "k + 2 \<le> RAM_NBLOCKS"
  shows "\<exists>s' F. treedisk_create ramdisk 0 s n = Inr (0, s') \<and> fs_wf s' k F \<and>
    mset F = mset (block_range (k + 1) RAM_NBLOCKS) \<and>
    fs_files s' = (\<lambda>i. if i < k * INODES_PER_BLOCK then Some empty_file else None)"
  using block_store.create_spec(3) [OF ram.block_store_axioms assms(1) _ assms(3,4,2), of 0]
  by (fastforce simp: RAM_NBLOCKS_eq fs_wf_def fs_files_def assms(1))

definition new_disk :: ramdisk_state where
  "new_disk = (case treedisk_create ramdisk 0 zero_disk NINODES of Inr (rc, s) \<Rightarrow> s | Inl e \<Rightarrow> zero_disk)"

lemma new_disk_wf:
  obtains F where "fs_wf new_disk 2 F" "length F = 4093"
    "fs_files new_disk = (\<lambda>i. if i < 128 then Some empty_file else None)"
proof -
  obtain s' F where s': "treedisk_create ramdisk 0 zero_disk NINODES = Inr (0, s')" "fs_wf s' 2 F"
    "mset F = mset (block_range 3 RAM_NBLOCKS)"
    "fs_files s' = (\<lambda>i. if i < 128 then Some empty_file else None)"
    using create_new [OF zero_disk_inv, of 2 NINODES]
    by (auto simp: NINODES_def INODES_PER_BLOCK_eq RAM_NBLOCKS_eq)
  moreover have "length F = 4093"
    using arg_cong [OF s'(3), of size] by (simp add: block_range_def RAM_NBLOCKS_eq)
  ultimately show thesis
    using that by (simp add: new_disk_def)
qed

section \<open>Properties\<close>

text \<open>
  C4. Creating a file system on a blank 2 MB disk succeeds whenever the inode blocks and one more
  block fit: every inode is an empty file, and every block after the inode blocks is free,
  exactly once.
\<close>

theorem mkfs_create_correct:
  assumes "ram_inv s" "n_inodeblocks (ram_content s 0) = 0"
    and "k = (n + INODES_PER_BLOCK - 1) div INODES_PER_BLOCK" "k + 2 \<le> RAM_NBLOCKS"
  shows "\<exists>s' F. treedisk_create ramdisk 0 s n = Inr (0, s') \<and> fs_wf s' k F \<and>
    mset F = mset (block_range (k + 1) RAM_NBLOCKS) \<and>
    fs_files s' = (\<lambda>i. if i < k * INODES_PER_BLOCK then Some empty_file else None)"
  using create_new [OF assms] .

theorem mkfs_create_correct_witness:
  "\<exists>s' F. treedisk_create ramdisk 0 zero_disk 128 = Inr (0, s') \<and> fs_wf s' 2 F \<and>
    mset F = mset (block_range 3 RAM_NBLOCKS) \<and>
    fs_files s' = (\<lambda>i. if i < 128 then Some empty_file else None)"
  using mkfs_create_correct [OF zero_disk_inv, of 2 128]
  by (simp add: INODES_PER_BLOCK_eq RAM_NBLOCKS_eq)

text \<open>
  C2. A read of the file system, at any inode and any offset, is the read of the abstract files:
  the last data written, a block of zeros in a hole, and the error code past the end of the file
  or for an inode that does not exist. It never faults.
\<close>

theorem treedisk_read_refines:
  assumes "fs_wf s k F"
  shows "st_read filesys s i off = Inr (spec_read (fs_files s) i off)"
  using assms by (auto simp: filesys_methods fs_files_def elim!: fs_wfE intro: fsys.read_spec)

theorem treedisk_read_refines_witness:
  "st_read filesys new_disk 5 0 = Inr None \<and> st_read filesys new_disk 500 0 = Inr None"
proof -
  obtain F where F: "fs_wf new_disk 2 F"
    "fs_files new_disk = (\<lambda>i. if i < 128 then Some empty_file else None)"
    using new_disk_wf by metis
  show ?thesis
    using treedisk_read_refines [OF F(1), of 5 0] treedisk_read_refines [OF F(1), of 500 0]
    by (simp add: F(2) spec_read_def empty_file_def)
qed

text \<open>
  C1. A write at any offset but the last one either does what the abstract write does, changing
  that block of that file, growing the file to hold it and leaving every other file alone, with
  the file system well-formed again and at most 11 blocks taken from the free list; or it stops
  with the fatal error of a full disk, and then fewer than 11 blocks were free.
\<close>

theorem treedisk_write_refines:
  assumes "fs_wf s k F" "i < k * INODES_PER_BLOCK" "off + 1 \<noteq> 0" "length b = REFS_PER_BLOCK"
  shows "(st_write filesys s i off b = Inl out_of_blocks \<and> length F < 11) \<or>
    (\<exists>s' F'. st_write filesys s i off b = Inr (0, s') \<and> fs_wf s' k F' \<and> set F' \<subseteq> set F \<and>
       length F \<le> length F' + 11 \<and> fs_files s' = spec_write (fs_files s) i off b)"
proof -
  obtain T where "ram_inv s" "fs_ok (ram_content s) RAM_NBLOCKS k T F"
    using assms(1) by (rule fs_wfE)
  from fsys.write_spec [OF this assms(2,3), of b] assms(4) show ?thesis
    by (auto simp: filesys_methods fs_wf_def fs_files_def)
qed

theorem treedisk_write_refines_witness:
  "\<exists>s' F'. st_write filesys new_disk 5 1000 null_block = Inr (0, s') \<and> fs_wf s' 2 F' \<and>
     fs_files s' = spec_write (fs_files new_disk) 5 1000 null_block"
proof -
  obtain F where F: "fs_wf new_disk 2 F" "length F = 4093"
    using new_disk_wf by metis
  show ?thesis
    using treedisk_write_refines [OF F(1), of 5 1000 null_block] F(2)
    by (auto simp: INODES_PER_BLOCK_eq)
qed

text \<open>
  A write to an inode that does not exist returns the error code and changes nothing.
\<close>

lemma treedisk_write_bad_inode:
  assumes "fs_wf s k F" "\<not> i < k * INODES_PER_BLOCK"
  shows "st_write filesys s i off b = Inr (-1, s) \<and> st_getsize filesys s i = Inr (-1)"
proof -
  obtain T where "ram_inv s" "fs_ok (ram_content s) RAM_NBLOCKS k T F"
    using assms(1) by (rule fs_wfE)
  from fsys.snapshot_none [OF this assms(2)] show ?thesis
    by (simp add: filesys_methods treedisk_write_def treedisk_getsize_def)
qed

lemma treedisk_write_bad_inode_example:
  "st_write filesys new_disk 128 0 null_block = Inr (-1, new_disk)"
proof -
  obtain F where F: "fs_wf new_disk 2 F"
    using new_disk_wf by metis
  show ?thesis
    using treedisk_write_bad_inode [OF F, of 128 0 null_block] by (simp add: INODES_PER_BLOCK_eq)
qed

text \<open>
  C3. Any sequence of writes to existing inodes, with 11 free blocks for each, runs to the end,
  and leaves the files that the abstract writes leave, in the same order.
\<close>

theorem treedisk_writes_refine:
  assumes "fs_wf s k F" "\<forall>w \<in> set ws. valid_write k w" "11 * length ws \<le> length F"
  shows "\<exists>s' F'. run_writes (st_write filesys) s ws = Inr s' \<and> fs_wf s' k F' \<and>
    set F' \<subseteq> set F \<and> length F \<le> length F' + 11 * length ws \<and>
    fs_files s' = spec_writes (fs_files s) ws"
proof -
  obtain T where "ram_inv s" "fs_ok (ram_content s) RAM_NBLOCKS k T F"
    using assms(1) by (rule fs_wfE)
  from fsys.run_writes_spec [OF this assms(2,3)] show ?thesis
    by (fastforce simp: filesys_methods fs_wf_def fs_files_def)
qed

theorem treedisk_writes_refine_witness:
  "\<exists>s' F'. run_writes (st_write filesys) new_disk [(6, 0, null_block), (7, 200, null_block)] = Inr s' \<and>
     fs_wf s' 2 F' \<and> fsize (the (fs_files s' 7)) = 201"
proof -
  obtain F where F: "fs_wf new_disk 2 F" "length F = 4093"
    "fs_files new_disk = (\<lambda>i. if i < 128 then Some empty_file else None)"
    using new_disk_wf by metis
  show ?thesis
    using treedisk_writes_refine [OF F(1), of "[(6, 0, null_block), (7, 200, null_block)]"]
    by (auto simp: F(2,3) valid_write_def INODES_PER_BLOCK_eq spec_writes_def spec_write_def
        write_file_def empty_file_def)
qed

text \<open>
  \<open>getsize\<close> is the number of blocks of the abstract file, as a C \<open>int\<close>, and -1 for an inode
  that does not exist.
\<close>

lemma treedisk_getsize_refines:
  assumes "fs_wf s k F"
  shows "st_getsize filesys s i = Inr (spec_getsize (fs_files s) i)"
  using assms by (auto simp: filesys_methods fs_files_def elim!: fs_wfE intro: fsys.getsize_spec)

lemma treedisk_getsize_refines_example:
  "st_getsize filesys new_disk 3 = Inr 0 \<and> st_getsize filesys new_disk 128 = Inr (-1)"
proof -
  obtain F where F: "fs_wf new_disk 2 F"
    "fs_files new_disk = (\<lambda>i. if i < 128 then Some empty_file else None)"
    using new_disk_wf by metis
  show ?thesis
    using treedisk_getsize_refines [OF F(1), of 3] treedisk_getsize_refines [OF F(1), of 128]
    by (simp add: F(2) spec_getsize_def empty_file_def)
qed

text \<open>
  At the last offset, \<open>2^32 - 1\<close>, the size \<open>offset + 1\<close> wraps to 0: writing there to an
  empty file reports success, and yet the file stays empty and the block cannot be read back.
\<close>

lemma treedisk_write_last_offset_lost:
  assumes "fs_wf s k F" "fs_files s i = Some f" "fsize f = 0" "length b = REFS_PER_BLOCK" "6 \<le> length F"
  shows "\<exists>s'. st_write filesys s i 0xFFFFFFFF b = Inr (0, s') \<and>
    st_read filesys s' i 0xFFFFFFFF = Inr None \<and> st_getsize filesys s' i = Inr 0"
proof -
  obtain T where T: "ram_inv s" "fs_ok (ram_content s) RAM_NBLOCKS k T F"
    using assms(1) by (rule fs_wfE)
  have i: "i < k * INODES_PER_BLOCK"
    using assms(1,2) by (rule fs_filesD)
  then have "disk_nblocks (ram_content s) i = 0"
    using assms(2,3) T(2) by (auto simp: fs_files_def files_of_def file_of_def fs_ok_def)
  from fsys.write_wrap [OF T i _ this, of "0xFFFFFFFF" b] assms(4,5) show ?thesis
    by (simp add: filesys_methods)
qed

lemma treedisk_write_last_offset_lost_example:
  "\<exists>s'. st_write filesys new_disk 9 0xFFFFFFFF null_block = Inr (0, s') \<and>
     st_read filesys s' 9 0xFFFFFFFF = Inr None"
proof -
  obtain F where F: "fs_wf new_disk 2 F" "length F = 4093"
    "fs_files new_disk = (\<lambda>i. if i < 128 then Some empty_file else None)"
    using new_disk_wf by metis
  show ?thesis
    using treedisk_write_last_offset_lost [OF F(1), of 9 empty_file null_block]
    by (auto simp: F(2,3) empty_file_def)
qed

end
