(* ===== verification/Bytes.thy ===== *)
theory Bytes
  imports Prelude
begin

text \<open>
  The little-endian view of memory: the bytes of a list of 32-bit words and back, and C strings
  in a buffer.
\<close>

section \<open>Words and bytes\<close>

definition word_bytes :: "u32 \<Rightarrow> u8 list" where
  "word_bytes w = [ucast w, ucast (drop_bit 8 w), ucast (drop_bit 16 w), ucast (drop_bit 24 w)]"

definition bytes_word :: "u8 \<Rightarrow> u8 \<Rightarrow> u8 \<Rightarrow> u8 \<Rightarrow> u32" where
  "bytes_word a b c d =
     ucast a OR push_bit 8 (ucast b) OR push_bit 16 (ucast c) OR push_bit 24 (ucast d)"

definition bytes_of :: "u32 list \<Rightarrow> u8 list" where
  "bytes_of ws = concat (map word_bytes ws)"

fun words_of :: "u8 list \<Rightarrow> u32 list" where
  "words_of (a # b # c # d # bs) = bytes_word a b c d # words_of bs"
| "words_of _ = []"

lemma word_bytes_bytes_word: "word_bytes (bytes_word a b c d) = [a, b, c, d]"
  by (auto simp: word_bytes_def bytes_word_def intro!: bit_word_eqI)
     (auto simp: bit_simps dest: bit_imp_le_length)

lemma bytes_word_word_bytes:
  assumes "word_bytes w = [a, b, c, d]"
  shows "bytes_word a b c d = w"
proof (rule bit_word_eqI)
  fix n assume n: "n < LENGTH(32)"
  have e: "a = ucast w" "b = ucast (drop_bit 8 w)" "c = ucast (drop_bit 16 w)" "d = ucast (drop_bit 24 w)"
    using assms by (simp_all add: word_bytes_def)
  consider "n < 8" | "8 \<le> n" "n < 16" | "16 \<le> n" "n < 24" | "24 \<le> n" "n < 32"
    using n by fastforce
  then show "bit (bytes_word a b c d) n \<longleftrightarrow> bit w n"
    by cases (auto simp: e bytes_word_def bit_simps)
qed

lemma length_word_bytes [simp]: "length (word_bytes w) = 4"
  by (simp add: word_bytes_def)

lemma length_bytes_of [simp]: "length (bytes_of ws) = 4 * length ws"
  by (induction ws) (simp_all add: bytes_of_def)

lemma words_of_bytes_of [simp]: "words_of (bytes_of ws) = ws"
proof (induction ws)
  case (Cons w ws)
  obtain a b c d where w: "word_bytes w = [a, b, c, d]"
    by (simp add: word_bytes_def)
  have "bytes_of (w # ws) = a # b # c # d # bytes_of ws"
    using w by (simp add: bytes_of_def)
  then show ?case
    using Cons bytes_word_word_bytes [OF w] by simp
qed (simp add: bytes_of_def)

lemma bytes_of_words_of: "4 dvd length bs \<Longrightarrow> bytes_of (words_of bs) = bs"
proof (induction bs rule: words_of.induct)
  case (1 a b c d bs)
  have "length (a # b # c # d # bs) = length bs + 4"
    by simp
  then have "4 dvd length bs"
    using "1.prems" by (simp only: dvd_add_triv_right_iff)
  with 1 show ?case
    by (simp add: bytes_of_def word_bytes_bytes_word)
qed (auto simp: bytes_of_def dest: dvd_imp_le)

lemma length_words_of: "length (words_of bs) = length bs div 4"
  by (induction bs rule: words_of.induct) auto

end
