(* ===== verification/Cstring.thy ===== *)
theory Cstring
  imports Bytes
begin

text \<open>
  C strings: the functions of the C library the programs call, on character lists. A buffer is
  the list of all its characters; a string in it ends at its first null character.
\<close>

definition NUL :: char where
  "NUL = CHR 0x00"

text \<open>The characters before the first null one; \<open>None\<close> when the buffer holds none.\<close>

fun c_str :: "string \<Rightarrow> string option" where
  "c_str [] = None"
| "c_str (c # cs) = (if c = NUL then Some [] else map_option ((#) c) (c_str cs))"

definition strlen :: "string \<Rightarrow> fault + nat" where
  "strlen buf = (case c_str buf of None \<Rightarrow> Inl Undefined | Some s \<Rightarrow> Inr (length s))"

lemma c_str_append: "NUL \<notin> set s \<Longrightarrow> c_str (s @ NUL # r) = Some s"
  by (induction s) auto

lemma c_str_SomeD: "c_str buf = Some s \<Longrightarrow> \<exists>r. buf = s @ NUL # r \<and> NUL \<notin> set s"
proof (induction buf arbitrary: s)
  case (Cons c cs)
  show ?case
  proof (cases "c = NUL")
    case False
    then obtain t where t: "c_str cs = Some t" "s = c # t"
      using Cons.prems by (cases "c_str cs") auto
    then obtain r where "cs = t @ NUL # r" "NUL \<notin> set t"
      using Cons.IH by blast
    then show ?thesis
      using t False by auto
  qed (use Cons.prems in auto)
qed simp

text \<open>Characters and bytes.\<close>

lemma char_of_bytes: "map (char_of \<circ> unat) (map (of_char :: char \<Rightarrow> u8) s) = s"
proof -
  have "unat (of_char c :: u8) = of_char c" for c
    using unat_of_nat_less [of "of_char c :: nat", where ?'a = 8] nat_of_char_less_256 [of c] by (simp add: of_nat_of_char)
  then show ?thesis
    by (simp add: comp_def)
qed

text \<open>\<open>!strncmp(a, b, strlen(a))\<close>, reading \<open>b\<close> only as far as the two agree.\<close>

fun strncmp_eq :: "string \<Rightarrow> string \<Rightarrow> fault + bool" where
  "strncmp_eq [] bs = Inr True"
| "strncmp_eq (a # as) [] = Inl Undefined"
| "strncmp_eq (a # as) (b # bs) = (if a = b then strncmp_eq as bs else Inr False)"

definition char_at :: "string \<Rightarrow> nat \<Rightarrow> fault + char" where
  "char_at s i = (if i < length s then Inr (s ! i) else Inl Undefined)"

section \<open>Numbers\<close>

definition is_digit :: "char \<Rightarrow> bool" where
  "is_digit c \<longleftrightarrow> 48 \<le> (of_char c :: nat) \<and> (of_char c :: nat) \<le> 57"

definition digit_value :: "char \<Rightarrow> int" where
  "digit_value c = int (of_char c) - 48"

definition is_space :: "char \<Rightarrow> bool" where
  "is_space c \<longleftrightarrow> c = CHR '' '' \<or> (9 \<le> (of_char c :: nat) \<and> (of_char c :: nat) \<le> 13)"

fun atoi_digits :: "int \<Rightarrow> string \<Rightarrow> int" where
  "atoi_digits acc [] = acc"
| "atoi_digits acc (c # cs) = (if is_digit c then atoi_digits (acc * 10 + digit_value c) cs else acc)"

definition atoi :: "string \<Rightarrow> int" where
  "atoi s = (let t = dropWhile is_space s in
     case t of
       [] \<Rightarrow> 0
     | c # cs \<Rightarrow> if c = CHR ''-'' then - atoi_digits 0 cs
                else if c = CHR ''+'' then atoi_digits 0 cs else atoi_digits 0 t)"

definition digit_char :: "nat \<Rightarrow> char" where
  "digit_char d = char_of (48 + d)"

text \<open>\<open>%d\<close> of a number that is not negative, and \<open>%4d\<close>.\<close>

fun show_nat :: "nat \<Rightarrow> string" where
  "show_nat n = (if n < 10 then [digit_char n] else show_nat (n div 10) @ [digit_char (n mod 10)])"

declare show_nat.simps [simp del]

definition pad_left :: "nat \<Rightarrow> string \<Rightarrow> string" where
  "pad_left w s = replicate (w - length s) CHR '' '' @ s"

lemma digit_char: "d < 10 \<Longrightarrow> is_digit (digit_char d) \<and> digit_value (digit_char d) = int d"
  by (auto simp: is_digit_def digit_char_def digit_value_def of_char_of)

lemma show_nat_digits: "\<forall>c \<in> set (show_nat n). is_digit c"
proof (induction n rule: show_nat.induct)
  case (1 n)
  show ?case
  proof (cases "n < 10")
    case False
    then show ?thesis
      using "1.IH" digit_char [of "n mod 10"] by (subst show_nat.simps) simp
  qed (simp add: show_nat.simps [of n] digit_char)
qed

lemma show_nat_nonempty: "show_nat n \<noteq> []"
  by (subst show_nat.simps) simp

lemma atoi_digits_append: "\<forall>c \<in> set ds. is_digit c \<Longrightarrow> atoi_digits acc (ds @ r) = atoi_digits (atoi_digits acc ds) r"
  by (induction ds arbitrary: acc) auto

lemma atoi_digits_show: "atoi_digits 0 (show_nat n) = int n"
proof (induction n rule: show_nat.induct)
  case (1 n)
  show ?case
  proof (cases "n < 10")
    case False
    then have "show_nat n = show_nat (n div 10) @ [digit_char (n mod 10)]"
      by (subst show_nat.simps) simp
    then show ?thesis
      using False "1.IH" digit_char [of "n mod 10"] atoi_digits_append [OF show_nat_digits]
      by (simp add: zdiv_int zmod_int)
  qed (simp add: show_nat.simps [of n] digit_char)
qed

lemma digit_not_special: "is_digit c \<Longrightarrow> c \<noteq> CHR ''-'' \<and> c \<noteq> CHR ''+'' \<and> \<not> is_space c \<and> c \<noteq> CHR '' '' \<and> c \<noteq> NUL"
  by (auto simp: is_digit_def is_space_def NUL_def)

lemma atoi_show:
  assumes "\<not> is_digit c"
  shows "atoi (replicate m CHR '' '' @ show_nat n @ c # r) = int n"
proof -
  obtain d ds where d: "show_nat n = d # ds"
    using show_nat_nonempty [of n] by (cases "show_nat n") auto
  then have dd: "is_digit d"
    using show_nat_digits [of n] by simp
  have "dropWhile is_space (replicate m CHR '' '' @ d # xs) = d # xs" for xs
    using digit_not_special [OF dd] by (induction m) (auto simp: is_space_def)
  then have "dropWhile is_space (replicate m CHR '' '' @ show_nat n @ c # r) = show_nat n @ c # r"
    by (simp add: d)
  moreover have "atoi_digits 0 (show_nat n @ c # r) = int n"
    using atoi_digits_append [OF show_nat_digits] atoi_digits_show assms by simp
  ultimately show ?thesis
    using digit_not_special [OF dd] by (simp add: atoi_def d)
qed

lemma length_show_nat: "n < 1000 \<Longrightarrow> length (show_nat n) \<le> 3"
proof -
  assume n: "n < 1000"
  have a: "length (show_nat m) = 1" if "m < 10" for m
    using that by (subst show_nat.simps) simp
  have b: "length (show_nat m) \<le> 2" if "m < 100" for m
    using that a [of "m div 10"] a [of m] by (cases "m < 10") (simp_all add: show_nat.simps [of m])
  show ?thesis
    using n b [of "n div 10"] a [of n] by (cases "n < 10") (simp_all add: show_nat.simps [of n])
qed

section \<open>Words\<close>

text \<open>The words between the spaces of a line; \<open>w\<close> is the word being read.\<close>

fun words_from :: "string \<Rightarrow> string \<Rightarrow> string list" where
  "words_from w [] = (if w = [] then [] else [w])"
| "words_from w (c # cs) =
     (if c = CHR '' '' then (if w = [] then words_from [] cs else w # words_from [] cs)
      else words_from (w @ [c]) cs)"

lemma words_from_word: "CHR '' '' \<notin> set u \<Longrightarrow> words_from w (u @ s) = words_from (w @ u) s"
  by (induction u arbitrary: w) auto

lemma words_from_spaces: "words_from [] (replicate m CHR '' '' @ s) = words_from [] s"
  by (induction m) auto

lemma words_from_good:
  "CHR '' '' \<notin> set w \<Longrightarrow> t \<in> set (words_from w s) \<Longrightarrow> t \<noteq> [] \<and> CHR '' '' \<notin> set t"
  by (induction w s rule: words_from.induct) (auto split: if_splits)

lemma length_words: "length (words_from w s) \<le> Suc (length s)"
  by (induction w s rule: words_from.induct) auto

lemma words_from_nonempty: "w \<noteq> [] \<Longrightarrow> \<exists>u ws. words_from w s = (w @ u) # ws"
proof (induction s arbitrary: w)
  case (Cons c s)
  show ?case
  proof (cases "c = CHR '' ''")
    case True
    then show ?thesis
      using Cons.prems by simp
  next
    case False
    then obtain u ws where "words_from (w @ [c]) s = ((w @ [c]) @ u) # ws"
      using Cons.IH [of "w @ [c]"] by blast
    then show ?thesis
      using False by (intro exI [of _ "c # u"]) simp
  qed
qed simp

lemma words_from_Nil: "words_from [] s = [] \<Longrightarrow> s = [] \<or> last s = CHR '' ''"
proof (induction s)
  case (Cons c s)
  then show ?case
    using words_from_nonempty [of "[c]" s] by (auto split: if_splits)
qed simp

end
