(* ===== verification/Mmu.thy ===== *)
theory Mmu
  imports Prelude
begin

text \<open>
  Memory management of earth/cpu_mmu.c: the table of physical pages, the software TLB that copies
  a process's pages in and out of the user region, and the identity map built from Sv32 page
  tables. The abstract specification is one private memory per process.
\<close>

section \<open>Memory layout\<close>

text \<open>library/egos.h, lines 45 to 56\<close>

definition RAM_END :: u32 where "RAM_END = 0x80600000"
definition APPS_PAGES_BASE :: u32 where "APPS_PAGES_BASE = 0x80400000"
definition APPS_STACK_TOP :: u32 where "APPS_STACK_TOP = 0x80400000"
definition SHELL_WORK_DIR :: u32 where "SHELL_WORK_DIR = 0x80302000"
definition SYSCALL_ARG :: u32 where "SYSCALL_ARG = 0x80301000"
definition APPS_ARG :: u32 where "APPS_ARG = 0x80300000"
definition APPS_ENTRY :: u32 where "APPS_ENTRY = 0x80200000"
definition RAM_START :: u32 where "RAM_START = 0x80000000"

lemmas layout_defs = RAM_END_def APPS_PAGES_BASE_def APPS_STACK_TOP_def SHELL_WORK_DIR_def
  SYSCALL_ARG_def APPS_ARG_def APPS_ENTRY_def RAM_START_def

definition PAGE_SIZE :: u32 where
  "PAGE_SIZE = 4096"

definition PAGE_NO_TO_ADDR :: "u32 \<Rightarrow> u32" where
  "PAGE_NO_TO_ADDR x = x * PAGE_SIZE"

definition PAGE_ID_TO_ADDR :: "u32 \<Rightarrow> u32" where
  "PAGE_ID_TO_ADDR x = APPS_PAGES_BASE + x * PAGE_SIZE"

definition APPS_PAGES_CNT :: nat where
  "APPS_PAGES_CNT = unat ((RAM_END - APPS_PAGES_BASE) div PAGE_SIZE)"

lemma APPS_PAGES_CNT_eq: "APPS_PAGES_CNT = 512"
  by (simp add: APPS_PAGES_CNT_def RAM_END_def APPS_PAGES_BASE_def PAGE_SIZE_def)

section \<open>State\<close>

record page_info =
  pg_use :: i32
  pg_pid :: i32
  vpage_no :: u32

definition null_page_info :: page_info where
  "null_page_info = \<lparr>pg_use = 0, pg_pid = 0, vpage_no = 0\<rparr>"

text \<open>
  Memory is read and written a page at a time, so it maps the address of a page to the page's
  1024 words.
\<close>

type_synonym page = "u32 list"

datatype platform = HARDWARE | QEMU
datatype translation = PAGE_TABLE | SOFT_TLB

record mmu_state =
  page_info_table :: "page_info list"
  mem :: "u32 \<Rightarrow> page"
  curr_vm_pid :: i32
  pt_root :: u32
  pt_leaf :: u32
  pid_to_pagetable_base :: "nat \<Rightarrow> u32"
  plat :: platform

section \<open>Pages\<close>

fun find_free_page :: "page_info list \<Rightarrow> nat \<Rightarrow> nat option" where
  "find_free_page [] i = None"
| "find_free_page (p # ps) i = (if pg_use p = 0 then Some i else find_free_page ps (Suc i))"

definition mmu_alloc :: "mmu_state \<Rightarrow> fault + (u32 \<times> mmu_state)" where
  "mmu_alloc m = (case find_free_page (page_info_table m) 0 of
     Some i \<Rightarrow> Inr (of_nat i,
       m\<lparr>page_info_table := (page_info_table m)[i := (page_info_table m ! i)\<lparr>pg_use := 1\<rparr>]\<rparr>)
   | None \<Rightarrow> Inl (Fatal ''mmu_alloc: no more free memory''))"

definition mmu_free :: "i32 \<Rightarrow> mmu_state \<Rightarrow> mmu_state" where
  "mmu_free pid m = m\<lparr>page_info_table :=
     map (\<lambda>p. if pg_use p \<noteq> 0 \<and> pg_pid p = pid then null_page_info else p) (page_info_table m)\<rparr>"

section \<open>The software TLB\<close>

definition soft_tlb_map :: "i32 \<Rightarrow> u32 \<Rightarrow> u32 \<Rightarrow> mmu_state \<Rightarrow> fault + mmu_state" where
  "soft_tlb_map pid vp ppage_id m =
     (if unat ppage_id < APPS_PAGES_CNT
      then Inr (m\<lparr>page_info_table := (page_info_table m)
             [unat ppage_id := (page_info_table m ! unat ppage_id)\<lparr>pg_pid := pid, vpage_no := vp\<rparr>]\<rparr>)
      else Inl Undefined)"

text \<open>The two loops of \<open>soft_tlb_switch\<close>, at page \<open>i\<close> of the table.\<close>

fun unmap_pages :: "i32 \<Rightarrow> page_info list \<Rightarrow> u32 \<Rightarrow> (u32 \<Rightarrow> page) \<Rightarrow> (u32 \<Rightarrow> page)" where
  "unmap_pages pid [] i mm = mm"
| "unmap_pages pid (p # ps) i mm = unmap_pages pid ps (i + 1)
     (if pg_use p \<noteq> 0 \<and> pg_pid p = pid
      then mm(PAGE_ID_TO_ADDR i := mm (PAGE_NO_TO_ADDR (vpage_no p))) else mm)"

fun map_pages :: "i32 \<Rightarrow> page_info list \<Rightarrow> u32 \<Rightarrow> (u32 \<Rightarrow> page) \<Rightarrow> (u32 \<Rightarrow> page)" where
  "map_pages pid [] i mm = mm"
| "map_pages pid (p # ps) i mm = map_pages pid ps (i + 1)
     (if pg_use p \<noteq> 0 \<and> pg_pid p = pid
      then mm(PAGE_NO_TO_ADDR (vpage_no p) := mm (PAGE_ID_TO_ADDR i)) else mm)"

definition soft_tlb_switch :: "i32 \<Rightarrow> mmu_state \<Rightarrow> mmu_state" where
  "soft_tlb_switch pid m =
     (if pid = curr_vm_pid m then m
      else m\<lparr>mem := map_pages pid (page_info_table m) 0
                     (unmap_pages (curr_vm_pid m) (page_info_table m) 0 (mem m)),
             curr_vm_pid := pid\<rparr>)"

definition soft_tlb_translate :: "i32 \<Rightarrow> u32 \<Rightarrow> mmu_state \<Rightarrow> u32 \<times> mmu_state" where
  "soft_tlb_translate pid vaddr m = (vaddr, soft_tlb_switch pid m)"

section \<open>Page tables\<close>

text \<open>A word of memory at a byte address (a multiple of 4).\<close>

definition page_base :: "u32 \<Rightarrow> u32" where
  "page_base a = a AND 0xFFFFF000"

definition page_word :: "u32 \<Rightarrow> nat" where
  "page_word a = unat (a AND 0xFFF) div 4"

definition rd_word :: "(u32 \<Rightarrow> page) \<Rightarrow> u32 \<Rightarrow> u32" where
  "rd_word mm a = mm (page_base a) ! page_word a"

definition wr_word :: "(u32 \<Rightarrow> page) \<Rightarrow> u32 \<Rightarrow> u32 \<Rightarrow> (u32 \<Rightarrow> page)" where
  "wr_word mm a w = mm(page_base a := (mm (page_base a))[page_word a := w])"

definition USER_RWX :: u32 where
  "USER_RWX = 0xC0 OR 0x1F"

definition MMU_MAX_NPROCESS :: nat where
  "MMU_MAX_NPROCESS = 256"

text \<open>\<open>root[x]\<close> and \<open>leaf[x]\<close>: entry \<open>x\<close> of an array of words at \<open>base\<close>\<close>

definition entry_addr :: "u32 \<Rightarrow> u32 \<Rightarrow> u32" where
  "entry_addr base x = base + x * 4"

fun fill_leaf :: "nat \<Rightarrow> u32 \<Rightarrow> u32 \<Rightarrow> u32 \<Rightarrow> u32 \<Rightarrow> u32 \<Rightarrow> (u32 \<Rightarrow> page) \<Rightarrow> (u32 \<Rightarrow> page)" where
  "fill_leaf 0 i leaf vpn0 addr flag mm = mm"
| "fill_leaf (Suc n) i leaf vpn0 addr flag mm =
     fill_leaf n (i + 1) leaf vpn0 addr flag
       (wr_word mm (entry_addr leaf (vpn0 + i)) (drop_bit 2 (addr + i * PAGE_SIZE) OR flag))"

definition setup_identity_region :: "i32 \<Rightarrow> u32 \<Rightarrow> nat \<Rightarrow> u32 \<Rightarrow> mmu_state \<Rightarrow> fault + mmu_state" where
  "setup_identity_region pid addr npages flag m =
     (let vpn1 = drop_bit 22 addr;
          r = rd_word (mem m) (entry_addr (pt_root m) vpn1) in
      bindr
        (if r AND 1 \<noteq> 0 then Inr (m\<lparr>pt_leaf := push_bit 2 r AND 0xFFFFF000\<rparr>)
         else bindr (mmu_alloc m) (\<lambda>(ppage_id, m1).
           let leaf = PAGE_ID_TO_ADDR ppage_id;
               pit = (page_info_table m1)
                 [unat ppage_id := (page_info_table m1 ! unat ppage_id)\<lparr>pg_pid := pid\<rparr>];
               mm = wr_word ((mem m1)(leaf := replicate 1024 0))
                      (entry_addr (pt_root m1) vpn1) (drop_bit 2 leaf OR 1) in
           Inr (m1\<lparr>page_info_table := pit, mem := mm, pt_leaf := leaf\<rparr>)))
        (\<lambda>m2. let vpn0 = drop_bit 12 addr AND 0x3FF in
           Inr (m2\<lparr>mem := fill_leaf npages 0 (pt_leaf m2) vpn0 addr flag (mem m2)\<rparr>)))"

text \<open>\<open>for (i = RAM_START; i < RAM_END; i += PAGE_SIZE * 1024)\<close>\<close>

function ram_regions :: "u32 \<Rightarrow> u32 list" where
  "ram_regions i = (if i < RAM_END then i # ram_regions (i + PAGE_SIZE * 1024) else [])"
  by pat_completeness auto
termination
proof (relation "measure (\<lambda>i. unat RAM_END - unat i)")
  fix i assume i: "i < RAM_END"
  then have "unat i < 0x80600000"
    by (simp add: RAM_END_def word_less_nat_alt)
  then have "unat (i + PAGE_SIZE * 1024) = unat i + 0x400000"
    by (simp add: PAGE_SIZE_def unat_word_ariths)
  with i show "(i + PAGE_SIZE * 1024, i) \<in> measure (\<lambda>i. unat RAM_END - unat i)"
    by (simp add: word_less_nat_alt)
qed simp

declare ram_regions.simps [simp del]

text \<open>The memory-mapped regions of library/egos.h, lines 59 to 69, as (address, pages).\<close>

definition SDHCI_PCI_ECAM :: u32 where "SDHCI_PCI_ECAM = 0x30008000"
definition SDHCI_BASE :: u32 where "SDHCI_BASE = 0x40000000"
definition SDSPI_BASE :: u32 where "SDSPI_BASE = 0xF0008800"
definition NIC_PCI_ECAM :: u32 where "NIC_PCI_ECAM = 0x30018000"
definition NIC_RX_BUFFER :: u32 where "NIC_RX_BUFFER = 0x90000000"
definition NIC_TX_BUFFER :: u32 where "NIC_TX_BUFFER = 0x90001000"

definition NIC_BASE :: "platform \<Rightarrow> u32" where
  "NIC_BASE p = (if p = QEMU then 0x41000000 else 0xF0002000)"

definition UART_BASE :: "platform \<Rightarrow> u32" where
  "UART_BASE p = (if p = QEMU then 0x10000000 else 0xF0001000)"

definition CLINT_BASE :: "platform \<Rightarrow> u32" where
  "CLINT_BASE p = (if p = QEMU then 0x02000000 else 0xF0010000)"

definition FLASH_ROM_BASE :: "platform \<Rightarrow> u32" where
  "FLASH_ROM_BASE p = (if p = QEMU then 0x22000000 else 0x20400000)"

definition VIDEO_FRAME_BASE :: "platform \<Rightarrow> u32" where
  "VIDEO_FRAME_BASE p = (if p = QEMU then 0x42000000 else 0x80600000)"

definition identity_regions :: "platform \<Rightarrow> (u32 \<times> nat) list" where
  "identity_regions p =
     map (\<lambda>i. (i, 1024)) (ram_regions RAM_START) @
     [(NIC_BASE p, 4), (UART_BASE p, 1), (CLINT_BASE p, 16), (FLASH_ROM_BASE p, 1024),
      (VIDEO_FRAME_BASE p, 512)] @
     (if p = QEMU then [(SDHCI_BASE, 1), (NIC_PCI_ECAM, 1)]
      else [(SDSPI_BASE, 1), (NIC_TX_BUFFER, 1), (NIC_RX_BUFFER, 1)])"

fun setup_regions :: "i32 \<Rightarrow> (u32 \<times> nat) list \<Rightarrow> mmu_state \<Rightarrow> fault + mmu_state" where
  "setup_regions pid [] m = Inr m"
| "setup_regions pid ((addr, n) # rs) m =
     bindr (setup_identity_region pid addr n USER_RWX m) (setup_regions pid rs)"

definition pagetable_identity_map :: "i32 \<Rightarrow> mmu_state \<Rightarrow> fault + mmu_state" where
  "pagetable_identity_map pid m =
     bindr (mmu_alloc m) (\<lambda>(ppage_id, m1).
       if unat pid \<ge> MMU_MAX_NPROCESS then Inl Undefined
       else
         let root = PAGE_ID_TO_ADDR ppage_id;
             pit = (page_info_table m1)
               [unat ppage_id := (page_info_table m1 ! unat ppage_id)\<lparr>pg_pid := pid\<rparr>] in
         setup_regions pid (identity_regions (plat m1))
           (m1\<lparr>page_info_table := pit, pt_root := root,
              pid_to_pagetable_base := (pid_to_pagetable_base m1)(unat pid := root),
              mem := (mem m1)(root := replicate 1024 0)\<rparr>))"

definition page_table_map :: "i32 \<Rightarrow> u32 \<Rightarrow> u32 \<Rightarrow> mmu_state \<Rightarrow> fault + mmu_state" where
  "page_table_map pid vp ppage_id m =
     (if sint pid \<ge> int MMU_MAX_NPROCESS then Inl (Fatal ''page_table_map: pid too large'')
      else soft_tlb_map pid vp ppage_id m)"

definition page_table_switch :: "i32 \<Rightarrow> mmu_state \<Rightarrow> mmu_state" where
  "page_table_switch pid m = soft_tlb_switch pid m"

definition page_table_translate :: "i32 \<Rightarrow> u32 \<Rightarrow> mmu_state \<Rightarrow> u32 \<times> mmu_state" where
  "page_table_translate pid vaddr m = soft_tlb_translate pid vaddr m"

text \<open>
  \<open>mmu_init\<close>: the answer read from the terminal selects the functions of the \<open>earth\<close> table;
  answers other than 0 and 1 are skipped.
\<close>

record mmu_intf =
  mmu_map :: "i32 \<Rightarrow> u32 \<Rightarrow> u32 \<Rightarrow> mmu_state \<Rightarrow> fault + mmu_state"
  mmu_switch :: "i32 \<Rightarrow> mmu_state \<Rightarrow> mmu_state"
  mmu_translate :: "i32 \<Rightarrow> u32 \<Rightarrow> mmu_state \<Rightarrow> u32 \<times> mmu_state"

fun choose_translation :: "string \<Rightarrow> translation option" where
  "choose_translation [] = None"
| "choose_translation (c # cs) =
     (if c = CHR ''0'' then Some PAGE_TABLE
      else if c = CHR ''1'' then Some SOFT_TLB else choose_translation cs)"

definition mmu_init :: "translation \<Rightarrow> mmu_state \<Rightarrow> fault + (mmu_intf \<times> mmu_state)" where
  "mmu_init t m = (case t of
     PAGE_TABLE \<Rightarrow> bindr (pagetable_identity_map 0 m) (\<lambda>m'.
       Inr (\<lparr>mmu_map = page_table_map, mmu_switch = page_table_switch,
             mmu_translate = page_table_translate\<rparr>, m'))
   | SOFT_TLB \<Rightarrow> Inr (\<lparr>mmu_map = soft_tlb_map, mmu_switch = soft_tlb_switch,
             mmu_translate = soft_tlb_translate\<rparr>, m))"

lemma page_base_unat: "unat (page_base a) = unat a div 4096 * 4096"
proof -
  have "0xFFFFF000 = (NOT (mask 12) :: u32)"
    by (simp add: mask_eq_exp_minus_1)
  then have "page_base a = a AND NOT (mask 12)"
    by (simp only: page_base_def)
  then have "page_base a = push_bit 12 (drop_bit 12 a)"
    by (auto simp: bit_simps intro!: bit_word_eqI)
  moreover have "unat (drop_bit 12 a) = unat a div 4096"
    by (simp add: drop_bit_eq_div unat_div_distrib)
  moreover have "unat a < 2 ^ 32"
    using unsigned_less [of a] by simp
  ultimately show ?thesis
    by (simp add: push_bit_eq_mult unat_word_ariths mod_less)
qed

lemma page_base_plus:
  assumes "unat a mod 4096 = 0" "x < 4096"
  shows "page_base (a + of_nat x) = a" "unat (a + of_nat x) mod 4096 = x"
proof -
  obtain q where q: "unat a = 4096 * q"
    using assms(1) by blast
  moreover have "unat a < 2 ^ 32"
    using unsigned_less [of a] by simp
  ultimately have "unat a + x < 2 ^ 32"
    using assms(2) by simp
  then have u: "unat (a + of_nat x) = 4096 * q + x"
    using assms(2) q by (simp add: unat_word_ariths unat_of_nat_less)
  show "unat (a + of_nat x) mod 4096 = x"
    using assms(2) unfolding u by simp
  have "unat (page_base (a + of_nat x)) = unat a"
    using assms(2) unfolding page_base_unat u q by simp
  then show "page_base (a + of_nat x) = a"
    by (simp add: word_unat_eq_iff)
qed

section \<open>The memory of each process\<close>

text \<open>The page frame that holds the page at \<open>va\<close> of process \<open>pid\<close>.\<close>

definition maps_page :: "page_info \<Rightarrow> i32 \<Rightarrow> u32 \<Rightarrow> bool" where
  "maps_page p pid va \<longleftrightarrow> pg_use p \<noteq> 0 \<and> pg_pid p = pid \<and> PAGE_NO_TO_ADDR (vpage_no p) = va"

definition frame_of :: "mmu_state \<Rightarrow> i32 \<Rightarrow> u32 \<Rightarrow> nat option" where
  "frame_of m pid va =
     find (\<lambda>i. maps_page (page_info_table m ! i) pid va) [0 ..< length (page_info_table m)]"

text \<open>
  What process \<open>pid\<close> sees at \<open>va\<close>: its own copy is in the user region while it is mapped, in
  its frame otherwise.
\<close>

definition vmem :: "mmu_state \<Rightarrow> i32 \<Rightarrow> u32 \<Rightarrow> page option" where
  "vmem m pid va = map_option
     (\<lambda>i. if pid = curr_vm_pid m then mem m va else mem m (PAGE_ID_TO_ADDR (of_nat i)))
     (frame_of m pid va)"

definition is_frame_addr :: "u32 \<Rightarrow> bool" where
  "is_frame_addr a \<longleftrightarrow> (\<exists>i < APPS_PAGES_CNT. a = PAGE_ID_TO_ADDR (of_nat i))"

text \<open>
  The invariant for the processes that are switched to: their pages are outside the page frames,
  and no two frames hold the same page.
\<close>

definition pid_ok :: "page_info list \<Rightarrow> i32 \<Rightarrow> bool" where
  "pid_ok ps pid \<longleftrightarrow>
     (\<forall>i < length ps. pg_use (ps ! i) \<noteq> 0 \<longrightarrow> pg_pid (ps ! i) = pid \<longrightarrow>
        \<not> is_frame_addr (PAGE_NO_TO_ADDR (vpage_no (ps ! i))) \<and>
        (\<forall>j < length ps. pg_use (ps ! j) \<noteq> 0 \<longrightarrow> pg_pid (ps ! j) = pid \<longrightarrow>
           PAGE_NO_TO_ADDR (vpage_no (ps ! j)) = PAGE_NO_TO_ADDR (vpage_no (ps ! i)) \<longrightarrow> i = j))"

lemma PAGE_ID_TO_ADDR_inj:
  assumes "i < 512" "j < 512" "PAGE_ID_TO_ADDR (of_nat i) = PAGE_ID_TO_ADDR (of_nat j)"
  shows "i = j"
proof -
  have "unat (of_nat n * PAGE_SIZE :: u32) = n * 4096" if "n < 512" for n
    using that by (simp add: PAGE_SIZE_def unat_word_ariths unat_of_nat_less)
  note u = this
  have "(of_nat i * PAGE_SIZE :: u32) = of_nat j * PAGE_SIZE"
    using assms(3) by (simp add: PAGE_ID_TO_ADDR_def)
  then have "unat (of_nat i * PAGE_SIZE :: u32) = unat (of_nat j * PAGE_SIZE :: u32)"
    by simp
  then show ?thesis
    using u [OF assms(1)] u [OF assms(2)] by simp
qed

definition owned :: "i32 \<Rightarrow> page_info \<Rightarrow> bool" where
  "owned pid p \<longleftrightarrow> pg_use p \<noteq> 0 \<and> pg_pid p = pid"

lemma is_frame_addrI: "i < 512 \<Longrightarrow> is_frame_addr (PAGE_ID_TO_ADDR (of_nat i))"
  by (auto simp: is_frame_addr_def APPS_PAGES_CNT_eq)

lemma unmap_pages_other:
  "(\<And>j. j < length ps \<Longrightarrow> owned pid (ps ! j) \<Longrightarrow> a \<noteq> PAGE_ID_TO_ADDR (of_nat (i + j))) \<Longrightarrow>
   unmap_pages pid ps (of_nat i) mm a = mm a"
proof (induction ps arbitrary: i mm)
  case (Cons p ps)
  have "unmap_pages pid ps (of_nat (Suc i)) mm' a = mm' a" for mm'
    using Cons.prems [of "Suc j" for j] by (intro Cons.IH) auto
  then show ?case
    using Cons.prems [of 0] by (simp add: owned_def add.commute)
qed simp

lemma unmap_pages_at:
  "j < length ps \<Longrightarrow> owned pid (ps ! j) \<Longrightarrow> i + length ps \<le> 512 \<Longrightarrow>
   (\<And>l. l < length ps \<Longrightarrow> owned pid (ps ! l) \<Longrightarrow> \<not> is_frame_addr (PAGE_NO_TO_ADDR (vpage_no (ps ! l)))) \<Longrightarrow>
   unmap_pages pid ps (of_nat i) mm (PAGE_ID_TO_ADDR (of_nat (i + j))) = mm (PAGE_NO_TO_ADDR (vpage_no (ps ! j)))"
proof (induction ps arbitrary: i j mm)
  case (Cons p ps)
  let ?mm = "if owned pid p then mm(PAGE_ID_TO_ADDR (of_nat i) := mm (PAGE_NO_TO_ADDR (vpage_no p))) else mm"
  have step: "unmap_pages pid (p # ps) (of_nat i) mm = unmap_pages pid ps (of_nat (Suc i)) ?mm"
    by (simp add: owned_def add.commute)
  show ?case
  proof (cases j)
    case 0
    have "PAGE_ID_TO_ADDR (of_nat i) \<noteq> PAGE_ID_TO_ADDR (of_nat (Suc i + l))" if "l < length ps" for l
      using PAGE_ID_TO_ADDR_inj [of i "Suc i + l"] that Cons.prems(3) by auto
    then have "unmap_pages pid ps (of_nat (Suc i)) ?mm (PAGE_ID_TO_ADDR (of_nat i)) = ?mm (PAGE_ID_TO_ADDR (of_nat i))"
      by (intro unmap_pages_other) auto
    then show ?thesis
      unfolding step using 0 Cons.prems(2) by simp
  next
    case (Suc l)
    have "\<not> is_frame_addr (PAGE_NO_TO_ADDR (vpage_no (ps ! l)))"
      using Cons.prems(1,2) Cons.prems(4) [of j] Suc by simp
    then have "PAGE_NO_TO_ADDR (vpage_no (ps ! l)) \<noteq> PAGE_ID_TO_ADDR (of_nat i)"
      using is_frame_addrI [of i] Cons.prems(1,3) by auto
    moreover have "unmap_pages pid ps (of_nat (Suc i)) ?mm (PAGE_ID_TO_ADDR (of_nat (Suc i + l))) =
        ?mm (PAGE_NO_TO_ADDR (vpage_no (ps ! l)))"
      using Cons.prems(1-3) Cons.prems(4) [of "Suc n" for n] Suc by (intro Cons.IH) auto
    ultimately show ?thesis
      unfolding step using Suc by simp
  qed
qed simp

lemma map_pages_other:
  "(\<And>j. j < length ps \<Longrightarrow> owned pid (ps ! j) \<Longrightarrow> a \<noteq> PAGE_NO_TO_ADDR (vpage_no (ps ! j))) \<Longrightarrow>
   map_pages pid ps i mm a = mm a"
proof (induction ps arbitrary: i mm)
  case (Cons p ps)
  have "map_pages pid ps (i + 1) mm' a = mm' a" for mm'
    using Cons.prems [of "Suc j" for j] by (intro Cons.IH) auto
  then show ?case
    using Cons.prems [of 0] by (simp add: owned_def)
qed simp

lemma map_pages_at:
  "j < length ps \<Longrightarrow> owned pid (ps ! j) \<Longrightarrow> i + length ps \<le> 512 \<Longrightarrow>
   (\<And>l. l < length ps \<Longrightarrow> owned pid (ps ! l) \<Longrightarrow> \<not> is_frame_addr (PAGE_NO_TO_ADDR (vpage_no (ps ! l)))) \<Longrightarrow>
   (\<And>l. l < length ps \<Longrightarrow> owned pid (ps ! l) \<Longrightarrow>
      PAGE_NO_TO_ADDR (vpage_no (ps ! l)) = PAGE_NO_TO_ADDR (vpage_no (ps ! j)) \<Longrightarrow> l = j) \<Longrightarrow>
   map_pages pid ps (of_nat i) mm (PAGE_NO_TO_ADDR (vpage_no (ps ! j))) = mm (PAGE_ID_TO_ADDR (of_nat (i + j)))"
proof (induction ps arbitrary: i j mm)
  case (Cons p ps)
  let ?mm = "if owned pid p then mm(PAGE_NO_TO_ADDR (vpage_no p) := mm (PAGE_ID_TO_ADDR (of_nat i))) else mm"
  have step: "map_pages pid (p # ps) (of_nat i) mm = map_pages pid ps (of_nat (Suc i)) ?mm"
    by (simp add: owned_def add.commute)
  show ?case
  proof (cases j)
    case 0
    have "PAGE_NO_TO_ADDR (vpage_no p) \<noteq> PAGE_NO_TO_ADDR (vpage_no (ps ! l))"
      if "l < length ps" "owned pid (ps ! l)" for l
      using Cons.prems(5) [of "Suc l"] that 0 by auto
    then have "map_pages pid ps (of_nat (Suc i)) ?mm (PAGE_NO_TO_ADDR (vpage_no p)) =
        ?mm (PAGE_NO_TO_ADDR (vpage_no p))"
      by (rule map_pages_other)
    then show ?thesis
      unfolding step using 0 Cons.prems(2) by simp
  next
    case (Suc l)
    have "owned pid p \<Longrightarrow> \<not> is_frame_addr (PAGE_NO_TO_ADDR (vpage_no p))"
      using Cons.prems(4) [of 0] by simp
    then have "owned pid p \<Longrightarrow> PAGE_ID_TO_ADDR (of_nat (i + j)) \<noteq> PAGE_NO_TO_ADDR (vpage_no p)"
      using is_frame_addrI [of "i + j"] Cons.prems(1,3) by auto
    moreover have "map_pages pid ps (of_nat (Suc i)) ?mm (PAGE_NO_TO_ADDR (vpage_no (ps ! l))) =
        ?mm (PAGE_ID_TO_ADDR (of_nat (Suc i + l)))"
      using Cons.prems(1-3) Cons.prems(4) [of "Suc n" for n] Cons.prems(5) [of "Suc n" for n] Suc
      by (intro Cons.IH) auto
    ultimately show ?thesis
      unfolding step using Suc by auto
  qed
qed simp

lemma frame_of_Some:
  assumes "frame_of m pid va = Some i"
  shows "i < length (page_info_table m)" "owned pid (page_info_table m ! i)"
    "PAGE_NO_TO_ADDR (vpage_no (page_info_table m ! i)) = va"
  using assms by (auto simp: frame_of_def find_Some_iff maps_page_def owned_def)

lemma switch_vmem:
  assumes len: "length (page_info_table m) = APPS_PAGES_CNT"
    and old: "pid_ok (page_info_table m) (curr_vm_pid m)" and new: "pid_ok (page_info_table m) pid"
    and p: "pid_ok (page_info_table m) p"
  shows "vmem (soft_tlb_switch pid m) p va = vmem m p va"
proof (cases "pid = curr_vm_pid m")
  case False
  let ?ps = "page_info_table m" and ?c = "curr_vm_pid m"
  let ?um = "unmap_pages ?c ?ps 0 (mem m)"
  have fr: "frame_of (soft_tlb_switch pid m) p va = frame_of m p va"
    by (simp add: frame_of_def soft_tlb_switch_def)
  have l: "0 + length ?ps \<le> 512"
    using len by (simp add: APPS_PAGES_CNT_eq)
  show ?thesis
  proof (cases "frame_of m p va")
    case (Some i)
    note f = frame_of_Some [OF Some]
    let ?a = "PAGE_ID_TO_ADDR (of_nat i) :: u32"
    have nf: "\<not> is_frame_addr (PAGE_NO_TO_ADDR (vpage_no (?ps ! j)))"
      if "j < length ?ps" "owned q (?ps ! j)" "q \<in> {p, pid, ?c}" for j q
      using that old new p by (auto simp: pid_ok_def owned_def)
    have ifr: "is_frame_addr ?a"
      using f(1) l by (intro is_frame_addrI) simp
    have new_mem: "mem (soft_tlb_switch pid m) = map_pages pid ?ps 0 ?um" "curr_vm_pid (soft_tlb_switch pid m) = pid"
      using False by (simp_all add: soft_tlb_switch_def)
    have um_other: "?um ?a = mem m ?a" if "p \<noteq> ?c"
    proof -
      have "?a \<noteq> PAGE_ID_TO_ADDR (of_nat (0 + j))" if "j < length ?ps" "owned ?c (?ps ! j)" for j
        using PAGE_ID_TO_ADDR_inj [of i j] f(1,2) l that \<open>p \<noteq> ?c\<close> by (auto simp: owned_def)
      then have "unmap_pages ?c ?ps (of_nat 0) (mem m) ?a = mem m ?a"
        by (rule unmap_pages_other)
      then show ?thesis
        by simp
    qed
    have id_mapped: "map_pages pid ?ps 0 ?um ?a = ?um ?a"
      using nf [of _ pid] ifr by (intro map_pages_other) auto
    consider "p = pid" | "p = ?c" "p \<noteq> pid" | "p \<noteq> pid" "p \<noteq> ?c"
      by blast
    then show ?thesis
    proof cases
      case 1
      have "map_pages pid ?ps (of_nat 0) ?um (PAGE_NO_TO_ADDR (vpage_no (?ps ! i))) = ?um (PAGE_ID_TO_ADDR (of_nat (0 + i)))"
        using f l nf [of _ pid] new 1
        by (intro map_pages_at) (auto simp: pid_ok_def owned_def)
      moreover have "?um ?a = mem m ?a"
        using 1 False by (intro um_other) simp
      ultimately show ?thesis
        using 1 f(3) False fr Some new_mem by (simp add: vmem_def)
    next
      case 2
      have "unmap_pages ?c ?ps (of_nat 0) (mem m) (PAGE_ID_TO_ADDR (of_nat (0 + i))) = mem m (PAGE_NO_TO_ADDR (vpage_no (?ps ! i)))"
        using f l nf [of _ ?c] 2 by (intro unmap_pages_at) auto
      then show ?thesis
        using 2 f(3) fr Some new_mem id_mapped by (simp add: vmem_def)
    next
      case 3
      have "?um ?a = mem m ?a"
        using 3 by (intro um_other) simp
      then show ?thesis
        using 3 fr Some new_mem id_mapped by (simp add: vmem_def)
    qed
  qed (simp add: vmem_def fr)
qed (simp add: soft_tlb_switch_def)

lemma is_frame_addr_iff_range: "is_frame_addr a \<Longrightarrow> APPS_PAGES_BASE \<le> a \<and> a < RAM_END"
proof -
  assume "is_frame_addr a"
  then obtain i where i: "i < 512" "a = PAGE_ID_TO_ADDR (of_nat i)"
    by (auto simp: is_frame_addr_def APPS_PAGES_CNT_eq)
  have "unat (of_nat i :: u32) = i"
    using i(1) by (intro unat_of_nat_less) simp
  then have "unat a = 0x80400000 + i * 4096"
    using i by (simp add: PAGE_ID_TO_ADDR_def APPS_PAGES_BASE_def PAGE_SIZE_def unat_word_ariths)
  then show ?thesis
    using i(1) by (simp add: layout_defs word_le_nat_alt word_less_nat_alt)
qed

lemma frame_of_None: "frame_of m pid va = None \<longleftrightarrow> (\<forall>p \<in> set (page_info_table m). \<not> maps_page p pid va)"
  by (auto simp: frame_of_def find_None_iff all_set_conv_all_nth)

lemma find_free_page_spec:
  "find_free_page ps k = Some i \<Longrightarrow> k \<le> i \<and> i - k < length ps \<and> pg_use (ps ! (i - k)) = 0"
proof (induction ps k rule: find_free_page.induct)
  case (2 p ps k)
  show ?case
  proof (cases "pg_use p = 0")
    case False
    then have "Suc k \<le> i \<and> i - Suc k < length ps \<and> pg_use (ps ! (i - Suc k)) = 0"
      using 2 by simp
    then show ?thesis
      by (auto simp: Suc_diff_Suc nth_Cons' Suc_le_eq)
  qed (use 2 in auto)
qed simp

lemma find_free_page_None: "find_free_page ps k = None \<longleftrightarrow> (\<forall>p \<in> set ps. pg_use p \<noteq> 0)"
  by (induction ps k rule: find_free_page.induct) auto

lemma find_cong_set: "(\<And>x. x \<in> set xs \<Longrightarrow> P x = Q x) \<Longrightarrow> find P xs = find Q xs"
  by (induction xs) auto

lemma free_frame_of:
  "frame_of (mmu_free pid m) p va = (if p = pid then None else frame_of m p va)"
proof (cases "p = pid")
  case True
  then show ?thesis
    by (auto simp: frame_of_None mmu_free_def maps_page_def null_page_info_def)
next
  case False
  then show ?thesis
    by (auto simp: frame_of_def mmu_free_def maps_page_def null_page_info_def intro!: find_cong_set)
qed

lemma mmu_free_other: "mem (mmu_free pid m) = mem m" "curr_vm_pid (mmu_free pid m) = curr_vm_pid m"
  by (simp_all add: mmu_free_def)

lemma find_single:
  "i \<in> set xs \<Longrightarrow> P i \<Longrightarrow> (\<And>j. j \<in> set xs \<Longrightarrow> P j \<Longrightarrow> j = i) \<Longrightarrow> find P xs = Some i"
proof -
  assume i: "i \<in> set xs" "P i" and u: "\<And>j. j \<in> set xs \<Longrightarrow> P j \<Longrightarrow> j = i"
  obtain j where j: "find P xs = Some j"
    using i by (metis find_None_iff option.exhaust)
  then have "j \<in> set xs" "P j"
    by (auto simp: find_Some_iff)
  with j u show ?thesis
    by simp
qed

lemma find_free_page_replicate: "0 < n \<Longrightarrow> find_free_page (replicate n null_page_info) k = Some k"
  by (cases n) (simp_all add: null_page_info_def)

lemma alloc_map_effect:
  assumes "mmu_alloc m = Inr (ppage, m1)" "soft_tlb_map pid vp ppage m1 = Inr m2"
    "length (page_info_table m) = APPS_PAGES_CNT" "frame_of m pid (PAGE_NO_TO_ADDR vp) = None"
  shows "pg_use (page_info_table m ! unat ppage) = 0 \<and>
    (\<forall>p va. frame_of m2 p va = (if p = pid \<and> va = PAGE_NO_TO_ADDR vp then Some (unat ppage) else frame_of m p va)) \<and>
    mem m2 = mem m \<and> curr_vm_pid m2 = curr_vm_pid m \<and>
    page_info_table m2 = (page_info_table m)[unat ppage := \<lparr>pg_use = 1, pg_pid = pid, vpage_no = vp\<rparr>] \<and> unat ppage < 512"
proof -
  let ?ps = "page_info_table m"
  obtain i where i: "find_free_page ?ps 0 = Some i" "ppage = of_nat i"
    "m1 = m\<lparr>page_info_table := ?ps[i := (?ps ! i)\<lparr>pg_use := 1\<rparr>]\<rparr>"
    using assms(1) by (auto simp: mmu_alloc_def split: option.splits)
  have b: "i < 512" "pg_use (?ps ! i) = 0"
    using find_free_page_spec [OF i(1)] assms(3) by (simp_all add: APPS_PAGES_CNT_eq)
  have u: "unat ppage = i"
    using i(2) b(1) by (simp add: unat_of_nat_less)
  let ?new = "(?ps ! i)\<lparr>pg_use := 1, pg_pid := pid, vpage_no := vp\<rparr>"
  have l: "length ?ps = 512"
    using assms(3) by (simp add: APPS_PAGES_CNT_eq)
  have m2: "page_info_table m2 = ?ps[i := ?new]" "mem m2 = mem m" "curr_vm_pid m2 = curr_vm_pid m"
    using assms(2) u b(1) i(3) l by (auto simp: soft_tlb_map_def APPS_PAGES_CNT_eq)
  have none: "\<not> maps_page (?ps ! j) pid (PAGE_NO_TO_ADDR vp)" if "j < 512" for j
    using assms(4) that l by (auto simp: frame_of_None)
  have mp: "maps_page (?ps[i := ?new] ! j) p va =
      (if j = i then p = pid \<and> va = PAGE_NO_TO_ADDR vp else maps_page (?ps ! j) p va)" if "j < 512" for j p va
    using that l by (auto simp: maps_page_def nth_list_update)
  have "frame_of m2 p va = (if p = pid \<and> va = PAGE_NO_TO_ADDR vp then Some i else frame_of m p va)" for p va
  proof (cases "p = pid \<and> va = PAGE_NO_TO_ADDR vp")
    case True
    then have "find (\<lambda>j. maps_page (?ps[i := ?new] ! j) p va) [0..<512] = Some i"
      using b(1) none mp by (intro find_single) (auto split: if_splits)
    with True show ?thesis
      by (simp add: frame_of_def m2 l)
  next
    case False
    have "find (\<lambda>j. maps_page (?ps[i := ?new] ! j) p va) [0..<512] = find (\<lambda>j. maps_page (?ps ! j) p va) [0..<512]"
      using False b(2) mp by (intro find_cong_set) (auto simp: maps_page_def)
    with False show ?thesis
      by (auto simp: frame_of_def m2 l)
  qed
  then show ?thesis
    using b u m2 by (cases "?ps ! i") simp
qed

section \<open>Properties\<close>

text \<open>
  C9. Switching the user region from one process to another keeps the memory of every process:
  the pages of the old process are saved to its frames before the new one's are copied in, so
  each process sees the contents it had, wherever they are held.
\<close>

theorem soft_tlb_switch_private:
  assumes "length (page_info_table m) = APPS_PAGES_CNT"
    "pid_ok (page_info_table m) (curr_vm_pid m)" "pid_ok (page_info_table m) pid"
    "pid_ok (page_info_table m) p"
  shows "vmem (soft_tlb_switch pid m) p va = vmem m p va \<and> curr_vm_pid (soft_tlb_switch pid m) = pid \<and>
    (frame_of m pid va \<noteq> None \<longrightarrow> Some (mem (soft_tlb_switch pid m) va) = vmem m pid va)"
proof -
  have "Some (mem (soft_tlb_switch pid m) va) = vmem (soft_tlb_switch pid m) pid va" if "frame_of m pid va \<noteq> None"
  proof -
    have "frame_of (soft_tlb_switch pid m) pid va = frame_of m pid va"
      by (simp add: frame_of_def soft_tlb_switch_def)
    with that show ?thesis
      by (auto simp: vmem_def soft_tlb_switch_def)
  qed
  then show ?thesis
    using switch_vmem [OF assms(1-3)] assms by (simp add: soft_tlb_switch_def)
qed

text \<open>Two processes with one page each, at the same address, for the witnesses.\<close>

definition two_pages :: "i32 \<Rightarrow> i32 \<Rightarrow> u32 \<Rightarrow> mmu_state" where
  "two_pages p q vp = \<lparr>page_info_table = [\<lparr>pg_use = 1, pg_pid = p, vpage_no = vp\<rparr>,
      \<lparr>pg_use = 1, pg_pid = q, vpage_no = vp\<rparr>] @ replicate 510 null_page_info,
     mem = (\<lambda>_. replicate 1024 0), curr_vm_pid = p, pt_root = 0, pt_leaf = 0,
     pid_to_pagetable_base = (\<lambda>_. 0), plat = QEMU\<rparr>"

lemma two_pages_len: "length (page_info_table (two_pages p q vp)) = 512"
  by (simp add: two_pages_def)

lemma two_pages_nth:
  assumes "i < 512" "pg_use (page_info_table (two_pages p q vp) ! i) \<noteq> 0"
  shows "(i = 0 \<and> page_info_table (two_pages p q vp) ! i = \<lparr>pg_use = 1, pg_pid = p, vpage_no = vp\<rparr>) \<or>
    (i = 1 \<and> page_info_table (two_pages p q vp) ! i = \<lparr>pg_use = 1, pg_pid = q, vpage_no = vp\<rparr>)"
proof (cases "i < 2")
  case True
  then show ?thesis
    by (auto simp: two_pages_def less_2_cases_iff)
qed (use assms in \<open>auto simp: two_pages_def nth_append null_page_info_def\<close>)

lemma two_pages_ok:
  assumes "p \<noteq> q" "\<not> is_frame_addr (PAGE_NO_TO_ADDR vp)"
  shows "pid_ok (page_info_table (two_pages p q vp)) r"
  unfolding pid_ok_def two_pages_len
proof (intro allI impI)
  fix i assume i: "i < 512" "pg_use (page_info_table (two_pages p q vp) ! i) \<noteq> 0"
    "pg_pid (page_info_table (two_pages p q vp) ! i) = r"
  have "i = j" if "j < 512" "pg_use (page_info_table (two_pages p q vp) ! j) \<noteq> 0"
    "pg_pid (page_info_table (two_pages p q vp) ! j) = r" for j
    using two_pages_nth [OF i(1,2)] two_pages_nth [OF that(1,2)] i(3) that(3) assms(1) by auto
  then show "\<not> is_frame_addr (PAGE_NO_TO_ADDR (vpage_no (page_info_table (two_pages p q vp) ! i))) \<and>
      (\<forall>j<512. pg_use (page_info_table (two_pages p q vp) ! j) \<noteq> 0 \<longrightarrow>
         pg_pid (page_info_table (two_pages p q vp) ! j) = r \<longrightarrow>
         PAGE_NO_TO_ADDR (vpage_no (page_info_table (two_pages p q vp) ! j)) =
         PAGE_NO_TO_ADDR (vpage_no (page_info_table (two_pages p q vp) ! i)) \<longrightarrow> i = j)"
    using two_pages_nth [OF i(1,2)] assms(2) by auto
qed

definition two_procs :: mmu_state where
  "two_procs = two_pages 5 6 0x80200"

lemma two_procs_ok: "length (page_info_table two_procs) = APPS_PAGES_CNT"
  "pid_ok (page_info_table two_procs) p"
proof -
  have "\<not> is_frame_addr (PAGE_NO_TO_ADDR 0x80200)"
    using is_frame_addr_iff_range [of "PAGE_NO_TO_ADDR 0x80200"]
    by (auto simp: PAGE_NO_TO_ADDR_def PAGE_SIZE_def layout_defs)
  then show "pid_ok (page_info_table two_procs) p"
    by (simp add: two_procs_def two_pages_ok)
qed (simp add: two_procs_def two_pages_len APPS_PAGES_CNT_eq)

theorem soft_tlb_switch_private_witness:
  "vmem (soft_tlb_switch 6 two_procs) 5 0x80200000 = vmem two_procs 5 0x80200000 \<and>
   curr_vm_pid (soft_tlb_switch 6 two_procs) = 6"
  using soft_tlb_switch_private [OF two_procs_ok(1) two_procs_ok(2) two_procs_ok(2) two_procs_ok(2),
      of 6 5 "0x80200000"] by simp

text \<open>
  Freeing the pages of a process removes every page of its memory and no page of another
  process's.
\<close>

lemma mmu_free_exact:
  "vmem (mmu_free pid m) p va = (if p = pid then None else vmem m p va)"
  by (cases "p = curr_vm_pid m") (simp_all add: vmem_def free_frame_of mmu_free_other)

text \<open>
  Allocating a page and mapping it gives process \<open>pid\<close> one new page at its address and
  changes no other page of any process; the page was not in use before.
\<close>

lemma mmu_alloc_map_exact:
  assumes "mmu_alloc m = Inr (ppage, m1)" "soft_tlb_map pid vp ppage m1 = Inr m2"
    "length (page_info_table m) = APPS_PAGES_CNT" "frame_of m pid (PAGE_NO_TO_ADDR vp) = None"
  shows "pg_use (page_info_table m ! unat ppage) = 0 \<and>
    frame_of m2 p va = (if p = pid \<and> va = PAGE_NO_TO_ADDR vp then Some (unat ppage) else frame_of m p va) \<and>
    mem m2 = mem m \<and> curr_vm_pid m2 = curr_vm_pid m"
  using alloc_map_effect [OF assms] by simp

lemma mmu_alloc_map_exact_example:
  "\<exists>m1 m2. mmu_alloc two_procs = Inr (2, m1) \<and> soft_tlb_map 5 0x80201 2 m1 = Inr m2 \<and>
     frame_of m2 5 0x80201000 = Some 2"
proof -
  have a: "mmu_alloc two_procs = Inr (2, two_procs\<lparr>page_info_table := (page_info_table two_procs)
      [2 := null_page_info\<lparr>pg_use := 1\<rparr>]\<rparr>)" (is "_ = Inr (2, ?m1)")
  proof -
    have "find_free_page (replicate 510 null_page_info) (Suc (Suc 0)) = Some (Suc (Suc 0))"
      by (rule find_free_page_replicate) simp
    then show ?thesis
      by (simp add: mmu_alloc_def two_procs_def two_pages_def nth_append)
  qed
  have "\<exists>m2. soft_tlb_map 5 0x80201 2 ?m1 = Inr m2"
    by (simp add: soft_tlb_map_def APPS_PAGES_CNT_eq)
  then obtain m2 where m2: "soft_tlb_map 5 0x80201 2 ?m1 = Inr m2"
    by blast
  have "frame_of two_procs 5 (PAGE_NO_TO_ADDR 0x80201) = None"
    by (auto simp: frame_of_None two_procs_def two_pages_def maps_page_def
        PAGE_NO_TO_ADDR_def PAGE_SIZE_def null_page_info_def)
  from mmu_alloc_map_exact [OF a m2 two_procs_ok(1) this, of 5 "PAGE_NO_TO_ADDR 0x80201"] a m2
  show ?thesis
    by (auto simp: PAGE_NO_TO_ADDR_def PAGE_SIZE_def)
qed

end
