(* ===== verification/Elf.thy ===== *)
theory Elf
  imports Mmu Bytes Inode_Store
begin

text \<open>
  The ELF loader of library/elf/elf.c: it copies the segments of a program into fresh pages of the
  new process and sets up the pages of its arguments, its system calls and its stack. The correctness
  statement is about the bytes the process sees at its virtual addresses.
\<close>

section \<open>Headers\<close>

text \<open>
  A word at a byte offset of the header block: the loader casts \<open>hbuf + e_phoff\<close> to a structure
  of words, so an offset that is not a multiple of 4 or leaves the buffer is undefined.
\<close>

definition hdr_word :: "block \<Rightarrow> u32 \<Rightarrow> fault + u32" where
  "hdr_word hbuf off =
     (if unat off mod 4 = 0 \<and> unat off div 4 < length hbuf then Inr (hbuf ! (unat off div 4)) else Inl Undefined)"

definition e_phoff :: "block \<Rightarrow> u32" where
  "e_phoff hbuf = hbuf ! 7"

definition e_phnum :: "block \<Rightarrow> nat" where
  "e_phnum hbuf = unat (ucast (hbuf ! 11) :: u16)"

record elf32_program_header =
  p_offset :: u32
  p_vaddr :: u32
  p_filesz :: u32
  p_memsz :: u32

definition pheader :: "block \<Rightarrow> nat \<Rightarrow> fault + elf32_program_header" where
  "pheader hbuf i = (let a = e_phoff hbuf + of_nat i * 32 in
     bindr (hdr_word hbuf (a + 4)) (\<lambda>off. bindr (hdr_word hbuf (a + 8)) (\<lambda>va.
     bindr (hdr_word hbuf (a + 16)) (\<lambda>fsz. bindr (hdr_word hbuf (a + 20)) (\<lambda>msz.
       Inr \<lparr>p_offset = off, p_vaddr = va, p_filesz = fsz, p_memsz = msz\<rparr>)))))"

section \<open>Pages\<close>

text \<open>\<open>earth->mmu_map\<close>, as chosen by \<open>mmu_init\<close>\<close>

definition earth_map :: "translation \<Rightarrow> i32 \<Rightarrow> u32 \<Rightarrow> u32 \<Rightarrow> mmu_state \<Rightarrow> fault + mmu_state" where
  "earth_map t = (case t of PAGE_TABLE \<Rightarrow> page_table_map | SOFT_TLB \<Rightarrow> soft_tlb_map)"

definition new_page :: "translation \<Rightarrow> i32 \<Rightarrow> u32 \<Rightarrow> mmu_state \<Rightarrow> fault + (u32 \<times> mmu_state)" where
  "new_page t pid pageno m = bindr (mmu_alloc m) (\<lambda>(ppage_id, m1).
     bindr (earth_map t pid pageno ppage_id m1) (\<lambda>m2. Inr (ppage_id, m2)))"

definition zero_page :: "u32 \<Rightarrow> mmu_state \<Rightarrow> mmu_state" where
  "zero_page ppage_id m = m\<lparr>mem := (mem m)(PAGE_ID_TO_ADDR ppage_id := replicate 1024 0)\<rparr>"

definition new_zero_page :: "translation \<Rightarrow> i32 \<Rightarrow> u32 \<Rightarrow> mmu_state \<Rightarrow> fault + (u32 \<times> mmu_state)" where
  "new_zero_page t pid pageno m =
     bindr (new_page t pid pageno m) (\<lambda>(ppage_id, m1). Inr (ppage_id, zero_page ppage_id m1))"

text \<open>\<open>memcpy(page + off, buf, size)\<close> on the words of a page\<close>

definition page_copy :: "page \<Rightarrow> nat \<Rightarrow> u8 list \<Rightarrow> nat \<Rightarrow> page" where
  "page_copy pg off buf n =
     (let b = bytes_of pg in words_of (take off b @ take n buf @ drop (off + n) b))"

definition copy_into :: "u32 \<Rightarrow> nat \<Rightarrow> u8 list \<Rightarrow> nat \<Rightarrow> mmu_state \<Rightarrow> mmu_state" where
  "copy_into ppage_id off buf n m =
     (let a = PAGE_ID_TO_ADDR ppage_id in m\<lparr>mem := (mem m)(a := page_copy (mem m a) off buf n)\<rparr>)"

fun free_pages :: "mmu_state \<Rightarrow> nat" where
  "free_pages m = length (filter (\<lambda>p. pg_use p = 0) (page_info_table m))"

declare free_pages.simps [simp del]

lemma free_pages_update:
  assumes "i < length ps" "pg_use (ps ! i) = 0" "pg_use x \<noteq> 0"
  shows "length (filter (\<lambda>p. pg_use p = 0) ps) = Suc (length (filter (\<lambda>p. pg_use p = 0) (ps[i := x])))"
  using assms
proof (induction ps arbitrary: i)
  case (Cons p ps)
  then show ?case
    by (cases i) auto
qed simp

lemma filter_use_update:
  "pg_use x = pg_use (ps ! i) \<Longrightarrow> i < length ps \<Longrightarrow>
   length (filter (\<lambda>p. pg_use p = 0) (ps[i := x])) = length (filter (\<lambda>p. pg_use p = 0) ps)"
proof (induction ps arbitrary: i)
  case (Cons p ps)
  then show ?case
    by (cases i) auto
qed simp

lemma mmu_alloc_free: "mmu_alloc m = Inr (pp, m1) \<Longrightarrow> free_pages m = Suc (free_pages m1)"
proof -
  assume "mmu_alloc m = Inr (pp, m1)"
  then obtain i where i: "find_free_page (page_info_table m) 0 = Some i"
    "m1 = m\<lparr>page_info_table := (page_info_table m)[i := (page_info_table m ! i)\<lparr>pg_use := 1\<rparr>]\<rparr>"
    by (auto simp: mmu_alloc_def split: option.splits)
  show ?thesis
    using find_free_page_spec [OF i(1)] i(2)
      free_pages_update [of i "page_info_table m" "(page_info_table m ! i)\<lparr>pg_use := 1\<rparr>"]
    by (simp add: free_pages.simps)
qed

lemma soft_tlb_map_free: "soft_tlb_map pid vp pp m = Inr m1 \<Longrightarrow> free_pages m1 = free_pages m"
proof -
  assume "soft_tlb_map pid vp pp m = Inr m1"
  then have m1: "m1 = m\<lparr>page_info_table := (page_info_table m)
      [unat pp := (page_info_table m ! unat pp)\<lparr>pg_pid := pid, vpage_no := vp\<rparr>]\<rparr>"
    by (auto simp: soft_tlb_map_def split: if_splits)
  show ?thesis
  proof (cases "unat pp < length (page_info_table m)")
    case True
    then show ?thesis
      unfolding free_pages.simps m1 by (simp add: filter_use_update)
  qed (simp add: free_pages.simps m1 list_update_beyond)
qed

lemma earth_map_soft: "earth_map t pid vp pp m = Inr m1 \<Longrightarrow> soft_tlb_map pid vp pp m = Inr m1"
  by (cases t) (auto simp: earth_map_def page_table_map_def split: if_splits)

lemma new_page_free: "new_page t pid vp m = Inr (pp, m1) \<Longrightarrow> free_pages m = Suc (free_pages m1)"
  by (auto simp: new_page_def bindr_eq_Inr_iff dest!: mmu_alloc_free earth_map_soft soft_tlb_map_free)

lemma zero_page_free: "free_pages (zero_page pp m) = free_pages m"
  by (simp add: zero_page_def free_pages.simps)

lemma copy_into_free: "free_pages (copy_into pp off buf n m) = free_pages m"
  by (simp add: copy_into_def free_pages.simps Let_def)

lemma new_zero_page_free: "new_zero_page t pid vp m = Inr (pp, m1) \<Longrightarrow> free_pages m = Suc (free_pages m1)"
  by (auto simp: new_zero_page_def bindr_eq_Inr_iff zero_page_free dest!: new_page_free)

section \<open>Loading\<close>

text \<open>
  The loop over the blocks of a segment: \<open>off\<close> is \<open>b * BLOCK_SIZE\<close> in 32 bits. The loop carries
  the current page number and the page frame; it ends because every eighth block takes one of the
  finitely many free pages.
\<close>

function load_blocks ::
  "translation \<Rightarrow> i32 \<Rightarrow> (u32 \<Rightarrow> block) \<Rightarrow> u32 \<Rightarrow> nat \<Rightarrow> u32 \<Rightarrow> u32 \<Rightarrow> u32 \<Rightarrow> mmu_state \<Rightarrow> fault + (u32 \<times> mmu_state)" where
  "load_blocks t pid reader filesz b curr_pageno curr_blockno ppage_id m =
     (let off = of_nat (b * BLOCK_SIZE) in
      if off < filesz then
        bindr (if b mod 8 = 0
               then bindr (new_zero_page t pid curr_pageno m) (\<lambda>(pp, m1). Inr (curr_pageno + 1, pp, m1))
               else Inr (curr_pageno, ppage_id, m))
          (\<lambda>(pageno, pp, m1).
             let size = (if off + of_nat BLOCK_SIZE < filesz then of_nat BLOCK_SIZE else filesz - off);
                 m2 = copy_into pp (unat (off mod PAGE_SIZE)) (bytes_of (reader curr_blockno)) (unat size) m1 in
             load_blocks t pid reader filesz (Suc b) pageno (curr_blockno + 1) pp m2)
      else Inr (curr_pageno, m))"
  by pat_completeness auto
termination
proof (relation "measure (\<lambda>(t, pid, reader, filesz, b, pn, bn, pp, m). free_pages m * 8 + (8 - b mod 8) mod 8)", goal_cases)
  case (2 t pid reader filesz b curr_pageno curr_blockno ppage_id m off x x1 x2 x3 x4 size m2)
  show ?case
  proof (cases "b mod 8 = 0")
    case True
    then have "free_pages m = Suc (free_pages x4)"
      using 2 by (auto simp: bindr_eq_Inr_iff dest: new_zero_page_free)
    moreover have "Suc b mod 8 = 1"
      using True by (simp add: mod_Suc)
    ultimately show ?thesis
      using 2 True by (simp add: copy_into_free)
  next
    case False
    then have "x4 = m" "b mod 8 < 8"
      using 2 by auto
    then show ?thesis
      using 2 False by (auto simp: copy_into_free mod_Suc)
  qed
qed simp

declare load_blocks.simps [simp del]

text \<open>\<open>while (curr_pageno < end_pageno)\<close>\<close>

function map_rest :: "translation \<Rightarrow> i32 \<Rightarrow> u32 \<Rightarrow> u32 \<Rightarrow> mmu_state \<Rightarrow> fault + mmu_state" where
  "map_rest t pid curr_pageno end_pageno m =
     (if curr_pageno < end_pageno
      then bindr (new_zero_page t pid curr_pageno m) (\<lambda>(pp, m1). map_rest t pid (curr_pageno + 1) end_pageno m1)
      else Inr m)"
  by pat_completeness auto
termination
  by (relation "measure (\<lambda>(t, pid, pn, en, m). unat en - unat pn)")
     (auto simp: unat_plus_one_less word_less_nat_alt)

declare map_rest.simps [simp del]

definition load_segment ::
  "translation \<Rightarrow> i32 \<Rightarrow> (u32 \<Rightarrow> block) \<Rightarrow> elf32_program_header \<Rightarrow> mmu_state \<Rightarrow> fault + mmu_state" where
  "load_segment t pid reader ph m =
     (let addr = p_vaddr ph in
      if addr < RAM_START then Inr m
      else bindr (load_blocks t pid reader (p_filesz ph) 0 (addr div PAGE_SIZE) (p_offset ph div of_nat BLOCK_SIZE) 0 m)
        (\<lambda>(curr_pageno, m1). map_rest t pid curr_pageno ((addr + p_memsz ph) div PAGE_SIZE) m1))"

fun load_segments ::
  "translation \<Rightarrow> i32 \<Rightarrow> (u32 \<Rightarrow> block) \<Rightarrow> block \<Rightarrow> nat \<Rightarrow> nat \<Rightarrow> mmu_state \<Rightarrow> fault + mmu_state" where
  "load_segments t pid reader hbuf 0 i m = Inr m"
| "load_segments t pid reader hbuf (Suc n) i m =
     bindr (pheader hbuf i) (\<lambda>ph. bindr (load_segment t pid reader ph m)
       (load_segments t pid reader hbuf n (Suc i)))"

section \<open>Arguments, system call page and stack\<close>

definition CMD_NARGS :: nat where "CMD_NARGS = 16"
definition CMD_ARG_LEN :: nat where "CMD_ARG_LEN = 32"

definition arg_addr :: "nat \<Rightarrow> u32" where
  "arg_addr i = APPS_ARG + 4 + 4 * of_nat CMD_NARGS + of_nat (i * CMD_ARG_LEN)"

fun set_argv :: "nat \<Rightarrow> nat \<Rightarrow> page \<Rightarrow> page" where
  "set_argv 0 i pg = pg"
| "set_argv (Suc n) i pg = set_argv n (Suc i) (pg[Suc i := arg_addr i])"

text \<open>
  The page of the arguments: the count, the pointers and the strings, at most as many as a page
  holds. \<open>argv\<close> is the caller's array of 32-byte strings, \<open>None\<close> for a null pointer.
\<close>

definition arg_page :: "nat \<Rightarrow> u8 list option \<Rightarrow> page \<Rightarrow> fault + page" where
  "arg_page argc argv pg =
     (let pg1 = pg[0 := of_nat argc] in
      bindr (case argv of None \<Rightarrow> Inr pg1
        | Some bs \<Rightarrow>
            if argc * CMD_ARG_LEN \<le> length bs \<and> 4 + 4 * CMD_NARGS + argc * CMD_ARG_LEN \<le> 4096
            then Inr (page_copy pg1 (4 + 4 * CMD_NARGS) bs (argc * CMD_ARG_LEN))
            else Inl Undefined)
        (\<lambda>pg2. if argc < length pg2 then Inr (set_argv argc 0 pg2) else Inl Undefined))"

fun stack_pages :: "translation \<Rightarrow> i32 \<Rightarrow> nat \<Rightarrow> u32 \<Rightarrow> mmu_state \<Rightarrow> fault + mmu_state" where
  "stack_pages t pid 0 i m = Inr m"
| "stack_pages t pid (Suc n) i m =
     bindr (new_page t pid (APPS_STACK_TOP div PAGE_SIZE - i) m) (\<lambda>(pp, m1). stack_pages t pid n (i + 1) m1)"

definition load_tail :: "translation \<Rightarrow> i32 \<Rightarrow> nat \<Rightarrow> u8 list option \<Rightarrow> mmu_state \<Rightarrow> fault + mmu_state" where
  "load_tail t pid argc argv m =
     bindr (new_page t pid (APPS_ARG div PAGE_SIZE) m) (\<lambda>(pp, m1).
     bindr (arg_page argc argv (mem m1 (PAGE_ID_TO_ADDR pp))) (\<lambda>pg.
     bindr (new_page t pid (SYSCALL_ARG div PAGE_SIZE) (m1\<lparr>mem := (mem m1)(PAGE_ID_TO_ADDR pp := pg)\<rparr>))
       (\<lambda>(pp2, m2). stack_pages t pid 2 1 m2)))"

definition elf_load ::
  "translation \<Rightarrow> i32 \<Rightarrow> (u32 \<Rightarrow> block) \<Rightarrow> nat \<Rightarrow> u8 list option \<Rightarrow> mmu_state \<Rightarrow> fault + mmu_state" where
  "elf_load t pid reader argc argv m =
     bindr (load_segments t pid reader (reader 0) (e_phnum (reader 0)) 0 m) (load_tail t pid argc argv)"

end
