(* ===== verification/Sys_Shell.thy ===== *)
theory Sys_Shell
  imports Cstring Elf
begin

text \<open>
  The shell of apps/system/sys_shell.c: how it turns a line into the argument table of a request (16
  arguments of 32 characters each), what each line makes it do, and when it waits for the command.
\<close>


definition blank_arg :: string where "blank_arg = replicate CMD_ARG_LEN NUL"

text \<open>\<open>req->argv[n][i] = c\<close>\<close>

definition set_arg :: "nat \<Rightarrow> nat \<Rightarrow> char \<Rightarrow> string list \<Rightarrow> fault + string list" where
  "set_arg n i c argv =
     (if n < length argv \<and> i < length (argv ! n) then Inr (argv[n := (argv ! n)[i := c]]) else Inl Undefined)"

text \<open>The loop of \<open>parse_request\<close>; \<open>None\<close> is its error result.\<close>

fun parse_loop :: "string \<Rightarrow> string list \<Rightarrow> nat \<Rightarrow> nat \<Rightarrow> fault + (nat \<times> string list) option" where
  "parse_loop [] argv nargs idx = Inr (Some (if idx \<noteq> 0 then nargs + 1 else nargs, argv))"
| "parse_loop (c # cs) argv nargs idx =
     (if c \<noteq> CHR '' '' then
        bindr (set_arg nargs idx c argv) (\<lambda>argv.
          if idx + 1 \<ge> CMD_ARG_LEN then Inr None else parse_loop cs argv nargs (idx + 1))
      else if idx \<noteq> 0 then
        bindr (set_arg nargs idx NUL argv) (\<lambda>argv.
          if nargs + 1 \<ge> CMD_NARGS then Inr None else parse_loop cs argv (nargs + 1) 0)
      else parse_loop cs argv nargs idx)"

definition parse_request :: "string \<Rightarrow> fault + (nat \<times> string list) option" where
  "parse_request buf = (case c_str buf of
     None \<Rightarrow> Inl Undefined
   | Some line \<Rightarrow> parse_loop line (replicate CMD_NARGS blank_arg) 0 0)"

section \<open>Requests\<close>

record proc_request =
  req_type :: u32
  req_argc :: nat
  req_argv :: "string list"

definition PROC_SPAWN :: u32 where "PROC_SPAWN = 0"
definition PROC_EXIT :: u32 where "PROC_EXIT = 1"
definition PROC_KILLALL :: u32 where "PROC_KILLALL = 2"

definition CMD_OK :: u32 where "CMD_OK = 0"
definition CMD_ERROR :: u32 where "CMD_ERROR = 1"

text \<open>\<open>req.argv[req.argc - 1][0] == '&'\<close>: without arguments this reads before the table.\<close>

definition last_arg_amp :: "proc_request \<Rightarrow> fault + bool" where
  "last_arg_amp req =
     (if 0 < req_argc req \<and> req_argc req \<le> length (req_argv req)
      then bindr (char_at (req_argv req ! (req_argc req - 1)) 0) (\<lambda>c. Inr (c = CHR ''&''))
      else Inl Undefined)"

text \<open>What one line makes the shell do, up to the request it sends.\<close>

datatype shell_action = Built_in | Kill_All proc_request | Clear | Print_Dir | Bad_Line | Spawn proc_request

definition shell_line :: "string \<Rightarrow> fault + shell_action" where
  "shell_line buf = (case c_str buf of
     None \<Rightarrow> Inl Undefined
   | Some line \<Rightarrow>
       if line = ''coresinfo'' then Inr Built_in
       else if line = ''killall'' then Inr (Kill_All \<lparr>req_type = PROC_KILLALL, req_argc = 0, req_argv = []\<rparr>)
       else if line = ''clear'' then Inr Clear
       else if line = ''pwd'' then Inr Print_Dir
       else bindr (parse_request buf) (\<lambda>r. case r of
           None \<Rightarrow> Inr Bad_Line
         | Some (argc, argv) \<Rightarrow> Inr (Spawn \<lparr>req_type = PROC_SPAWN, req_argc = argc, req_argv = argv\<rparr>)))"

text \<open>Whether the shell waits for a second message after the reply to a request.\<close>

definition shell_waits :: "proc_request \<Rightarrow> u32 \<Rightarrow> fault + bool" where
  "shell_waits req reply = (if reply \<noteq> CMD_OK then Inr False else bindr (last_arg_amp req) (\<lambda>amp. Inr (\<not> amp)))"

section \<open>The table of a list of words\<close>

definition arg_slot :: "string \<Rightarrow> string" where
  "arg_slot w = w @ replicate (CMD_ARG_LEN - length w) NUL"

definition arg_table :: "string list \<Rightarrow> string list" where
  "arg_table ws = map arg_slot ws @ replicate (CMD_NARGS - length ws) blank_arg"

text \<open>One more for a space at the end of the line.\<close>

definition closing :: "string \<Rightarrow> nat" where
  "closing s = (if s \<noteq> [] \<and> last s = CHR '' '' then 1 else 0)"

lemma closing_Cons: "closing (c # s) = (if s = [] then (if c = CHR '' '' then 1 else 0) else closing s)"
  by (simp add: closing_def)

lemma arg_slot_Nil: "arg_slot [] = blank_arg"
  by (simp add: arg_slot_def blank_arg_def)

lemma arg_slot_update: "length w < CMD_ARG_LEN \<Longrightarrow> (arg_slot w)[length w := c] = (if c = NUL then arg_slot w else arg_slot (w @ [c]))"
  by (cases "CMD_ARG_LEN - length w") (auto simp: arg_slot_def list_update_append)

lemma length_arg_slot: "length w < CMD_ARG_LEN \<Longrightarrow> length (arg_slot w) = CMD_ARG_LEN"
  by (simp add: arg_slot_def)

text \<open>The table while the word \<open>w\<close> is being read.\<close>

abbreviation partial :: "string list \<Rightarrow> string \<Rightarrow> string list" where
  "partial ws w \<equiv> map arg_slot ws @ arg_slot w # replicate (CMD_NARGS - Suc (length ws)) blank_arg"

lemma partial_Nil: "length ws < CMD_NARGS \<Longrightarrow> partial ws [] = arg_table ws"
  by (cases "CMD_NARGS - length ws") (auto simp: arg_table_def arg_slot_Nil)

lemma set_arg_partial:
  "length w < CMD_ARG_LEN \<Longrightarrow>
   set_arg (length ws) (length w) c (partial ws w) = Inr (if c = NUL then partial ws w else partial ws (w @ [c]))"
  by (simp add: set_arg_def length_arg_slot arg_slot_update list_update_append nth_append)

lemma parse_loop_words:
  assumes "length ws < CMD_NARGS" "length w < CMD_ARG_LEN" "NUL \<notin> set s"
  shows "parse_loop s (partial ws w) (length ws) (length w) =
    (let us = words_from w s in
     Inr (if (\<forall>u \<in> set us. length u < CMD_ARG_LEN) \<and> length ws + length us + closing s \<le> CMD_NARGS
          then Some (length ws + length us, arg_table (ws @ us)) else None))"
  using assms
proof (induction s arbitrary: ws w)
  case Nil
  then show ?case
    using partial_Nil [of ws] by (cases "w = []") (simp_all add: closing_def arg_table_def Let_def)
next
  case (Cons c s)
  have c: "c \<noteq> NUL" "NUL \<notin> set s"
    using Cons.prems by auto
  consider "c \<noteq> CHR '' ''" | "c = CHR '' ''" "w = []" | "c = CHR '' ''" "w \<noteq> []"
    by blast
  then show ?case
  proof cases
    case 1
    have cl: "closing (c # s) = closing s"
      using 1 by (simp add: closing_def)
    have step: "parse_loop (c # s) (partial ws w) (length ws) (length w) =
        (if CMD_ARG_LEN \<le> length w + 1 then Inr None
         else parse_loop s (partial ws (w @ [c])) (length ws) (length (w @ [c])))"
      using 1 c(1) by (simp add: set_arg_partial [OF Cons.prems(2)])
    show ?thesis
    proof (cases "CMD_ARG_LEN \<le> length w + 1")
      case True
      obtain u us where "words_from (w @ [c]) s = ((w @ [c]) @ u) # us"
        using words_from_nonempty [of "w @ [c]" s] by blast
      then show ?thesis
        using True step 1 by simp
    next
      case False
      then show ?thesis
        using Cons.IH [OF Cons.prems(1) _ c(2), of "w @ [c]"] 1 cl by (simp only: step) (simp add: Let_def)
    qed
  next
    case 2
    have "words_from [] s = [] \<Longrightarrow> closing s = (if s = [] then 0 else 1)"
      using words_from_Nil [of s] by (auto simp: closing_def)
    then have "length ws + length (words_from [] s) + closing (c # s) \<le> CMD_NARGS \<longleftrightarrow>
        length ws + length (words_from [] s) + closing s \<le> CMD_NARGS"
      using Cons.prems(1) by (auto simp: closing_Cons)
    then show ?thesis
      using Cons.IH [OF Cons.prems(1,2) c(2)] 2 by (simp add: Let_def)
  next
    case 3
    have step: "parse_loop (c # s) (partial ws w) (length ws) (length w) =
        (if CMD_NARGS \<le> length ws + 1 then Inr None
         else parse_loop s (partial (ws @ [w]) []) (length (ws @ [w])) (length ([] :: string)))"
      using 3 partial_Nil [of "ws @ [w]"]
      by (simp add: set_arg_partial [OF Cons.prems(2), where c = NUL] arg_table_def)
    have more: "0 < length (words_from [] s) + closing (c # s)"
      using words_from_Nil [of s] 3 by (auto simp: closing_def)
    show ?thesis
    proof (cases "CMD_NARGS \<le> length ws + 1")
      case True
      then have "\<not> length ws + length (words_from w (c # s)) + closing (c # s) \<le> CMD_NARGS"
        using more 3 by (simp del: length_greater_0_conv add_gr_0)
      then show ?thesis
        unfolding step using True by (auto simp: Let_def)
    next
      case False
      have zero: "length ([] :: string) < CMD_ARG_LEN"
        by (simp add: CMD_ARG_LEN_def)
      have "length ws + length (words_from w (c # s)) + closing (c # s) \<le> CMD_NARGS \<longleftrightarrow>
          length (ws @ [w]) + length (words_from [] s) + closing s \<le> CMD_NARGS"
        using False 3 by (auto simp: closing_Cons closing_def)
      then show ?thesis
        unfolding step using False Cons.IH [OF _ zero c(2), of "ws @ [w]"] 3 Cons.prems(2) by (simp add: Let_def)
    qed
  qed
qed

section \<open>Property\<close>

text \<open>
  C27. A line of the shell becomes exactly the words between its spaces, each ended by a null
  character in its own slot and every other slot blank, and no store goes outside the table. The
  request is refused just when a word has 32 characters or more or when there are more than 16
  words, a space at the end of the line counting as a word.
\<close>

theorem parse_request_words:
  assumes "NUL \<notin> set line"
  shows "parse_request (line @ NUL # pad) =
    Inr (if (\<forall>u \<in> set (words_from [] line). length u < 32) \<and> length (words_from [] line) + closing line \<le> 16
         then Some (length (words_from [] line), arg_table (words_from [] line)) else None)"
proof -
  have "replicate CMD_NARGS blank_arg = partial [] []"
    by (simp add: CMD_NARGS_def arg_slot_Nil flip: replicate_Suc)
  then show ?thesis
    using parse_loop_words [of "[]" "[]" line] assms
    by (simp add: parse_request_def c_str_append CMD_NARGS_def CMD_ARG_LEN_def Let_def)
qed

theorem parse_request_words_witness:
  "parse_request (''cat  README &'' @ NUL # replicate 498 NUL) = Inr (Some (3, arg_table [''cat'', ''README'', ''&'']))"
  using parse_request_words [of "''cat  README &''" "replicate 498 NUL"] by (simp add: NUL_def closing_def)

end
