(* ===== verification/Directory.thy ===== *)
theory Directory
  imports Cstring
begin

text \<open>
  Directories: a directory is a block of text, entries such as \<open>home/   1 \<close> one after the other,
  written by tools/mkfs.c and searched by \<open>dir_lookup\<close> of library/syscall/servers.c.
\<close>

section \<open>Looking a name up\<close>

text \<open>
  The loop of \<open>dir_lookup\<close> at index \<open>i\<close>, with \<open>n\<close> indices left. Its bound is unsigned, so a
  name longer than the directory makes it run far past the buffer.
\<close>

fun dir_scan :: "string \<Rightarrow> string \<Rightarrow> nat \<Rightarrow> nat \<Rightarrow> fault + int" where
  "dir_scan name buf 0 i = Inr (-1)"
| "dir_scan name buf (Suc n) i =
     (if i > length buf then Inl Undefined
      else bindr (strncmp_eq name (drop i buf)) (\<lambda>eq.
        if \<not> eq then dir_scan name buf n (i + 1)
        else bindr (char_at buf (i + length name)) (\<lambda>c.
          if c = CHR '' '' \<and> (i = 0 \<or> buf ! (i - 1) = CHR '' '')
          then Inr (atoi (drop (i + length name) buf))
          else dir_scan name buf n (i + 1))))"

definition dir_lookup :: "string \<Rightarrow> string \<Rightarrow> fault + int" where
  "dir_lookup buf name =
     bindr (strlen buf) (\<lambda>len. dir_scan name buf (unat (of_nat len - of_nat (length name) :: u32)) 0)"

section \<open>Building a directory\<close>

text \<open>\<open>sprintf(tmp, "%s%4d ", name, ino)\<close>, appended to the directory by \<open>strcat\<close>.\<close>

definition dir_entry :: "string \<Rightarrow> nat \<Rightarrow> string" where
  "dir_entry name ino = name @ pad_left 4 (show_nat ino) @ '' ''"

definition dir_text :: "(string \<times> nat) list \<Rightarrow> string" where
  "dir_text es = concat (map (\<lambda>(name, ino). dir_entry name ino) es)"

section \<open>The search over a text\<close>

text \<open>
  The search on the rest \<open>s\<close> of a directory: \<open>p\<close> says that the character before it is a space
  or that there is none. It returns what follows the name.
\<close>

fun search :: "string \<Rightarrow> bool \<Rightarrow> string \<Rightarrow> string option" where
  "search name p [] = None"
| "search name p (c # cs) =
     (if p \<and> (\<exists>r. c # cs = name @ CHR '' '' # r) then Some (drop (length name) (c # cs))
      else search name (c = CHR '' '') cs)"

lemma strncmp_eq_take:
  "NUL \<notin> set name \<Longrightarrow> strncmp_eq name (s @ NUL # r) = Inr (take (length name) s = name)"
proof (induction name arbitrary: s)
  case (Cons a name)
  then show ?case
    by (cases s) auto
qed simp

lemma take_eq_name: "take (length name) s = name \<Longrightarrow> length name < length s \<Longrightarrow> s ! length name = CHR '' '' \<Longrightarrow>
  \<exists>r. s = name @ CHR '' '' # r"
  by (metis append_take_drop_id Cons_nth_drop_Suc)

lemma dir_scan_search:
  assumes name: "NUL \<notin> set name" and dtxt: "NUL \<notin> set dtxt"
    and i: "i + length name \<le> length dtxt" "n = length dtxt - length name - i"
  shows "dir_scan name (dtxt @ NUL # pad) n i =
    (case search name (i = 0 \<or> dtxt ! (i - 1) = CHR '' '') (drop i dtxt) of
       None \<Rightarrow> Inr (-1) | Some r \<Rightarrow> Inr (atoi (r @ NUL # pad)))"
  using i
proof (induction n arbitrary: i)
  case 0
  then have l: "length (drop i dtxt) = length name"
    by simp
  have "search name p s = None" if "length s \<le> length name" for p s
    using that by (induction s arbitrary: p) (auto dest: arg_cong [of _ _ length])
  then show ?case
    using l by simp
next
  case (Suc n)
  let ?buf = "dtxt @ NUL # pad" and ?s = "drop i dtxt" and ?p = "i = 0 \<or> dtxt ! (i - 1) = CHR '' ''"
  have il: "i < length dtxt" "i + length name < length dtxt"
    using Suc.prems by simp_all
  then have s: "?s = dtxt ! i # drop (Suc i) dtxt" "drop i ?buf = ?s @ NUL # pad"
    by (simp_all add: Cons_nth_drop_Suc)
  have eq: "strncmp_eq name (drop i ?buf) = Inr (take (length name) ?s = name)"
    unfolding s(2) using name by (rule strncmp_eq_take)
  have c: "char_at ?buf (i + length name) = Inr (?s ! length name)"
    using il by (simp add: char_at_def nth_append)
  have prev: "i \<noteq> 0 \<Longrightarrow> ?buf ! (i - 1) = dtxt ! (i - 1)"
    using il by (auto simp: nth_append)
  have nn: "i + 1 + length name \<le> length dtxt" "n = length dtxt - length name - (i + 1)"
    using Suc.prems il by linarith+
  have ih: "dir_scan name ?buf n (i + 1) = (case search name (dtxt ! i = CHR '' '') (drop (Suc i) dtxt) of
      None \<Rightarrow> Inr (-1) | Some r \<Rightarrow> Inr (atoi (r @ NUL # pad)))"
    using Suc.IH [of "i + 1", OF nn] by simp
  have hit: "(\<exists>r. ?s = name @ CHR '' '' # r) \<longleftrightarrow> take (length name) ?s = name \<and> ?s ! length name = CHR '' ''"
  proof
    assume "\<exists>r. ?s = name @ CHR '' '' # r"
    then obtain r where "?s = name @ CHR '' '' # r"
      by blast
    then show "take (length name) ?s = name \<and> ?s ! length name = CHR '' ''"
      by simp
  next
    assume "take (length name) ?s = name \<and> ?s ! length name = CHR '' ''"
    then show "\<exists>r. ?s = name @ CHR '' '' # r"
      using il take_eq_name [of name ?s] by simp
  qed
  have q: "(i = 0 \<or> ?buf ! (i - 1) = CHR '' '') = ?p"
    using prev by (cases "i = 0") simp_all
  have rest: "drop (i + length name) ?buf = drop (length name) ?s @ NUL # pad"
    using il by (simp add: add.commute)
  have step: "dir_scan name ?buf (Suc n) i =
      (if take (length name) ?s = name \<and> ?s ! length name = CHR '' '' \<and> ?p
       then Inr (atoi (drop (length name) ?s @ NUL # pad)) else dir_scan name ?buf n (i + 1))"
    unfolding dir_scan.simps(2) eq c q rest using il by auto
  have srch: "search name ?p ?s = (if ?p \<and> (\<exists>r. ?s = name @ CHR '' '' # r)
      then Some (drop (length name) ?s) else search name (dtxt ! i = CHR '' '') (drop (Suc i) dtxt))"
    using search.simps(2) [of name ?p "dtxt ! i" "drop (Suc i) dtxt"] unfolding s(1) [symmetric] .
  show ?case
    unfolding step srch hit ih by (cases ?p) simp_all
qed

lemma dir_lookup_search:
  assumes "NUL \<notin> set name" "NUL \<notin> set dtxt" "length name \<le> length dtxt" "length dtxt < 2 ^ 32"
  shows "dir_lookup (dtxt @ NUL # pad) name =
    (case search name True dtxt of None \<Rightarrow> Inr (-1) | Some r \<Rightarrow> Inr (atoi (r @ NUL # pad)))"
proof -
  have "unat (of_nat (length dtxt) - of_nat (length name) :: u32) = length dtxt - length name"
    using assms(3,4) by (simp add: unat_sub_if' unat_of_nat_less word_le_nat_alt of_nat_le_iff)
  moreover have "strlen (dtxt @ NUL # pad) = Inr (length dtxt)"
    using assms(2) by (simp add: strlen_def c_str_append)
  ultimately show ?thesis
    using dir_scan_search [OF assms(1,2), of 0 "length dtxt - length name" pad] assms(3)
    by (simp add: dir_lookup_def)
qed

section \<open>The search over entries\<close>

lemma search_skip:
  "CHR '' '' \<notin> set w \<Longrightarrow> search name False (w @ CHR '' '' # r) = search name True r"
  by (induction w) auto

lemma search_word:
  assumes "CHR '' '' \<notin> set w" "w \<noteq> []" "CHR '' '' \<notin> set name" "name \<noteq> []"
  shows "search name True (w @ CHR '' '' # r) = (if w = name then Some (CHR '' '' # r) else search name True r)"
proof -
  obtain c cs where w: "w = c # cs"
    using assms(2) by (cases w) auto
  have "w @ CHR '' '' # r = name @ CHR '' '' # q \<longleftrightarrow> w = name \<and> r = q" for q
  proof
    assume e: "w @ CHR '' '' # r = name @ CHR '' '' # q"
    then have "takeWhile (\<lambda>c. c \<noteq> CHR '' '') (w @ CHR '' '' # r) = takeWhile (\<lambda>c. c \<noteq> CHR '' '') (name @ CHR '' '' # q)"
      by simp
    moreover have "\<forall>x \<in> set w. x \<noteq> CHR '' ''" "\<forall>x \<in> set name. x \<noteq> CHR '' ''"
      using assms(1,3) by blast+
    ultimately have "w = name"
      by (simp add: takeWhile_append)
    with e show "w = name \<and> r = q"
      by simp
  qed simp
  then show ?thesis
    using assms w search_skip [of cs name r] by (cases "w = name") auto
qed

lemma search_spaces: "name \<noteq> [] \<Longrightarrow> CHR '' '' \<notin> set name \<Longrightarrow> search name True (replicate m CHR '' '' @ r) = search name True r"
  by (induction m) (auto simp: Cons_eq_append_conv)

definition good_name :: "string \<Rightarrow> bool" where
  "good_name name \<longleftrightarrow> name \<noteq> [] \<and> CHR '' '' \<notin> set name \<and> NUL \<notin> set name \<and> \<not> list_all is_digit name"

lemma lookup_entries:
  assumes "good_name name" "\<forall>(nm, ino) \<in> set es. good_name nm \<and> ino < 1000"
  shows "(case search name True (dir_text es) of None \<Rightarrow> -1 | Some r \<Rightarrow> atoi (r @ pad)) =
    (case map_of es name of None \<Rightarrow> -1 | Some ino \<Rightarrow> int ino)"
  using assms(2)
proof (induction es)
  case (Cons e es)
  obtain nm ino where e: "e = (nm, ino)"
    by (cases e)
  have g: "good_name nm" "ino < 1000"
    using Cons.prems by (simp_all add: e)
  let ?d = "show_nat ino" and ?r = "dir_text es"
  have len: "length ?d \<le> 3"
    using length_show_nat [OF g(2)] .
  then obtain m where m: "pad_left 4 ?d = CHR '' '' # replicate m CHR '' '' @ ?d"
    by (cases "4 - length ?d") (auto simp: pad_left_def)
  have t: "dir_text (e # es) = nm @ CHR '' '' # replicate m CHR '' '' @ ?d @ CHR '' '' # ?r"
    by (simp add: dir_text_def e dir_entry_def m)
  have nd: "CHR '' '' \<notin> set ?d"
    using show_nat_digits [of ino] digit_not_special by blast
  have "?d \<noteq> name"
    using assms(1) show_nat_digits [of ino] by (auto simp: good_name_def list_all_iff)
  then have "search name True (replicate m CHR '' '' @ ?d @ CHR '' '' # ?r) = search name True ?r"
    using search_spaces [of name m] search_word [OF nd show_nat_nonempty] assms(1)
    by (simp add: good_name_def)
  then have s: "search name True (dir_text (e # es)) =
      (if nm = name then Some (CHR '' '' # replicate m CHR '' '' @ ?d @ CHR '' '' # ?r) else search name True ?r)"
    unfolding t using search_word [of nm name] assms(1) g(1) by (simp add: good_name_def)
  have "atoi ((CHR '' '' # replicate m CHR '' '' @ ?d @ CHR '' '' # ?r) @ pad) = int ino"
    using atoi_show [of "CHR '' ''" "Suc m" ino "?r @ pad"] by (simp add: is_digit_def)
  then show ?case
    using s Cons.IH Cons.prems by (simp add: e)
qed (simp add: dir_text_def)

lemma dir_text_no_nul: "\<forall>(nm, ino) \<in> set es. good_name nm \<Longrightarrow> NUL \<notin> set (dir_text es)"
proof (induction es)
  case (Cons e es)
  obtain nm ino where e: "e = (nm, ino)"
    by (cases e)
  have "NUL \<notin> set (show_nat ino)"
    using show_nat_digits [of ino] digit_not_special by blast
  then show ?case
    using Cons e by (auto simp: dir_text_def dir_entry_def pad_left_def good_name_def NUL_def)
qed (simp add: dir_text_def)

section \<open>Names that are numbers\<close>

definition plain_start :: "string \<Rightarrow> bool" where
  "plain_start nm = (case nm of [] \<Rightarrow> False
     | c # cs \<Rightarrow> \<not> is_digit c \<and> \<not> is_space c \<and> c \<noteq> CHR ''-'' \<and> c \<noteq> CHR ''+'')"

lemma space_blank: "is_space (CHR '' '')"
  by (simp add: is_space_def)

lemma atoi_plain: "plain_start nm \<Longrightarrow> atoi (CHR '' '' # nm @ r) = 0"
  using space_blank by (cases nm) (auto simp: plain_start_def atoi_def)

lemma atoi_nul: "atoi (CHR '' '' # NUL # r) = 0"
  by (simp add: atoi_def is_space_def NUL_def is_digit_def)

lemma show_nat_inj: "show_nat m = show_nat n \<longleftrightarrow> m = n"
  using atoi_digits_show by (metis of_nat_eq_iff)

lemma lookup_number:
  assumes "\<forall>(nm, ino) \<in> set es. good_name nm \<and> plain_start nm \<and> ino < 1000"
  shows "(case search (show_nat k) True (dir_text es) of None \<Rightarrow> -1 | Some r \<Rightarrow> atoi (r @ NUL # pad)) =
    (if k \<in> snd ` set es then 0 else -1)"
  using assms
proof (induction es)
  case (Cons e es)
  obtain nm ino where e: "e = (nm, ino)"
    by (cases e)
  have g: "good_name nm" "ino < 1000"
    using Cons.prems by (simp_all add: e)
  let ?d = "show_nat ino" and ?r = "dir_text es"
  have len: "length ?d \<le> 3"
    using length_show_nat [OF g(2)] .
  then obtain m where m: "pad_left 4 ?d = CHR '' '' # replicate m CHR '' '' @ ?d"
    by (cases "4 - length ?d") (auto simp: pad_left_def)
  have t: "dir_text (e # es) = nm @ CHR '' '' # replicate m CHR '' '' @ ?d @ CHR '' '' # ?r"
    by (simp add: dir_text_def e dir_entry_def m)
  have nd: "CHR '' '' \<notin> set (show_nat j)" for j
    using show_nat_digits [of j] digit_not_special by blast
  have "nm \<noteq> show_nat k"
    using g show_nat_digits [of k] by (auto simp: good_name_def list_all_iff)
  then have "search (show_nat k) True (dir_text (e # es)) =
      search (show_nat k) True (replicate m CHR '' '' @ ?d @ CHR '' '' # ?r)"
    unfolding t using search_word [of nm "show_nat k"] g(1) nd show_nat_nonempty by (simp add: good_name_def)
  also have "\<dots> = (if ino = k then Some (CHR '' '' # ?r) else search (show_nat k) True ?r)"
    using search_spaces [OF show_nat_nonempty nd] search_word [OF nd show_nat_nonempty nd show_nat_nonempty]
    by (simp add: show_nat_inj)
  finally have s: "search (show_nat k) True (dir_text (e # es)) =
      (if ino = k then Some (CHR '' '' # ?r) else search (show_nat k) True ?r)" .
  have "atoi (CHR '' '' # ?r @ NUL # pad) = 0"
  proof (cases es)
    case Nil
    then show ?thesis
      by (simp add: dir_text_def atoi_nul)
  next
    case (Cons f fs)
    then obtain nm' ino' where "f = (nm', ino')" "plain_start nm'"
      using Cons.prems by (cases f) auto
    then show ?thesis
      using Cons by (simp add: dir_text_def dir_entry_def atoi_plain)
  qed
  then show ?case
    using s Cons.IH Cons.prems by (auto simp: e)
qed (simp add: dir_text_def)

lemma dir_scan_short:
  assumes "NUL \<notin> set name" "name \<noteq> []" "length dtxt < length name" "i \<le> length dtxt + m" "length dtxt + m - i < n"
  shows "dir_scan name (dtxt @ replicate m NUL) n i = Inl Undefined"
  using assms(4,5)
proof (induction n arbitrary: i)
  case (Suc n)
  have mism: "strncmp_eq name (s @ replicate m NUL) \<in> {Inr False, Inl Undefined}"
    if "length s < length name" "NUL \<notin> set name" for s m name
    using that
  proof (induction name arbitrary: s)
    case (Cons a name)
    then show ?case
      by (cases s; cases m) auto
  qed simp
  have "strncmp_eq name (drop i (dtxt @ replicate m NUL)) \<in> {Inr False, Inl Undefined}"
    using mism [of "drop i dtxt" name "m - (i - length dtxt)"] assms(1,3) by auto
  moreover have "i = length dtxt + m \<Longrightarrow> strncmp_eq name (drop i (dtxt @ replicate m NUL)) = Inl Undefined"
    using assms(2) by (cases name) auto
  ultimately show ?case
    using Suc.IH [of "Suc i"] Suc.prems by (cases "i = length dtxt + m") auto
qed simp

section \<open>Properties\<close>

text \<open>
  Looking a name up in a directory written by the image builder gives the inode number of the
  first entry of that name, and -1 when there is none: the numbers of the entries and the padding
  never match a name that holds a character other than a digit.
\<close>

lemma dir_lookup_finds_entry:
  assumes "good_name name" "\<forall>(nm, ino) \<in> set es. good_name nm \<and> ino < 1000"
    "length name \<le> length (dir_text es)" "length (dir_text es) < 512"
  shows "dir_lookup (dir_text es @ NUL # pad) name =
    Inr (case map_of es name of None \<Rightarrow> -1 | Some ino \<Rightarrow> int ino)"
proof -
  have "NUL \<notin> set (dir_text es)"
    using assms(2) by (intro dir_text_no_nul) auto
  then have "dir_lookup (dir_text es @ NUL # pad) name = (case search name True (dir_text es) of
      None \<Rightarrow> Inr (-1) | Some r \<Rightarrow> Inr (atoi (r @ NUL # pad)))"
    using assms by (intro dir_lookup_search) (auto simp: good_name_def)
  also have "\<dots> = Inr (case search name True (dir_text es) of None \<Rightarrow> -1 | Some r \<Rightarrow> atoi (r @ NUL # pad))"
    by (simp split: option.split)
  finally show ?thesis
    using lookup_entries [OF assms(1,2)] by simp
qed

text \<open>contents[1] of tools/mkfs.c: the directory /home.\<close>

definition home_entries :: "(string \<times> nat) list" where
  "home_entries = [(''./'', 1), (''../'', 0), (''yunhao/'', 2), (''rvr/'', 3), (''yacqub/'', 4)]"

lemma home_text: "dir_text home_entries = ''./   1 ../   0 yunhao/   2 rvr/   3 yacqub/   4 ''"
  by code_simp

lemma dir_lookup_finds_entry_example:
  "dir_lookup (dir_text home_entries @ NUL # replicate 463 NUL) ''yunhao/'' = Inr 2 \<and>
   dir_lookup (dir_text home_entries @ NUL # replicate 463 NUL) ''egos/'' = Inr (-1)"
proof -
  have g: "\<forall>(nm, ino) \<in> set home_entries. good_name nm \<and> ino < 1000" "good_name ''yunhao/''" "good_name ''egos/''"
    by code_simp+
  have l: "length (dir_text home_entries) = 48"
    by (simp add: home_text)
  show ?thesis
    using dir_lookup_finds_entry [OF g(2,1), of "replicate 463 NUL"] dir_lookup_finds_entry [OF g(3,1), of "replicate 463 NUL"]
    by (simp add: l) (simp add: home_entries_def)
qed

text \<open>
  A name that is a number matches the inode numbers in the directory: when some entry has that
  number, the lookup succeeds and gives inode 0, the root directory, whatever the entry is.
\<close>

lemma dir_lookup_number_is_root:
  assumes "\<forall>(nm, ino) \<in> set es. good_name nm \<and> plain_start nm \<and> ino < 1000"
    "length (show_nat k) \<le> length (dir_text es)" "length (dir_text es) < 512"
  shows "dir_lookup (dir_text es @ NUL # pad) (show_nat k) = Inr (if k \<in> snd ` set es then 0 else -1)"
proof -
  have "NUL \<notin> set (show_nat k)"
    using show_nat_digits [of k] digit_not_special by blast
  moreover have "NUL \<notin> set (dir_text es)"
    using assms(1) by (intro dir_text_no_nul) auto
  ultimately have "dir_lookup (dir_text es @ NUL # pad) (show_nat k) = (case search (show_nat k) True (dir_text es) of
      None \<Rightarrow> Inr (-1) | Some r \<Rightarrow> Inr (atoi (r @ NUL # pad)))"
    using assms by (intro dir_lookup_search) auto
  also have "\<dots> = Inr (case search (show_nat k) True (dir_text es) of None \<Rightarrow> -1 | Some r \<Rightarrow> atoi (r @ NUL # pad))"
    by (simp split: option.split)
  finally show ?thesis
    using lookup_number [OF assms(1)] by simp
qed

lemma dir_lookup_number_is_root_example:
  "dir_lookup (dir_text home_entries @ NUL # replicate 463 NUL) (show_nat 2) = Inr 0"
proof -
  have g: "\<forall>(nm, ino) \<in> set home_entries. good_name nm \<and> plain_start nm \<and> ino < 1000"
    by code_simp
  have l: "length (dir_text home_entries) = 48" "length (show_nat 2) = 1" "2 \<in> snd ` set home_entries"
    by (simp add: home_text) (simp_all add: show_nat.simps home_entries_def)
  show ?thesis
    using dir_lookup_number_is_root [OF g, of 2 "replicate 463 NUL"] by (simp add: l)
qed

text \<open>
  The bound of the search is computed without sign: when the name is longer than the text of
  the directory, the search runs past the end of the 512-byte buffer.
\<close>

lemma dir_lookup_long_name_overruns:
  assumes "NUL \<notin> set name" "length dtxt < length name" "NUL \<notin> set dtxt" "length dtxt < 512" "length name < 2 ^ 31"
  shows "dir_lookup (dtxt @ replicate (512 - length dtxt) NUL) name = Inl Undefined"
proof -
  obtain q where "512 - length dtxt = Suc q"
    using assms(4) by (cases "512 - length dtxt") auto
  then have pad: "replicate (512 - length dtxt) NUL = NUL # replicate q NUL"
    by simp
  have len: "strlen (dtxt @ replicate (512 - length dtxt) NUL) = Inr (length dtxt)"
    using assms(3) by (simp add: pad strlen_def c_str_append)
  have "unat (of_nat (length dtxt) - of_nat (length name) :: u32) = 2 ^ 32 + length dtxt - length name"
    using assms by (simp add: unat_sub_if' unat_of_nat_less word_le_nat_alt of_nat_le_iff)
  moreover have "name \<noteq> []" "512 < (2 ^ 32 + length dtxt - length name)"
    using assms by auto
  ultimately show ?thesis
    using assms len dir_scan_short [of name dtxt 0 "512 - length dtxt" "2 ^ 32 + length dtxt - length name"]
    by (simp add: dir_lookup_def)
qed

lemma dir_lookup_long_name_overruns_example: "dir_lookup (replicate 512 NUL) ''bin/'' = Inl Undefined"
  using dir_lookup_long_name_overruns [of "''bin/''" "[]"] by (simp add: NUL_def)

end
