(* ===== verification/Elf_Load.thy ===== *)
theory Elf_Load
  imports Elf
begin

text \<open>
  Correctness of the ELF loader: the bytes a new process sees, page by page. The loader writes into
  the page frames of a process that is not the current one, so its memory is the contents of its
  frames.
\<close>

section \<open>The contents of frames\<close>

definition fpage :: "mmu_state \<Rightarrow> i32 \<Rightarrow> u32 \<Rightarrow> page option" where
  "fpage m p va = map_option (\<lambda>i. mem m (PAGE_ID_TO_ADDR (of_nat i))) (frame_of m p va)"

definition table512 :: "mmu_state \<Rightarrow> bool" where
  "table512 m \<longleftrightarrow> length (page_info_table m) = APPS_PAGES_CNT"

lemma fpage_vmem: "p \<noteq> curr_vm_pid m \<Longrightarrow> vmem m p va = fpage m p va"
  by (simp add: vmem_def fpage_def)

lemma frame_lt: "table512 m \<Longrightarrow> frame_of m p va = Some i \<Longrightarrow> i < 512"
  using frame_of_Some(1) [of m p va i] by (simp add: table512_def APPS_PAGES_CNT_eq)

lemma frame_unique:
  assumes "frame_of m p va = Some i" "frame_of m q vb = Some i"
  shows "p = q \<and> va = vb"
  using frame_of_Some [OF assms(1)] frame_of_Some [OF assms(2)] by (auto simp: owned_def)

lemma new_page_effect:
  assumes "new_page t pid vp m = Inr (pp, m1)" "table512 m" "frame_of m pid (PAGE_NO_TO_ADDR vp) = None"
  shows "unat pp < 512" "table512 m1" "curr_vm_pid m1 = curr_vm_pid m" "mem m1 = mem m"
    "frame_of m1 p va = (if p = pid \<and> va = PAGE_NO_TO_ADDR vp then Some (unat pp) else frame_of m p va)"
    "frame_of m p va \<noteq> Some (unat pp)"
proof -
  obtain m0 where a: "mmu_alloc m = Inr (pp, m0)" "earth_map t pid vp pp m0 = Inr m1"
    using assms(1) by (auto simp: new_page_def bindr_eq_Inr_iff)
  note e = alloc_map_effect [OF a(1) earth_map_soft [OF a(2)], OF assms(2) [unfolded table512_def] assms(3)]
  show "unat pp < 512" "table512 m1" "curr_vm_pid m1 = curr_vm_pid m" "mem m1 = mem m"
    "frame_of m1 p va = (if p = pid \<and> va = PAGE_NO_TO_ADDR vp then Some (unat pp) else frame_of m p va)"
    using e assms(2) by (simp_all add: table512_def)
  show "frame_of m p va \<noteq> Some (unat pp)"
    using e frame_of_Some(2) [of m p va "unat pp"] by (auto simp: owned_def)
qed

lemma frame_addr_neq:
  "table512 m \<Longrightarrow> frame_of m p va = Some i \<Longrightarrow> unat pp < 512 \<Longrightarrow> i \<noteq> unat pp \<Longrightarrow>
   PAGE_ID_TO_ADDR (of_nat i) \<noteq> PAGE_ID_TO_ADDR pp"
  using PAGE_ID_TO_ADDR_inj [of i "unat pp"] frame_lt [of m p va i] by auto

lemma new_page_fpage:
  assumes "new_page t pid vp m = Inr (pp, m1)" "table512 m" "frame_of m pid (PAGE_NO_TO_ADDR vp) = None"
  shows "fpage m1 p va =
    (if p = pid \<and> va = PAGE_NO_TO_ADDR vp then Some (mem m (PAGE_ID_TO_ADDR pp)) else fpage m p va)"
  using new_page_effect(4) [OF assms] new_page_effect(5) [OF assms, of p va] by (simp add: fpage_def)

lemma store_frame_fpage:
  assumes "table512 m" "frame_of m pid a = Some (unat pp)"
  shows "fpage (m\<lparr>mem := (mem m)(PAGE_ID_TO_ADDR pp := pg)\<rparr>) p va = (if p = pid \<and> va = a then Some pg else fpage m p va)"
proof -
  have fr: "frame_of (m\<lparr>mem := mm\<rparr>) p va = frame_of m p va" for mm p va
    by (simp add: frame_of_def)
  show ?thesis
  proof (cases "frame_of m p va")
    case (Some i)
    have "i = unat pp \<Longrightarrow> p = pid \<and> va = a"
      using frame_unique [OF Some, of pid a] assms(2) by simp
    moreover have "i \<noteq> unat pp \<Longrightarrow> \<not> (p = pid \<and> va = a)"
      using Some assms(2) by auto
    moreover have "i \<noteq> unat pp \<Longrightarrow> PAGE_ID_TO_ADDR (of_nat i) \<noteq> PAGE_ID_TO_ADDR pp"
      using frame_addr_neq [OF assms(1) Some] frame_lt [OF assms] by blast
    ultimately show ?thesis
      using Some by (cases "i = unat pp") (auto simp: fpage_def fr)
  qed (use assms in \<open>auto simp: fpage_def fr\<close>)
qed

lemma store_frame_other:
  "table512 (m\<lparr>mem := mm\<rparr>) = table512 m" "curr_vm_pid (m\<lparr>mem := mm\<rparr>) = curr_vm_pid m"
  "frame_of (m\<lparr>mem := mm\<rparr>) p va = frame_of m p va"
  by (simp_all add: table512_def frame_of_def)

lemma new_zero_page_effect:
  assumes "new_zero_page t pid vp m = Inr (pp, m1)" "table512 m" "frame_of m pid (PAGE_NO_TO_ADDR vp) = None"
  shows "table512 m1" "curr_vm_pid m1 = curr_vm_pid m"
    "frame_of m1 p va = (if p = pid \<and> va = PAGE_NO_TO_ADDR vp then Some (unat pp) else frame_of m p va)"
    "fpage m1 p va = (if p = pid \<and> va = PAGE_NO_TO_ADDR vp then Some (replicate 1024 0) else fpage m p va)"
proof -
  obtain m0 where n: "new_page t pid vp m = Inr (pp, m0)" and m1: "m1 = zero_page pp m0"
    using assms(1) by (auto simp: new_zero_page_def bindr_eq_Inr_iff)
  note e = new_page_effect [OF n assms(2,3)]
  show "table512 m1" "curr_vm_pid m1 = curr_vm_pid m"
    "frame_of m1 p va = (if p = pid \<and> va = PAGE_NO_TO_ADDR vp then Some (unat pp) else frame_of m p va)"
    using e(2,3) e(5) [of p va] by (simp_all add: m1 zero_page_def store_frame_other)
  have f: "frame_of m0 pid (PAGE_NO_TO_ADDR vp) = Some (unat pp)"
    using e(5) by simp
  show "fpage m1 p va = (if p = pid \<and> va = PAGE_NO_TO_ADDR vp then Some (replicate 1024 0) else fpage m p va)"
    unfolding m1 zero_page_def store_frame_fpage [OF e(2) f] by (simp add: new_page_fpage [OF n assms(2,3)])
qed

section \<open>Segment pages\<close>

text \<open>Page \<open>j\<close> of a segment whose first \<open>n\<close> bytes, given by \<open>f\<close>, are loaded.\<close>

definition seg_list :: "(nat \<Rightarrow> u8) \<Rightarrow> nat \<Rightarrow> nat \<Rightarrow> u8 list" where
  "seg_list f n j = map (\<lambda>i. if j * 4096 + i < n then f (j * 4096 + i) else 0) [0 ..< 4096]"

definition seg_page :: "(nat \<Rightarrow> u8) \<Rightarrow> nat \<Rightarrow> nat \<Rightarrow> page" where
  "seg_page f n j = words_of (seg_list f n j)"

lemma length_seg_list [simp]: "length (seg_list f n j) = 4096"
  by (simp add: seg_list_def)

lemma bytes_of_seg_page: "bytes_of (seg_page f n j) = seg_list f n j"
  by (simp add: seg_page_def bytes_of_words_of)

lemma length_seg_page: "length (seg_page f n j) = 1024"
  by (simp add: seg_page_def length_words_of)

lemma seg_list_full: "j * 4096 + 4096 \<le> n \<Longrightarrow> n \<le> n' \<Longrightarrow> seg_list f n j = seg_list f n' j"
  by (simp add: seg_list_def)

lemma bytes_of_zero: "bytes_of (replicate k 0) = replicate (4 * k) 0"
  by (induction k) (simp_all add: bytes_of_def word_bytes_def numeral_eq_Suc)

lemma zero_seg_page: "n \<le> j * 4096 \<Longrightarrow> replicate 1024 0 = seg_page f n j"
proof -
  assume "n \<le> j * 4096"
  then have "seg_list f n j = replicate 4096 0"
    by (intro nth_equalityI) (auto simp: seg_list_def)
  then have "seg_list f n j = bytes_of (replicate 1024 0)"
    by (simp add: bytes_of_zero)
  then show ?thesis
    by (simp add: seg_page_def)
qed

lemma seg_list_copy:
  assumes "n = j * 4096 + off" "off + k \<le> 4096" "k \<le> length buf" "\<And>i. i < k \<Longrightarrow> buf ! i = f (n + i)"
  shows "take off (seg_list f n j) @ take k buf @ drop (off + k) (seg_list f n j) = seg_list f (n + k) j"
proof (rule nth_equalityI)
  fix i assume "i < length (take off (seg_list f n j) @ take k buf @ drop (off + k) (seg_list f n j))"
  then have i: "i < 4096"
    using assms by simp
  consider "i < off" | "off \<le> i" "i < off + k" | "off + k \<le> i"
    by linarith
  then show "(take off (seg_list f n j) @ take k buf @ drop (off + k) (seg_list f n j)) ! i = seg_list f (n + k) j ! i"
  proof cases
    case 1
    then show ?thesis
      using i assms(1,2) by (simp add: nth_append seg_list_def)
  next
    case 2
    then have "i - off < k"
      by linarith
    then show ?thesis
      using i assms(1-3) assms(4) [of "i - off"] 2 by (simp add: nth_append seg_list_def)
  next
    case 3
    then have "off + k + (i - (off + k)) = i" "\<not> i - off < k"
      by linarith+
    then show ?thesis
      using i assms(1-3) 3 by (simp add: nth_append seg_list_def)
  qed
qed (use assms in simp)

lemma seg_page_copy:
  assumes "n = j * 4096 + off" "off + k \<le> 4096" "k \<le> length buf" "\<And>i. i < k \<Longrightarrow> buf ! i = f (n + i)"
  shows "page_copy (seg_page f n j) off buf k = seg_page f (n + k) j"
  using seg_list_copy [OF assms] by (simp add: page_copy_def Let_def bytes_of_seg_page) (simp add: seg_page_def)

section \<open>The loops\<close>

lemma copy_into_effect:
  assumes "table512 m" "frame_of m pid a = Some (unat pp)" "fpage m pid a = Some pg"
  shows "fpage (copy_into pp off buf k m) p va =
      (if p = pid \<and> va = a then Some (page_copy pg off buf k) else fpage m p va)"
    "table512 (copy_into pp off buf k m)" "curr_vm_pid (copy_into pp off buf k m) = curr_vm_pid m"
    "frame_of (copy_into pp off buf k m) p va = frame_of m p va"
proof -
  have pg: "mem m (PAGE_ID_TO_ADDR pp) = pg"
    using assms(2,3) by (simp add: fpage_def)
  show "fpage (copy_into pp off buf k m) p va =
      (if p = pid \<and> va = a then Some (page_copy pg off buf k) else fpage m p va)"
    using store_frame_fpage [OF assms(1,2)] by (simp add: copy_into_def Let_def pg)
qed (use assms(1) in \<open>simp_all add: copy_into_def Let_def store_frame_other\<close>)

text \<open>The pages of the segment that starts at page \<open>pn\<close>.\<close>

definition pg_addr :: "u32 \<Rightarrow> nat \<Rightarrow> u32" where
  "pg_addr pn j = PAGE_NO_TO_ADDR (pn + of_nat j)"

lemma page_no_unat: "unat w < 2 ^ 20 \<Longrightarrow> unat (PAGE_NO_TO_ADDR w) = unat w * 4096"
  by (simp add: PAGE_NO_TO_ADDR_def PAGE_SIZE_def unat_word_ariths)

lemma pg_addr_unat:
  assumes "unat pn + j < 2 ^ 20"
  shows "unat (pg_addr pn j) = (unat pn + j) * 4096"
proof -
  have "unat (of_nat j :: u32) = j"
    using assms by (intro unat_of_nat_less) simp
  then have "unat (pn + of_nat j) = unat pn + j"
    using assms by (simp add: unat_word_ariths)
  then show ?thesis
    using page_no_unat [of "pn + of_nat j"] assms by (simp add: pg_addr_def)
qed

lemma pg_addr_inj:
  assumes "unat pn + i < 2 ^ 20" "unat pn + j < 2 ^ 20" "pg_addr pn i = pg_addr pn j"
  shows "i = j"
proof -
  have "(unat pn + i) * 4096 = (unat pn + j) * 4096"
    unfolding pg_addr_unat [OF assms(1), symmetric] pg_addr_unat [OF assms(2), symmetric] assms(3) ..
  then show ?thesis
    by simp
qed

text \<open>After \<open>n\<close> bytes, \<open>np\<close> pages of the segment are there and nothing else has changed.\<close>

definition seg_inv ::
  "i32 \<Rightarrow> u32 \<Rightarrow> (nat \<Rightarrow> u8) \<Rightarrow> mmu_state \<Rightarrow> nat \<Rightarrow> nat \<Rightarrow> mmu_state \<Rightarrow> bool" where
  "seg_inv pid pn f m0 n np m \<longleftrightarrow> table512 m \<and> curr_vm_pid m = curr_vm_pid m0 \<and>
     (\<forall>j < np. fpage m pid (pg_addr pn j) = Some (seg_page f n j)) \<and>
     (\<forall>p va. \<not> (p = pid \<and> (\<exists>j < np. va = pg_addr pn j)) \<longrightarrow> fpage m p va = fpage m0 p va)"

lemma fpage_None: "fpage m p va = None \<longleftrightarrow> frame_of m p va = None"
  by (simp add: fpage_def)

lemma seg_inv_at:
  "seg_inv pid pn f m0 n np m \<Longrightarrow> j < np \<Longrightarrow> fpage m pid (pg_addr pn j) = Some (seg_page f n j)"
  by (simp add: seg_inv_def)

lemma seg_inv_other:
  "seg_inv pid pn f m0 n np m \<Longrightarrow> \<not> (p = pid \<and> (\<exists>j < np. va = pg_addr pn j)) \<Longrightarrow> fpage m p va = fpage m0 p va"
  unfolding seg_inv_def by blast

lemma seg_invI:
  assumes "table512 m" "curr_vm_pid m = curr_vm_pid m0"
    "\<And>j. j < np \<Longrightarrow> fpage m pid (pg_addr pn j) = Some (seg_page f n j)"
    "\<And>p va. \<not> (p = pid \<and> (\<exists>j < np. va = pg_addr pn j)) \<Longrightarrow> fpage m p va = fpage m0 p va"
  shows "seg_inv pid pn f m0 n np m"
  using assms unfolding seg_inv_def by blast

lemma seg_inv_new:
  assumes inv: "seg_inv pid pn f m0 n np m" and b: "unat pn + Suc np \<le> 2 ^ 20" and n: "n \<le> np * 4096"
    and fresh: "fpage m0 pid (pg_addr pn np) = None"
    and new: "new_zero_page t pid (pn + of_nat np) m = Inr (pp, m1)"
  shows "seg_inv pid pn f m0 n (Suc np) m1" "frame_of m1 pid (pg_addr pn np) = Some (unat pp)"
proof -
  have notin: "pg_addr pn np \<noteq> pg_addr pn j" if "j < np" for j
    using pg_addr_inj [of pn np j] that b by auto
  have nf: "frame_of m pid (PAGE_NO_TO_ADDR (pn + of_nat np)) = None"
    using seg_inv_other [OF inv, of pid "pg_addr pn np"] notin fresh
    unfolding pg_addr_def [symmetric] fpage_None [symmetric] by metis
  have t: "table512 m"
    using inv by (simp add: seg_inv_def)
  note e = new_zero_page_effect [OF new t nf]
  show "frame_of m1 pid (pg_addr pn np) = Some (unat pp)"
    using e(3) by (simp add: pg_addr_def)
  show "seg_inv pid pn f m0 n (Suc np) m1"
  proof (rule seg_invI)
    show "table512 m1" "curr_vm_pid m1 = curr_vm_pid m0"
      using e(1,2) inv by (simp_all add: seg_inv_def)
    fix j assume "j < Suc np"
    then show "fpage m1 pid (pg_addr pn j) = Some (seg_page f n j)"
      using e(4) [of pid "pg_addr pn j"] notin [of j] seg_inv_at [OF inv, of j] zero_seg_page [OF n]
      unfolding pg_addr_def [symmetric] by (cases "j = np") auto
  next
    fix p va assume "\<not> (p = pid \<and> (\<exists>j < Suc np. va = pg_addr pn j))"
    then show "fpage m1 p va = fpage m0 p va"
      using e(4) [of p va] seg_inv_other [OF inv, of p va] less_Suc_eq
      unfolding pg_addr_def [symmetric] by auto
  qed
qed

lemma seg_inv_copy:
  assumes inv: "seg_inv pid pn f m0 n (Suc np) m" and b: "unat pn + Suc np \<le> 2 ^ 20"
    and fr: "frame_of m pid (pg_addr pn np) = Some (unat pp)"
    and c: "n = np * 4096 + off" "off + k \<le> 4096" "k \<le> length buf" "\<And>i. i < k \<Longrightarrow> buf ! i = f (n + i)"
  shows "seg_inv pid pn f m0 (n + k) (Suc np) (copy_into pp off buf k m)"
proof -
  have t: "table512 m"
    using inv by (simp add: seg_inv_def)
  note e = copy_into_effect [OF t fr seg_inv_at [OF inv lessI]]
  show ?thesis
  proof (rule seg_invI)
    show "table512 (copy_into pp off buf k m)" "curr_vm_pid (copy_into pp off buf k m) = curr_vm_pid m0"
      using e(2,3) inv by (simp_all add: seg_inv_def)
    fix j assume j: "j < Suc np"
    show "fpage (copy_into pp off buf k m) pid (pg_addr pn j) = Some (seg_page f (n + k) j)"
    proof (cases "j = np")
      case True
      then show ?thesis
        using e(1) seg_page_copy [of n np off k buf f] c by simp
    next
      case False
      then have "j * 4096 + 4096 \<le> n"
        using j c(1) by linarith
      then have "seg_page f n j = seg_page f (n + k) j"
        using seg_list_full [of j n "n + k" f] by (simp add: seg_page_def)
      then show ?thesis
        using e(1) seg_inv_at [OF inv j] pg_addr_inj [of pn j np] False j b by auto
    qed
  next
    fix p va assume "\<not> (p = pid \<and> (\<exists>j < Suc np. va = pg_addr pn j))"
    then show "fpage (copy_into pp off buf k m) p va = fpage m0 p va"
      using e(1) [of off buf k p va] seg_inv_other [OF inv, of p va] by auto
  qed
qed

definition file_byte :: "(u32 \<Rightarrow> block) \<Rightarrow> u32 \<Rightarrow> nat \<Rightarrow> u8" where
  "file_byte reader bn k = bytes_of (reader (bn + of_nat (k div 512))) ! (k mod 512)"

definition pages_of :: "nat \<Rightarrow> nat" where
  "pages_of n = (n + 4095) div 4096"

lemma load_blocks_step:
  fixes filesz :: u32
  assumes rd: "\<And>b. length (reader b) = 128"
    and b: "b * 512 < unat filesz" "unat filesz + 512 \<le> 2 ^ 32"
    and inv: "seg_inv pid pn (file_byte reader bn) m0 (b * 512) (Suc (b div 8)) m1"
    and sz: "unat pn + Suc (b div 8) \<le> 2 ^ 20"
    and fr: "frame_of m1 pid (pg_addr pn (b div 8)) = Some (unat pp)"
    and k: "k = unat (if of_nat (b * BLOCK_SIZE) + of_nat BLOCK_SIZE < filesz then of_nat BLOCK_SIZE
       else filesz - of_nat (b * BLOCK_SIZE))"
  shows "seg_inv pid pn (file_byte reader bn) m0 (min (Suc b * 512) (unat filesz)) (Suc (b div 8))
    (copy_into pp (unat (of_nat (b * BLOCK_SIZE) mod PAGE_SIZE)) (bytes_of (reader (bn + of_nat b))) k m1)"
proof -
  have off: "unat (of_nat (b * 512) :: u32) = b * 512"
    using b by (intro unat_of_nat_less) simp
  have "unat (of_nat (b * 512) + of_nat 512 :: u32) = b * 512 + 512"
    using off b by (simp add: unat_word_ariths)
  then have "of_nat (b * 512) + of_nat 512 < filesz \<longleftrightarrow> b * 512 + 512 < unat filesz"
    by (simp only: word_less_nat_alt)
  moreover have "unat (filesz - of_nat (b * 512)) = unat filesz - b * 512"
    using off b(1) by (simp add: unat_sub_if' word_le_nat_alt)
  ultimately have k': "k = (if b * 512 + 512 < unat filesz then 512 else unat filesz - b * 512)"
    unfolding k BLOCK_SIZE_def by simp
  have po: "unat (of_nat (b * 512) mod PAGE_SIZE) = b mod 8 * 512"
    using off by (simp add: PAGE_SIZE_def unat_mod_distrib mult_mod_left)
  have bm: "b * 512 = b div 8 * 4096 + b mod 8 * 512"
  proof -
    have "b = b div 8 * 8 + b mod 8"
      by simp
    then show ?thesis
      by linarith
  qed
  have "b mod 8 * 512 + k \<le> 4096"
  proof -
    have "b mod 8 < 8"
      by simp
    then show ?thesis
      unfolding k' by (simp split: if_splits) linarith
  qed
  moreover have "k \<le> 512"
    unfolding k' by simp linarith
  moreover have "bytes_of (reader (bn + of_nat b)) ! i = file_byte reader bn (b * 512 + i)" if "i < k" for i
    using that \<open>k \<le> 512\<close> by (simp add: file_byte_def)
  ultimately have "seg_inv pid pn (file_byte reader bn) m0 (b * 512 + k) (Suc (b div 8))
      (copy_into pp (b mod 8 * 512) (bytes_of (reader (bn + of_nat b))) k m1)"
    using inv fr bm rd sz by (intro seg_inv_copy) simp_all
  moreover have "b * 512 + k = min (Suc b * 512) (unat filesz)"
    using b(1) unfolding k' by auto
  ultimately show ?thesis
    unfolding BLOCK_SIZE_def po by simp
qed

definition block_len :: "u32 \<Rightarrow> nat \<Rightarrow> nat" where
  "block_len filesz b = unat (if of_nat (b * BLOCK_SIZE) + of_nat BLOCK_SIZE < filesz then of_nat BLOCK_SIZE
     else filesz - of_nat (b * BLOCK_SIZE))"

lemma load_blocks_go:
  assumes "of_nat (b * BLOCK_SIZE) < filesz"
  shows "load_blocks t pid reader filesz b pn bn pp m =
    bindr (if b mod 8 = 0 then bindr (new_zero_page t pid pn m) (\<lambda>(pp, m1). Inr (pn + 1, pp, m1)) else Inr (pn, pp, m))
      (\<lambda>(pn', pp', m1). load_blocks t pid reader filesz (Suc b) pn' (bn + 1) pp'
         (copy_into pp' (unat (of_nat (b * BLOCK_SIZE) mod PAGE_SIZE)) (bytes_of (reader bn)) (block_len filesz b) m1))"
  using assms by (subst load_blocks.simps) (simp only: Let_def if_True block_len_def)

lemma load_blocks_inv:
  assumes rd: "\<And>b. length (reader b) = 128"
    and sz: "0 < unat pn" "unat pn + pages_of (unat filesz) \<le> 2 ^ 20"
    and fresh: "\<And>j. j < pages_of (unat filesz) \<Longrightarrow> fpage m0 pid (pg_addr pn j) = None"
    and run: "load_blocks t pid reader filesz b (pn + of_nat ((b + 7) div 8)) (bn + of_nat b) pp m = Inr (pn', m')"
    and b: "b \<le> (unat filesz + 511) div 512"
    and inv: "seg_inv pid pn (file_byte reader bn) m0 (min (b * 512) (unat filesz)) ((b + 7) div 8) m"
    and fr: "b mod 8 \<noteq> 0 \<Longrightarrow> frame_of m pid (pg_addr pn (b div 8)) = Some (unat pp)"
  shows "pn' = pn + of_nat (pages_of (unat filesz)) \<and>
    seg_inv pid pn (file_byte reader bn) m0 (unat filesz) (pages_of (unat filesz)) m'"
  using run b inv fr
proof (induction "(unat filesz + 511) div 512 - b" arbitrary: b pp m)
  case 0
  then have be: "b = (unat filesz + 511) div 512"
    by simp
  then have "unat filesz \<le> b * 512"
    by linarith
  moreover have "unat (of_nat (b * 512) :: u32) = b * 512"
  proof (rule unat_of_nat_less)
    have "unat filesz + 512 \<le> 2 ^ 32"
      using sz unfolding pages_of_def by simp
    then show "b * 512 < 2 ^ LENGTH(32)"
      unfolding be by simp
  qed
  ultimately have "\<not> of_nat (b * BLOCK_SIZE) < filesz"
    by (simp add: word_less_nat_alt BLOCK_SIZE_def)
  moreover have "(b + 7) div 8 = pages_of (unat filesz)"
    unfolding be pages_of_def by linarith
  moreover have "min (b * 512) (unat filesz) = unat filesz"
    using \<open>unat filesz \<le> b * 512\<close> by simp
  ultimately show ?case
    using "0.prems"(1,3) by (subst (asm) load_blocks.simps) (auto simp: Let_def)
next
  case (Suc n)
  then have lt: "b * 512 < unat filesz"
    by linarith
  have big: "unat filesz + 512 \<le> 2 ^ 32"
    using sz unfolding pages_of_def by simp
  have "unat (of_nat (b * 512) :: u32) = b * 512"
    using lt big by (intro unat_of_nat_less) simp
  then have go: "of_nat (b * BLOCK_SIZE) < filesz"
    using lt by (simp add: word_less_nat_alt BLOCK_SIZE_def)
  have bp: "b div 8 < pages_of (unat filesz)"
    using lt unfolding pages_of_def by linarith
  have up: "(Suc b + 7) div 8 = Suc (b div 8)"
    by linarith
  have n: "min (b * 512) (unat filesz) = b * 512"
    using lt by simp
  obtain pageno pq m1 where st: "(if b mod 8 = 0
        then bindr (new_zero_page t pid (pn + of_nat ((b + 7) div 8)) m) (\<lambda>(pp, m1). Inr (pn + of_nat ((b + 7) div 8) + 1, pp, m1))
        else Inr (pn + of_nat ((b + 7) div 8), pp, m)) = Inr (pageno, pq, m1)"
    and rest: "load_blocks t pid reader filesz (Suc b) pageno (bn + of_nat b + 1) pq
      (copy_into pq (unat (of_nat (b * BLOCK_SIZE) mod PAGE_SIZE)) (bytes_of (reader (bn + of_nat b)))
        (block_len filesz b) m1) = Inr (pn', m')"
    using Suc.prems(1) unfolding load_blocks_go [OF go] by (subst (asm) bindr_eq_Inr_iff) auto
  have m1: "seg_inv pid pn (file_byte reader bn) m0 (b * 512) (Suc (b div 8)) m1 \<and>
      frame_of m1 pid (pg_addr pn (b div 8)) = Some (unat pq) \<and> pageno = pn + of_nat (Suc (b div 8))"
  proof (cases "b mod 8 = 0")
    case True
    then obtain c where "b = 8 * c"
      by blast
    then have d: "(b + 7) div 8 = b div 8" "b * 512 \<le> b div 8 * 4096"
      by simp_all
    have "seg_inv pid pn (file_byte reader bn) m0 (b * 512) (b div 8) m"
      using Suc.prems(3) unfolding n d .
    moreover have "new_zero_page t pid (pn + of_nat (b div 8)) m = Inr (pq, m1)" "pageno = pn + of_nat (b div 8) + 1"
      using st True unfolding d by (auto simp: bindr_eq_Inr_iff)
    ultimately show ?thesis
      using seg_inv_new [of pid pn "file_byte reader bn" m0 "b * 512" "b div 8" m t pq m1] d(2) fresh [OF bp] bp sz
      by (simp add: add.assoc)
  next
    case False
    then have "0 < b mod 8" "b = 8 * (b div 8) + b mod 8" "b mod 8 < 8"
      by simp_all
    then have d: "(b + 7) div 8 = Suc (b div 8)"
      by linarith
    show ?thesis
      using st False Suc.prems(3,4) unfolding n d by simp
  qed
  let ?m2 = "copy_into pq (unat (of_nat (b * BLOCK_SIZE) mod PAGE_SIZE)) (bytes_of (reader (bn + of_nat b)))
        (block_len filesz b) m1"
  have inv2: "seg_inv pid pn (file_byte reader bn) m0 (min (Suc b * 512) (unat filesz)) (Suc (b div 8)) ?m2"
    using m1 bp sz by (intro load_blocks_step [OF rd lt big _ _ _ block_len_def]) simp_all
  have fr2: "frame_of ?m2 pid (pg_addr pn (b div 8)) = Some (unat pq)"
    using m1 by (simp add: copy_into_def Let_def store_frame_other)
  have run2: "load_blocks t pid reader filesz (Suc b) (pn + of_nat ((Suc b + 7) div 8)) (bn + of_nat (Suc b)) pq ?m2 = Inr (pn', m')"
    using rest m1 unfolding up by (simp add: ac_simps)
  show ?case
  proof (rule Suc.hyps(1) [OF _ run2])
    show "n = (unat filesz + 511) div 512 - Suc b" "Suc b \<le> (unat filesz + 511) div 512"
      using Suc.hyps(2) by linarith+
    show "seg_inv pid pn (file_byte reader bn) m0 (min (Suc b * 512) (unat filesz)) ((Suc b + 7) div 8) ?m2"
      using inv2 unfolding up .
    show "frame_of ?m2 pid (pg_addr pn (Suc b div 8)) = Some (unat pq)" if "Suc b mod 8 \<noteq> 0"
    proof -
      have "Suc b div 8 = b div 8"
        using that by (simp add: div_Suc)
      then show ?thesis
        using fr2 by simp
    qed
  qed
qed

lemma load_blocks_pageno:
  assumes "unat filesz + 512 \<le> 2 ^ 32" "b \<le> (unat filesz + 511) div 512"
    "load_blocks t pid reader filesz b pn bn pp m = Inr (pn', m')"
  shows "pn' = pn + of_nat (pages_of (unat filesz) - (b + 7) div 8)"
  using assms(2,3)
proof (induction "(unat filesz + 511) div 512 - b" arbitrary: b pn bn pp m)
  case 0
  then have b: "b = (unat filesz + 511) div 512"
    by simp
  have "(unat filesz + 511) div 512 * 512 < 2 ^ LENGTH(32)"
    using assms(1) by simp
  then have "unat (of_nat (b * 512) :: u32) = b * 512"
    unfolding b by (rule unat_of_nat_less)
  moreover have "unat filesz \<le> b * 512"
    unfolding b by linarith
  ultimately have "\<not> of_nat (b * BLOCK_SIZE) < filesz"
    by (simp add: word_less_nat_alt BLOCK_SIZE_def)
  moreover have "pages_of (unat filesz) = (b + 7) div 8"
    unfolding b pages_of_def by linarith
  ultimately show ?case
    using "0.prems" by (subst (asm) load_blocks.simps) (simp add: Let_def)
next
  case (Suc d)
  then have lt: "b * 512 < unat filesz"
    by linarith
  have "unat (of_nat (b * 512) :: u32) = b * 512"
    using lt assms(1) by (intro unat_of_nat_less) simp
  then have go: "of_nat (b * BLOCK_SIZE) < filesz"
    using lt by (simp add: word_less_nat_alt BLOCK_SIZE_def)
  obtain pn1 pp1 m1 m2 where st: "pn1 = pn + (if b mod 8 = 0 then 1 else 0)"
    "load_blocks t pid reader filesz (Suc b) pn1 (bn + 1) pp1 m2 = Inr (pn', m')"
    using Suc.prems(2) unfolding load_blocks_go [OF go]
    by (cases "b mod 8 = 0") (auto simp: bindr_eq_Inr_iff simp del: mod_0_imp_dvd)
  have "pn' = pn1 + of_nat (pages_of (unat filesz) - (Suc b + 7) div 8)"
    using Suc.hyps Suc.prems(1) st(2) lt by (intro Suc.hyps(1)) linarith+
  moreover have "pages_of (unat filesz) - (b + 7) div 8 =
      (if b mod 8 = 0 then 1 else 0) + (pages_of (unat filesz) - (Suc b + 7) div 8)"
  proof -
    have "b div 8 < pages_of (unat filesz)"
      using lt unfolding pages_of_def by linarith
    moreover have "(b + 7) div 8 = (if b mod 8 = 0 then b div 8 else Suc (b div 8))" "(Suc b + 7) div 8 = Suc (b div 8)"
      by presburger+
    ultimately show ?thesis
      by auto
  qed
  ultimately show ?case
    by (simp add: st(1))
qed

lemma map_rest_inv:
  assumes run: "map_rest t pid (pn + of_nat np) (pn + of_nat e) m = Inr m'"
    and sz: "unat pn + max np e \<le> 2 ^ 20"
    and fresh: "\<And>j. np \<le> j \<Longrightarrow> j < e \<Longrightarrow> fpage m0 pid (pg_addr pn j) = None"
    and n: "n \<le> np * 4096"
    and inv: "seg_inv pid pn f m0 n np m"
  shows "seg_inv pid pn f m0 n (max np e) m'"
  using run sz fresh n inv
proof (induction "e - np" arbitrary: np m)
  case 0
  have u: "unat (pn + of_nat i) = unat pn + i" if "i \<le> max np e" for i
    using "0.prems"(2) that by (simp add: unat_word_ariths unat_of_nat_less)
  have "\<not> pn + of_nat np < pn + of_nat e"
    using 0 u [of np] u [of e] by (simp add: word_less_nat_alt)
  then show ?case
    using 0 by (subst (asm) map_rest.simps) (simp add: max_def)
next
  case (Suc d)
  have u: "unat (pn + of_nat i) = unat pn + i" if "i \<le> max np e" for i
    using Suc.prems(2) that by (simp add: unat_word_ariths unat_of_nat_less)
  have "pn + of_nat np < pn + of_nat e"
    using Suc.hyps(2) u [of np] u [of e] by (simp add: word_less_nat_alt)
  then obtain pp m1 where new: "new_zero_page t pid (pn + of_nat np) m = Inr (pp, m1)"
    and rest: "map_rest t pid (pn + of_nat np + 1) (pn + of_nat e) m1 = Inr m'"
    using Suc.prems(1) by (subst (asm) map_rest.simps) (auto simp: bindr_eq_Inr_iff)
  have inv1: "seg_inv pid pn f m0 n (Suc np) m1"
    using Suc.prems Suc.hyps(2) by (intro seg_inv_new(1) [OF _ _ _ _ new]) auto
  have "map_rest t pid (pn + of_nat (Suc np)) (pn + of_nat e) m1 = Inr m'"
    using rest by (simp add: ac_simps)
  moreover have "d = e - Suc np" "unat pn + max (Suc np) e \<le> 2 ^ 20" "max (Suc np) e = max np e" "n \<le> Suc np * 4096"
    using Suc.hyps(2) Suc.prems(2,4) by auto
  ultimately show ?case
    using Suc.hyps(1) [of "Suc np" m1] Suc.prems(3) inv1 by simp
qed

section \<open>A segment\<close>

text \<open>The bytes of a process's memory.\<close>

definition proc_byte :: "mmu_state \<Rightarrow> i32 \<Rightarrow> u32 \<Rightarrow> u8 option" where
  "proc_byte m pid a = map_option (\<lambda>pg. bytes_of pg ! (unat a mod 4096)) (vmem m pid (page_base a))"

text \<open>
  The pages the loader maps for a segment: as many as the bytes of the file fill, and at least as many
  as the memory size rounded down, which is one less than the segment spans when its last page holds
  only zeros and is not full.
\<close>

definition seg_pages :: "elf32_program_header \<Rightarrow> nat" where
  "seg_pages ph = max (pages_of (unat (p_filesz ph))) (unat (p_memsz ph) div 4096)"

text \<open>A segment the loader accepts: page-aligned, inside the address space, its pages not yet mapped.\<close>

definition seg_placed :: "elf32_program_header \<Rightarrow> bool" where
  "seg_placed ph \<longleftrightarrow> RAM_START \<le> p_vaddr ph \<and> unat (p_vaddr ph) mod 4096 = 0 \<and>
     unat (p_vaddr ph) + unat (p_memsz ph) < 2 ^ 32 \<and> unat (p_vaddr ph) div 4096 + seg_pages ph \<le> 2 ^ 20"

definition seg_fresh :: "mmu_state \<Rightarrow> i32 \<Rightarrow> elf32_program_header \<Rightarrow> bool" where
  "seg_fresh m pid ph \<longleftrightarrow> seg_placed ph \<and>
     (\<forall>j < seg_pages ph. frame_of m pid (p_vaddr ph + of_nat (j * 4096)) = None)"

lemma vaddr_page:
  assumes "unat va mod 4096 = 0"
  shows "pg_addr (va div PAGE_SIZE) j = va + of_nat (j * 4096)" "unat (va div PAGE_SIZE) = unat va div 4096"
proof -
  show u: "unat (va div PAGE_SIZE) = unat va div 4096"
    by (simp add: PAGE_SIZE_def unat_div_distrib)
  have "unat va = unat (va div PAGE_SIZE) * 4096"
    using assms unfolding u by (metis add.right_neutral div_mult_mod_eq)
  then have "of_nat (unat va) = (of_nat (unat (va div PAGE_SIZE) * 4096) :: u32)"
    by simp
  then have "va = va div PAGE_SIZE * 4096"
    by simp
  then show "pg_addr (va div PAGE_SIZE) j = va + of_nat (j * 4096)"
    by (simp add: pg_addr_def PAGE_NO_TO_ADDR_def PAGE_SIZE_def algebra_simps)
qed

lemma seg_placedD:
  assumes "seg_placed ph"
  shows "unat (p_vaddr ph) mod 4096 = 0" "\<not> p_vaddr ph < RAM_START" "0x80000000 \<le> unat (p_vaddr ph)"
    "unat (p_vaddr ph div PAGE_SIZE) + seg_pages ph \<le> 2 ^ 20" "0 < unat (p_vaddr ph div PAGE_SIZE)"
    "unat (p_filesz ph) + 512 \<le> 2 ^ 32"
proof -
  show al: "unat (p_vaddr ph) mod 4096 = 0" and ge: "0x80000000 \<le> unat (p_vaddr ph)"
    using assms by (simp_all add: seg_placed_def RAM_START_def word_le_nat_alt)
  show "\<not> p_vaddr ph < RAM_START" "unat (p_vaddr ph div PAGE_SIZE) + seg_pages ph \<le> 2 ^ 20"
    using assms by (simp_all add: seg_placed_def vaddr_page [OF al] word_le_nat_alt word_less_nat_alt)
  then have "unat (p_vaddr ph) div 4096 + pages_of (unat (p_filesz ph)) \<le> 2 ^ 20"
    unfolding vaddr_page(2) [OF al] seg_pages_def by simp
  then show "unat (p_filesz ph) + 512 \<le> 2 ^ 32"
    using ge unfolding pages_of_def by simp
  show "0 < unat (p_vaddr ph div PAGE_SIZE)"
    using ge unfolding vaddr_page(2) [OF al] by simp
qed

lemma seg_freshD:
  assumes "seg_fresh m pid ph"
  shows "seg_placed ph" "j < seg_pages ph \<Longrightarrow> fpage m pid (pg_addr (p_vaddr ph div PAGE_SIZE) j) = None"
  using assms by (simp_all add: seg_fresh_def vaddr_page [OF seg_placedD(1)] fpage_None)

lemma seg_placed_end:
  assumes "seg_placed ph"
  shows "(p_vaddr ph + p_memsz ph) div PAGE_SIZE = p_vaddr ph div PAGE_SIZE + of_nat (unat (p_memsz ph) div 4096)"
proof (rule word_unat_eq_iff [THEN iffD2])
  let ?va = "p_vaddr ph" and ?ms = "unat (p_memsz ph)"
  note f = seg_placedD [OF assms]
  have "unat (?va + p_memsz ph) = unat ?va + ?ms"
    using assms by (simp add: seg_placed_def unat_word_ariths)
  then have "unat ((?va + p_memsz ph) div PAGE_SIZE) = (unat ?va + ?ms) div 4096"
    by (simp add: PAGE_SIZE_def unat_div_distrib)
  also have "\<dots> = unat ?va div 4096 + ?ms div 4096"
    using f(1) by (simp add: div_add1_eq)
  also have "\<dots> = unat (?va div PAGE_SIZE + of_nat (?ms div 4096))"
    using f(4) vaddr_page(2) [OF f(1)] by (simp add: unat_word_ariths unat_of_nat_less seg_pages_def)
  finally show "unat ((?va + p_memsz ph) div PAGE_SIZE) = unat (?va div PAGE_SIZE + of_nat (?ms div 4096))" .
qed

lemma seg_fresh_blocks:
  assumes "load_blocks t pid reader (p_filesz ph) 0 (p_vaddr ph div PAGE_SIZE) bn pp m = Inr (pn', m1)"
    "\<And>b. length (reader b) = 128" "table512 m" "seg_fresh m pid ph"
  shows "pn' = p_vaddr ph div PAGE_SIZE + of_nat (pages_of (unat (p_filesz ph))) \<and>
    seg_inv pid (p_vaddr ph div PAGE_SIZE) (file_byte reader bn) m (unat (p_filesz ph)) (pages_of (unat (p_filesz ph))) m1"
proof -
  have "seg_inv pid (p_vaddr ph div PAGE_SIZE) (file_byte reader bn) m 0 0 m"
    using assms(3) by (simp add: seg_inv_def)
  then show ?thesis
    using assms(1) seg_freshD [OF assms(4)] seg_placedD [OF seg_freshD(1) [OF assms(4)]]
    by (intro load_blocks_inv [where t = t and reader = reader and b = 0 and bn = bn and pp = pp and m = m, OF assms(2)])
       (auto simp: seg_pages_def)
qed

lemma load_segment_inv:
  assumes run: "load_segment t pid reader ph m = Inr m'" and rd: "\<And>b. length (reader b) = 128"
    and tab: "table512 m" and fresh: "seg_fresh m pid ph"
  shows "seg_inv pid (p_vaddr ph div PAGE_SIZE) (file_byte reader (p_offset ph div 512)) m
    (unat (p_filesz ph)) (seg_pages ph) m'"
proof -
  let ?fs = "unat (p_filesz ph)"
  note f = seg_placedD [OF seg_freshD(1) [OF fresh]] seg_freshD(2) [OF fresh]
  obtain pn' m1 where lb: "load_blocks t pid reader (p_filesz ph) 0 (p_vaddr ph div PAGE_SIZE) (p_offset ph div 512) 0 m = Inr (pn', m1)"
    and mr: "map_rest t pid pn' ((p_vaddr ph + p_memsz ph) div PAGE_SIZE) m1 = Inr m'"
    using run f(2) by (auto simp: load_segment_def Let_def bindr_eq_Inr_iff BLOCK_SIZE_def)
  note l = seg_fresh_blocks [OF lb rd tab fresh]
  have "?fs \<le> pages_of ?fs * 4096"
    unfolding pages_of_def by linarith
  then show ?thesis
    using map_rest_inv [of t pid "p_vaddr ph div PAGE_SIZE" "pages_of ?fs" "unat (p_memsz ph) div 4096" m1 m' m ?fs]
      l mr f seg_placed_end [OF seg_freshD(1) [OF fresh]] by (simp add: seg_pages_def)
qed

end
