(* ===== verification/Process.thy ===== *)
theory Process
  imports Prelude
begin

text \<open>
  The process table, the lifecycle statistics and the multilevel feedback queue of
  grass/process.c, over the state grass/kernel.c declares.
\<close>

section \<open>System calls and processes\<close>

text \<open>library/syscall/syscall.h and servers.h\<close>

definition GPID_ALL :: i32 where "GPID_ALL = -1"
definition GPID_PROCESS :: i32 where "GPID_PROCESS = 1"
definition GPID_TERMINAL :: i32 where "GPID_TERMINAL = 2"
definition GPID_FILE :: i32 where "GPID_FILE = 3"
definition GPID_SHELL :: i32 where "GPID_SHELL = 4"
definition GPID_USER_START :: i32 where "GPID_USER_START = 5"

definition SYS_UNUSED :: u32 where "SYS_UNUSED = 0"
definition SYS_RECV :: u32 where "SYS_RECV = 1"
definition SYS_SEND :: u32 where "SYS_SEND = 2"

datatype syscall_status = PENDING | DONE

text \<open>
  The type comes from user space, so it is any word; the message is the bytes of
  \<open>char content[SYSCALL_MSG_LEN]\<close>.
\<close>

record syscall =
  sc_type :: u32
  sc_sender :: i32
  sc_receiver :: i32
  sc_content :: "u8 list"
  sc_status :: syscall_status

datatype proc_status =
  PROC_UNUSED | PROC_LOADING | PROC_READY | PROC_RUNNING | PROC_RUNNABLE | PROC_PENDING_SYSCALL

definition MAX_NPROCESS :: nat where
  "MAX_NPROCESS = 16"

record process =
  pid :: i32
  syscall_of :: syscall
  status :: proc_status
  mepc :: u32
  saved_registers :: "u32 list"
  mlfq_level :: int
  remainingt_onlevel :: u64
  current_level_runtime :: u64
  total_runtime :: u64
  sleep_until_time :: u64
  time_created :: u64
  time_terminated :: u64
  cpu_runtime :: u64
  no_interrupts :: i32
  time_first_scheduled :: u64
  time_last_scheduled :: u64

section \<open>The machine below and the kernel's state\<close>

text \<open>
  The functions of \<open>struct earth\<close> the kernel calls, on the state \<open>'e\<close> of the machine:
  \<open>load_syscall a\<close> and \<open>store_syscall a\<close> are the copies of a \<open>struct syscall\<close> from and to
  the memory at \<open>a\<close>.
\<close>

record 'e earth =
  mtime_get :: "'e \<Rightarrow> u64 \<times> 'e"
  tty_input_empty :: "'e \<Rightarrow> bool \<times> 'e"
  earth_mmu_free :: "i32 \<Rightarrow> 'e \<Rightarrow> 'e"
  earth_mmu_translate :: "i32 \<Rightarrow> u32 \<Rightarrow> 'e \<Rightarrow> u32 \<times> 'e"
  earth_mmu_switch :: "i32 \<Rightarrow> 'e \<Rightarrow> 'e"
  earth_mmu_flush_cache :: "'e \<Rightarrow> 'e"
  earth_timer_reset :: "nat \<Rightarrow> 'e \<Rightarrow> 'e"
  load_syscall :: "u32 \<Rightarrow> 'e \<Rightarrow> syscall"
  store_syscall :: "u32 \<Rightarrow> syscall \<Rightarrow> 'e \<Rightarrow> 'e"

text \<open>The five \<open>INFO\<close> lines of \<open>proc_free\<close>.\<close>

record proc_stats =
  st_pid :: i32
  st_turnaround :: u64
  st_response :: u64
  st_cpu :: u64
  st_interrupts :: i32

record 'e kernel =
  core_in_kernel :: nat
  core_to_proc_idx :: "nat list"
  proc_set :: "process list"
  alloc_curr_pid :: u32
  MLFQ_last_reset_time :: u64
  printed :: "proc_stats list"
  machine :: 'e

definition curr_proc_idx :: "'e kernel \<Rightarrow> nat" where
  "curr_proc_idx k = core_to_proc_idx k ! core_in_kernel k"

definition curr_proc :: "'e kernel \<Rightarrow> process" where
  "curr_proc k = proc_set k ! curr_proc_idx k"

definition upd_proc :: "nat \<Rightarrow> (process \<Rightarrow> process) \<Rightarrow> 'e kernel \<Rightarrow> 'e kernel" where
  "upd_proc i f k = k\<lparr>proc_set := (proc_set k)[i := f (proc_set k ! i)]\<rparr>"

definition get_time :: "'e earth \<Rightarrow> 'e kernel \<Rightarrow> u64 \<times> 'e kernel" where
  "get_time e k = (let (t, m) = mtime_get e (machine k) in (t, k\<lparr>machine := m\<rparr>))"

section \<open>Status\<close>

text \<open>The loop runs over the first \<open>MAX_NPROCESS\<close> slots of the \<open>MAX_NPROCESS + 1\<close>.\<close>

definition set_status :: "i32 \<Rightarrow> proc_status \<Rightarrow> process list \<Rightarrow> process list" where
  "set_status p st ps =
     map (\<lambda>q. if pid q = p then q\<lparr>status := st\<rparr> else q) (take MAX_NPROCESS ps) @ drop MAX_NPROCESS ps"

definition proc_set_status :: "i32 \<Rightarrow> proc_status \<Rightarrow> 'e kernel \<Rightarrow> 'e kernel" where
  "proc_set_status p st k = k\<lparr>proc_set := set_status p st (proc_set k)\<rparr>"

definition proc_set_ready :: "i32 \<Rightarrow> 'e kernel \<Rightarrow> 'e kernel" where
  "proc_set_ready p = proc_set_status p PROC_READY"

definition proc_set_running :: "i32 \<Rightarrow> 'e kernel \<Rightarrow> 'e kernel" where
  "proc_set_running p = proc_set_status p PROC_RUNNING"

definition proc_set_runnable :: "i32 \<Rightarrow> 'e kernel \<Rightarrow> 'e kernel" where
  "proc_set_runnable p = proc_set_status p PROC_RUNNABLE"

definition proc_set_pending :: "i32 \<Rightarrow> 'e kernel \<Rightarrow> 'e kernel" where
  "proc_set_pending p = proc_set_status p PROC_PENDING_SYSCALL"

section \<open>Allocation\<close>

definition MLFQ_NLEVELS :: int where
  "MLFQ_NLEVELS = 5"

definition MLFQ_RESET_PERIOD :: u64 where
  "MLFQ_RESET_PERIOD = 10000000"

definition MLFQ_LEVEL_RUNTIME :: "int \<Rightarrow> u64" where
  "MLFQ_LEVEL_RUNTIME x = word_of_int ((x + 1) * 100000)"

definition find_unused :: "process list \<Rightarrow> nat option" where
  "find_unused ps = find (\<lambda>i. status (ps ! i) = PROC_UNUSED) [1 ..< MAX_NPROCESS + 1]"

definition init_process :: "u32 \<Rightarrow> u64 \<Rightarrow> process \<Rightarrow> process" where
  "init_process new_pid now p = p\<lparr>pid := new_pid, status := PROC_LOADING,
     mlfq_level := 0, remainingt_onlevel := MLFQ_LEVEL_RUNTIME 0,
     current_level_runtime := 0, total_runtime := 0, sleep_until_time := 0,
     time_created := now, time_terminated := 0, cpu_runtime := 0, no_interrupts := 0,
     time_first_scheduled := 0, time_last_scheduled := 0\<rparr>"

definition proc_alloc :: "'e earth \<Rightarrow> 'e kernel \<Rightarrow> fault + (i32 \<times> 'e kernel)" where
  "proc_alloc e k = (case find_unused (proc_set k) of
     None \<Rightarrow> Inl (Fatal ''proc_alloc: reach the limit of processes'')
   | Some i \<Rightarrow>
       let new_pid = alloc_curr_pid k + 1;
           (now, k1) = get_time e (k\<lparr>alloc_curr_pid := new_pid\<rparr>) in
       Inr (new_pid, upd_proc i (init_process new_pid now) k1))"

section \<open>Termination\<close>

definition is_live_user :: "process \<Rightarrow> bool" where
  "is_live_user p \<longleftrightarrow> GPID_USER_START \<le>s pid p \<and> status p \<noteq> PROC_UNUSED"

definition proc_stats_of :: "process \<Rightarrow> proc_stats" where
  "proc_stats_of p = \<lparr>st_pid = pid p,
     st_turnaround = (if time_terminated p > time_created p then time_terminated p - time_created p else 0),
     st_response = (if time_first_scheduled p > 0 then time_first_scheduled p - time_created p else 0),
     st_cpu = cpu_runtime p, st_interrupts = no_interrupts p\<rparr>"

text \<open>Both branches set \<open>time_terminated\<close> of slot \<open>i\<close> and print its statistics.\<close>

definition record_termination :: "'e earth \<Rightarrow> nat \<Rightarrow> 'e kernel \<Rightarrow> 'e kernel" where
  "record_termination e i k =
     (let (now, k1) = get_time e k;
          k2 = upd_proc i (\<lambda>p. p\<lparr>time_terminated := now\<rparr>) k1 in
      k2\<lparr>printed := printed k2 @ [proc_stats_of (proc_set k2 ! i)]\<rparr>)"

text \<open>
  With a pid, the loop stops at the first live user process, whichever it is; its statistics
  are printed, and \<open>pid\<close> is what is freed.
\<close>

definition proc_free_one :: "'e earth \<Rightarrow> i32 \<Rightarrow> 'e kernel \<Rightarrow> 'e kernel" where
  "proc_free_one e p k =
     (case find (\<lambda>i. is_live_user (proc_set k ! i)) [0 ..< MAX_NPROCESS] of
        None \<Rightarrow> k
      | Some i \<Rightarrow>
          let k1 = record_termination e i k in
          proc_set_status p PROC_UNUSED (k1\<lparr>machine := earth_mmu_free e p (machine k1)\<rparr>))"

fun proc_free_all :: "'e earth \<Rightarrow> nat list \<Rightarrow> 'e kernel \<Rightarrow> 'e kernel" where
  "proc_free_all e [] k = k"
| "proc_free_all e (i # is) k = proc_free_all e is
     (if is_live_user (proc_set k ! i)
      then let k1 = record_termination e i k in
           upd_proc i (\<lambda>p. p\<lparr>status := PROC_UNUSED\<rparr>)
             (k1\<lparr>machine := earth_mmu_free e (pid (proc_set k1 ! i)) (machine k1)\<rparr>)
      else k)"

definition proc_free :: "'e earth \<Rightarrow> i32 \<Rightarrow> 'e kernel \<Rightarrow> 'e kernel" where
  "proc_free e p k =
     (if p \<noteq> GPID_ALL then proc_free_one e p k else proc_free_all e [0 ..< MAX_NPROCESS] k)"

section \<open>The multilevel feedback queue\<close>

text \<open>
  \<open>remainingt_onlevel\<close> is unsigned, so the test \<open><= 0\<close> is a test for exactly 0.
\<close>

definition mlfq_update_level :: "u64 \<Rightarrow> process \<Rightarrow> process" where
  "mlfq_update_level runtime p =
     (let p1 = p\<lparr>total_runtime := total_runtime p + runtime,
                 current_level_runtime := current_level_runtime p + runtime,
                 cpu_runtime := cpu_runtime p + runtime,
                 remainingt_onlevel := remainingt_onlevel p - runtime\<rparr> in
      if remainingt_onlevel p1 \<le> 0
      then let lvl = (if mlfq_level p1 < MLFQ_NLEVELS - 1 then mlfq_level p1 + 1 else mlfq_level p1) in
           p1\<lparr>mlfq_level := lvl, remainingt_onlevel := MLFQ_LEVEL_RUNTIME lvl,
              current_level_runtime := 0\<rparr>
      else p1)"

definition reset_shell_level :: "process list \<Rightarrow> process list" where
  "reset_shell_level ps =
     (case find (\<lambda>i. pid (ps ! i) = GPID_SHELL) [0 ..< MAX_NPROCESS] of
        None \<Rightarrow> ps
      | Some i \<Rightarrow> ps[i := (ps ! i)\<lparr>mlfq_level := 0\<rparr>])"

definition reset_all_levels :: "process list \<Rightarrow> process list" where
  "reset_all_levels ps =
     map (\<lambda>p. if status p \<noteq> PROC_UNUSED then p\<lparr>mlfq_level := 0\<rparr> else p) (take MAX_NPROCESS ps) @
     drop MAX_NPROCESS ps"

definition mlfq_reset_level :: "'e earth \<Rightarrow> 'e kernel \<Rightarrow> 'e kernel" where
  "mlfq_reset_level e k =
     (let (empty, m) = tty_input_empty e (machine k);
          k1 = k\<lparr>machine := m, proc_set := (if empty then proc_set k else reset_shell_level (proc_set k))\<rparr>;
          (now, k2) = get_time e k1;
          k3 = (if MLFQ_last_reset_time k2 = 0 then k2\<lparr>MLFQ_last_reset_time := now\<rparr> else k2) in
      if now - MLFQ_last_reset_time k3 \<ge> MLFQ_RESET_PERIOD
      then k3\<lparr>proc_set := reset_all_levels (proc_set k3), MLFQ_last_reset_time := now\<rparr>
      else k3)"

text \<open>\<open>proc_sleep\<close> and \<open>proc_coresinfo\<close> have no statements.\<close>

definition proc_sleep :: "i32 \<Rightarrow> u32 \<Rightarrow> 'e kernel \<Rightarrow> 'e kernel" where
  "proc_sleep p usec k = k"

definition proc_coresinfo :: "'e kernel \<Rightarrow> 'e kernel" where
  "proc_coresinfo k = k"

section \<open>Lemmas\<close>

lemma length_set_status [simp]: "length (set_status p st ps) = length ps"
  by (simp add: set_status_def)

lemma set_status_nth:
  "i < length ps \<Longrightarrow> set_status p st ps ! i =
     (if i < MAX_NPROCESS \<and> pid (ps ! i) = p then (ps ! i)\<lparr>status := st\<rparr> else ps ! i)"
  by (auto simp: set_status_def nth_append min_def)

lemma reset_all_levels_nth:
  "i < length ps \<Longrightarrow> reset_all_levels ps ! i =
     (if i < MAX_NPROCESS \<and> status (ps ! i) \<noteq> PROC_UNUSED then (ps ! i)\<lparr>mlfq_level := 0\<rparr> else ps ! i)"
  by (auto simp: reset_all_levels_def nth_append min_def)

lemma length_reset_all_levels [simp]: "length (reset_all_levels ps) = length ps"
  by (simp add: reset_all_levels_def)

lemma length_reset_shell_level [simp]: "length (reset_shell_level ps) = length ps"
  by (simp add: reset_shell_level_def split: option.split)

lemma reset_shell_level_nth:
  "i < length ps \<Longrightarrow> \<exists>l. reset_shell_level ps ! i = (ps ! i)\<lparr>mlfq_level := l\<rparr> \<and> (l = 0 \<or> l = mlfq_level (ps ! i))"
proof (cases "reset_shell_level ps ! i = ps ! i")
  case True
  moreover have "ps ! i = (ps ! i)\<lparr>mlfq_level := mlfq_level (ps ! i)\<rparr>"
    by simp
  ultimately show ?thesis
    by metis
next
  case False
  moreover assume "i < length ps"
  ultimately have "reset_shell_level ps ! i = (ps ! i)\<lparr>mlfq_level := 0\<rparr>"
    by (cases "find (\<lambda>i. pid (ps ! i) = GPID_SHELL) [0 ..< MAX_NPROCESS]")
       (auto simp: reset_shell_level_def nth_list_update_le split: if_split_asm)
  then show ?thesis
    by blast
qed

lemma find_SomeD: "find P xs = Some x \<Longrightarrow> x \<in> set xs \<and> P x"
  by (auto simp: find_Some_iff)

lemma find_unused_spec:
  "find_unused ps = Some i \<longleftrightarrow>
     1 \<le> i \<and> i \<le> MAX_NPROCESS \<and> status (ps ! i) = PROC_UNUSED \<and>
     (\<forall>j. 1 \<le> j \<longrightarrow> j < i \<longrightarrow> status (ps ! j) \<noteq> PROC_UNUSED)"
proof -
  have "find_unused ps = Some i \<longleftrightarrow> (\<exists>n<MAX_NPROCESS. i = Suc n \<and> status (ps ! Suc n) = PROC_UNUSED \<and>
      (\<forall>j<n. status (ps ! Suc j) \<noteq> PROC_UNUSED))"
    by (auto simp: find_unused_def find_Some_iff simp del: upt_Suc)
  also have "\<dots> \<longleftrightarrow> 1 \<le> i \<and> i \<le> MAX_NPROCESS \<and> status (ps ! i) = PROC_UNUSED \<and>
      (\<forall>j. 1 \<le> j \<longrightarrow> j < i \<longrightarrow> status (ps ! j) \<noteq> PROC_UNUSED)"
    by (cases i) (auto, metis Suc_le_D Suc_le_eq less_Suc_eq_0_disj not_less_eq)
  finally show ?thesis .
qed

end
