(* ===== verification/Kernel.thy ===== *)
theory Kernel
  imports Process Mmu
begin

text \<open>
  The kernel of grass/kernel.c: message passing between processes, the scheduler and the two trap
  handlers, on any machine below.
\<close>

section \<open>System calls\<close>

text \<open>\<open>struct process*\<close> arguments are indices of \<open>proc_set\<close>.\<close>

definition proc_try_send :: "nat \<Rightarrow> 'e kernel \<Rightarrow> fault + 'e kernel" where
  "proc_try_send sender k =
     (let s = proc_set k ! sender in
      case find (\<lambda>i. pid (proc_set k ! i) = sc_receiver (syscall_of s) \<and>
                     status (proc_set k ! i) \<noteq> PROC_UNUSED) [0 ..< MAX_NPROCESS] of
        None \<Rightarrow> Inl (Fatal ''proc_try_send: unknown receiver'')
      | Some i \<Rightarrow>
          let d = syscall_of (proc_set k ! i) in
          if \<not> (sc_type d = SYS_RECV \<and> sc_status d = PENDING) then Inr k
          else if \<not> (sc_sender d = GPID_ALL \<or> sc_sender d = pid s) then Inr k
          else Inr (upd_proc i (\<lambda>dst. dst\<lparr>syscall_of := (syscall_of dst)\<lparr>sc_status := DONE,
                  sc_sender := pid s, sc_content := sc_content (syscall_of s)\<rparr>\<rparr>) k))"

definition proc_try_recv :: "'e earth \<Rightarrow> nat \<Rightarrow> 'e kernel \<Rightarrow> 'e kernel" where
  "proc_try_recv e receiver k =
     (let r = proc_set k ! receiver in
      if sc_status (syscall_of r) = PENDING then k
      else
        let (syscall_paddr, m1) = earth_mmu_translate e (pid r) SYSCALL_ARG (machine k);
            m2 = store_syscall e syscall_paddr (syscall_of r) m1 in
        proc_set_runnable (sc_sender (syscall_of r))
          (proc_set_runnable (pid r) (k\<lparr>machine := m2\<rparr>)))"

definition proc_try_syscall :: "'e earth \<Rightarrow> nat \<Rightarrow> 'e kernel \<Rightarrow> fault + 'e kernel" where
  "proc_try_syscall e p k =
     (let t = sc_type (syscall_of (proc_set k ! p)) in
      if t = SYS_RECV then Inr (proc_try_recv e p k)
      else if t = SYS_SEND then proc_try_send p k
      else Inl (Fatal ''proc_try_syscall: unknown syscall type''))"

section \<open>The scheduler\<close>

definition schedulable :: "process \<Rightarrow> bool" where
  "schedulable p \<longleftrightarrow> status p = PROC_READY \<or> status p = PROC_RUNNABLE"

text \<open>The loop of \<open>proc_yield\<close>, with \<open>lowest_level\<close> and \<open>next_idx\<close>.\<close>

fun sched_loop :: "'e earth \<Rightarrow> nat list \<Rightarrow> int \<Rightarrow> nat \<Rightarrow> 'e kernel \<Rightarrow> fault + (nat \<times> 'e kernel)" where
  "sched_loop e [] lowest_level next_idx k = Inr (next_idx, k)"
| "sched_loop e (i # is) lowest_level next_idx k =
     (let p = (curr_proc_idx k + i) mod MAX_NPROCESS in
      bindr (if status (proc_set k ! p) = PROC_PENDING_SYSCALL then proc_try_syscall e p k else Inr k)
        (\<lambda>k1. if schedulable (proc_set k1 ! p) \<and> mlfq_level (proc_set k1 ! p) < lowest_level
               then sched_loop e is (mlfq_level (proc_set k1 ! p)) p k1
               else sched_loop e is lowest_level next_idx k1))"

text \<open>The bookkeeping of \<open>proc_yield\<close> before its loop: returns \<open>current_time\<close>.\<close>

definition yield_account :: "'e earth \<Rightarrow> 'e kernel \<Rightarrow> u64 \<times> 'e kernel" where
  "yield_account e k0 =
     (let k = (if status (curr_proc k0) = PROC_RUNNING
               then proc_set_runnable (pid (curr_proc k0)) k0 else k0);
          (current_time, k1) = get_time e k;
          idx = curr_proc_idx k1;
          k2 = (if idx > 0 \<and> idx \<le> MAX_NPROCESS \<and> status (curr_proc k1) \<noteq> PROC_UNUSED \<and>
                   time_last_scheduled (curr_proc k1) > 0
                then upd_proc idx
                  (mlfq_update_level (current_time - time_last_scheduled (curr_proc k1))) k1
                else k1) in
      (current_time, mlfq_reset_level e k2))"

text \<open>What \<open>proc_yield\<close> does once it has the next process.\<close>

definition switch_to :: "'e earth \<Rightarrow> u64 \<Rightarrow> nat \<Rightarrow> 'e kernel \<Rightarrow> 'e kernel" where
  "switch_to e current_time next_idx k =
     (let k1 = upd_proc next_idx (\<lambda>p. p\<lparr>time_last_scheduled := current_time,
            time_first_scheduled := (if time_first_scheduled p = 0 then current_time
                                     else time_first_scheduled p)\<rparr>) k;
          k2 = k1\<lparr>core_to_proc_idx := (core_to_proc_idx k1)[core_in_kernel k1 := next_idx]\<rparr>;
          k3 = k2\<lparr>machine := earth_mmu_flush_cache e
                   (earth_mmu_switch e (pid (proc_set k2 ! next_idx)) (machine k2))\<rparr>;
          k4 = (if status (proc_set k3 ! next_idx) = PROC_READY
                then upd_proc next_idx (\<lambda>p. p\<lparr>saved_registers :=
                       (saved_registers p)[0 := APPS_ARG, 1 := APPS_ARG + 4], mepc := APPS_ENTRY\<rparr>) k3
                else k3);
          k5 = proc_set_running (pid (proc_set k4 ! next_idx)) k4 in
      k5\<lparr>machine := earth_timer_reset e (core_in_kernel k5) (machine k5)\<rparr>)"

definition proc_yield :: "'e earth \<Rightarrow> 'e kernel \<Rightarrow> fault + 'e kernel" where
  "proc_yield e k =
     (let (current_time, k1) = yield_account e k in
      bindr (sched_loop e [1 ..< MAX_NPROCESS + 1] 5 MAX_NPROCESS k1) (\<lambda>(next_idx, k2).
        if next_idx < MAX_NPROCESS then Inr (switch_to e current_time next_idx k2)
        else Inl (Fatal ''proc_yield: no process to run on core'')))"

section \<open>Traps\<close>

definition INTR_ID_TIMER :: u32 where "INTR_ID_TIMER = 7"
definition EXCP_ID_ECALL_U :: u32 where "EXCP_ID_ECALL_U = 8"
definition EXCP_ID_ECALL_M :: u32 where "EXCP_ID_ECALL_M = 11"

definition excp_entry :: "'e earth \<Rightarrow> u32 \<Rightarrow> 'e kernel \<Rightarrow> fault + 'e kernel" where
  "excp_entry e i k =
     (if i \<ge> EXCP_ID_ECALL_U \<and> i \<le> EXCP_ID_ECALL_M then
        let (syscall_paddr, m1) = earth_mmu_translate e (pid (curr_proc k)) SYSCALL_ARG (machine k);
            idx = curr_proc_idx k;
            k1 = upd_proc idx (\<lambda>p. p\<lparr>syscall_of := (load_syscall e syscall_paddr m1)\<lparr>sc_status := PENDING\<rparr>\<rparr>)
                   (k\<lparr>machine := m1\<rparr>);
            k2 = proc_set_pending (pid (curr_proc k1)) k1;
            k3 = upd_proc idx (\<lambda>p. p\<lparr>mepc := mepc p + 4\<rparr>) k2 in
        bindr (proc_try_syscall e idx k3) (proc_yield e)
      else Inl (Fatal ''excp_entry: kernel got exception''))"

definition intr_entry :: "'e earth \<Rightarrow> u32 \<Rightarrow> 'e kernel \<Rightarrow> fault + 'e kernel" where
  "intr_entry e i k =
     (if i \<noteq> INTR_ID_TIMER then Inl (Fatal ''excp_entry: kernel got interrupt'')
      else
        let idx = curr_proc_idx k;
            k1 = (if idx > 0 \<and> idx \<le> MAX_NPROCESS
                  then upd_proc idx (\<lambda>p. p\<lparr>no_interrupts := no_interrupts p + 1\<rparr>) k else k) in
        proc_yield e k1)"

text \<open>
  The trap: the registers and \<open>mepc\<close> of the core are saved for the process it ran and replaced
  by those of the process it runs next.
\<close>

definition kernel_entry :: "'e earth \<Rightarrow> nat \<Rightarrow> u32 \<Rightarrow> u32 list \<Rightarrow> u32 \<Rightarrow> 'e kernel
    \<Rightarrow> fault + (u32 \<times> u32 list \<times> 'e kernel)" where
  "kernel_entry e mhartid csr_mepc regs mcause k =
     (let k1 = k\<lparr>core_in_kernel := mhartid\<rparr>;
          k2 = upd_proc (curr_proc_idx k1) (\<lambda>p. p\<lparr>mepc := csr_mepc, saved_registers := regs\<rparr>) k1 in
      bindr (if mcause AND 0x80000000 \<noteq> 0 then intr_entry e (mcause AND 0x3FF) k2
             else excp_entry e mcause k2)
        (\<lambda>k3. Inr (mepc (curr_proc k3), saved_registers (curr_proc k3), k3)))"

end
