(* ===== verification/Kernel_Inv.thy ===== *)
theory Kernel_Inv
  imports Kernel
begin

text \<open>
  The invariant of the process table and that every operation of the kernel keeps it: pids are
  unique, slot 0 stays the idle placeholder, levels stay in the queue, and a completed receive
  names a sender.
\<close>

section \<open>The invariant\<close>

definition slot_ok :: "process \<Rightarrow> bool" where
  "slot_ok p \<longleftrightarrow> 0 \<le> mlfq_level p \<and> mlfq_level p < MLFQ_NLEVELS \<and>
     (status p \<noteq> PROC_UNUSED \<longrightarrow> pid p \<noteq> 0) \<and>
     (sc_status (syscall_of p) = DONE \<longrightarrow> sc_sender (syscall_of p) \<noteq> 0)"

definition table_ok :: "process list \<Rightarrow> u32 \<Rightarrow> bool" where
  "table_ok ps n \<longleftrightarrow> length ps = MAX_NPROCESS + 1 \<and> pid (ps ! 0) = 0 \<and>
     (\<forall>i < length ps. slot_ok (ps ! i) \<and> pid (ps ! i) \<le> n) \<and>
     (\<forall>i < length ps. \<forall>j < length ps. pid (ps ! i) = pid (ps ! j) \<longrightarrow> pid (ps ! i) \<noteq> 0 \<longrightarrow> i = j)"

definition kernel_ok :: "'e kernel \<Rightarrow> bool" where
  "kernel_ok k \<longleftrightarrow> table_ok (proc_set k) (alloc_curr_pid k) \<and>
     core_in_kernel k < length (core_to_proc_idx k) \<and>
     (\<forall>i \<in> set (core_to_proc_idx k). i \<le> MAX_NPROCESS)"

lemma MAX_NPROCESS_eq: "MAX_NPROCESS = 16"
  by (simp add: MAX_NPROCESS_def)

lemma table_okD:
  assumes "table_ok ps n"
  shows "length ps = 17" "pid (ps ! 0) = 0" "i < 17 \<Longrightarrow> slot_ok (ps ! i)"
    "i < 17 \<Longrightarrow> pid (ps ! i) \<le> n"
    "i < 17 \<Longrightarrow> j < 17 \<Longrightarrow> pid (ps ! i) = pid (ps ! j) \<Longrightarrow> pid (ps ! i) \<noteq> 0 \<Longrightarrow> i = j"
    "status (ps ! 0) = PROC_UNUSED"
proof -
  have t: "length ps = 17" "pid (ps ! 0) = 0" "\<forall>i < 17. slot_ok (ps ! i) \<and> pid (ps ! i) \<le> n"
    "\<forall>i < 17. \<forall>j < 17. pid (ps ! i) = pid (ps ! j) \<longrightarrow> pid (ps ! i) \<noteq> 0 \<longrightarrow> i = j"
    using assms by (simp_all add: table_ok_def MAX_NPROCESS_eq)
  have "slot_ok (ps ! 0)"
    using t(3) by simp
  then show "status (ps ! 0) = PROC_UNUSED"
    using t(2) by (auto simp: slot_ok_def)
  show "length ps = 17" "pid (ps ! 0) = 0" "i < 17 \<Longrightarrow> slot_ok (ps ! i)" "i < 17 \<Longrightarrow> pid (ps ! i) \<le> n"
    "i < 17 \<Longrightarrow> j < 17 \<Longrightarrow> pid (ps ! i) = pid (ps ! j) \<Longrightarrow> pid (ps ! i) \<noteq> 0 \<Longrightarrow> i = j"
    using t by blast+
qed

text \<open>The changes that keep every pid keep the invariant when each slot stays well-formed.\<close>

lemma table_ok_pointwise:
  assumes "table_ok ps n" "length ps' = length ps"
    and "\<And>i. i < length ps \<Longrightarrow> pid (ps' ! i) = pid (ps ! i) \<and> slot_ok (ps' ! i)"
  shows "table_ok ps' n"
  using assms by (simp add: table_ok_def)

text \<open>\<open>same_frame k k'\<close>: only fields of the slots, never their pids, differ.\<close>

definition same_frame :: "'e kernel \<Rightarrow> 'e kernel \<Rightarrow> bool" where
  "same_frame k k' \<longleftrightarrow> core_in_kernel k' = core_in_kernel k \<and> core_to_proc_idx k' = core_to_proc_idx k \<and>
     alloc_curr_pid k' = alloc_curr_pid k \<and> map pid (proc_set k') = map pid (proc_set k)"

lemma same_frame_refl [simp]: "same_frame k k"
  by (simp add: same_frame_def)

lemma same_frame_trans: "same_frame k k1 \<Longrightarrow> same_frame k1 k2 \<Longrightarrow> same_frame k k2"
  by (simp add: same_frame_def)

lemma same_frame_pid: "same_frame k k' \<Longrightarrow> i < length (proc_set k) \<Longrightarrow> pid (proc_set k' ! i) = pid (proc_set k ! i)"
  unfolding same_frame_def by (metis length_map nth_map)

lemma same_frame_length: "same_frame k k' \<Longrightarrow> length (proc_set k') = length (proc_set k)"
  unfolding same_frame_def by (metis length_map)

lemma same_frame_idx: "same_frame k k' \<Longrightarrow> curr_proc_idx k' = curr_proc_idx k"
  by (simp add: same_frame_def curr_proc_idx_def)

lemma same_frame_ok:
  assumes "kernel_ok k" "same_frame k k'" "\<And>i. i < length (proc_set k) \<Longrightarrow> slot_ok (proc_set k' ! i)"
  shows "kernel_ok k'"
proof -
  have "table_ok (proc_set k) (alloc_curr_pid k)"
    using assms(1) by (simp add: kernel_ok_def)
  then have "table_ok (proc_set k') (alloc_curr_pid k)"
    by (rule table_ok_pointwise)
       (simp_all add: same_frame_length [OF assms(2)] same_frame_pid [OF assms(2)] assms(3))
  then show ?thesis
    using assms(1,2) same_frame_idx [OF assms(2)] by (simp add: kernel_ok_def same_frame_def)
qed

lemma kernel_ok_slot: "kernel_ok k \<Longrightarrow> i < length (proc_set k) \<Longrightarrow> slot_ok (proc_set k ! i)"
  by (simp add: kernel_ok_def table_ok_def)

lemma kernel_ok_length: "kernel_ok k \<Longrightarrow> length (proc_set k) = 17"
  by (simp add: kernel_ok_def table_ok_def MAX_NPROCESS_eq)

section \<open>Every operation keeps it\<close>

text \<open>A step that keeps the frame and the invariant.\<close>

definition keeps :: "'e kernel \<Rightarrow> 'e kernel \<Rightarrow> bool" where
  "keeps k k' \<longleftrightarrow> same_frame k k' \<and> (kernel_ok k \<longrightarrow> kernel_ok k')"

lemma keeps_refl [simp]: "keeps k k"
  by (simp add: keeps_def)

lemma keeps_trans: "keeps k k1 \<Longrightarrow> keeps k1 k2 \<Longrightarrow> keeps k k2"
  by (auto simp: keeps_def intro: same_frame_trans)

lemma keeps_ok: "keeps k k' \<Longrightarrow> kernel_ok k \<Longrightarrow> kernel_ok k'"
  by (simp add: keeps_def)

lemma keeps_slots:
  assumes "same_frame k k'"
    and "\<And>i. kernel_ok k \<Longrightarrow> i < length (proc_set k) \<Longrightarrow> slot_ok (proc_set k ! i) \<Longrightarrow> slot_ok (proc_set k' ! i)"
  shows "keeps k k'"
  using assms same_frame_ok [of k k'] kernel_ok_slot [of k] by (auto simp: keeps_def)

lemma keeps_other_fields:
  assumes "core_in_kernel k' = core_in_kernel k" "core_to_proc_idx k' = core_to_proc_idx k"
    "alloc_curr_pid k' = alloc_curr_pid k" "proc_set k' = proc_set k"
  shows "keeps k k'"
  using assms by (intro keeps_slots) (simp_all add: same_frame_def)

lemma keeps_upd_proc:
  assumes "\<And>p. pid (f p) = pid p" "\<And>p. i < length (proc_set k) \<Longrightarrow> p = proc_set k ! i \<Longrightarrow> kernel_ok k \<Longrightarrow> slot_ok p \<Longrightarrow> slot_ok (f p)"
  shows "keeps k (upd_proc i f k)"
proof (rule keeps_slots)
  have "map pid ((proc_set k)[i := f (proc_set k ! i)]) = map pid (proc_set k)"
    using assms(1) by (cases "i < length (proc_set k)") (simp_all add: map_update list_update_same_conv list_update_beyond)
  then show "same_frame k (upd_proc i f k)"
    by (simp add: same_frame_def upd_proc_def)
qed (use assms(2) in \<open>auto simp: upd_proc_def nth_list_update_le\<close>)

lemma keeps_proc_set:
  assumes "length ps' = length (proc_set k)"
    "\<And>i. i < length (proc_set k) \<Longrightarrow> pid (ps' ! i) = pid (proc_set k ! i)"
    "\<And>i. i < length (proc_set k) \<Longrightarrow> slot_ok (proc_set k ! i) \<Longrightarrow> slot_ok (ps' ! i)"
  shows "keeps k (k\<lparr>proc_set := ps'\<rparr>)"
  using assms by (intro keeps_slots) (auto simp: same_frame_def intro: nth_equalityI)

lemma keeps_get_time: "get_time e k = (t, k') \<Longrightarrow> keeps k k'"
  by (intro keeps_other_fields) (auto simp: get_time_def split: prod.splits)

lemma keeps_set_status:
  assumes "p \<noteq> 0 \<or> st = PROC_UNUSED"
  shows "keeps k (proc_set_status p st k)"
  unfolding proc_set_status_def
  using assms by (intro keeps_proc_set) (auto simp: set_status_nth slot_ok_def)

lemma mlfq_update_level_slot:
  "pid (mlfq_update_level t p) = pid p" "status (mlfq_update_level t p) = status p"
  "syscall_of (mlfq_update_level t p) = syscall_of p" "slot_ok p \<Longrightarrow> slot_ok (mlfq_update_level t p)"
  by (auto simp: mlfq_update_level_def Let_def slot_ok_def MLFQ_NLEVELS_def)

lemma keeps_reset_level: "keeps k (mlfq_reset_level e k)"
proof -
  obtain empty m where t: "tty_input_empty e (machine k) = (empty, m)"
    by fastforce
  define k1 where "k1 = k\<lparr>machine := m, proc_set := (if empty then proc_set k else reset_shell_level (proc_set k))\<rparr>"
  obtain now k2 where g: "get_time e k1 = (now, k2)"
    by fastforce
  define k3 where "k3 = (if MLFQ_last_reset_time k2 = 0 then k2\<lparr>MLFQ_last_reset_time := now\<rparr> else k2)"
  have "keeps k (k\<lparr>machine := m\<rparr>)"
    by (rule keeps_other_fields) simp_all
  moreover have "keeps (k\<lparr>machine := m\<rparr>) k1"
  proof -
    have "pid (reset_shell_level (proc_set k) ! i) = pid (proc_set k ! i) \<and>
        (slot_ok (proc_set k ! i) \<longrightarrow> slot_ok (reset_shell_level (proc_set k) ! i))"
      if "i < length (proc_set k)" for i
      using reset_shell_level_nth [OF that] by (auto simp: slot_ok_def MLFQ_NLEVELS_def)
    then have "keeps (k\<lparr>machine := m\<rparr>) ((k\<lparr>machine := m\<rparr>)\<lparr>proc_set :=
        (if empty then proc_set k else reset_shell_level (proc_set k))\<rparr>)"
      by (intro keeps_proc_set) auto
    then show ?thesis
      by (simp add: k1_def)
  qed
  moreover have "keeps k1 k2"
    using g by (rule keeps_get_time)
  moreover have "keeps k2 k3"
    by (rule keeps_other_fields) (simp_all add: k3_def)
  ultimately have k3: "keeps k k3"
    by (blast intro: keeps_trans)
  have "keeps k3 (k3\<lparr>proc_set := reset_all_levels (proc_set k3)\<rparr>)"
    by (intro keeps_proc_set) (auto simp: reset_all_levels_nth slot_ok_def MLFQ_NLEVELS_def)
  moreover have "keeps (k3\<lparr>proc_set := reset_all_levels (proc_set k3)\<rparr>)
      (k3\<lparr>proc_set := reset_all_levels (proc_set k3), MLFQ_last_reset_time := now\<rparr>)"
    by (rule keeps_other_fields) simp_all
  ultimately have "keeps k (k3\<lparr>proc_set := reset_all_levels (proc_set k3), MLFQ_last_reset_time := now\<rparr>)"
    using k3 by (blast intro: keeps_trans)
  then show ?thesis
    using t g k3 by (simp add: mlfq_reset_level_def k1_def [symmetric] k3_def [symmetric] Let_def)
qed

lemma keeps_try_send:
  assumes "proc_try_send j k = Inr k'" "pid (proc_set k ! j) \<noteq> 0"
  shows "keeps k k'"
  using assms by (auto simp: proc_try_send_def Let_def slot_ok_def intro!: keeps_upd_proc
      split: option.splits if_splits)

lemma keeps_try_recv:
  assumes ok: "kernel_ok k" and j: "j < length (proc_set k)" "pid (proc_set k ! j) \<noteq> 0"
  shows "keeps k (proc_try_recv e j k)"
proof (cases "sc_status (syscall_of (proc_set k ! j)) = PENDING")
  case False
  let ?r = "proc_set k ! j"
  obtain a m1 where t: "earth_mmu_translate e (pid ?r) SYSCALL_ARG (machine k) = (a, m1)"
    by fastforce
  let ?k1 = "k\<lparr>machine := store_syscall e a (syscall_of ?r) m1\<rparr>"
  have "sc_status (syscall_of ?r) = DONE"
    using False by (cases "sc_status (syscall_of ?r)") auto
  then have s: "sc_sender (syscall_of ?r) \<noteq> 0"
    using kernel_ok_slot [OF ok j(1)] by (simp add: slot_ok_def)
  have "keeps k ?k1"
    by (rule keeps_other_fields) simp_all
  moreover have "keeps ?k1 (proc_set_runnable (pid ?r) ?k1)"
    unfolding proc_set_runnable_def using j by (intro keeps_set_status) simp
  moreover have "keeps (proc_set_runnable (pid ?r) ?k1)
      (proc_set_runnable (sc_sender (syscall_of ?r)) (proc_set_runnable (pid ?r) ?k1))"
    unfolding proc_set_runnable_def using s by (intro keeps_set_status) simp
  ultimately show ?thesis
    using t False by (simp add: proc_try_recv_def Let_def) (blast intro: keeps_trans)
qed (simp add: proc_try_recv_def)

lemma keeps_try_syscall:
  assumes "kernel_ok k" "j < length (proc_set k)" "pid (proc_set k ! j) \<noteq> 0" "proc_try_syscall e j k = Inr k'"
  shows "keeps k k'"
  using assms keeps_try_recv [OF assms(1-3)] keeps_try_send [OF _ assms(3)]
  by (auto simp: proc_try_syscall_def Let_def split: if_splits)

lemma kernel_ok_idx:
  assumes "kernel_ok k"
  shows "curr_proc_idx k < 17"
proof -
  have "core_to_proc_idx k ! core_in_kernel k \<in> set (core_to_proc_idx k)"
    using assms by (intro nth_mem) (simp add: kernel_ok_def)
  then have "core_to_proc_idx k ! core_in_kernel k \<le> 16"
    using assms by (simp add: kernel_ok_def MAX_NPROCESS_eq)
  then show ?thesis
    by (simp add: curr_proc_idx_def)
qed

section \<open>The scheduler's loop\<close>

lemma send_schedulable:
  "proc_try_send j k = Inr k' \<Longrightarrow> i < length (proc_set k) \<Longrightarrow>
   status (proc_set k' ! i) = status (proc_set k ! i)"
  by (auto simp: proc_try_send_def Let_def upd_proc_def nth_list_update_le split: option.splits if_splits)

lemma syscall_schedulable:
  assumes "proc_try_syscall e j k = Inr k'" "i < length (proc_set k)" "schedulable (proc_set k ! i)"
  shows "schedulable (proc_set k' ! i)"
proof -
  have "schedulable (proc_set (proc_try_recv e j k) ! i)"
    using assms(2,3) by (auto simp: proc_try_recv_def proc_set_runnable_def proc_set_status_def
        set_status_nth schedulable_def Let_def split: prod.split)
  then show ?thesis
    using assms send_schedulable [of j k k' i]
    by (auto simp: proc_try_syscall_def schedulable_def Let_def split: if_splits)
qed

lemma sched_loop_step:
  assumes "kernel_ok k" "sched_loop e (i # is) low nxt k = Inr (n', k')"
  obtains k1 low1 nxt1 where "keeps k k1" "sched_loop e is low1 nxt1 k1 = Inr (n', k')"
    "\<And>j. j < 17 \<Longrightarrow> schedulable (proc_set k ! j) \<Longrightarrow> schedulable (proc_set k1 ! j)"
    "(nxt1 = nxt \<and> low1 = low) \<or> (nxt1 = (curr_proc_idx k + i) mod MAX_NPROCESS \<and> schedulable (proc_set k1 ! nxt1))"
proof -
  let ?p = "(curr_proc_idx k + i) mod MAX_NPROCESS"
  have p: "?p < length (proc_set k)" "?p < 17"
    using kernel_ok_length [OF assms(1)] by (auto simp: MAX_NPROCESS_eq intro: less_trans [OF mod_less_divisor])
  obtain k1 where k1: "(if status (proc_set k ! ?p) = PROC_PENDING_SYSCALL then proc_try_syscall e ?p k
      else Inr k) = Inr k1"
    using assms(2) by (auto simp: Let_def bindr_eq_Inr_iff)
  have "keeps k k1"
  proof (cases "status (proc_set k ! ?p) = PROC_PENDING_SYSCALL")
    case True
    then have "pid (proc_set k ! ?p) \<noteq> 0"
      using kernel_ok_slot [OF assms(1) p(1)] by (auto simp: slot_ok_def)
    then show ?thesis
      using keeps_try_syscall [OF assms(1) p(1)] k1 True by simp
  qed (use k1 in simp)
  moreover have "schedulable (proc_set k1 ! j)" if "j < 17" "schedulable (proc_set k ! j)" for j
    using that k1 syscall_schedulable [of e ?p k k1 j] kernel_ok_length [OF assms(1)] by (auto split: if_splits)
  moreover have "sched_loop e (i # is) low nxt k =
      (if schedulable (proc_set k1 ! ?p) \<and> mlfq_level (proc_set k1 ! ?p) < low
       then sched_loop e is (mlfq_level (proc_set k1 ! ?p)) ?p k1 else sched_loop e is low nxt k1)"
    using k1 by (simp add: Let_def)
  ultimately show thesis
    using that assms(2) by (auto split: if_splits)
qed

lemma sched_loop_spec:
  assumes "kernel_ok k" "sched_loop e is low nxt k = Inr (n', k')"
    "nxt = MAX_NPROCESS \<or> (nxt < MAX_NPROCESS \<and> schedulable (proc_set k ! nxt))"
  shows "keeps k k' \<and> (n' = MAX_NPROCESS \<or> (n' < MAX_NPROCESS \<and> schedulable (proc_set k' ! n')))"
  using assms
proof (induction "is" arbitrary: low nxt k)
  case (Cons i "is")
  obtain k1 low1 nxt1 where s: "keeps k k1" "sched_loop e is low1 nxt1 k1 = Inr (n', k')"
    "\<And>j. j < 17 \<Longrightarrow> schedulable (proc_set k ! j) \<Longrightarrow> schedulable (proc_set k1 ! j)"
    "(nxt1 = nxt \<and> low1 = low) \<or> (nxt1 = (curr_proc_idx k + i) mod MAX_NPROCESS \<and> schedulable (proc_set k1 ! nxt1))"
    using sched_loop_step [OF Cons.prems(1,2)] by metis
  have "nxt1 = MAX_NPROCESS \<or> (nxt1 < MAX_NPROCESS \<and> schedulable (proc_set k1 ! nxt1))"
    using s(3,4) Cons.prems(3) by (auto simp: MAX_NPROCESS_eq)
  from Cons.IH [OF keeps_ok [OF s(1) Cons.prems(1)] s(2) this] s(1) show ?case
    by (blast intro: keeps_trans)
qed simp

section \<open>Traps, allocation and release\<close>

lemma keeps_yield_account:
  assumes "kernel_ok k" "pid (curr_proc k) \<noteq> 0" "yield_account e k = (t, k')"
  shows "keeps k k'"
proof -
  define ka where "ka = (if status (curr_proc k) = PROC_RUNNING then proc_set_runnable (pid (curr_proc k)) k else k)"
  obtain now kb where g: "get_time e ka = (now, kb)"
    by fastforce
  define kc where "kc = (if curr_proc_idx kb > 0 \<and> curr_proc_idx kb \<le> MAX_NPROCESS \<and>
      status (curr_proc kb) \<noteq> PROC_UNUSED \<and> time_last_scheduled (curr_proc kb) > 0
      then upd_proc (curr_proc_idx kb) (mlfq_update_level (now - time_last_scheduled (curr_proc kb))) kb else kb)"
  have "keeps k ka"
    using assms(2) by (simp add: ka_def proc_set_runnable_def keeps_set_status)
  moreover have "keeps ka kb"
    using g by (rule keeps_get_time)
  moreover have "keeps kb kc"
    using mlfq_update_level_slot by (auto simp: kc_def intro!: keeps_upd_proc)
  moreover have "k' = mlfq_reset_level e kc"
    using assms(3) g by (simp add: yield_account_def ka_def [symmetric] kc_def [symmetric] Let_def)
  ultimately show ?thesis
    using keeps_reset_level [of kc e] by (blast intro: keeps_trans)
qed

lemma switch_to_spec:
  assumes ok: "kernel_ok k" and n: "n < MAX_NPROCESS" "schedulable (proc_set k ! n)"
  shows "kernel_ok (switch_to e t n k)" "curr_proc_idx (switch_to e t n k) = n"
    "core_in_kernel (switch_to e t n k) = core_in_kernel k"
    "status (curr_proc (switch_to e t n k)) = PROC_RUNNING"
    "pid (curr_proc (switch_to e t n k)) = pid (proc_set k ! n)" "pid (proc_set k ! n) \<noteq> 0" "0 < n"
    "alloc_curr_pid (switch_to e t n k) = alloc_curr_pid k"
proof -
  have l: "n < length (proc_set k)"
    using n(1) kernel_ok_length [OF ok] by (simp add: MAX_NPROCESS_eq)
  have c: "core_in_kernel k < length (core_to_proc_idx k)"
    using ok by (simp add: kernel_ok_def)
  have u: "status (proc_set k ! n) \<noteq> PROC_UNUSED"
    using n(2) by (auto simp: schedulable_def)
  then show p: "pid (proc_set k ! n) \<noteq> 0"
    using kernel_ok_slot [OF ok l] by (simp add: slot_ok_def)
  then show "0 < n"
    using table_okD(2) [of "proc_set k"] ok by (auto simp: kernel_ok_def intro: gr0I)
  define k1 where "k1 = upd_proc n (\<lambda>p. p\<lparr>time_last_scheduled := t,
            time_first_scheduled := (if time_first_scheduled p = 0 then t else time_first_scheduled p)\<rparr>) k"
  define k2 where "k2 = k1\<lparr>core_to_proc_idx := (core_to_proc_idx k1)[core_in_kernel k1 := n]\<rparr>"
  define k3 where "k3 = k2\<lparr>machine := earth_mmu_flush_cache e
      (earth_mmu_switch e (pid (proc_set k2 ! n)) (machine k2))\<rparr>"
  define k4 where "k4 = (if status (proc_set k3 ! n) = PROC_READY
      then upd_proc n (\<lambda>p. p\<lparr>saved_registers := (saved_registers p)[0 := APPS_ARG, 1 := APPS_ARG + 4],
             mepc := APPS_ENTRY\<rparr>) k3 else k3)"
  define k5 where "k5 = proc_set_running (pid (proc_set k4 ! n)) k4"
  have r: "switch_to e t n k = k5\<lparr>machine := earth_timer_reset e (core_in_kernel k5) (machine k5)\<rparr>"
    by (simp add: switch_to_def k1_def k2_def k3_def k4_def k5_def Let_def)
  have a1: "keeps k k1"
    unfolding k1_def by (rule keeps_upd_proc) (auto simp: slot_ok_def)
  have a1b: "core_in_kernel k1 = core_in_kernel k" "core_to_proc_idx k1 = core_to_proc_idx k"
    by (simp_all add: k1_def upd_proc_def)
  have ok1: "kernel_ok k1"
    using a1 ok by (rule keeps_ok)
  then have "kernel_ok k2"
    using n(1) by (auto simp: k2_def kernel_ok_def dest!: set_update_subset_insert [THEN subsetD])
  moreover have "keeps k2 k3"
    unfolding k3_def by (rule keeps_other_fields) simp_all
  moreover have "keeps k3 k4"
    unfolding k4_def by (auto intro!: keeps_upd_proc simp: slot_ok_def)
  moreover have f: "same_frame k2 k4"
    using calculation(2,3) by (auto simp: keeps_def intro: same_frame_trans)
  moreover have l2: "length (proc_set k2) = 17" "length (proc_set k4) = 17"
    using calculation(1) kernel_ok_length same_frame_length [OF f] by auto
  moreover have pid4: "pid (proc_set k4 ! n) = pid (proc_set k ! n)"
    using same_frame_pid [OF f, of n] l2 n(1) l by (simp add: k2_def k1_def upd_proc_def MAX_NPROCESS_eq)
  ultimately have k5: "kernel_ok k5" "same_frame k4 k5"
    using p keeps_set_status [of "pid (proc_set k4 ! n)" PROC_RUNNING k4]
    by (auto simp: k5_def proc_set_running_def keeps_def)
  have "keeps k5 (switch_to e t n k)"
    unfolding r by (rule keeps_other_fields) simp_all
  then show "kernel_ok (switch_to e t n k)"
    using k5(1) by (rule keeps_ok)
  have "core_in_kernel k4 = core_in_kernel k" "core_to_proc_idx k4 = (core_to_proc_idx k)[core_in_kernel k := n]"
    using f a1b by (simp_all add: same_frame_def k2_def)
  then have idx: "curr_proc_idx k5 = n" "core_in_kernel k5 = core_in_kernel k"
    using k5(2) c by (simp_all add: same_frame_def curr_proc_idx_def)
  then show i: "curr_proc_idx (switch_to e t n k) = n" "core_in_kernel (switch_to e t n k) = core_in_kernel k"
    by (simp_all add: r curr_proc_idx_def)
  have "proc_set k5 ! n = (proc_set k4 ! n)\<lparr>status := PROC_RUNNING\<rparr>"
    using l2 n(1) by (simp add: k5_def proc_set_running_def proc_set_status_def set_status_nth MAX_NPROCESS_eq)
  then show "status (curr_proc (switch_to e t n k)) = PROC_RUNNING"
    "pid (curr_proc (switch_to e t n k)) = pid (proc_set k ! n)"
    using i pid4 by (simp_all add: curr_proc_def r)
  show "alloc_curr_pid (switch_to e t n k) = alloc_curr_pid k"
    using k5(2) f a1 by (simp add: r same_frame_def k2_def keeps_def)
qed

text \<open>A state in which core \<open>core_in_kernel\<close> runs a process.\<close>

definition running_ok :: "'e kernel \<Rightarrow> bool" where
  "running_ok k \<longleftrightarrow> kernel_ok k \<and> 0 < curr_proc_idx k \<and> curr_proc_idx k < MAX_NPROCESS \<and>
     status (curr_proc k) = PROC_RUNNING \<and> pid (curr_proc k) \<noteq> 0"

lemma yield_spec:
  assumes "kernel_ok k" "pid (curr_proc k) \<noteq> 0" "proc_yield e k = Inr k'"
  shows "running_ok k'" "core_in_kernel k' = core_in_kernel k" "alloc_curr_pid k' = alloc_curr_pid k"
proof -
  obtain t k1 where a: "yield_account e k = (t, k1)"
    by fastforce
  note k1 = keeps_yield_account [OF assms(1,2) a]
  obtain n k2 where s: "sched_loop e [1 ..< MAX_NPROCESS + 1] 5 MAX_NPROCESS k1 = Inr (n, k2)"
    and n: "n < MAX_NPROCESS" and k': "k' = switch_to e t n k2"
    using assms(3) a by (auto simp: proc_yield_def bindr_eq_Inr_iff split: if_splits)
  have l: "keeps k1 k2" "schedulable (proc_set k2 ! n)"
    using sched_loop_spec [OF keeps_ok [OF k1 assms(1)] s] n by auto
  have ok2: "kernel_ok k2"
    using l(1) k1 assms(1) by (blast intro: keeps_ok)
  note w = switch_to_spec [OF ok2 n l(2)]
  show "running_ok k'"
    using w n by (simp add: running_ok_def k')
  show "core_in_kernel k' = core_in_kernel k" "alloc_curr_pid k' = alloc_curr_pid k"
    using w(3,8) k1 l(1) by (simp_all add: k' keeps_def same_frame_def)
qed

lemma intr_spec:
  assumes "kernel_ok k" "pid (curr_proc k) \<noteq> 0" "intr_entry e i k = Inr k'"
  shows "running_ok k'" "core_in_kernel k' = core_in_kernel k" "alloc_curr_pid k' = alloc_curr_pid k"
proof -
  define k1 where "k1 = (if curr_proc_idx k > 0 \<and> curr_proc_idx k \<le> MAX_NPROCESS
    then upd_proc (curr_proc_idx k) (\<lambda>p. p\<lparr>no_interrupts := no_interrupts p + 1\<rparr>) k else k)"
  have k1: "keeps k k1"
    by (auto simp: k1_def slot_ok_def intro!: keeps_upd_proc)
  then have f: "same_frame k k1" "kernel_ok k1"
    using assms(1) by (simp_all add: keeps_def)
  have "pid (curr_proc k1) \<noteq> 0"
    using same_frame_pid [OF f(1)] same_frame_idx [OF f(1)] kernel_ok_idx [OF assms(1)]
      kernel_ok_length [OF assms(1)] assms(2) by (simp add: curr_proc_def)
  moreover have "proc_yield e k1 = Inr k'"
    using assms(3) by (auto simp: intr_entry_def k1_def split: if_splits)
  ultimately show "running_ok k'" "core_in_kernel k' = core_in_kernel k" "alloc_curr_pid k' = alloc_curr_pid k"
    using yield_spec [OF f(2)] f(1) by (auto simp: same_frame_def)
qed

lemma excp_spec:
  assumes ok: "kernel_ok k" and p: "pid (curr_proc k) \<noteq> 0" and x: "excp_entry e i k = Inr k'"
  shows "running_ok k'" "core_in_kernel k' = core_in_kernel k" "alloc_curr_pid k' = alloc_curr_pid k"
proof -
  let ?idx = "curr_proc_idx k"
  have idx: "?idx < length (proc_set k)"
    using kernel_ok_idx [OF ok] kernel_ok_length [OF ok] by simp
  obtain a m1 where t: "earth_mmu_translate e (pid (curr_proc k)) SYSCALL_ARG (machine k) = (a, m1)"
    by fastforce
  define k1 where "k1 = upd_proc ?idx (\<lambda>p. p\<lparr>syscall_of := (load_syscall e a m1)\<lparr>sc_status := PENDING\<rparr>\<rparr>) (k\<lparr>machine := m1\<rparr>)"
  define k2 where "k2 = proc_set_pending (pid (curr_proc k1)) k1"
  define k3 where "k3 = upd_proc ?idx (\<lambda>p. p\<lparr>mepc := mepc p + 4\<rparr>) k2"
  have "keeps k (k\<lparr>machine := m1\<rparr>)"
    by (rule keeps_other_fields) simp_all
  moreover have "keeps (k\<lparr>machine := m1\<rparr>) k1"
    unfolding k1_def by (rule keeps_upd_proc) (auto simp: slot_ok_def)
  ultimately have a1: "keeps k k1"
    by (blast intro: keeps_trans)
  then have p1: "pid (curr_proc k1) \<noteq> 0"
    using same_frame_pid [of k k1 ?idx] same_frame_idx [of k k1] idx p by (simp add: keeps_def curr_proc_def)
  have "keeps k1 k2"
    unfolding k2_def proc_set_pending_def using p1 by (intro keeps_set_status) simp
  moreover have "keeps k2 k3"
    unfolding k3_def by (rule keeps_upd_proc) (auto simp: slot_ok_def)
  ultimately have a3: "keeps k k3"
    using a1 by (blast intro: keeps_trans)
  then have ok3: "kernel_ok k3" and f3: "same_frame k k3"
    using ok by (simp_all add: keeps_def)
  have idx3: "?idx < length (proc_set k3)" "pid (proc_set k3 ! ?idx) \<noteq> 0"
    using same_frame_length [OF f3] same_frame_pid [OF f3 idx] idx p by (simp_all add: curr_proc_def)
  obtain k4 where k4: "proc_try_syscall e ?idx k3 = Inr k4" "proc_yield e k4 = Inr k'"
    using x t by (auto simp: excp_entry_def k1_def [symmetric] k2_def [symmetric] k3_def [symmetric]
        Let_def bindr_eq_Inr_iff split: if_splits)
  have "keeps k3 k4"
    using ok3 idx3 k4(1) by (rule keeps_try_syscall)
  then have ok4: "kernel_ok k4" and f4: "same_frame k k4"
    using ok3 f3 by (auto simp: keeps_def intro: same_frame_trans)
  have "pid (curr_proc k4) \<noteq> 0"
    using same_frame_pid [OF f4 idx] same_frame_idx [OF f4] p by (simp add: curr_proc_def)
  from yield_spec [OF ok4 this k4(2)] f4
  show "running_ok k'" "core_in_kernel k' = core_in_kernel k" "alloc_curr_pid k' = alloc_curr_pid k"
    by (simp_all add: same_frame_def)
qed

lemma kernel_entry_spec:
  assumes ok: "kernel_ok k" and core: "core < length (core_to_proc_idx k)"
    and p: "pid (proc_set k ! (core_to_proc_idx k ! core)) \<noteq> 0"
    and x: "kernel_entry e core csr regs mcause k = Inr (pc, regs', k')"
  shows "running_ok k'" "core_in_kernel k' = core" "alloc_curr_pid k' = alloc_curr_pid k"
    "pc = mepc (curr_proc k')" "regs' = saved_registers (curr_proc k')"
proof -
  let ?k1 = "k\<lparr>core_in_kernel := core\<rparr>"
  define k2 where "k2 = upd_proc (curr_proc_idx ?k1) (\<lambda>p. p\<lparr>mepc := csr, saved_registers := regs\<rparr>) ?k1"
  have ok1: "kernel_ok ?k1"
    using ok core by (simp add: kernel_ok_def)
  have a: "keeps ?k1 k2"
    unfolding k2_def by (rule keeps_upd_proc) (auto simp: slot_ok_def)
  then have f: "same_frame ?k1 k2" "kernel_ok k2"
    using ok1 by (simp_all add: keeps_def)
  have p2: "pid (curr_proc k2) \<noteq> 0"
    using same_frame_pid [OF f(1)] same_frame_idx [OF f(1)] kernel_ok_idx [OF ok1]
      kernel_ok_length [OF ok1] p by (simp add: curr_proc_def curr_proc_idx_def)
  obtain k3 where k3: "(if mcause AND 0x80000000 \<noteq> 0 then intr_entry e (mcause AND 0x3FF) k2
      else excp_entry e mcause k2) = Inr k3" "k' = k3" "pc = mepc (curr_proc k3)" "regs' = saved_registers (curr_proc k3)"
    using x unfolding kernel_entry_def Let_def k2_def [symmetric] by (auto simp: bindr_eq_Inr_iff)
  have "running_ok k3 \<and> core_in_kernel k3 = core_in_kernel k2 \<and> alloc_curr_pid k3 = alloc_curr_pid k2"
    using k3(1) intr_spec [OF f(2) p2] excp_spec [OF f(2) p2] by (auto split: if_splits)
  then show "running_ok k'" "core_in_kernel k' = core" "alloc_curr_pid k' = alloc_curr_pid k"
    "pc = mepc (curr_proc k')" "regs' = saved_registers (curr_proc k')"
    using k3 f(1) by (simp_all add: same_frame_def)
qed

lemma alloc_spec:
  assumes ok: "kernel_ok k" and x: "proc_alloc e k = Inr (p, k')" and n: "alloc_curr_pid k \<noteq> -1"
  obtains i where "find_unused (proc_set k) = Some i" "kernel_ok k'" "p = alloc_curr_pid k + 1"
    "alloc_curr_pid k' = p" "\<And>j. j < 17 \<Longrightarrow> pid (proc_set k ! j) < p"
    "proc_set k' ! i = init_process p (time_created (proc_set k' ! i)) (proc_set k ! i)"
    "\<And>j. j \<noteq> i \<Longrightarrow> proc_set k' ! j = proc_set k ! j"
    "core_in_kernel k' = core_in_kernel k" "core_to_proc_idx k' = core_to_proc_idx k" "p \<noteq> 0"
proof -
  obtain i where i: "find_unused (proc_set k) = Some i"
    using x by (auto simp: proc_alloc_def split: option.splits)
  obtain now k1 where g: "get_time e (k\<lparr>alloc_curr_pid := alloc_curr_pid k + 1\<rparr>) = (now, k1)"
    by fastforce
  have k1: "proc_set k1 = proc_set k" "alloc_curr_pid k1 = alloc_curr_pid k + 1"
    "core_in_kernel k1 = core_in_kernel k" "core_to_proc_idx k1 = core_to_proc_idx k"
    using g by (auto simp: get_time_def split: prod.splits)
  have r: "p = alloc_curr_pid k + 1" "k' = upd_proc i (init_process p now) k1"
    using x i g by (auto simp: proc_alloc_def Let_def)
  have t: "table_ok (proc_set k) (alloc_curr_pid k)"
    using ok by (simp add: kernel_ok_def)
  note t = t table_okD [OF t]
  have "alloc_curr_pid k + 1 \<noteq> 0"
    using n by (metis add_eq_0_iff2 add.commute minus_add_cancel)
  then have lt: "alloc_curr_pid k < p"
    unfolding r by (rule less_plus_one)
  then have fresh: "pid (proc_set k ! j) < p" if "j < 17" for j
    using t(5) [OF that] by (rule le_less_trans [rotated])
  have p0: "p \<noteq> 0"
    using lt by auto
  have ib: "1 \<le> i" "i < 17"
    using i find_unused_spec by (auto simp: MAX_NPROCESS_eq)
  have ps: "proc_set k' = (proc_set k)[i := init_process p now (proc_set k ! i)]"
    by (simp add: r k1 upd_proc_def)
  have sl: "slot_ok (init_process p now (proc_set k ! i))"
    using t(4) [OF ib(2)] p0 by (simp add: slot_ok_def init_process_def MLFQ_NLEVELS_def)
  have pi: "pid (init_process p now q) = p" for q
    by (simp add: init_process_def)
  have "table_ok (proc_set k') p"
    unfolding table_ok_def ps
  proof (intro conjI allI impI)
    show "length ((proc_set k)[i := init_process p now (proc_set k ! i)]) = MAX_NPROCESS + 1"
      using t(2) by (simp add: MAX_NPROCESS_eq)
    show "pid ((proc_set k)[i := init_process p now (proc_set k ! i)] ! 0) = 0"
      using ib(1) t(3) by simp
    fix j assume "j < length ((proc_set k)[i := init_process p now (proc_set k ! i)])"
    then have j: "j < 17"
      using t(2) by simp
    show "slot_ok ((proc_set k)[i := init_process p now (proc_set k ! i)] ! j)"
      "pid ((proc_set k)[i := init_process p now (proc_set k ! i)] ! j) \<le> p"
      using j t(2,4) sl pi fresh [OF j] by (auto simp: nth_list_update_le order.strict_implies_order)
    fix l assume "l < length ((proc_set k)[i := init_process p now (proc_set k ! i)])"
      "pid ((proc_set k)[i := init_process p now (proc_set k ! i)] ! j) =
       pid ((proc_set k)[i := init_process p now (proc_set k ! i)] ! l)"
      "pid ((proc_set k)[i := init_process p now (proc_set k ! i)] ! j) \<noteq> 0"
    then show "j = l"
      using j t(2) t(6) [of j l] pi fresh [of j] fresh [of l]
      by (auto simp: nth_list_update_le split: if_splits)
  qed
  then have "kernel_ok k'"
    using ok r k1 by (simp add: kernel_ok_def upd_proc_def)
  moreover have "proc_set k' ! i = init_process p now (proc_set k ! i)"
    using ib t(2) by (simp add: ps)
  ultimately show thesis
    using i r k1 fresh p0 ps by (intro that [of i]) (auto simp: upd_proc_def init_process_def)
qed

lemma keeps_record_termination: "keeps k (record_termination e i k)"
proof -
  obtain now k1 where g: "get_time e k = (now, k1)"
    by fastforce
  let ?k2 = "upd_proc i (\<lambda>p. p\<lparr>time_terminated := now\<rparr>) k1"
  have "keeps k1 ?k2"
    by (rule keeps_upd_proc) (auto simp: slot_ok_def)
  moreover have "keeps ?k2 (?k2\<lparr>printed := printed ?k2 @ [proc_stats_of (proc_set ?k2 ! i)]\<rparr>)"
    by (rule keeps_other_fields) simp_all
  ultimately show ?thesis
    using keeps_get_time [OF g] g by (auto simp: record_termination_def Let_def intro: keeps_trans)
qed

lemma keeps_free_all: "keeps k (proc_free_all e is k)"
proof (induction "is" arbitrary: k)
  case (Cons i "is")
  let ?k1 = "record_termination e i k"
  let ?k2 = "?k1\<lparr>machine := earth_mmu_free e (pid (proc_set ?k1 ! i)) (machine ?k1)\<rparr>"
  let ?k3 = "upd_proc i (\<lambda>p. p\<lparr>status := PROC_UNUSED\<rparr>) ?k2"
  have "keeps ?k1 ?k2"
    by (rule keeps_other_fields) simp_all
  moreover have "keeps ?k2 ?k3"
    by (rule keeps_upd_proc) (auto simp: slot_ok_def)
  ultimately have "keeps k ?k3"
    using keeps_record_termination by (blast intro: keeps_trans)
  then show ?case
    using Cons.IH [of ?k3] Cons.IH [of k] by (auto simp: Let_def intro: keeps_trans)
qed simp

lemma keeps_free: "keeps k (proc_free e p k)"
proof (cases "p = GPID_ALL")
  case False
  show ?thesis
  proof (cases "find (\<lambda>i. is_live_user (proc_set k ! i)) [0 ..< MAX_NPROCESS]")
    case (Some i)
    let ?k1 = "record_termination e i k"
    let ?k2 = "?k1\<lparr>machine := earth_mmu_free e p (machine ?k1)\<rparr>"
    have "keeps ?k1 ?k2"
      by (rule keeps_other_fields) simp_all
    then have "keeps k (proc_set_status p PROC_UNUSED ?k2)"
      using keeps_record_termination keeps_set_status [of p PROC_UNUSED ?k2] by (blast intro: keeps_trans)
    then show ?thesis
      using False Some by (simp add: proc_free_def proc_free_one_def Let_def)
  qed (use False in \<open>simp add: proc_free_def proc_free_one_def\<close>)
qed (simp add: proc_free_def keeps_free_all)

end
