(* ===== verification/Kernel_Props.thy ===== *)
theory Kernel_Props
  imports Kernel_Inv
begin

text \<open>
  The kernel as a transition system, from the boot of grass/init.c through allocations, releases
  and traps, and the properties of its scheduler, its queue and its process table.
\<close>

section \<open>Boot\<close>

definition NCORES :: nat where
  "NCORES = 4"

definition null_syscall :: syscall where
  "null_syscall = \<lparr>sc_type = SYS_UNUSED, sc_sender = 0, sc_receiver = 0,
     sc_content = replicate 1024 0, sc_status = PENDING\<rparr>"

definition null_process :: process where
  "null_process = \<lparr>pid = 0, syscall_of = null_syscall, status = PROC_UNUSED, mepc = 0,
     saved_registers = replicate 32 0, mlfq_level = 0, remainingt_onlevel = 0,
     current_level_runtime = 0, total_runtime = 0, sleep_until_time = 0, time_created = 0,
     time_terminated = 0, cpu_runtime = 0, no_interrupts = 0, time_first_scheduled = 0,
     time_last_scheduled = 0\<rparr>"

text \<open>The zero-initialised globals of grass/kernel.c and grass/process.c.\<close>

definition kernel0 :: "'e \<Rightarrow> 'e kernel" where
  "kernel0 m = \<lparr>core_in_kernel = 0, core_to_proc_idx = replicate NCORES 0,
     proc_set = replicate (MAX_NPROCESS + 1) null_process, alloc_curr_pid = 0,
     MLFQ_last_reset_time = 0, printed = [], machine = m\<rparr>"

text \<open>\<open>load\<close> is \<open>elf_load(GPID_PROCESS, sys_proc_read, 0, 0)\<close> on the machine.\<close>

definition grass_entry :: "'e earth \<Rightarrow> ('e \<Rightarrow> fault + 'e) \<Rightarrow> nat \<Rightarrow> 'e kernel \<Rightarrow> fault + 'e kernel" where
  "grass_entry e load core_id k =
     bindr (load (machine k)) (\<lambda>m.
     bindr (proc_alloc e (k\<lparr>machine := m\<rparr>)) (\<lambda>(p, k1).
       let k2 = proc_set_running p k1 in
       Inr (k2\<lparr>core_to_proc_idx := (core_to_proc_idx k2)[core_id := 1],
               machine := earth_mmu_flush_cache e (earth_mmu_switch e GPID_PROCESS (machine k2))\<rparr>)))"

section \<open>Transitions\<close>

text \<open>
  What happens to the kernel after boot: a system process asks for a new process, marks one as
  ready or frees some, and a core that runs a process traps.
\<close>

inductive kreach :: "'e earth \<Rightarrow> ('e \<Rightarrow> fault + 'e) \<Rightarrow> 'e kernel \<Rightarrow> bool" for e load where
  boot: "core < NCORES \<Longrightarrow> grass_entry e load core (kernel0 m) = Inr k \<Longrightarrow> kreach e load k"
| allocate: "kreach e load k \<Longrightarrow> alloc_curr_pid k \<noteq> -1 \<Longrightarrow> proc_alloc e k = Inr (p, k') \<Longrightarrow> kreach e load k'"
| ready: "kreach e load k \<Longrightarrow> p \<noteq> 0 \<Longrightarrow> kreach e load (proc_set_ready p k)"
| free: "kreach e load k \<Longrightarrow> kreach e load (proc_free e p k)"
| trap: "kreach e load k \<Longrightarrow> core < length (core_to_proc_idx k) \<Longrightarrow>
    pid (proc_set k ! (core_to_proc_idx k ! core)) \<noteq> 0 \<Longrightarrow>
    kernel_entry e core csr regs mcause k = Inr (pc, regs', k') \<Longrightarrow> kreach e load k'"

lemma kernel0_ok: "kernel_ok (kernel0 m)"
  by (simp add: kernel_ok_def kernel0_def table_ok_def slot_ok_def null_process_def null_syscall_def
      NCORES_def MAX_NPROCESS_eq MLFQ_NLEVELS_def del: replicate.simps)

lemma grass_entry_ok:
  assumes "core < NCORES" "grass_entry e load core (kernel0 m) = Inr k"
  shows "kernel_ok k"
proof -
  obtain m' p k1 where x: "proc_alloc e ((kernel0 m)\<lparr>machine := m'\<rparr>) = Inr (p, k1)"
    "k = (proc_set_running p k1)\<lparr>core_to_proc_idx := (core_to_proc_idx (proc_set_running p k1))[core := 1],
       machine := earth_mmu_flush_cache e (earth_mmu_switch e GPID_PROCESS (machine (proc_set_running p k1)))\<rparr>"
    using assms(2) by (auto simp: grass_entry_def bindr_eq_Inr_iff Let_def kernel0_def)
  have "keeps (kernel0 m) ((kernel0 m)\<lparr>machine := m'\<rparr>)"
    by (rule keeps_other_fields) simp_all
  then have ok0: "kernel_ok ((kernel0 m)\<lparr>machine := m'\<rparr>)"
    using kernel0_ok by (rule keeps_ok)
  have "alloc_curr_pid ((kernel0 m)\<lparr>machine := m'\<rparr>) \<noteq> -1"
    by (simp add: kernel0_def)
  from alloc_spec [OF ok0 x(1) this] have k1: "kernel_ok k1" "p \<noteq> 0"
    by metis+
  then have "kernel_ok (proc_set_running p k1)"
    using keeps_set_status [of p PROC_RUNNING k1] by (auto simp: proc_set_running_def intro: keeps_ok)
  then show ?thesis
    by (auto simp: x(2) kernel_ok_def MAX_NPROCESS_eq dest!: set_update_subset_insert [THEN subsetD])
qed

text \<open>
  C6. In every state the kernel reaches, the process table is well-formed: slot 0 is the unused
  placeholder, pids are unique and never exceed the last one allocated, every level is one of
  the five of the queue, and a completed receive names a process as its sender.
\<close>

theorem kernel_reachable_ok:
  assumes "kreach e load k"
  shows "kernel_ok k"
  using assms
proof (induction rule: kreach.induct)
  case (boot core m k)
  then show ?case
    by (rule grass_entry_ok)
next
  case (allocate k p k')
  from alloc_spec [OF allocate.IH allocate.hyps(3,2)] show ?case
    by metis
next
  case (ready k p)
  then show ?case
    using keeps_set_status [of p PROC_READY k] by (auto simp: proc_set_ready_def intro: keeps_ok)
next
  case (free k p)
  then show ?case
    using keeps_free [of k e p] by (blast intro: keeps_ok)
next
  case (trap k core csr regs mcause pc regs' k')
  then show ?case
    using kernel_entry_spec(1) [of k core e csr regs mcause pc regs' k'] by (simp add: running_ok_def)
qed

text \<open>A machine with a clock, for the witnesses: every reading of the time is one more.\<close>

definition clock_earth :: "u64 earth" where
  "clock_earth = \<lparr>mtime_get = (\<lambda>t. (t, t + 1)), tty_input_empty = (\<lambda>t. (True, t)),
     earth_mmu_free = (\<lambda>p t. t), earth_mmu_translate = (\<lambda>p a t. (a, t)), earth_mmu_switch = (\<lambda>p t. t),
     earth_mmu_flush_cache = (\<lambda>t. t), earth_timer_reset = (\<lambda>c t. t),
     load_syscall = (\<lambda>a t. null_syscall\<lparr>sc_type := SYS_RECV, sc_sender := GPID_ALL\<rparr>),
     store_syscall = (\<lambda>a sc t. t)\<rparr>"

lemma find_unused_kernel0: "find_unused (replicate 17 null_process) = Some 1"
  by (simp add: find_unused_spec MAX_NPROCESS_eq null_process_def del: replicate.simps)

definition booted :: "u64 kernel" where
  "booted = (kernel0 2)\<lparr>core_to_proc_idx := [1, 0, 0, 0], alloc_curr_pid := 1,
     proc_set := (replicate 17 null_process)[1 := (init_process 1 1 null_process)\<lparr>status := PROC_RUNNING\<rparr>]\<rparr>"

lemma booted_boot: "grass_entry clock_earth Inr 0 (kernel0 1) = Inr booted"
proof -
  have a: "proc_alloc clock_earth (kernel0 1) = Inr (1, (kernel0 2)\<lparr>alloc_curr_pid := 1,
      proc_set := (replicate 17 null_process)[1 := init_process 1 1 null_process]\<rparr>)"
    by (simp add: proc_alloc_def kernel0_def MAX_NPROCESS_eq find_unused_kernel0 get_time_def
        clock_earth_def upd_proc_def del: replicate.simps)
  have s: "set_status 1 PROC_RUNNING ((replicate 17 null_process)[1 := init_process 1 1 null_process]) =
      (replicate 17 null_process)[1 := (init_process 1 1 null_process)\<lparr>status := PROC_RUNNING\<rparr>]"
    by (rule nth_equalityI)
       (auto simp: set_status_nth nth_list_update_le MAX_NPROCESS_eq init_process_def null_process_def
         simp del: replicate.simps)
  have c: "replicate 4 x = [x, x, x, x]" for x :: nat
    by (simp add: eval_nat_numeral)
  show ?thesis
    using a s by (simp add: c grass_entry_def proc_set_running_def proc_set_status_def booted_def
        kernel0_def NCORES_def clock_earth_def)
qed

theorem kernel_reachable_ok_witness: "kernel_ok booted \<and> kreach clock_earth Inr booted"
proof -
  have "kreach clock_earth Inr booted"
    using booted_boot by (intro kreach.boot [of 0]) (simp_all add: NCORES_def)
  with kernel_reachable_ok [OF this] show ?thesis
    by simp
qed

section \<open>Traps\<close>

text \<open>
  C8. A trap that returns leaves the core running a process of the table that is marked running,
  whose saved registers and program counter are the ones restored to the core; the process table
  is still well-formed and no pid was allocated.
\<close>

theorem trap_resumes_process:
  assumes "kernel_ok k" "core < length (core_to_proc_idx k)"
    "pid (proc_set k ! (core_to_proc_idx k ! core)) \<noteq> 0"
    "kernel_entry e core csr regs mcause k = Inr (pc, regs', k')"
  shows "kernel_ok k' \<and> core_in_kernel k' = core \<and> 0 < curr_proc_idx k' \<and> curr_proc_idx k' < MAX_NPROCESS \<and>
    status (curr_proc k') = PROC_RUNNING \<and> pc = mepc (curr_proc k') \<and>
    regs' = saved_registers (curr_proc k') \<and> alloc_curr_pid k' = alloc_curr_pid k"
  using kernel_entry_spec [OF assms] by (simp add: running_ok_def)

section \<open>The choice of the next process\<close>

text \<open>
  The scheduler's loop apart from its choice: the slots are visited in order, the system call of a
  process that waits is tried (\<open>serve\<close>), and those whose process may run at that moment are
  candidates (\<open>offers\<close>).
\<close>

definition serve_slot :: "'e earth \<Rightarrow> nat \<Rightarrow> 'e kernel \<Rightarrow> fault + 'e kernel" where
  "serve_slot e j k = (if status (proc_set k ! j) = PROC_PENDING_SYSCALL then proc_try_syscall e j k else Inr k)"

fun serve :: "'e earth \<Rightarrow> nat list \<Rightarrow> 'e kernel \<Rightarrow> fault + 'e kernel" where
  "serve e [] k = Inr k"
| "serve e (j # js) k = bindr (serve_slot e j k) (serve e js)"

fun offers :: "'e earth \<Rightarrow> nat list \<Rightarrow> 'e kernel \<Rightarrow> nat list" where
  "offers e [] k = []"
| "offers e (j # js) k = (case serve_slot e j k of
     Inl f \<Rightarrow> []
   | Inr k1 \<Rightarrow> (if schedulable (proc_set k1 ! j) then [j] else []) @ offers e js k1)"

text \<open>The first of the lowest level below \<open>low\<close>, or \<open>nxt\<close>.\<close>

fun pick :: "(nat \<Rightarrow> int) \<Rightarrow> nat list \<Rightarrow> int \<Rightarrow> nat \<Rightarrow> nat" where
  "pick level [] low nxt = nxt"
| "pick level (j # js) low nxt = (if level j < low then pick level js (level j) j else pick level js low nxt)"

definition cyclic :: "nat \<Rightarrow> nat list" where
  "cyclic cur = map (\<lambda>i. (cur + i) mod MAX_NPROCESS) [1 ..< MAX_NPROCESS + 1]"

lemma serve_slot_frame:
  assumes "serve_slot e j k = Inr k'"
  shows "curr_proc_idx k' = curr_proc_idx k" "length (proc_set k') = length (proc_set k)"
    "i < length (proc_set k) \<Longrightarrow> mlfq_level (proc_set k' ! i) = mlfq_level (proc_set k ! i)"
    "i < length (proc_set k) \<Longrightarrow> schedulable (proc_set k ! i) \<Longrightarrow> schedulable (proc_set k' ! i)"
proof -
  have *: "curr_proc_idx k' = curr_proc_idx k \<and> length (proc_set k') = length (proc_set k) \<and>
      (i < length (proc_set k) \<longrightarrow> mlfq_level (proc_set k' ! i) = mlfq_level (proc_set k ! i))" for i
    using assms
    by (auto simp: serve_slot_def proc_try_syscall_def proc_try_recv_def proc_try_send_def upd_proc_def curr_proc_idx_def
        nth_list_update_le set_status_nth proc_set_runnable_def proc_set_status_def Let_def
        split: if_splits prod.splits option.splits)
  then show "curr_proc_idx k' = curr_proc_idx k" "length (proc_set k') = length (proc_set k)"
    "i < length (proc_set k) \<Longrightarrow> mlfq_level (proc_set k' ! i) = mlfq_level (proc_set k ! i)"
    by blast+
  show "i < length (proc_set k) \<Longrightarrow> schedulable (proc_set k ! i) \<Longrightarrow> schedulable (proc_set k' ! i)"
    using assms syscall_schedulable [of e j k k' i] by (auto simp: serve_slot_def split: if_splits)
qed

lemma sched_loop_offers:
  assumes "length (proc_set k) = 17" "\<forall>j < 17. mlfq_level (proc_set k ! j) = level j"
  shows "sched_loop e is low nxt k =
     (let js = map (\<lambda>i. (curr_proc_idx k + i) mod MAX_NPROCESS) is in
      bindr (serve e js k) (\<lambda>k'. Inr (pick level (offers e js k) low nxt, k')))"
  using assms
proof (induction "is" arbitrary: low nxt k)
  case (Cons i "is")
  let ?j = "(curr_proc_idx k + i) mod MAX_NPROCESS"
  have j: "?j < 17"
    by (auto simp: MAX_NPROCESS_eq intro: less_trans [OF mod_less_divisor])
  show ?case
  proof (cases "serve_slot e ?j k")
    case (Inl f)
    then show ?thesis
      by (simp add: serve_slot_def Let_def)
  next
    case (Inr k1)
    note fr = serve_slot_frame [OF Inr]
    have l: "length (proc_set k1) = 17" "\<forall>j < 17. mlfq_level (proc_set k1 ! j) = level j"
      using fr(2,3) Cons.prems by simp_all
    have "sched_loop e (i # is) low nxt k =
        (if schedulable (proc_set k1 ! ?j) \<and> level ?j < low then sched_loop e is (level ?j) ?j k1
         else sched_loop e is low nxt k1)"
      using Inr j l(2) by (simp add: serve_slot_def Let_def)
    then show ?thesis
      unfolding Cons.IH [OF l] by (simp add: Inr fr(1) Let_def)
  qed
qed simp

lemma offers_keep:
  assumes "serve e js k = Inr k'" "j \<in> set js" "j < length (proc_set k)" "schedulable (proc_set k ! j)"
  shows "j \<in> set (offers e js k)"
  using assms
proof (induction js arbitrary: k)
  case (Cons i js)
  obtain k1 where k1: "serve_slot e i k = Inr k1" "serve e js k1 = Inr k'"
    using Cons.prems(1) by (auto simp: bindr_eq_Inr_iff)
  note fr = serve_slot_frame [OF k1(1)]
  show ?case
    using Cons.IH [OF k1(2)] Cons.prems(2-) fr(2,4) k1(1) by auto
qed simp

lemma offers_quiet:
  "\<forall>j \<in> set js. status (proc_set k ! j) \<noteq> PROC_PENDING_SYSCALL \<Longrightarrow>
   serve e js k = Inr k \<and> offers e js k = filter (\<lambda>j. schedulable (proc_set k ! j)) js"
  by (induction js) (auto simp: serve_slot_def)

lemma set_offers: "set (offers e js k) \<subseteq> set js"
  by (induction js arbitrary: k) (auto split: sum.splits)

lemma pick_spec:
  "(pick level js low nxt = nxt \<and> (\<forall>j \<in> set js. low \<le> level j)) \<or>
   (\<exists>pre j post. js = pre @ j # post \<and> pick level js low nxt = j \<and> level j < low \<and>
      (\<forall>x \<in> set pre. level j < level x) \<and> (\<forall>x \<in> set post. level j \<le> level x))"
proof (induction js arbitrary: low nxt)
  case (Cons a js)
  show ?case
  proof (cases "level a < low")
    case True
    show ?thesis
      using Cons.IH [of "level a" a]
    proof (elim disjE exE conjE)
      assume "pick level js (level a) a = a" "\<forall>j \<in> set js. level a \<le> level j"
      then show ?thesis
        using True by (intro disjI2 exI [of _ "[]"] exI [of _ a] exI [of _ js]) simp
    next
      fix pre j post assume "js = pre @ j # post" "pick level js (level a) a = j" "level j < level a"
        "\<forall>x \<in> set pre. level j < level x" "\<forall>x \<in> set post. level j \<le> level x"
      then show ?thesis
        using True by (intro disjI2 exI [of _ "a # pre"] exI [of _ j] exI [of _ post]) auto
    qed
  next
    case False
    show ?thesis
      using Cons.IH [of low nxt]
    proof (elim disjE exE conjE)
      fix pre j post assume "js = pre @ j # post" "pick level js low nxt = j" "level j < low"
        "\<forall>x \<in> set pre. level j < level x" "\<forall>x \<in> set post. level j \<le> level x"
      then show ?thesis
        using False by (intro disjI2 exI [of _ "a # pre"] exI [of _ j] exI [of _ post]) auto
    qed (use False in auto)
  qed
qed simp

lemma set_cyclic: "set (cyclic cur) = {j. j < MAX_NPROCESS}"
proof -
  have "\<exists>i \<in> set [1 ..< MAX_NPROCESS + 1]. j = (cur + i) mod MAX_NPROCESS" if "j < MAX_NPROCESS" for j
  proof (cases "cur mod 16 < j")
    case True
    have "(cur + (j - cur mod 16)) mod 16 = (cur mod 16 + (j - cur mod 16)) mod 16"
      by (simp add: mod_simps)
    then show ?thesis
      using True that by (intro bexI [of _ "j - cur mod 16"]) (auto simp: MAX_NPROCESS_eq)
  next
    case False
    have "(cur + (16 + j - cur mod 16)) mod 16 = (cur mod 16 + (16 + j - cur mod 16)) mod 16"
      by (simp only: mod_add_left_eq)
    also have "\<dots> = j"
      using False that less_imp_le [of "cur mod 16" 16] by (simp add: MAX_NPROCESS_eq)
    finally show ?thesis
      using False that by (intro bexI [of _ "16 + j - cur mod 16"]) (auto simp: MAX_NPROCESS_eq)
  qed
  then show ?thesis
    by (auto simp: cyclic_def MAX_NPROCESS_eq)
qed

lemma yield_choice:
  assumes ok: "kernel_ok k" and p: "pid (curr_proc k) \<noteq> 0" and y: "yield_account e k = (now, k1)"
  shows "proc_yield e k = bindr (serve e (cyclic (curr_proc_idx k1)) k1) (\<lambda>k2.
     let n = pick (\<lambda>j. mlfq_level (proc_set k1 ! j)) (offers e (cyclic (curr_proc_idx k1)) k1) 5 MAX_NPROCESS in
     if n < MAX_NPROCESS then Inr (switch_to e now n k2) else Inl (Fatal ''proc_yield: no process to run on core''))"
    and "j < MAX_NPROCESS \<Longrightarrow> mlfq_level (proc_set k1 ! j) < 5" "length (proc_set k1) = 17"
proof -
  have ok1: "kernel_ok k1"
    using keeps_yield_account [OF ok p y] ok by (rule keeps_ok)
  show l: "length (proc_set k1) = 17"
    using kernel_ok_length [OF ok1] .
  show "mlfq_level (proc_set k1 ! j) < 5" if "j < MAX_NPROCESS"
    using kernel_ok_slot [OF ok1, of j] l that by (simp add: MAX_NPROCESS_eq slot_ok_def MLFQ_NLEVELS_def)
  note lo = sched_loop_offers [of k1 "\<lambda>j. mlfq_level (proc_set k1 ! j)", OF l]
  show "proc_yield e k = bindr (serve e (cyclic (curr_proc_idx k1)) k1) (\<lambda>k2.
     let n = pick (\<lambda>j. mlfq_level (proc_set k1 ! j)) (offers e (cyclic (curr_proc_idx k1)) k1) 5 MAX_NPROCESS in
     if n < MAX_NPROCESS then Inr (switch_to e now n k2) else Inl (Fatal ''proc_yield: no process to run on core''))"
    by (simp add: proc_yield_def y lo bindr_assoc Let_def cyclic_def del: upt_Suc)
qed

text \<open>
  C7. The scheduler goes once round the table from the slot after the current one. It tries the system
  call of every process that waits on one as it passes it, and stops with the kernel's error when one
  of these calls is invalid. The candidates are the processes that are ready or runnable when it
  passes them, which includes every process that was so before and those whose call has just completed;
  of these it switches to the first of the lowest level. When there is none the kernel stops with its
  fatal error.
\<close>

theorem scheduler_picks_lowest_level:
  assumes "kernel_ok k" "pid (curr_proc k) \<noteq> 0" "yield_account e k = (now, k1)"
  shows "case serve e (cyclic (curr_proc_idx k1)) k1 of
      Inl f \<Rightarrow> proc_yield e k = Inl f
    | Inr k2 \<Rightarrow>
       (\<forall>x < MAX_NPROCESS. schedulable (proc_set k1 ! x) \<longrightarrow> x \<in> set (offers e (cyclic (curr_proc_idx k1)) k1)) \<and>
       (if offers e (cyclic (curr_proc_idx k1)) k1 = []
        then proc_yield e k = Inl (Fatal ''proc_yield: no process to run on core'')
        else \<exists>pre j post. offers e (cyclic (curr_proc_idx k1)) k1 = pre @ j # post \<and>
          proc_yield e k = Inr (switch_to e now j k2) \<and>
          (\<forall>x \<in> set pre. mlfq_level (proc_set k1 ! j) < mlfq_level (proc_set k1 ! x)) \<and>
          (\<forall>x \<in> set post. mlfq_level (proc_set k1 ! j) \<le> mlfq_level (proc_set k1 ! x)))"
proof (cases "serve e (cyclic (curr_proc_idx k1)) k1")
  case (Inr k2)
  let ?js = "cyclic (curr_proc_idx k1)" and ?L = "\<lambda>j. mlfq_level (proc_set k1 ! j)"
  let ?n = "pick ?L (offers e ?js k1) 5 MAX_NPROCESS"
  note y = yield_choice [OF assms]
  have in_table: "x < MAX_NPROCESS" if "x \<in> set (offers e ?js k1)" for x
    using that set_offers [of e ?js k1] set_cyclic [of "curr_proc_idx k1"] by auto
  have keep: "x \<in> set (offers e ?js k1)" if "x < MAX_NPROCESS" "schedulable (proc_set k1 ! x)" for x
    using offers_keep [OF Inr, of x] that y(3) by (simp add: set_cyclic MAX_NPROCESS_eq)
  show ?thesis
    using pick_spec [of ?L "offers e ?js k1" 5 MAX_NPROCESS]
  proof (elim disjE exE conjE)
    assume n: "?n = MAX_NPROCESS" "\<forall>j \<in> set (offers e ?js k1). 5 \<le> ?L j"
    then have "offers e ?js k1 = []"
      using in_table y(2) by (metis last_in_set linorder_not_less)
    then show ?thesis
      using keep n(1) y(1) Inr by auto
  next
    fix pre j post assume p: "offers e ?js k1 = pre @ j # post" "?n = j"
      "\<forall>x \<in> set pre. ?L j < ?L x" "\<forall>x \<in> set post. ?L j \<le> ?L x"
    have "proc_yield e k = Inr (switch_to e now j k2)"
      using in_table [of j] p(1,2) y(1) Inr by (simp add: Let_def)
    then show ?thesis
      using keep p Inr by auto
  qed
qed (use yield_choice(1) [OF assms] in simp)

section \<open>Timer interrupts\<close>

lemma get_time_same: "get_time e k = (t, k') \<Longrightarrow> proc_set k' = proc_set k \<and> curr_proc_idx k' = curr_proc_idx k"
  by (auto simp: get_time_def curr_proc_idx_def split: prod.splits)

lemma reset_level_status:
  assumes "j < length (proc_set k)"
  shows "status (proc_set (mlfq_reset_level e k) ! j) = status (proc_set k ! j)"
proof -
  obtain empty m where t: "tty_input_empty e (machine k) = (empty, m)"
    by fastforce
  define k1 where "k1 = k\<lparr>machine := m, proc_set := (if empty then proc_set k else reset_shell_level (proc_set k))\<rparr>"
  obtain now k2 where g: "get_time e k1 = (now, k2)"
    by fastforce
  have "status (proc_set k1 ! j) = status (proc_set k ! j)"
    using reset_shell_level_nth [OF assms] by (auto simp: k1_def)
  moreover have "proc_set k2 = proc_set k1"
    using get_time_same [OF g] by simp
  moreover have "length (proc_set k1) = length (proc_set k)"
    by (simp add: k1_def)
  ultimately show ?thesis
    using assms t g by (simp add: mlfq_reset_level_def k1_def [symmetric] Let_def reset_all_levels_nth)
qed

lemma yield_account_status:
  assumes ok: "kernel_ok k" and p: "pid (curr_proc k) \<noteq> 0" and y: "yield_account e k = (t, k1)" and j: "j < 17"
    and run: "status (curr_proc k) = PROC_RUNNING" "curr_proc_idx k < MAX_NPROCESS"
  shows "status (proc_set k1 ! j) = (if j = curr_proc_idx k then PROC_RUNNABLE else status (proc_set k ! j))"
proof -
  let ?c = "curr_proc_idx k"
  define ka where "ka = proc_set_runnable (pid (curr_proc k)) k"
  obtain now kb where g: "get_time e ka = (now, kb)"
    by fastforce
  define kc where "kc = (if curr_proc_idx kb > 0 \<and> curr_proc_idx kb \<le> MAX_NPROCESS \<and>
      status (curr_proc kb) \<noteq> PROC_UNUSED \<and> time_last_scheduled (curr_proc kb) > 0
      then upd_proc (curr_proc_idx kb) (mlfq_update_level (now - time_last_scheduled (curr_proc kb))) kb else kb)"
  have l: "length (proc_set k) = 17" "?c < 17"
    using kernel_ok_length [OF ok] kernel_ok_idx [OF ok] by simp_all
  have t: "table_ok (proc_set k) (alloc_curr_pid k)"
    using ok by (simp add: kernel_ok_def)
  have "status (proc_set ka ! j) = (if j = ?c then PROC_RUNNABLE else status (proc_set k ! j))"
    using j l run(2) table_okD(5) [OF t, of j ?c] p
    by (auto simp: ka_def proc_set_runnable_def proc_set_status_def set_status_nth curr_proc_def)
  moreover have "proc_set kb = proc_set ka"
    using get_time_same [OF g] by simp
  moreover have "status (proc_set kc ! j) = status (proc_set kb ! j)" "length (proc_set kc) = 17"
    using j l calculation(2)
    by (auto simp: kc_def upd_proc_def nth_list_update_le mlfq_update_level_slot ka_def
        proc_set_runnable_def proc_set_status_def)
  moreover have "k1 = mlfq_reset_level e kc"
    using y g run(1) by (simp add: yield_account_def ka_def [symmetric] kc_def [symmetric] Let_def)
  ultimately show ?thesis
    using reset_level_status [of j kc e] j by simp
qed

lemma yield_total:
  assumes ok: "kernel_ok k" and p: "pid (curr_proc k) \<noteq> 0"
    and run: "status (curr_proc k) = PROC_RUNNING" "curr_proc_idx k < MAX_NPROCESS"
    and quiet: "\<forall>j < MAX_NPROCESS. status (proc_set k ! j) \<noteq> PROC_PENDING_SYSCALL"
  shows "\<exists>k'. proc_yield e k = Inr k'"
proof -
  obtain t k1 where y: "yield_account e k = (t, k1)"
    by fastforce
  note c = yield_choice [OF ok p y]
  note st = yield_account_status [OF ok p y _ run]
  have "serve e (cyclic (curr_proc_idx k1)) k1 = Inr k1"
    using offers_quiet [of "cyclic (curr_proc_idx k1)" k1 e] quiet st by (auto simp: set_cyclic MAX_NPROCESS_eq)
  moreover have "schedulable (proc_set k1 ! curr_proc_idx k)"
    using st [of "curr_proc_idx k"] run(2) by (simp add: schedulable_def MAX_NPROCESS_eq)
  ultimately have o: "curr_proc_idx k \<in> set (offers e (cyclic (curr_proc_idx k1)) k1)"
    "serve e (cyclic (curr_proc_idx k1)) k1 = Inr k1"
    using offers_keep [of e _ k1 k1 "curr_proc_idx k"] run(2) c(3) by (simp_all add: set_cyclic MAX_NPROCESS_eq)
  let ?n = "pick (\<lambda>j. mlfq_level (proc_set k1 ! j)) (offers e (cyclic (curr_proc_idx k1)) k1) 5 MAX_NPROCESS"
  have "?n < MAX_NPROCESS"
    using pick_spec [of "\<lambda>j. mlfq_level (proc_set k1 ! j)" "offers e (cyclic (curr_proc_idx k1)) k1" 5 MAX_NPROCESS]
  proof (elim disjE exE conjE)
    assume "\<forall>j \<in> set (offers e (cyclic (curr_proc_idx k1)) k1). 5 \<le> mlfq_level (proc_set k1 ! j)"
    then show ?thesis
      using o(1) c(2) [OF run(2)] by (meson linorder_not_less)
  next
    fix pre j post assume "offers e (cyclic (curr_proc_idx k1)) k1 = pre @ j # post" "?n = j"
    then show ?thesis
      using set_offers [of e "cyclic (curr_proc_idx k1)" k1] set_cyclic [of "curr_proc_idx k1"] by auto
  qed
  then show ?thesis
    using c(1) o(2) by (simp add: Let_def)
qed

lemma timer_total:
  assumes ok: "kernel_ok k" and core: "core < length (core_to_proc_idx k)"
    and idx: "0 < core_to_proc_idx k ! core" "core_to_proc_idx k ! core < MAX_NPROCESS"
    and run: "status (proc_set k ! (core_to_proc_idx k ! core)) = PROC_RUNNING"
    and quiet: "\<forall>j < MAX_NPROCESS. status (proc_set k ! j) \<noteq> PROC_PENDING_SYSCALL"
  shows "\<exists>pc regs' k'. kernel_entry e core csr regs 0x80000007 k = Inr (pc, regs', k')"
proof -
  let ?i = "core_to_proc_idx k ! core"
  define k2 where "k2 = upd_proc ?i (\<lambda>p. p\<lparr>mepc := csr, saved_registers := regs\<rparr>) (k\<lparr>core_in_kernel := core\<rparr>)"
  define k3 where "k3 = upd_proc ?i (\<lambda>p. p\<lparr>no_interrupts := no_interrupts p + 1\<rparr>) k2"
  have l: "?i < length (proc_set k)"
    using idx(2) kernel_ok_length [OF ok] by (simp add: MAX_NPROCESS_eq)
  have "kernel_ok (k\<lparr>core_in_kernel := core\<rparr>)"
    using ok core by (simp add: kernel_ok_def)
  moreover have "keeps (k\<lparr>core_in_kernel := core\<rparr>) k2" "keeps k2 k3"
    unfolding k2_def k3_def by (rule keeps_upd_proc; auto simp: slot_ok_def)+
  ultimately have ok3: "kernel_ok k3"
    by (blast intro: keeps_ok)
  have i: "curr_proc_idx k3 = ?i" "curr_proc_idx k2 = ?i" "curr_proc_idx (k\<lparr>core_in_kernel := core\<rparr>) = ?i"
    by (simp_all add: k3_def k2_def upd_proc_def curr_proc_idx_def)
  have st: "status (proc_set k3 ! j) = status (proc_set k ! j)" if "j < 17" for j
    using that kernel_ok_length [OF ok] by (simp add: k3_def k2_def upd_proc_def nth_list_update_le)
  have s3: "status (curr_proc k3) = PROC_RUNNING"
    using st [of ?i] idx(2) run by (simp add: curr_proc_def i MAX_NPROCESS_eq)
  have "pid (curr_proc k3) \<noteq> 0"
    using kernel_ok_slot [OF ok3, of ?i] s3 kernel_ok_length [OF ok3] idx(2)
    by (simp add: curr_proc_def i slot_ok_def MAX_NPROCESS_eq)
  then have "\<exists>k'. proc_yield e k3 = Inr k'"
    using idx(2) quiet st by (intro yield_total [OF ok3 _ s3]) (auto simp: i MAX_NPROCESS_eq)
  then obtain k' where y: "proc_yield e k3 = Inr k'"
    by blast
  have "intr_entry e 7 k2 = proc_yield e k3"
    using idx by (simp add: intr_entry_def INTR_ID_TIMER_def i k3_def)
  then show ?thesis
    using y by (simp add: kernel_entry_def i k2_def [symmetric] Let_def)
qed

text \<open>
  C12. A timer interrupt while a process runs and none waits on a system call always returns: the
  interrupted process itself is runnable, so the scheduler finds a process.
\<close>

theorem timer_interrupt_returns:
  assumes "kernel_ok k" "core < length (core_to_proc_idx k)"
    "0 < core_to_proc_idx k ! core" "core_to_proc_idx k ! core < MAX_NPROCESS"
    "status (proc_set k ! (core_to_proc_idx k ! core)) = PROC_RUNNING"
    "\<forall>j < MAX_NPROCESS. status (proc_set k ! j) \<noteq> PROC_PENDING_SYSCALL"
  shows "\<exists>pc regs' k'. kernel_entry e core csr regs 0x80000007 k = Inr (pc, regs', k')"
  using timer_total [OF assms] .

lemma booted_facts: "kernel_ok booted" "0 < length (core_to_proc_idx booted)" "core_to_proc_idx booted ! 0 = 1"
  "status (proc_set booted ! 1) = PROC_RUNNING" "pid (proc_set booted ! 1) = 1"
  "\<forall>j < MAX_NPROCESS. status (proc_set booted ! j) \<noteq> PROC_PENDING_SYSCALL"
  using grass_entry_ok [OF _ booted_boot]
  by (auto simp: booted_def NCORES_def MAX_NPROCESS_eq nth_list_update_le null_process_def init_process_def
      simp del: replicate.simps)

theorem timer_interrupt_returns_witness:
  "\<exists>pc regs' k'. kernel_entry clock_earth 0 0 (replicate 32 0) 0x80000007 booted = Inr (pc, regs', k')"
  using timer_interrupt_returns [OF booted_facts(1,2), of clock_earth 0 "replicate 32 0"] booted_facts(3-6)
  by (simp add: MAX_NPROCESS_eq del: replicate.simps)

theorem trap_resumes_process_witness:
  "\<exists>pc regs' k'. kernel_entry clock_earth 0 0 (replicate 32 0) 0x80000007 booted = Inr (pc, regs', k') \<and>
     status (curr_proc k') = PROC_RUNNING \<and> curr_proc_idx k' < MAX_NPROCESS"
proof -
  obtain pc regs' k' where k': "kernel_entry clock_earth 0 0 (replicate 32 0) 0x80000007 booted = Inr (pc, regs', k')"
    using timer_total [OF booted_facts(1,2), of clock_earth 0 "replicate 32 0"] booted_facts(3-6)
    by (auto simp: MAX_NPROCESS_eq simp del: replicate.simps)
  have "pid (proc_set booted ! (core_to_proc_idx booted ! 0)) \<noteq> 0"
    using booted_facts(3,5) by simp
  from trap_resumes_process [OF booted_facts(1,2) this k'] k' show ?thesis
    by blast
qed

text \<open>A kernel in which a server's receive was completed while the application runs.\<close>

definition answered :: "u64 kernel" where
  "answered = booted\<lparr>alloc_curr_pid := 2, proc_set := (proc_set booted)[2 := null_process\<lparr>pid := 2,
     status := PROC_PENDING_SYSCALL,
     syscall_of := null_syscall\<lparr>sc_type := SYS_RECV, sc_sender := 1, sc_status := DONE\<rparr>\<rparr>]\<rparr>"

lemma answered_nth:
  "j < 17 \<Longrightarrow> proc_set answered ! j =
     (if j = 1 then (init_process 1 1 null_process)\<lparr>status := PROC_RUNNING\<rparr>
      else if j = 2 then null_process\<lparr>pid := 2, status := PROC_PENDING_SYSCALL,
        syscall_of := null_syscall\<lparr>sc_type := SYS_RECV, sc_sender := 1, sc_status := DONE\<rparr>\<rparr>
      else null_process)"
  by (auto simp: answered_def booted_def nth_list_update_le simp del: replicate.simps)

lemma answered_length: "length (proc_set answered) = 17"
  by (simp add: answered_def booted_def)

lemma answered_fields: "core_in_kernel answered = 0" "core_to_proc_idx answered = [1, 0, 0, 0]" "alloc_curr_pid answered = 2"
  by (simp_all add: answered_def booted_def kernel0_def)

lemma answered_ok: "kernel_ok answered"
proof -
  have "slot_ok (proc_set answered ! i) \<and> pid (proc_set answered ! i) \<le> 2" if "i < 17" for i
    by (auto simp: answered_nth [OF that] slot_ok_def init_process_def null_process_def null_syscall_def MLFQ_NLEVELS_def)
  moreover have "i = j" if "i < 17" "j < 17" "pid (proc_set answered ! i) = pid (proc_set answered ! j)"
    "pid (proc_set answered ! i) \<noteq> 0" for i j
    using that(3,4) by (auto simp: answered_nth [OF that(1)] answered_nth [OF that(2)] init_process_def null_process_def
        split: if_splits)
  moreover have "pid (proc_set answered ! 0) = 0"
    by (simp add: answered_nth null_process_def)
  ultimately show ?thesis
    by (simp add: kernel_ok_def table_ok_def MAX_NPROCESS_eq answered_length answered_fields)
qed

lemma answered_account:
  "yield_account clock_earth answered = (2, answered\<lparr>machine := 4, MLFQ_last_reset_time := 3,
     proc_set := set_status 1 PROC_RUNNABLE (proc_set answered)\<rparr>)"
proof -
  have c: "curr_proc_idx answered = 1" "machine answered = 2" "MLFQ_last_reset_time answered = 0"
    by (simp_all add: answered_def booted_def kernel0_def curr_proc_idx_def)
  have p: "pid (proc_set answered ! 1) = 1" "status (proc_set answered ! 1) = PROC_RUNNING"
    "time_last_scheduled (proc_set answered ! 1) = 0"
    using answered_nth [of 1] by (simp_all add: init_process_def null_process_def)
  define ps where "ps = set_status 1 PROC_RUNNABLE (proc_set answered)"
  have q: "time_last_scheduled (ps ! 1) = 0"
    using p by (simp add: ps_def set_status_nth answered_length)
  have r: "proc_set_runnable 1 answered = answered\<lparr>proc_set := ps\<rparr>"
    by (simp add: proc_set_runnable_def proc_set_status_def ps_def)
  have g: "get_time clock_earth (answered\<lparr>proc_set := ps\<rparr>) = (2, answered\<lparr>proc_set := ps, machine := 3\<rparr>)"
    using c(2) by (simp add: get_time_def clock_earth_def)
  have "mlfq_reset_level clock_earth (answered\<lparr>proc_set := ps, machine := 3\<rparr>) =
      answered\<lparr>machine := 4, MLFQ_last_reset_time := 3, proc_set := ps\<rparr>"
    using c(3) by (simp add: mlfq_reset_level_def get_time_def clock_earth_def MLFQ_RESET_PERIOD_def Let_def)
  moreover have "curr_proc_idx (answered\<lparr>proc_set := ps, machine := 3\<rparr>) = 1"
    using c(1) by (simp add: curr_proc_idx_def)
  ultimately show ?thesis
    using c(1) p(1,2) q r g by (simp add: yield_account_def curr_proc_def ps_def [symmetric])
qed

theorem scheduler_picks_lowest_level_witness:
  "\<exists>now k1 k2. yield_account clock_earth answered = (now, k1) \<and> status (proc_set k1 ! 2) = PROC_PENDING_SYSCALL \<and>
     serve clock_earth (cyclic 1) k1 = Inr k2 \<and> status (proc_set k2 ! 2) = PROC_RUNNABLE \<and>
     proc_yield clock_earth answered = Inr (switch_to clock_earth now 2 k2)"
proof -
  define k1 where "k1 = snd (yield_account clock_earth answered)"
  have y: "yield_account clock_earth answered = (2, k1)"
    by (simp add: k1_def answered_account)
  have i: "curr_proc_idx k1 = 1"
    by (simp add: k1_def answered_account) (simp add: answered_def booted_def kernel0_def curr_proc_idx_def)
  have s1: "proc_set k1 ! j = (if j = 1 then (init_process 1 1 null_process)\<lparr>status := PROC_RUNNABLE\<rparr> else proc_set answered ! j)"
    if "j < 17" for j
    using that by (auto simp: k1_def answered_account set_status_nth answered_length answered_nth MAX_NPROCESS_eq
        init_process_def null_process_def)
  have l1: "length (proc_set k1) = 17"
    by (simp add: k1_def answered_account answered_length)
  obtain k2 where k2: "serve_slot clock_earth 2 k1 = Inr k2" "\<And>j. j < 17 \<Longrightarrow> proc_set k2 ! j =
      (if j = 2 then (proc_set k1 ! 2)\<lparr>status := PROC_RUNNABLE\<rparr> else proc_set k1 ! j)"
    using s1 answered_nth l1
    by (auto simp: serve_slot_def proc_try_syscall_def proc_try_recv_def clock_earth_def proc_set_runnable_def
        proc_set_status_def set_status_nth MAX_NPROCESS_eq init_process_def null_process_def SYS_RECV_def Let_def)
  define js where "js = [3 ..< 16] @ [0, 1 :: nat]"
  have c: "cyclic 1 = 2 # js"
    by (simp add: js_def cyclic_def MAX_NPROCESS_eq upt_rec)
  have st: "status (proc_set k2 ! j) = (if j = 1 \<or> j = 2 then PROC_RUNNABLE else PROC_UNUSED)" if "j < 17" for j
    using that by (simp add: k2(2) s1 answered_nth null_process_def)
  have "serve clock_earth js k2 = Inr k2 \<and> offers clock_earth js k2 = filter (\<lambda>j. schedulable (proc_set k2 ! j)) js"
    by (rule offers_quiet) (auto simp: js_def st)
  moreover have "filter (\<lambda>j. schedulable (proc_set k2 ! j)) js = [1]"
    by (simp add: js_def schedulable_def st filter_empty_conv del: upt_Suc upt_rec)
  ultimately have s: "serve clock_earth (cyclic 1) k1 = Inr k2" and o: "offers clock_earth (cyclic 1) k1 = [2, 1]"
    using st [of 2] by (simp_all add: c [simplified] k2(1) schedulable_def)
  have lev: "mlfq_level (proc_set k1 ! 1) = mlfq_level (proc_set k1 ! 2)"
    by (simp add: s1 answered_nth init_process_def null_process_def)
  have "curr_proc_idx answered = 1"
    by (simp add: answered_def booted_def kernel0_def curr_proc_idx_def)
  then have "pid (curr_proc answered) \<noteq> 0"
    by (simp add: curr_proc_def answered_nth init_process_def)
  from scheduler_picks_lowest_level [OF answered_ok this y] have
    "proc_yield clock_earth answered = Inr (switch_to clock_earth 2 2 k2)"
    unfolding i s o using lev by (auto simp: Cons_eq_append_conv)
  then show ?thesis
    using y s st [of 2] s1 [of 2] by (auto simp: answered_nth)
qed

section \<open>The queue's accounting\<close>

text \<open>
  C13. A process goes down a level exactly when the time it ran equals the time it had left, to
  the microsecond. When it overran its time the subtraction wraps: it keeps its level, and the
  time it has left becomes 2^64 microseconds less the overrun.
\<close>

theorem mlfq_demotes_only_at_zero:
  "(mlfq_level (mlfq_update_level t p) \<noteq> mlfq_level p \<longleftrightarrow>
      t = remainingt_onlevel p \<and> mlfq_level p < MLFQ_NLEVELS - 1) \<and>
   (remainingt_onlevel p < t \<longrightarrow> mlfq_level (mlfq_update_level t p) = mlfq_level p \<and>
      unat (remainingt_onlevel (mlfq_update_level t p)) = 2 ^ 64 - (unat t - unat (remainingt_onlevel p)))"
proof -
  have z: "remainingt_onlevel p - t \<le> 0 \<longleftrightarrow> t = remainingt_onlevel p"
    by auto
  have "unat (remainingt_onlevel p - t) = 2 ^ 64 - (unat t - unat (remainingt_onlevel p))"
    if "remainingt_onlevel p < t"
    using that unsigned_less [of t, where ?'a = nat]
    by (simp add: unat_sub_if' word_less_nat_alt)
  then show ?thesis
    using z by (auto simp: mlfq_update_level_def Let_def)
qed

definition fresh_process :: process where
  "fresh_process = init_process 5 0 null_process"

theorem mlfq_demotes_only_at_zero_witness:
  "mlfq_level (mlfq_update_level 100001 fresh_process) = 0 \<and>
   unat (remainingt_onlevel (mlfq_update_level 100001 fresh_process)) = 2 ^ 64 - 1 \<and>
   mlfq_level (mlfq_update_level 100000 fresh_process) = 1"
  using mlfq_demotes_only_at_zero [of 100001 fresh_process] mlfq_demotes_only_at_zero [of 100000 fresh_process]
  by (auto simp: fresh_process_def init_process_def null_process_def MLFQ_LEVEL_RUNTIME_def MLFQ_NLEVELS_def
      mlfq_update_level_def)

section \<open>The last slot of the table\<close>

text \<open>
  When slots 1 to 15 are taken, a new process gets slot 16, which the loops that set a
  status and pick the next process never visit: making it ready changes nothing, and it stays
  in the loading state.
\<close>

lemma last_slot_never_ready:
  assumes "kernel_ok k" "alloc_curr_pid k \<noteq> -1" "\<forall>j. 1 \<le> j \<longrightarrow> j < 16 \<longrightarrow> status (proc_set k ! j) \<noteq> PROC_UNUSED"
    "status (proc_set k ! 16) = PROC_UNUSED"
  shows "\<exists>p k'. proc_alloc e k = Inr (p, k') \<and> pid (proc_set k' ! 16) = p \<and>
    status (proc_set k' ! 16) = PROC_LOADING \<and> proc_set (proc_set_ready p k') = proc_set k' \<and>
    16 \<notin> set (cyclic (curr_proc_idx k'))"
proof -
  have u: "find_unused (proc_set k) = Some 16"
    using assms(3,4) by (simp add: find_unused_spec MAX_NPROCESS_eq)
  then obtain p k' where a: "proc_alloc e k = Inr (p, k')"
    by (cases "get_time e (k\<lparr>alloc_curr_pid := alloc_curr_pid k + 1\<rparr>)") (auto simp: proc_alloc_def Let_def)
  from alloc_spec [OF assms(1) a assms(2)] u
  obtain k'ok: "kernel_ok k'" and lt: "\<And>j. j < 17 \<Longrightarrow> pid (proc_set k ! j) < p"
    and at: "proc_set k' ! 16 = init_process p (time_created (proc_set k' ! 16)) (proc_set k ! 16)"
    and other: "\<And>j. j \<noteq> 16 \<Longrightarrow> proc_set k' ! j = proc_set k ! j"
    by (metis option.inject)
  have l: "length (proc_set k') = 17"
    using kernel_ok_length [OF k'ok] .
  have "set_status p PROC_READY (proc_set k') = proc_set k'"
  proof (rule nth_equalityI)
    fix i assume "i < length (set_status p PROC_READY (proc_set k'))"
    then have i: "i < 17"
      using l by simp
    have "pid (proc_set k' ! i) \<noteq> p" if "i < 16"
      using lt [OF i] other [of i] that by auto
    then show "set_status p PROC_READY (proc_set k') ! i = proc_set k' ! i"
      using i l by (auto simp: set_status_nth MAX_NPROCESS_eq)
  qed simp
  then have r: "proc_set (proc_set_ready p k') = proc_set k'"
    by (simp add: proc_set_ready_def proc_set_status_def)
  have "pid (proc_set k' ! 16) = p" "status (proc_set k' ! 16) = PROC_LOADING"
    by (subst at, simp add: init_process_def)+
  with a r show ?thesis
    by (auto simp: set_cyclic MAX_NPROCESS_eq)
qed

definition full_table :: "u64 kernel" where
  "full_table = (kernel0 0)\<lparr>alloc_curr_pid := 15,
     proc_set := null_process # map (\<lambda>i. null_process\<lparr>pid := of_nat i, status := PROC_RUNNABLE\<rparr>) [1 ..< 16] @
       [null_process]\<rparr>"

lemma full_table_nth:
  "i < 17 \<Longrightarrow> proc_set full_table ! i =
     (if 1 \<le> i \<and> i < 16 then null_process\<lparr>pid := of_nat i, status := PROC_RUNNABLE\<rparr> else null_process)"
  by (cases i) (auto simp: full_table_def nth_append less_Suc_eq_le simp del: upt_Suc)

lemma full_table_length: "length (proc_set full_table) = 17"
  by (simp add: full_table_def)

lemma full_table_pid: "i < 17 \<Longrightarrow> unat (pid (proc_set full_table ! i)) = (if i < 16 then i else 0)"
  by (simp add: full_table_nth null_process_def unat_of_nat_less)

lemma full_table_ok: "kernel_ok full_table"
proof -
  have n: "slot_ok null_process"
    by (simp add: slot_ok_def null_process_def null_syscall_def MLFQ_NLEVELS_def)
  have "slot_ok (proc_set full_table ! i) \<and> pid (proc_set full_table ! i) \<le> 15" if "i < 17" for i
  proof (cases "1 \<le> i \<and> i < 16")
    case True
    then have "unat (of_nat i :: i32) = i"
      by (intro unat_of_nat_less) simp
    then have "(of_nat i :: i32) \<noteq> 0" "(of_nat i :: i32) \<le> 15"
      using True by (auto simp: word_le_nat_alt)
    then show ?thesis
      using True n full_table_nth [OF that] by (simp add: slot_ok_def)
  next
    case False
    then have "proc_set full_table ! i = null_process"
      using full_table_nth [OF that] by auto
    then show ?thesis
      using n by (simp add: null_process_def)
  qed
  moreover have "i = j" if "i < 17" "j < 17" "pid (proc_set full_table ! i) = pid (proc_set full_table ! j)"
    "pid (proc_set full_table ! i) \<noteq> 0" for i j
    using full_table_pid [OF that(1)] full_table_pid [OF that(2)] that(3,4)
    by (metis unsigned_eq_0_iff)
  moreover have "pid (proc_set full_table ! 0) = 0"
    by (simp add: full_table_def null_process_def)
  ultimately show ?thesis
    by (simp add: kernel_ok_def table_ok_def full_table_length MAX_NPROCESS_eq)
       (simp add: full_table_def kernel0_def NCORES_def)
qed

lemma last_slot_never_ready_example:
  "\<exists>k'. proc_alloc clock_earth full_table = Inr (16, k') \<and> status (proc_set k' ! 16) = PROC_LOADING \<and>
     proc_set (proc_set_ready 16 k') = proc_set k'"
proof -
  have "alloc_curr_pid full_table \<noteq> -1"
    by (simp add: full_table_def)
  from last_slot_never_ready [OF full_table_ok this, of clock_earth] obtain p k' where
    a: "proc_alloc clock_earth full_table = Inr (p, k')" "status (proc_set k' ! 16) = PROC_LOADING"
    "proc_set (proc_set_ready p k') = proc_set k'"
    by (auto simp: full_table_nth null_process_def)
  have "p = 16"
    using a(1) by (auto simp: proc_alloc_def full_table_def Let_def split: option.splits prod.splits)
  with a show ?thesis
    by auto
qed

section \<open>Release\<close>

text \<open>
  Freeing one pid frees every slot of that pid among the first 16 and nothing else, provided
  some user process is live; what it reports are the statistics of the first live user process
  of the table, whichever pid was asked for. With no live user process it does nothing at all.
\<close>

lemma proc_free_reports_first_user:
  assumes "length (proc_set k) = 17" "p \<noteq> GPID_ALL"
  shows "(\<forall>i < 16. \<not> is_live_user (proc_set k ! i)) \<and> proc_free e p k = k \<or>
    (\<exists>i < 16. is_live_user (proc_set k ! i) \<and> (\<forall>j < i. \<not> is_live_user (proc_set k ! j)) \<and>
       (\<exists>now. printed (proc_free e p k) =
          printed k @ [proc_stats_of ((proc_set k ! i)\<lparr>time_terminated := now\<rparr>)]) \<and>
       (\<forall>j < 17. status (proc_set (proc_free e p k) ! j) =
          (if j < 16 \<and> pid (proc_set k ! j) = p then PROC_UNUSED else status (proc_set k ! j))))"
proof (cases "find (\<lambda>i. is_live_user (proc_set k ! i)) [0 ..< MAX_NPROCESS]")
  case None
  then have "\<forall>i < 16. \<not> is_live_user (proc_set k ! i)"
    by (auto simp: find_None_iff MAX_NPROCESS_eq)
  moreover have "proc_free e p k = k"
    using None assms(2) by (simp add: proc_free_def proc_free_one_def)
  ultimately show ?thesis
    by blast
next
  case (Some i)
  have i: "i < 16" "is_live_user (proc_set k ! i)" "\<forall>j < i. \<not> is_live_user (proc_set k ! j)"
    using Some by (auto simp: find_Some_iff MAX_NPROCESS_eq)
  obtain now k1 where g: "get_time e k = (now, k1)"
    by fastforce
  have k1: "proc_set k1 = proc_set k" "printed k1 = printed k"
    using g by (auto simp: get_time_def split: prod.splits)
  let ?r = "record_termination e i k"
  have r: "proc_set ?r = (proc_set k)[i := (proc_set k ! i)\<lparr>time_terminated := now\<rparr>]"
    "printed ?r = printed k @ [proc_stats_of ((proc_set k ! i)\<lparr>time_terminated := now\<rparr>)]"
    using g k1 i(1) assms(1) by (simp_all add: record_termination_def upd_proc_def Let_def)
  have f: "proc_free e p k = proc_set_status p PROC_UNUSED (?r\<lparr>machine := earth_mmu_free e p (machine ?r)\<rparr>)"
    using Some assms(2) by (simp add: proc_free_def proc_free_one_def Let_def)
  have "status (proc_set (proc_free e p k) ! j) =
      (if j < 16 \<and> pid (proc_set k ! j) = p then PROC_UNUSED else status (proc_set k ! j))" if "j < 17" for j
    using that assms(1) by (auto simp: f proc_set_status_def set_status_nth r nth_list_update_le MAX_NPROCESS_eq)
  moreover have "printed (proc_free e p k) = printed k @ [proc_stats_of ((proc_set k ! i)\<lparr>time_terminated := now\<rparr>)]"
    by (simp add: f proc_set_status_def r)
  ultimately show ?thesis
    using i by blast
qed

lemma proc_free_reports_first_user_example:
  "\<exists>s. printed (proc_free clock_earth 9 full_table) = [s] \<and> st_pid s = 5"
proof -
  have live: "is_live_user (proc_set full_table ! j) \<longleftrightarrow> 5 \<le> j \<and> j < 16" if "j < 17" for j
  proof (cases "1 \<le> j \<and> j < 16")
    case True
    then have "sint (of_nat j :: i32) = int j"
      by (simp add: signed_of_nat signed_take_bit_int_eq_self)
    then show ?thesis
      using True full_table_nth [OF that] by (simp add: is_live_user_def GPID_USER_START_def word_sle_eq)
  next
    case False
    then show ?thesis
      using full_table_nth [OF that] by (auto simp: is_live_user_def null_process_def)
  qed
  from proc_free_reports_first_user [OF full_table_length, of 9 clock_earth]
  obtain i now where i: "i < 16" "is_live_user (proc_set full_table ! i)"
    "\<forall>j < i. \<not> is_live_user (proc_set full_table ! j)"
    "printed (proc_free clock_earth 9 full_table) =
       printed full_table @ [proc_stats_of ((proc_set full_table ! i)\<lparr>time_terminated := now\<rparr>)]"
    using live [of 5] by (fastforce simp: GPID_ALL_def)
  have "5 \<le> i"
    using i(1,2) live [of i] by simp
  moreover have "\<not> 5 < i"
    using i(3) live [of 5] by auto
  ultimately have "i = 5"
    by simp
  then show ?thesis
    using i(4) by (simp add: full_table_nth proc_stats_of_def null_process_def)
       (simp add: full_table_def kernel0_def)
qed

end
