(* ===== verification/Machine.thy ===== *)
theory Machine
  imports Kernel_Props Bytes
begin

text \<open>
  The kernel on the memory management of earth/cpu_mmu.c: the interface of user memory the kernel's
  message passing relies on, as the locale \<open>user_memory\<close>, the delivery of a message proved from
  it, and its instance, the machine whose user memory is behind the software TLB.
\<close>

section \<open>User memory\<close>

text \<open>
  \<open>user_sc m p\<close> is the \<open>struct syscall\<close> in the memory of process \<open>p\<close>, \<open>has m p\<close> says that it
  has one. \<open>page_of m q va\<close> is the page that process \<open>q\<close> sees at \<open>va\<close>, where \<open>owns m q\<close> says that
  its pages are its own, and \<open>put sc\<close> writes the structure to a page.
\<close>

locale user_memory =
  fixes e :: "'e earth"
    and minv :: "'e \<Rightarrow> bool"
    and has :: "'e \<Rightarrow> i32 \<Rightarrow> bool"
    and user_sc :: "'e \<Rightarrow> i32 \<Rightarrow> syscall"
    and owns :: "'e \<Rightarrow> i32 \<Rightarrow> bool"
    and page_of :: "'e \<Rightarrow> i32 \<Rightarrow> u32 \<Rightarrow> 'p option"
    and put :: "syscall \<Rightarrow> 'p \<Rightarrow> 'p"
  assumes translate: "minv m \<Longrightarrow> has m p \<Longrightarrow> earth_mmu_translate e p SYSCALL_ARG m = (a, m') \<Longrightarrow>
      minv m' \<and> (\<forall>q. has m' q = has m q) \<and> (\<forall>q. has m q \<longrightarrow> user_sc m' q = user_sc m q) \<and>
      load_syscall e a m' = user_sc m p"
    and store: "minv m \<Longrightarrow> has m p \<Longrightarrow> earth_mmu_translate e p SYSCALL_ARG m = (a, m') \<Longrightarrow>
      length (sc_content sc) = 1024 \<Longrightarrow>
      minv (store_syscall e a sc m') \<and> (\<forall>q. has (store_syscall e a sc m') q = has m q) \<and>
      (\<forall>q. has m q \<longrightarrow> user_sc (store_syscall e a sc m') q = (if q = p then sc else user_sc m q)) \<and>
      (\<forall>q va. owns m q \<longrightarrow> page_of (store_syscall e a sc m') q va =
        (if q = p \<and> va = SYSCALL_ARG then map_option (put sc) (page_of m q va) else page_of m q va))"
begin

lemma deliver:
  assumes ok: "kernel_ok k" and m: "minv (machine k)" "has (machine k) (pid (proc_set k ! d))"
    and sd: "s < MAX_NPROCESS" "d < MAX_NPROCESS" "s \<noteq> d"
    and S: "status (proc_set k ! s) = PROC_PENDING_SYSCALL" "sc_type (syscall_of (proc_set k ! s)) = SYS_SEND"
      "sc_receiver (syscall_of (proc_set k ! s)) = pid (proc_set k ! d)"
      "length (sc_content (syscall_of (proc_set k ! s))) = 1024"
    and D: "status (proc_set k ! d) = PROC_PENDING_SYSCALL" "sc_type (syscall_of (proc_set k ! d)) = SYS_RECV"
      "sc_status (syscall_of (proc_set k ! d)) = PENDING"
      "sc_sender (syscall_of (proc_set k ! d)) \<in> {GPID_ALL, pid (proc_set k ! s)}"
  shows "\<exists>k1 k2. proc_try_syscall e s k = Inr k1 \<and> proc_try_syscall e d k1 = Inr k2 \<and>
    user_sc (machine k2) (pid (proc_set k ! d)) = (syscall_of (proc_set k ! d))\<lparr>sc_status := DONE,
      sc_sender := pid (proc_set k ! s), sc_content := sc_content (syscall_of (proc_set k ! s))\<rparr> \<and>
    (\<forall>q. has (machine k) q \<longrightarrow> q \<noteq> pid (proc_set k ! d) \<longrightarrow> user_sc (machine k2) q = user_sc (machine k) q) \<and>
    (\<forall>q va. owns (machine k) q \<longrightarrow> page_of (machine k2) q va =
      (if q = pid (proc_set k ! d) \<and> va = SYSCALL_ARG
       then map_option (put ((syscall_of (proc_set k ! d))\<lparr>sc_status := DONE, sc_sender := pid (proc_set k ! s),
         sc_content := sc_content (syscall_of (proc_set k ! s))\<rparr>)) (page_of (machine k) q va)
       else page_of (machine k) q va)) \<and>
    status (proc_set k2 ! s) = PROC_RUNNABLE \<and> status (proc_set k2 ! d) = PROC_RUNNABLE \<and>
    (\<forall>j < 17. j \<noteq> s \<longrightarrow> j \<noteq> d \<longrightarrow> proc_set k2 ! j = proc_set k ! j) \<and> minv (machine k2)"
proof -
  let ?S = "proc_set k ! s" and ?D = "proc_set k ! d"
  have t: "table_ok (proc_set k) (alloc_curr_pid k)" and l: "length (proc_set k) = 17"
    using ok kernel_ok_length [OF ok] by (simp_all add: kernel_ok_def)
  have b: "s < 17" "d < 17"
    using sd by (simp_all add: MAX_NPROCESS_eq)
  have np: "pid ?S \<noteq> 0" "pid ?D \<noteq> 0"
    using kernel_ok_slot [OF ok] l b S(1) D(1) by (auto simp: slot_ok_def)
  note uniq = table_okD(5) [OF t]
  have "find (\<lambda>i. pid (proc_set k ! i) = sc_receiver (syscall_of ?S) \<and> status (proc_set k ! i) \<noteq> PROC_UNUSED)
      [0 ..< MAX_NPROCESS] = Some d"
  proof (rule find_single)
    fix j assume "j \<in> set [0 ..< MAX_NPROCESS]"
      "pid (proc_set k ! j) = sc_receiver (syscall_of ?S) \<and> status (proc_set k ! j) \<noteq> PROC_UNUSED"
    then show "j = d"
      using uniq [of j d] b(2) np(2) S(3) by (auto simp: MAX_NPROCESS_eq)
  qed (use sd S(3) D(1) in auto)
  then have f: "find (\<lambda>i. pid (proc_set k ! i) = pid ?D \<and> status (proc_set k ! i) \<noteq> PROC_UNUSED)
      [0 ..< MAX_NPROCESS] = Some d"
    by (simp add: S(3))
  let ?sc = "(syscall_of ?D)\<lparr>sc_status := DONE, sc_sender := pid ?S, sc_content := sc_content (syscall_of ?S)\<rparr>"
  define k1 where "k1 = upd_proc d (\<lambda>p. p\<lparr>syscall_of := (syscall_of p)\<lparr>sc_status := DONE,
      sc_sender := pid ?S, sc_content := sc_content (syscall_of ?S)\<rparr>\<rparr>) k"
  have send: "proc_try_syscall e s k = Inr k1"
    using f S D by (auto simp: proc_try_syscall_def proc_try_send_def SYS_SEND_def SYS_RECV_def k1_def Let_def)
  have d1: "proc_set k1 ! d = ?D\<lparr>syscall_of := ?sc\<rparr>" "machine k1 = machine k"
    "\<And>j. j \<noteq> d \<Longrightarrow> proc_set k1 ! j = proc_set k ! j" "length (proc_set k1) = 17"
    using b l by (simp_all add: k1_def upd_proc_def)
  obtain a m' where tr: "earth_mmu_translate e (pid ?D) SYSCALL_ARG (machine k) = (a, m')"
    by fastforce
  have st: "minv (store_syscall e a ?sc m')"
    "\<And>q. has (machine k) q \<Longrightarrow> user_sc (store_syscall e a ?sc m') q = (if q = pid ?D then ?sc else user_sc (machine k) q)"
    "\<And>q va. owns (machine k) q \<Longrightarrow> page_of (store_syscall e a ?sc m') q va =
      (if q = pid ?D \<and> va = SYSCALL_ARG then map_option (put ?sc) (page_of (machine k) q va) else page_of (machine k) q va)"
    using store [OF m tr, of ?sc] S(4) by auto
  define k2 where "k2 = proc_set_runnable (pid ?S) (proc_set_runnable (pid ?D) (k1\<lparr>machine := store_syscall e a ?sc m'\<rparr>))"
  have recv: "proc_try_syscall e d k1 = Inr k2"
    using tr D(2) by (simp add: proc_try_syscall_def proc_try_recv_def d1 k2_def Let_def)
  have k2m: "machine k2 = store_syscall e a ?sc m'"
    by (simp add: k2_def proc_set_runnable_def proc_set_status_def)
  have pid1: "pid (proc_set k1 ! j) = pid (proc_set k ! j)" for j
    using d1(1,3) by (cases "j = d") simp_all
  have k2p: "proc_set k2 ! j = (if pid (proc_set k ! j) \<in> {pid ?S, pid ?D} \<and> j < 16
      then (proc_set k1 ! j)\<lparr>status := PROC_RUNNABLE\<rparr> else proc_set k1 ! j)" if "j < 17" for j
    using that d1(4) pid1 by (auto simp: k2_def proc_set_runnable_def proc_set_status_def set_status_nth MAX_NPROCESS_eq)
  have "proc_set k2 ! j = proc_set k ! j" if "j < 17" "j \<noteq> s" "j \<noteq> d" for j
    using k2p [OF that(1)] uniq [OF that(1) b(1)] uniq [OF that(1) b(2)] np that d1(3) [OF that(3)] by auto
  moreover have "status (proc_set k2 ! s) = PROC_RUNNABLE" "status (proc_set k2 ! d) = PROC_RUNNABLE"
    using k2p [OF b(1)] k2p [OF b(2)] sd by (simp_all add: MAX_NPROCESS_eq)
  ultimately show ?thesis
    using send recv st m(2) by (intro exI [of _ k1] exI [of _ k2]) (simp add: k2m)
qed

end

section \<open>System calls in memory\<close>

text \<open>\<open>struct syscall\<close> as the 260 words it takes in memory.\<close>

definition syscall_words :: "syscall \<Rightarrow> u32 list" where
  "syscall_words sc = [sc_type sc, sc_sender sc, sc_receiver sc] @ words_of (sc_content sc) @
     [case sc_status sc of PENDING \<Rightarrow> 0 | DONE \<Rightarrow> 1]"

definition words_syscall :: "u32 list \<Rightarrow> syscall" where
  "words_syscall ws = \<lparr>sc_type = ws ! 0, sc_sender = ws ! 1, sc_receiver = ws ! 2,
     sc_content = bytes_of (take 256 (drop 3 ws)), sc_status = (if ws ! 259 = 0 then PENDING else DONE)\<rparr>"

lemma words_syscall_words:
  assumes "length (sc_content sc) = 1024"
  shows "words_syscall (syscall_words sc @ rest) = sc" "length (syscall_words sc) = 260"
proof -
  have l: "length (words_of (sc_content sc)) = 256"
    using assms by (simp add: length_words_of)
  show "words_syscall (syscall_words sc @ rest) = sc"
    using l bytes_of_words_of [of "sc_content sc"] assms
    by (cases sc) (auto simp: words_syscall_def syscall_words_def nth_append numeral_2_eq_2 numeral_3_eq_3
        split: syscall_status.splits)
  show "length (syscall_words sc) = 260"
    using l by (simp add: syscall_words_def)
qed

section \<open>The machine with the software TLB\<close>

text \<open>The clock advances at each reading; \<open>kbd_empty\<close> is the state of the terminal's input.\<close>

record egos_machine =
  mmu :: mmu_state
  clock :: u64
  kbd_empty :: bool

definition egos_load_syscall :: "u32 \<Rightarrow> egos_machine \<Rightarrow> syscall" where
  "egos_load_syscall a m = words_syscall (drop (page_word a) (mem (mmu m) (page_base a)))"

definition egos_store_syscall :: "u32 \<Rightarrow> syscall \<Rightarrow> egos_machine \<Rightarrow> egos_machine" where
  "egos_store_syscall a sc m =
     (let p = mem (mmu m) (page_base a); ws = syscall_words sc; i = page_word a in
      m\<lparr>mmu := (mmu m)\<lparr>mem := (mem (mmu m))(page_base a := take i p @ ws @ drop (i + length ws) p)\<rparr>\<rparr>)"

definition egos_earth :: "egos_machine earth" where
  "egos_earth = \<lparr>
     mtime_get = (\<lambda>m. (clock m, m\<lparr>clock := clock m + 1\<rparr>)),
     tty_input_empty = (\<lambda>m. (kbd_empty m, m)),
     earth_mmu_free = (\<lambda>p m. m\<lparr>mmu := mmu_free p (mmu m)\<rparr>),
     earth_mmu_translate = (\<lambda>p a m. let (a', u) = soft_tlb_translate p a (mmu m) in (a', m\<lparr>mmu := u\<rparr>)),
     earth_mmu_switch = (\<lambda>p m. m\<lparr>mmu := soft_tlb_switch p (mmu m)\<rparr>),
     earth_mmu_flush_cache = (\<lambda>m. m),
     earth_timer_reset = (\<lambda>c m. m),
     load_syscall = egos_load_syscall, store_syscall = egos_store_syscall\<rparr>"

definition egos_has :: "egos_machine \<Rightarrow> i32 \<Rightarrow> bool" where
  "egos_has m p \<longleftrightarrow> frame_of (mmu m) p SYSCALL_ARG \<noteq> None \<and> pid_ok (page_info_table (mmu m)) p"

definition egos_user_sc :: "egos_machine \<Rightarrow> i32 \<Rightarrow> syscall" where
  "egos_user_sc m p = words_syscall (the (vmem (mmu m) p SYSCALL_ARG))"

definition egos_inv :: "egos_machine \<Rightarrow> bool" where
  "egos_inv m \<longleftrightarrow> length (page_info_table (mmu m)) = APPS_PAGES_CNT \<and>
     pid_ok (page_info_table (mmu m)) (curr_vm_pid (mmu m)) \<and>
     (\<forall>p. egos_has m p \<longrightarrow> length (the (vmem (mmu m) p SYSCALL_ARG)) = 1024)"

lemma SYSCALL_ARG_page: "page_base SYSCALL_ARG = SYSCALL_ARG" "page_word SYSCALL_ARG = 0"
  "\<not> is_frame_addr SYSCALL_ARG"
  using is_frame_addr_iff_range [of SYSCALL_ARG] by (auto simp: page_base_def page_word_def layout_defs)

definition egos_owns :: "egos_machine \<Rightarrow> i32 \<Rightarrow> bool" where
  "egos_owns m = pid_ok (page_info_table (mmu m))"

definition put_syscall :: "syscall \<Rightarrow> page \<Rightarrow> page" where
  "put_syscall sc p = syscall_words sc @ drop 260 p"

lemma egos_translate:
  assumes "egos_inv m" "egos_has m p" "earth_mmu_translate egos_earth p SYSCALL_ARG m = (a, m')"
  shows "a = SYSCALL_ARG" "m' = m\<lparr>mmu := soft_tlb_switch p (mmu m)\<rparr>" "curr_vm_pid (mmu m') = p"
    "egos_inv m'" "egos_has m' q = egos_has m q" "egos_owns m q \<Longrightarrow> vmem (mmu m') q va = vmem (mmu m) q va"
    "Some (mem (mmu m') SYSCALL_ARG) = vmem (mmu m) p SYSCALL_ARG"
proof -
  show a: "a = SYSCALL_ARG" and m': "m' = m\<lparr>mmu := soft_tlb_switch p (mmu m)\<rparr>"
    using assms(3) by (auto simp: egos_earth_def soft_tlb_translate_def)
  then show c: "curr_vm_pid (mmu m') = p"
    by (simp add: soft_tlb_switch_def)
  have t: "page_info_table (mmu m') = page_info_table (mmu m)"
    by (simp add: m' soft_tlb_switch_def)
  then have fr: "frame_of (mmu m') = frame_of (mmu m)"
    by (simp add: frame_of_def fun_eq_iff)
  then show has: "egos_has m' q = egos_has m q" for q
    by (simp add: egos_has_def t)
  show v: "vmem (mmu m') q va = vmem (mmu m) q va" if "egos_owns m q" for q va
    using switch_vmem [of "mmu m" p q va] assms(1,2) that by (simp add: m' egos_inv_def egos_has_def egos_owns_def)
  show "egos_inv m'"
    using assms(1,2) v has c by (simp add: egos_inv_def egos_owns_def t) (simp add: egos_has_def)
  have "Some (mem (mmu m') SYSCALL_ARG) = vmem (mmu m') p SYSCALL_ARG"
    using assms(2) c fr by (auto simp: vmem_def egos_has_def)
  then show "Some (mem (mmu m') SYSCALL_ARG) = vmem (mmu m) p SYSCALL_ARG"
    using v assms(2) by (simp add: egos_owns_def egos_has_def)
qed

lemma egos_store:
  assumes "egos_inv m" "egos_has m p" "earth_mmu_translate egos_earth p SYSCALL_ARG m = (a, m')"
    and sc: "length (sc_content sc) = 1024"
  shows "egos_inv (store_syscall egos_earth a sc m')" "egos_has (store_syscall egos_earth a sc m') q = egos_has m q"
    "egos_has m q \<Longrightarrow> egos_user_sc (store_syscall egos_earth a sc m') q = (if q = p then sc else egos_user_sc m q)"
    "egos_owns m q \<Longrightarrow> vmem (mmu (store_syscall egos_earth a sc m')) q va =
      (if q = p \<and> va = SYSCALL_ARG then map_option (put_syscall sc) (vmem (mmu m) q va) else vmem (mmu m) q va)"
proof -
  note t = egos_translate [OF assms(1-3)]
  let ?pg = "mem (mmu m') SYSCALL_ARG"
  let ?new = "syscall_words sc @ drop 260 ?pg"
  let ?m = "store_syscall egos_earth a sc m'"
  have pl: "length ?pg = 1024"
    using assms(1,2) t(7) by (metis egos_inv_def option.sel)
  have s: "mmu ?m = (mmu m')\<lparr>mem := (mem (mmu m'))(SYSCALL_ARG := ?new)\<rparr>"
    using words_syscall_words [OF sc] by (simp add: egos_earth_def egos_store_syscall_def t(1) SYSCALL_ARG_page Let_def)
  have fr: "frame_of (mmu ?m) = frame_of (mmu m')"
    by (simp add: s frame_of_def fun_eq_iff)
  then show has: "egos_has ?m q = egos_has m q" for q
    using t(5) [of q] by (simp add: egos_has_def s)
  have tab: "length (page_info_table (mmu m')) = 512"
    using t(4) by (simp add: egos_inv_def APPS_PAGES_CNT_eq)
  have own: "egos_owns m p"
    using assms(2) by (simp add: egos_has_def egos_owns_def)
  show w: "vmem (mmu ?m) q va =
      (if q = p \<and> va = SYSCALL_ARG then map_option (put_syscall sc) (vmem (mmu m) q va) else vmem (mmu m) q va)"
    if "egos_owns m q" for q va
  proof (cases "q = p")
    case True
    have "vmem (mmu ?m) p va =
        (if va = SYSCALL_ARG then map_option (put_syscall sc) (vmem (mmu m') p va) else vmem (mmu m') p va)"
      using t(3) fr by (cases "frame_of (mmu m') p va") (auto simp: vmem_def s put_syscall_def)
    then show ?thesis
      using True t(6) [OF that] by simp
  next
    case False
    have "PAGE_ID_TO_ADDR (of_nat i) \<noteq> SYSCALL_ARG" if "i < 512" for i
      using SYSCALL_ARG_page(3) is_frame_addrI [OF that] by auto
    then have "vmem (mmu ?m) q va = vmem (mmu m') q va"
      using False t(3) fr frame_of_Some(1) [of "mmu m'" q va] tab
      by (cases "frame_of (mmu m') q va") (auto simp: vmem_def s)
    then show ?thesis
      using False t(6) [OF that] by simp
  qed
  have v: "vmem (mmu ?m) q SYSCALL_ARG = (if q = p then Some ?new else vmem (mmu m) q SYSCALL_ARG)"
    if "egos_has m q" for q
  proof -
    have "egos_owns m q"
      using that by (simp add: egos_has_def egos_owns_def)
    then show ?thesis
      using w t(7) by (auto simp: put_syscall_def simp flip: t(7))
  qed
  show "egos_user_sc ?m q = (if q = p then sc else egos_user_sc m q)" if "egos_has m q"
    using v [OF that] words_syscall_words(1) [OF sc] by (simp add: egos_user_sc_def)
  have "length ?new = 1024"
    using words_syscall_words(2) [OF sc] pl by simp
  then show "egos_inv ?m"
    using t(4) v assms(1) has by (auto simp: egos_inv_def s)
qed

interpretation egos: user_memory egos_earth egos_inv egos_has egos_user_sc egos_owns "\<lambda>m. vmem (mmu m)" put_syscall
proof unfold_locales
  fix m p a m' and sc :: syscall
  assume h: "egos_inv m" "egos_has m p" "earth_mmu_translate egos_earth p SYSCALL_ARG m = (a, m')"
  note t = egos_translate [OF h]
  have "load_syscall egos_earth a m' = words_syscall (mem (mmu m') SYSCALL_ARG)"
    by (simp add: egos_earth_def egos_load_syscall_def t(1) SYSCALL_ARG_page)
  also have "\<dots> = egos_user_sc m p"
    using t(7) by (simp add: egos_user_sc_def flip: t(7))
  finally show "egos_inv m' \<and> (\<forall>q. egos_has m' q = egos_has m q) \<and>
      (\<forall>q. egos_has m q \<longrightarrow> egos_user_sc m' q = egos_user_sc m q) \<and>
      load_syscall egos_earth a m' = egos_user_sc m p"
    using t(4,5,6) by (simp add: egos_user_sc_def egos_has_def egos_owns_def)
  assume "length (sc_content sc) = 1024"
  from egos_store [OF h this]
  show "egos_inv (store_syscall egos_earth a sc m') \<and>
      (\<forall>q. egos_has (store_syscall egos_earth a sc m') q = egos_has m q) \<and>
      (\<forall>q. egos_has m q \<longrightarrow> egos_user_sc (store_syscall egos_earth a sc m') q =
        (if q = p then sc else egos_user_sc m q)) \<and>
      (\<forall>q va. egos_owns m q \<longrightarrow> vmem (mmu (store_syscall egos_earth a sc m')) q va =
        (if q = p \<and> va = SYSCALL_ARG then map_option (put_syscall sc) (vmem (mmu m) q va) else vmem (mmu m) q va))"
    by blast
qed

section \<open>Properties\<close>

text \<open>
  A message is delivered: when slot \<open>s\<close> waits to send to the process of slot \<open>d\<close>, which
  waits to receive from it or from anyone, handling the two system calls puts the message and the
  sender's pid in the memory of the receiver, changes no other page of any process, and makes both
  processes runnable, and no other process.
\<close>

lemma message_delivered:
  assumes "kernel_ok k" "egos_inv (machine k)" "egos_has (machine k) (pid (proc_set k ! d))"
    "s < MAX_NPROCESS" "d < MAX_NPROCESS" "s \<noteq> d"
    "status (proc_set k ! s) = PROC_PENDING_SYSCALL" "sc_type (syscall_of (proc_set k ! s)) = SYS_SEND"
    "sc_receiver (syscall_of (proc_set k ! s)) = pid (proc_set k ! d)"
    "length (sc_content (syscall_of (proc_set k ! s))) = 1024"
    "status (proc_set k ! d) = PROC_PENDING_SYSCALL" "sc_type (syscall_of (proc_set k ! d)) = SYS_RECV"
    "sc_status (syscall_of (proc_set k ! d)) = PENDING"
    "sc_sender (syscall_of (proc_set k ! d)) \<in> {GPID_ALL, pid (proc_set k ! s)}"
  shows "\<exists>k1 k2. proc_try_syscall egos_earth s k = Inr k1 \<and> proc_try_syscall egos_earth d k1 = Inr k2 \<and>
    egos_user_sc (machine k2) (pid (proc_set k ! d)) = (syscall_of (proc_set k ! d))\<lparr>sc_status := DONE,
      sc_sender := pid (proc_set k ! s), sc_content := sc_content (syscall_of (proc_set k ! s))\<rparr> \<and>
    (\<forall>q. egos_has (machine k) q \<longrightarrow> q \<noteq> pid (proc_set k ! d) \<longrightarrow>
       egos_user_sc (machine k2) q = egos_user_sc (machine k) q) \<and>
    (\<forall>q va. egos_owns (machine k) q \<longrightarrow> vmem (mmu (machine k2)) q va =
      (if q = pid (proc_set k ! d) \<and> va = SYSCALL_ARG
       then map_option (put_syscall ((syscall_of (proc_set k ! d))\<lparr>sc_status := DONE, sc_sender := pid (proc_set k ! s),
         sc_content := sc_content (syscall_of (proc_set k ! s))\<rparr>)) (vmem (mmu (machine k)) q va)
       else vmem (mmu (machine k)) q va)) \<and>
    status (proc_set k2 ! s) = PROC_RUNNABLE \<and> status (proc_set k2 ! d) = PROC_RUNNABLE \<and>
    (\<forall>j < 17. j \<noteq> s \<longrightarrow> j \<noteq> d \<longrightarrow> proc_set k2 ! j = proc_set k ! j) \<and> egos_inv (machine k2)"
  using assms by (rule egos.deliver)

definition mail_sender :: process where
  "mail_sender = null_process\<lparr>pid := 1, status := PROC_PENDING_SYSCALL, syscall_of := null_syscall
     \<lparr>sc_type := SYS_SEND, sc_receiver := 2, sc_content := replicate 1024 7\<rparr>\<rparr>"

definition mail_receiver :: process where
  "mail_receiver = null_process\<lparr>pid := 2, status := PROC_PENDING_SYSCALL, syscall_of := null_syscall
     \<lparr>sc_type := SYS_RECV, sc_sender := GPID_ALL\<rparr>\<rparr>"

definition mail_kernel :: "egos_machine kernel" where
  "mail_kernel = (kernel0 \<lparr>mmu = two_pages 1 2 0x80301, clock = 1, kbd_empty = True\<rparr>)\<lparr>alloc_curr_pid := 2,
     proc_set := [null_process, mail_sender, mail_receiver] @ replicate 14 null_process\<rparr>"

lemma mail_nth: "i < 17 \<Longrightarrow> proc_set mail_kernel ! i =
    (if i = 1 then mail_sender else if i = 2 then mail_receiver else null_process)"
  by (cases "i < 3") (auto simp: mail_kernel_def nth_append less_Suc_eq numeral_3_eq_3 numeral_2_eq_2)

lemma mail_kernel_ok: "kernel_ok mail_kernel"
proof -
  have "slot_ok (proc_set mail_kernel ! i) \<and> pid (proc_set mail_kernel ! i) \<le> 2" if "i < 17" for i
    by (auto simp: mail_nth [OF that] slot_ok_def mail_sender_def mail_receiver_def null_process_def
        null_syscall_def MLFQ_NLEVELS_def)
  moreover have "i = j" if "i < 17" "j < 17" "pid (proc_set mail_kernel ! i) = pid (proc_set mail_kernel ! j)"
    "pid (proc_set mail_kernel ! i) \<noteq> 0" for i j
    using that(3,4) by (auto simp: mail_nth [OF that(1)] mail_nth [OF that(2)] mail_sender_def mail_receiver_def
        null_process_def split: if_splits)
  ultimately show ?thesis
    by (simp add: kernel_ok_def table_ok_def MAX_NPROCESS_eq)
       (simp add: mail_kernel_def kernel0_def NCORES_def null_process_def)
qed

lemma mail_machine: "egos_inv (machine mail_kernel)" "egos_has (machine mail_kernel) 2"
proof -
  let ?u = "two_pages 1 2 0x80301"
  have a: "PAGE_NO_TO_ADDR 0x80301 = SYSCALL_ARG"
    by (simp add: PAGE_NO_TO_ADDR_def PAGE_SIZE_def layout_defs)
  have po: "pid_ok (page_info_table ?u) r" for r
    by (rule two_pages_ok) (simp_all add: a SYSCALL_ARG_page)
  have u: "mmu (machine mail_kernel) = ?u"
    by (simp add: mail_kernel_def kernel0_def)
  have "maps_page (page_info_table ?u ! 1) 2 SYSCALL_ARG"
    by (simp add: two_pages_def maps_page_def a)
  then have "frame_of ?u 2 SYSCALL_ARG \<noteq> None"
    using nth_mem [of 1 "page_info_table ?u"] by (auto simp: frame_of_None two_pages_len)
  then show "egos_has (machine mail_kernel) 2"
    using po by (simp add: egos_has_def u)
  have "length (the (vmem ?u p SYSCALL_ARG)) = 1024" if "frame_of ?u p SYSCALL_ARG \<noteq> None" for p
    using that by (auto simp: vmem_def two_pages_def)
  then show "egos_inv (machine mail_kernel)"
    using po by (simp add: egos_inv_def u two_pages_len APPS_PAGES_CNT_eq egos_has_def)
qed

lemma message_delivered_example:
  "\<exists>k1 k2. proc_try_syscall egos_earth 1 mail_kernel = Inr k1 \<and> proc_try_syscall egos_earth 2 k1 = Inr k2 \<and>
     sc_content (egos_user_sc (machine k2) 2) = replicate 1024 7 \<and> sc_sender (egos_user_sc (machine k2) 2) = 1"
proof -
  have p: "proc_set mail_kernel ! 1 = mail_sender" "proc_set mail_kernel ! 2 = mail_receiver"
    by (simp_all add: mail_nth)
  have "pid (proc_set mail_kernel ! 2) = 2"
    by (simp add: p mail_receiver_def)
  then have "egos_has (machine mail_kernel) (pid (proc_set mail_kernel ! 2))"
    using mail_machine(2) by simp
  from message_delivered [OF mail_kernel_ok mail_machine(1) this, of 1] show ?thesis
    unfolding p by (fastforce simp: mail_sender_def mail_receiver_def null_process_def null_syscall_def MAX_NPROCESS_eq)
qed

end
