(* ===== verification/Sys_Process.thy ===== *)
theory Sys_Process
  imports Sys_Shell Directory Elf_Load Machine
begin

text \<open>
  The process server of apps/system/sys_proc.c over the kernel with the software TLB, and its
  protocol with the shell: a request spawns an application, and the end of an application that runs
  in the foreground is what the shell waits for.
\<close>

section \<open>The server\<close>

text \<open>\<open>app_pid\<close>, \<open>app_ino\<close> and the local \<open>shell_waiting\<close>, which has no value before the first request.\<close>

record proc_server =
  app_ino :: int
  app_pid :: i32
  shell_waiting :: "bool option"

definition init_server :: proc_server where
  "init_server = \<lparr>app_ino = 0, app_pid = 0, shell_waiting = None\<rparr>"

text \<open>
  \<open>fr ino off\<close> is what \<open>file_read\<close> leaves in its buffer: the bytes the file server answers.
\<close>

type_synonym files_reader = "int \<Rightarrow> u32 \<Rightarrow> u8 list"

definition dir_buffer :: "files_reader \<Rightarrow> int \<Rightarrow> string" where
  "dir_buffer fr ino = map (char_of \<circ> unat) (fr ino 0)"

definition app_read :: "files_reader \<Rightarrow> int \<Rightarrow> u32 \<Rightarrow> block" where
  "app_read fr ino off = words_of (fr ino off)"

definition argv_bytes :: "string list \<Rightarrow> u8 list" where
  "argv_bytes argv = map of_char (concat argv)"

definition set_mmu :: "mmu_state \<Rightarrow> egos_machine kernel \<Rightarrow> egos_machine kernel" where
  "set_mmu m k = k\<lparr>machine := (machine k)\<lparr>mmu := m\<rparr>\<rparr>"

definition app_spawn :: "files_reader \<Rightarrow> proc_request \<Rightarrow> proc_server \<times> egos_machine kernel \<Rightarrow>
    fault + (u32 \<times> proc_server \<times> egos_machine kernel)" where
  "app_spawn fr req = (\<lambda>(sv, k).
     bindr (dir_lookup (dir_buffer fr 0) ''bin/'') (\<lambda>bin_ino.
     case c_str (concat (req_argv req)) of None \<Rightarrow> Inl Undefined | Some name \<Rightarrow>
     bindr (dir_lookup (dir_buffer fr bin_ino) name) (\<lambda>ino.
       let sv1 = sv\<lparr>app_ino := ino\<rparr> in
       if ino < 0 then Inr (CMD_ERROR, sv1, k)
       else bindr (last_arg_amp req) (\<lambda>amp.
         let argc = (if amp then req_argc req - 1 else req_argc req) in
         bindr (proc_alloc egos_earth k) (\<lambda>(p, k1).
         bindr (elf_load SOFT_TLB p (app_read fr ino) argc (Some (argv_bytes (req_argv req))) (mmu (machine k1))) (\<lambda>m.
           Inr (CMD_OK, sv1\<lparr>app_pid := p\<rparr>, proc_set_ready p (set_mmu m k1))))))))"

text \<open>
  One turn of the loop of \<open>main\<close> on a request of \<open>sender\<close>: the reply to the shell, if any. The reply
  lies over the type of the request, so the message for an exit holds that type.
\<close>

definition proc_handle :: "files_reader \<Rightarrow> i32 \<Rightarrow> proc_request \<Rightarrow> proc_server \<times> egos_machine kernel \<Rightarrow>
    fault + (u32 option \<times> proc_server \<times> egos_machine kernel)" where
  "proc_handle fr sender req = (\<lambda>(sv, k).
     if req_type req = PROC_SPAWN then
       bindr (app_spawn fr req (sv, k)) (\<lambda>(r, sv1, k1).
       bindr (last_arg_amp req) (\<lambda>amp.
         Inr (Some r, sv1\<lparr>shell_waiting := Some (\<not> amp \<and> r = CMD_OK)\<rparr>, k1)))
     else if req_type req = PROC_EXIT then
       (case shell_waiting sv of None \<Rightarrow> Inl Undefined
        | Some w \<Rightarrow> Inr (if w \<and> app_pid sv = sender then Some (req_type req) else None,
            sv, proc_free egos_earth sender k))
     else if req_type req = PROC_KILLALL then Inr (None, sv, proc_free egos_earth GPID_ALL k)
     else Inl (Fatal ''sys_process: invalid request''))"

text \<open>
  The start of a system server from the blocks of the disk, and of the three of them; the messages
  in between only say that a server is ready. \<open>sys_apps\<close> names four servers.
\<close>

definition sys_spawn :: "(u32 \<Rightarrow> block) \<Rightarrow> u32 \<Rightarrow> egos_machine kernel \<Rightarrow> fault + egos_machine kernel" where
  "sys_spawn disk_read base k =
     bindr (proc_alloc egos_earth k) (\<lambda>(p, k1).
     if \<not> (1 \<le> p \<and> p \<le> 4) then Inl Undefined
     else bindr (elf_load SOFT_TLB p (\<lambda>b. disk_read (base + b)) 0 None (mmu (machine k1))) (\<lambda>m.
       Inr (proc_set_ready p (set_mmu m k1))))"

definition start_servers :: "(u32 \<Rightarrow> block) \<Rightarrow> u32 \<Rightarrow> u32 \<Rightarrow> u32 \<Rightarrow> egos_machine kernel \<Rightarrow> fault + egos_machine kernel" where
  "start_servers disk_read term_base file_base shell_base k =
     bindr (sys_spawn disk_read term_base k) (\<lambda>k1.
     bindr (sys_spawn disk_read file_base k1) (sys_spawn disk_read shell_base))"

section \<open>The shell and the server together\<close>

text \<open>
  The shell is at its prompt or waits for the end of a command. A step is a line of the shell with
  the server's answer, the exit of a live application, or a step of the kernel that neither creates
  nor ends a process. An answer the shell does not wait for blocks the server: \<open>Blocked\<close>.
\<close>

datatype shell_state = Prompt | Awaiting | Blocked

definition live_users :: "'e kernel \<Rightarrow> i32 set" where
  "live_users k = {pid (proc_set k ! i) | i. i < MAX_NPROCESS \<and> is_live_user (proc_set k ! i)}"

definition exit_request :: proc_request where
  "exit_request = \<lparr>req_type = PROC_EXIT, req_argc = 0, req_argv = []\<rparr>"

inductive sys_step :: "files_reader \<Rightarrow> shell_state \<times> proc_server \<times> egos_machine kernel \<Rightarrow>
    shell_state \<times> proc_server \<times> egos_machine kernel \<Rightarrow> bool" for fr where
  spawn: "shell_line buf = Inr (Spawn req) \<Longrightarrow> alloc_curr_pid k \<noteq> -1 \<Longrightarrow>
    proc_handle fr GPID_SHELL req (sv, k) = Inr (Some r, sv', k') \<Longrightarrow> shell_waits req r = Inr w \<Longrightarrow>
    sys_step fr (Prompt, sv, k) (if w then Awaiting else Prompt, sv', k')"
| kill_all: "shell_line buf = Inr (Kill_All req) \<Longrightarrow> proc_handle fr GPID_SHELL req (sv, k) = Inr (None, sv', k') \<Longrightarrow>
    sys_step fr (Prompt, sv, k) (Prompt, sv', k')"
| app_exit: "p \<in> live_users k \<Longrightarrow> proc_handle fr p exit_request (sv, k) = Inr (r, sv', k') \<Longrightarrow>
    sys_step fr (sh, sv, k) (if r = None then sh else if sh = Awaiting then Prompt else Blocked, sv', k')"
| kernel: "kernel_ok k' \<Longrightarrow> live_users k' = live_users k \<Longrightarrow> sys_step fr (sh, sv, k) (sh, sv, k')"

inductive_cases sys_stepE: "sys_step fr s s'"

section \<open>Live applications\<close>

lemma live_users_user: "p \<in> live_users k \<Longrightarrow> GPID_USER_START \<le>s p"
  by (auto simp: live_users_def is_live_user_def)

lemma live_users_alloc:
  assumes "kernel_ok k" "proc_alloc e k = Inr (p, k')" "alloc_curr_pid k \<noteq> -1"
  shows "live_users k' \<subseteq> insert p (live_users k)" "p \<notin> live_users k" "kernel_ok k'" "p \<noteq> 0"
proof -
  obtain i where i: "kernel_ok k'" "\<And>j. j < 17 \<Longrightarrow> pid (proc_set k ! j) < p" "p \<noteq> 0"
    "proc_set k' ! i = init_process p (time_created (proc_set k' ! i)) (proc_set k ! i)"
    "\<And>j. j \<noteq> i \<Longrightarrow> proc_set k' ! j = proc_set k ! j"
    using alloc_spec [OF assms] by metis
  have "pid (proc_set k' ! i) = p"
    by (subst i(4)) (simp add: init_process_def)
  then show "live_users k' \<subseteq> insert p (live_users k)"
    using i(5) by (fastforce simp: live_users_def)
  show "p \<notin> live_users k"
  proof
    assume "p \<in> live_users k"
    then obtain j where "j < 16" "pid (proc_set k ! j) = p"
      by (auto simp: live_users_def MAX_NPROCESS_eq)
    then show False
      using i(2) [of j] by simp
  qed
  show "kernel_ok k'" "p \<noteq> 0"
    using i(1,3) .
qed

lemma live_users_pids:
  assumes "length (proc_set k) = 17" "length (proc_set k') = 17"
    "\<And>i. i < 16 \<Longrightarrow> pid (proc_set k' ! i) = pid (proc_set k ! i)"
    "\<And>i. i < 16 \<Longrightarrow> status (proc_set k ! i) = PROC_UNUSED \<Longrightarrow> status (proc_set k' ! i) = PROC_UNUSED"
  shows "live_users k' \<subseteq> live_users k"
  using assms by (fastforce simp: live_users_def is_live_user_def MAX_NPROCESS_eq)

lemma live_users_ready:
  assumes "length (proc_set k) = 17"
  shows "live_users (proc_set_ready p k) \<subseteq> insert p (live_users k)"
proof
  fix q assume "q \<in> live_users (proc_set_ready p k)"
  then obtain i where i: "i < 16" "q = pid (proc_set (proc_set_ready p k) ! i)" "is_live_user (proc_set (proc_set_ready p k) ! i)"
    by (auto simp: live_users_def MAX_NPROCESS_eq)
  have "proc_set (proc_set_ready p k) ! i =
      (if pid (proc_set k ! i) = p then (proc_set k ! i)\<lparr>status := PROC_READY\<rparr> else proc_set k ! i)"
    using i(1) assms by (simp add: proc_set_ready_def proc_set_status_def set_status_nth MAX_NPROCESS_eq)
  then show "q \<in> insert p (live_users k)"
    using i by (cases "pid (proc_set k ! i) = p") (auto simp: live_users_def MAX_NPROCESS_eq)
qed

lemma nth_update_field: "g (f (xs ! i)) = g (xs ! i) \<Longrightarrow> g (xs[i := f (xs ! i)] ! j) = g (xs ! j)"
  by (cases "i < length xs"; cases "i = j") (simp_all add: list_update_beyond)

lemma record_termination_nth:
  "pid (proc_set (record_termination e i k) ! j) = pid (proc_set k ! j)"
  "status (proc_set (record_termination e i k) ! j) = status (proc_set k ! j)"
  "length (proc_set (record_termination e i k)) = length (proc_set k)"
  by (auto simp: record_termination_def upd_proc_def get_time_def Let_def nth_update_field split: prod.splits)

lemma live_users_free:
  assumes "kernel_ok k" "p \<in> live_users k"
  shows "live_users (proc_free e p k) \<subseteq> live_users k - {p}" "kernel_ok (proc_free e p k)"
proof -
  have l: "length (proc_set k) = 17"
    using kernel_ok_length [OF assms(1)] .
  have p: "p \<noteq> GPID_ALL"
    using live_users_user [OF assms(2)] by (auto simp: GPID_ALL_def GPID_USER_START_def word_sle_eq)
  obtain i where i: "find (\<lambda>i. is_live_user (proc_set k ! i)) [0 ..< MAX_NPROCESS] = Some i"
    using assms(2) by (cases "find (\<lambda>i. is_live_user (proc_set k ! i)) [0 ..< MAX_NPROCESS]")
      (auto simp: live_users_def find_None_iff)
  let ?r = "record_termination e i k"
  have f: "proc_free e p k = proc_set_status p PROC_UNUSED (?r\<lparr>machine := earth_mmu_free e p (machine ?r)\<rparr>)"
    using i p by (simp add: proc_free_def proc_free_one_def Let_def)
  have st: "pid (proc_set (proc_free e p k) ! j) = pid (proc_set k ! j)"
    "status (proc_set (proc_free e p k) ! j) = (if pid (proc_set k ! j) = p then PROC_UNUSED else status (proc_set k ! j))"
    if "j < 16" for j
    using that l by (simp_all add: f proc_set_status_def set_status_nth record_termination_nth MAX_NPROCESS_eq)
  show "live_users (proc_free e p k) \<subseteq> live_users k - {p}"
    using st by (auto simp: live_users_def is_live_user_def MAX_NPROCESS_eq split: if_splits)
  show "kernel_ok (proc_free e p k)"
    using keeps_ok [OF keeps_free assms(1)] .
qed

lemma live_users_record: "live_users (record_termination e i k) = live_users k"
  by (simp add: live_users_def is_live_user_def record_termination_nth)

lemma live_users_free_all: "live_users (proc_free_all e is k) \<subseteq> live_users k"
proof (induction "is" arbitrary: k)
  case (Cons i "is")
  let ?k1 = "record_termination e i k"
  let ?k2 = "upd_proc i (\<lambda>p. p\<lparr>status := PROC_UNUSED\<rparr>) (?k1\<lparr>machine := earth_mmu_free e (pid (proc_set ?k1 ! i)) (machine ?k1)\<rparr>)"
  have "live_users ?k2 \<subseteq> live_users ?k1"
    by (cases "i < length (proc_set ?k1)")
       (auto simp: live_users_def is_live_user_def upd_proc_def nth_list_update list_update_beyond split: if_splits)
  then have "live_users ?k2 \<subseteq> live_users k"
    by (simp add: live_users_record)
  then show ?case
    using Cons.IH [of ?k2] Cons.IH [of k] by (auto simp: Let_def)
qed simp

section \<open>The invariant of the protocol\<close>

definition sys_ok :: "shell_state \<times> proc_server \<times> egos_machine kernel \<Rightarrow> bool" where
  "sys_ok = (\<lambda>(sh, sv, k). kernel_ok k \<and> sh \<noteq> Blocked \<and>
     (shell_waiting sv = None \<longrightarrow> live_users k = {}) \<and>
     (sh = Awaiting \<longrightarrow> shell_waiting sv = Some True) \<and>
     (sh = Prompt \<longrightarrow> shell_waiting sv = Some True \<longrightarrow> app_pid sv \<notin> live_users k))"

lemma app_spawn_ok:
  assumes "kernel_ok k" "alloc_curr_pid k \<noteq> -1" "app_spawn fr req (sv, k) = Inr (r, sv', k')"
  shows "kernel_ok k' \<and> (r = CMD_OK \<or> k' = k)"
proof (cases "k' = k")
  case False
  obtain p k1 m where a: "proc_alloc egos_earth k = Inr (p, k1)" "k' = proc_set_ready p (set_mmu m k1)" "r = CMD_OK"
    using assms(3) False
    by (auto simp: app_spawn_def Let_def bindr_eq_Inr_iff split: option.splits if_splits)
  note al = live_users_alloc [OF assms(1) a(1) assms(2)]
  have "kernel_ok (set_mmu m k1)"
    using al(3) by (simp add: set_mmu_def kernel_ok_def)
  then have "kernel_ok k'"
    unfolding a(2) proc_set_ready_def by (rule keeps_ok [OF keeps_set_status, rotated]) (simp add: al(4))
  then show ?thesis
    using a(3) by simp
qed (use assms(1) in simp)

lemma handle_spawn_ok:
  assumes "sys_ok (Prompt, sv, k)" "alloc_curr_pid k \<noteq> -1" "req_type req = PROC_SPAWN"
    "proc_handle fr GPID_SHELL req (sv, k) = Inr (Some r, sv', k')" "shell_waits req r = Inr w"
  shows "sys_ok (if w then Awaiting else Prompt, sv', k')"
proof -
  obtain amp sv1 where h: "app_spawn fr req (sv, k) = Inr (r, sv1, k')" "last_arg_amp req = Inr amp"
    "sv' = sv1\<lparr>shell_waiting := Some (\<not> amp \<and> r = CMD_OK)\<rparr>"
    using assms(3,4) by (auto simp: proc_handle_def bindr_eq_Inr_iff)
  have w: "w \<longleftrightarrow> \<not> amp \<and> r = CMD_OK"
    using assms(5) h(2) by (auto simp: shell_waits_def bindr_eq_Inr_iff split: if_splits)
  have "kernel_ok k'"
    using app_spawn_ok [OF _ assms(2) h(1)] assms(1) by (simp add: sys_ok_def)
  then show ?thesis
    using w by (auto simp: sys_ok_def h(3))
qed

lemma handle_exit:
  assumes "sys_ok (sh, sv, k)" "p \<in> live_users k"
  shows "\<exists>k'. proc_handle fr p exit_request (sv, k) =
      Inr (if sh = Awaiting \<and> app_pid sv = p then Some PROC_EXIT else None, sv, k') \<and>
    sys_ok (if sh = Awaiting \<and> app_pid sv = p then Prompt else sh, sv, k') \<and> p \<notin> live_users k'"
proof -
  obtain w where w: "shell_waiting sv = Some w"
    using assms by (cases "shell_waiting sv") (auto simp: sys_ok_def)
  have k: "kernel_ok k" "sh = Prompt \<or> sh = Awaiting"
    using assms(1) by (cases sh; simp add: sys_ok_def)+
  have iff: "w \<and> app_pid sv = p \<longleftrightarrow> sh = Awaiting \<and> app_pid sv = p"
    using assms w k(2) by (auto simp: sys_ok_def)
  have "proc_handle fr p exit_request (sv, k) =
      Inr (if sh = Awaiting \<and> app_pid sv = p then Some PROC_EXIT else None, sv, proc_free egos_earth p k)"
    using w iff by (auto simp: proc_handle_def exit_request_def PROC_EXIT_def PROC_SPAWN_def)
  moreover note live_users_free [OF k(1) assms(2), of egos_earth]
  ultimately show ?thesis
    using assms(1) w k(2) iff by (intro exI [of _ "proc_free egos_earth p k"]) (auto simp: sys_ok_def)
qed

lemma shell_line_types:
  "shell_line buf = Inr (Spawn req) \<Longrightarrow> req_type req = PROC_SPAWN"
  "shell_line buf = Inr (Kill_All req) \<Longrightarrow> req_type req = PROC_KILLALL"
  by (auto simp: shell_line_def bindr_eq_Inr_iff split: option.splits if_splits)

lemma sys_step_ok: "sys_step fr s s' \<Longrightarrow> sys_ok s \<Longrightarrow> sys_ok s'"
proof (induction rule: sys_step.induct)
  case (spawn buf req k sv r sv' k' w)
  then show ?case
    using handle_spawn_ok shell_line_types(1) by blast
next
  case (kill_all buf req sv k sv' k')
  have "req_type req = PROC_KILLALL"
    using shell_line_types(2) [OF kill_all(1)] .
  then have "sv' = sv" "k' = proc_free egos_earth GPID_ALL k"
    using kill_all(2) by (simp_all add: proc_handle_def PROC_KILLALL_def PROC_SPAWN_def PROC_EXIT_def)
  moreover have "live_users (proc_free egos_earth GPID_ALL k) \<subseteq> live_users k"
    using live_users_free_all by (simp add: proc_free_def)
  moreover have "kernel_ok k \<Longrightarrow> kernel_ok (proc_free egos_earth GPID_ALL k)"
    by (rule keeps_ok [OF keeps_free])
  ultimately show ?case
    using kill_all(3) by (auto simp: sys_ok_def)
next
  case (app_exit p k sv r sv' k' sh)
  then show ?case
    using handle_exit [OF app_exit(3,1), of fr] by (auto split: if_splits)
next
  case (kernel k' k sh sv)
  then show ?case
    by (simp add: sys_ok_def)
qed

end
