(* ===== verification/Elf_Props.thy ===== *)
theory Elf_Props
  imports Elf_Load
begin

text \<open>
  The properties of the ELF loader: the bytes of a loaded segment, the pages it takes, the tail of
  the zero-filled memory it forgets, and the arguments of \<open>main\<close>.
\<close>

section \<open>Addresses\<close>

lemma proc_byte_page:
  assumes "pid \<noteq> curr_vm_pid m" "unat a mod 4096 = 0" "x < 4096" "fpage m pid a = Some pg"
  shows "proc_byte m pid (a + of_nat x) = Some (bytes_of pg ! x)"
  using assms by (simp add: proc_byte_def page_base_plus fpage_vmem)

lemma pg_addr_mod: "unat pn + j < 2 ^ 20 \<Longrightarrow> unat (pg_addr pn j) mod 4096 = 0"
  by (simp add: pg_addr_unat)

lemma seg_byte_addr:
  "unat va mod 4096 = 0 \<Longrightarrow> va + of_nat k = pg_addr (va div PAGE_SIZE) (k div 4096) + of_nat (k mod 4096)"
proof -
  assume al: "unat va mod 4096 = 0"
  have "pg_addr (va div PAGE_SIZE) (k div 4096) + of_nat (k mod 4096) = va + of_nat (k div 4096 * 4096 + k mod 4096)"
    unfolding vaddr_page(1) [OF al] of_nat_add by (simp only: add.assoc)
  then show ?thesis
    by (simp only: div_mult_mod_eq)
qed

section \<open>Pages taken\<close>

lemma new_zero_page_soft:
  assumes "table512 m"
  shows "case new_zero_page SOFT_TLB pid vp m of
      Inr (pp, m1) \<Rightarrow> free_pages m = Suc (free_pages m1) \<and> table512 m1
    | Inl e \<Rightarrow> free_pages m = 0 \<and> e = Fatal ''mmu_alloc: no more free memory''"
proof (cases "find_free_page (page_info_table m) 0")
  case None
  then have "mmu_alloc m = Inl (Fatal ''mmu_alloc: no more free memory'')"
    by (simp add: mmu_alloc_def)
  moreover have "free_pages m = 0"
    using None by (auto simp: find_free_page_None free_pages.simps filter_empty_conv)
  ultimately show ?thesis
    by (simp add: new_zero_page_def new_page_def)
next
  case (Some i)
  then have i: "i < 512"
    using find_free_page_spec [OF Some] assms by (simp add: table512_def APPS_PAGES_CNT_eq)
  then have "unat (of_nat i :: u32) < 512"
    by (simp add: unat_of_nat_less)
  then obtain pp m1 where n: "new_zero_page SOFT_TLB pid vp m = Inr (pp, m1)" "table512 m1"
    using Some assms by (auto simp: new_zero_page_def new_page_def mmu_alloc_def earth_map_def soft_tlb_map_def
        APPS_PAGES_CNT_eq table512_def zero_page_def)
  then show ?thesis
    using new_zero_page_free [OF n(1)] by simp
qed

definition takes :: "nat \<Rightarrow> mmu_state \<Rightarrow> fault + mmu_state \<Rightarrow> bool" where
  "takes n m r = (case r of
     Inr m' \<Rightarrow> free_pages m = free_pages m' + n \<and> table512 m'
   | Inl e \<Rightarrow> free_pages m < n \<and> e = Fatal ''mmu_alloc: no more free memory'')"

lemma copy_into_table: "table512 (copy_into pp off buf k m) = table512 m"
  by (simp add: copy_into_def Let_def table512_def)

lemma takes_new:
  assumes "table512 m" "\<And>pp m1. table512 m1 \<Longrightarrow> takes n m1 (f (pp, m1))"
  shows "takes (Suc n) m (bindr (new_zero_page SOFT_TLB pid vp m) f)"
proof (cases "new_zero_page SOFT_TLB pid vp m")
  case (Inl e)
  then show ?thesis
    using new_zero_page_soft [OF assms(1), of pid vp] by (simp add: takes_def)
next
  case (Inr r)
  obtain pp m1 where r: "r = (pp, m1)"
    by fastforce
  then have "free_pages m = Suc (free_pages m1)" "table512 m1"
    using new_zero_page_soft [OF assms(1), of pid vp] Inr by simp_all
  then show ?thesis
    using assms(2) [of m1 pp] Inr r by (cases "f (pp, m1)") (simp_all add: takes_def)
qed

lemma takes_copy: "takes n (copy_into pp off buf k m) r = takes n m r"
  by (simp add: takes_def copy_into_free split: sum.split)

lemma load_blocks_takes:
  assumes big: "unat filesz + 512 \<le> 2 ^ 32" and "table512 m" "b \<le> (unat filesz + 511) div 512"
  shows "takes (pages_of (unat filesz) - (b + 7) div 8) m
    (bindr (load_blocks SOFT_TLB pid reader filesz b pn bn pp m) (\<lambda>(pn, m). Inr m))"
  using assms(2,3)
proof (induction "(unat filesz + 511) div 512 - b" arbitrary: b pn bn pp m)
  case 0
  then have b: "b = (unat filesz + 511) div 512"
    by simp
  have "(unat filesz + 511) div 512 * 512 < 2 ^ LENGTH(32)"
    using big by simp
  then have "unat (of_nat (b * 512) :: u32) = b * 512"
    unfolding b by (rule unat_of_nat_less)
  moreover have "unat filesz \<le> b * 512"
    unfolding b by linarith
  ultimately have "\<not> of_nat (b * BLOCK_SIZE) < filesz"
    by (simp add: word_less_nat_alt BLOCK_SIZE_def)
  moreover have "pages_of (unat filesz) = (b + 7) div 8"
    unfolding b pages_of_def by linarith
  ultimately show ?case
    using "0.prems" by (subst load_blocks.simps) (simp add: Let_def takes_def)
next
  case (Suc d)
  then have lt: "b * 512 < unat filesz"
    by linarith
  have "unat (of_nat (b * 512) :: u32) = b * 512"
    using lt big by (intro unat_of_nat_less) simp
  then have go: "of_nat (b * BLOCK_SIZE) < filesz"
    using lt by (simp add: word_less_nat_alt BLOCK_SIZE_def)
  have nxt: "takes (pages_of (unat filesz) - (Suc b + 7) div 8) m1
      (bindr (load_blocks SOFT_TLB pid reader filesz (Suc b) pn bn pp m1) (\<lambda>(pn, m). Inr m))"
    if "table512 m1" for pn bn pp m1
    using Suc.hyps Suc.prems that by (intro Suc.hyps(1)) linarith+
  have nxt2: "takes (pages_of (unat filesz) - (Suc b + 7) div 8) m1
      (bindr (load_blocks SOFT_TLB pid reader filesz (Suc b) pn bn pp (copy_into pq off buf k m1)) (\<lambda>(pn, m). Inr m))"
    if "table512 m1" for pn bn pp pq off buf k m1
    using nxt [of "copy_into pq off buf k m1"] that by (simp add: copy_into_table takes_copy)
  show ?case
  proof (cases "b mod 8 = 0")
    case True
    have c: "pages_of (unat filesz) - (b + 7) div 8 = Suc (pages_of (unat filesz) - (Suc b + 7) div 8)"
    proof -
      obtain c where c: "b = 8 * c"
        using True by blast
      then have "c < pages_of (unat filesz)"
        using lt unfolding pages_of_def by linarith
      then show ?thesis
        unfolding c by simp
    qed
    show ?thesis
      unfolding c load_blocks_go [OF go] using True nxt2 Suc.prems(1)
      by (auto simp: bindr_assoc intro!: takes_new)
  next
    case False
    then have "0 < b mod 8" "b = 8 * (b div 8) + b mod 8" "b mod 8 < 8"
      by simp_all
    then have "(b + 7) div 8 = Suc (b div 8)"
      by linarith
    then have "(b + 7) div 8 = (Suc b + 7) div 8"
      by simp
    then show ?thesis
      unfolding load_blocks_go [OF go] using False nxt2 Suc.prems(1) by simp
  qed
qed

lemma map_rest_takes:
  "table512 m \<Longrightarrow> takes (unat en - unat pn) m (map_rest SOFT_TLB pid pn en m)"
proof (induction "unat en - unat pn" arbitrary: pn m)
  case 0
  then show ?case
    by (subst map_rest.simps) (auto simp: takes_def word_less_nat_alt)
next
  case (Suc d)
  then have lt: "pn < en"
    by (simp add: word_less_nat_alt)
  then have u: "d = unat en - unat (pn + 1)" "unat en - unat pn = Suc (unat en - unat (pn + 1))"
    using Suc.hyps(2) by (simp_all add: unat_plus_one_less)
  show ?case
    unfolding u(2) using Suc.prems Suc.hyps(1) [OF u(1)] lt
    by (subst map_rest.simps) (auto intro!: takes_new)
qed

section \<open>The page of the arguments\<close>

lemma bytes_of_nth: "k < 4 * length ws \<Longrightarrow> bytes_of ws ! k = word_bytes (ws ! (k div 4)) ! (k mod 4)"
proof (induction ws arbitrary: k)
  case (Cons w ws)
  show ?case
  proof (cases "k < 4")
    case False
    then have "k div 4 = Suc ((k - 4) div 4)" "k mod 4 = (k - 4) mod 4"
      by (simp_all add: le_div_geq le_mod_geq)
    then show ?thesis
      using Cons False by (simp add: bytes_of_def nth_append)
  qed (simp add: bytes_of_def nth_append)
qed simp

lemma set_argv_nth:
  "length (set_argv n i pg) = length pg"
  "j < length pg \<Longrightarrow> i + n < length pg \<Longrightarrow>
   set_argv n i pg ! j = (if i < j \<and> j \<le> i + n then arg_addr (j - 1) else pg ! j)"
proof (induction n arbitrary: i pg)
  case (Suc n)
  {
    case 1
    show ?case
      using Suc.IH(1) by simp
  next
    case 2
    then have "set_argv (Suc n) i pg ! j = (if Suc i < j \<and> j \<le> Suc i + n then arg_addr (j - 1) else pg[Suc i := arg_addr i] ! j)"
      using Suc.IH(2) [of "pg[Suc i := arg_addr i]" "Suc i"] by simp
    then show ?case
      using 2 by (cases "j = Suc i") auto
  }
qed auto

lemma arg_page_ok:
  assumes "length pg = 1024" "argc \<le> 16" "argc * 32 \<le> length bs"
  shows "\<exists>pg'. arg_page argc (Some bs) pg = Inr pg' \<and> pg' ! 0 = of_nat argc \<and> length pg' = 1024 \<and>
    (\<forall>i < argc. pg' ! Suc i = arg_addr i) \<and> (\<forall>k < argc * 32. bytes_of pg' ! (68 + k) = bs ! k)"
proof -
  let ?b = "bytes_of (pg[0 := of_nat argc])" and ?p1 = "pg[0 := of_nat argc]"
  let ?l = "take 68 ?b @ take (argc * 32) bs @ drop (68 + argc * 32) ?b"
  let ?p2 = "words_of ?l"
  have lb: "length ?b = 4096" and ll: "length ?l = 4096"
    using assms by simp_all
  have l2: "length ?p2 = 1024"
    using ll by (simp only: length_words_of)
  have b2: "bytes_of ?p2 = ?l"
    using ll by (intro bytes_of_words_of) simp
  have w0: "?p2 ! 0 = of_nat argc"
  proof -
    have "word_bytes (?p2 ! 0) ! r = word_bytes (?p1 ! 0) ! r" if "r < 4" for r
      using bytes_of_nth [of r ?p2] bytes_of_nth [of r ?p1] l2 that assms(1) unfolding b2 by (simp add: nth_append)
    then have "word_bytes (?p2 ! 0) = word_bytes (?p1 ! 0)"
      by (intro nth_equalityI) simp_all
    then have "?p2 ! 0 = ?p1 ! 0"
      by (metis bytes_word_word_bytes word_bytes_def)
    then show ?thesis
      using assms(1) by (cases pg) simp_all
  qed
  let ?p3 = "set_argv argc 0 ?p2"
  have "arg_page argc (Some bs) pg = Inr ?p3"
    using assms l2 by (simp add: arg_page_def Let_def page_copy_def CMD_ARG_LEN_def CMD_NARGS_def)
  moreover have "?p3 ! 0 = of_nat argc" "length ?p3 = 1024"
    using set_argv_nth(1) [of argc 0 ?p2] set_argv_nth(2) [of 0 ?p2 0 argc] l2 w0 assms(2) by simp_all
  moreover have "?p3 ! Suc i = arg_addr i" if "i < argc" for i
    using set_argv_nth(2) [of "Suc i" ?p2 0 argc] l2 that assms(2) by simp
  moreover have "bytes_of ?p3 ! (68 + k) = bs ! k" if k: "k < argc * 32" for k
  proof -
    have lt: "68 + k < 4096"
      using k assms(2) by linarith
    have "17 \<le> (68 + k) div 4" "(68 + k) div 4 < 1024"
      using lt by linarith+
    then have "?p3 ! ((68 + k) div 4) = ?p2 ! ((68 + k) div 4)"
      using set_argv_nth(2) [of "(68 + k) div 4" ?p2 0 argc] l2 assms(2) by simp
    then have "bytes_of ?p3 ! (68 + k) = bytes_of ?p2 ! (68 + k)"
      using bytes_of_nth [of "68 + k" ?p3] bytes_of_nth [of "68 + k" ?p2] set_argv_nth(1) [of argc 0 ?p2] l2 lt by simp
    also have "\<dots> = bs ! k"
      using k assms(3) lb unfolding b2 by (simp add: nth_append)
    finally show ?thesis .
  qed
  ultimately show ?thesis
    by blast
qed

lemma new_page_keeps:
  assumes "new_page t pid vp m = Inr (pp, m1)" "table512 m" "frame_of m pid (PAGE_NO_TO_ADDR vp) = None"
  shows "table512 m1" "curr_vm_pid m1 = curr_vm_pid m"
    "\<not> (p = pid \<and> va = PAGE_NO_TO_ADDR vp) \<Longrightarrow> fpage m1 p va = fpage m p va"
  using new_page_effect(2,3) [OF assms] new_page_fpage [OF assms, of p va] by auto

text \<open>The pages of the arguments, the system calls and the stack of a new process.\<close>

definition tail_pages :: "u32 list" where
  "tail_pages = [APPS_ARG, SYSCALL_ARG, APPS_STACK_TOP - 4096, APPS_STACK_TOP - 8192]"

lemma tail_addrs:
  "PAGE_NO_TO_ADDR (APPS_ARG div PAGE_SIZE) = APPS_ARG" "PAGE_NO_TO_ADDR (SYSCALL_ARG div PAGE_SIZE) = SYSCALL_ARG"
  "PAGE_NO_TO_ADDR (APPS_STACK_TOP div PAGE_SIZE - 1) = APPS_STACK_TOP - 4096"
  "PAGE_NO_TO_ADDR (APPS_STACK_TOP div PAGE_SIZE - 2) = APPS_STACK_TOP - 8192"
  by (simp_all add: PAGE_NO_TO_ADDR_def PAGE_SIZE_def layout_defs)

lemma tail_distinct: "distinct tail_pages"
  by (simp add: tail_pages_def layout_defs)

lemma load_tail_effect:
  assumes run: "load_tail t pid argc argv m = Inr m'" and tab: "table512 m"
    and fresh: "\<forall>va \<in> set tail_pages. frame_of m pid va = None"
  shows "\<exists>pg0 pg. arg_page argc argv pg0 = Inr pg \<and> pg0 \<in> range (mem m) \<and> fpage m' pid APPS_ARG = Some pg \<and>
    curr_vm_pid m' = curr_vm_pid m \<and> table512 m' \<and>
    (\<forall>p va. p \<noteq> pid \<or> va \<notin> set tail_pages \<longrightarrow> fpage m' p va = fpage m p va)"
proof -
  have nf: "frame_of m pid APPS_ARG = None" "frame_of m pid SYSCALL_ARG = None"
    "frame_of m pid (APPS_STACK_TOP - 4096) = None" "frame_of m pid (APPS_STACK_TOP - 8192) = None"
    using fresh by (simp_all add: tail_pages_def)
  have d: "APPS_ARG \<noteq> SYSCALL_ARG" "APPS_ARG \<noteq> APPS_STACK_TOP - 4096" "APPS_ARG \<noteq> APPS_STACK_TOP - 8192"
    "SYSCALL_ARG \<noteq> APPS_STACK_TOP - 4096" "SYSCALL_ARG \<noteq> APPS_STACK_TOP - 8192"
    "APPS_STACK_TOP - 4096 \<noteq> APPS_STACK_TOP - 8192"
    using tail_distinct by (auto simp: tail_pages_def)
  obtain pp m1 pg pp2 m2 pp3 m3 pp4 where
    n1: "new_page t pid (APPS_ARG div PAGE_SIZE) m = Inr (pp, m1)"
    and ap: "arg_page argc argv (mem m1 (PAGE_ID_TO_ADDR pp)) = Inr pg"
    and n2: "new_page t pid (SYSCALL_ARG div PAGE_SIZE) (m1\<lparr>mem := (mem m1)(PAGE_ID_TO_ADDR pp := pg)\<rparr>) = Inr (pp2, m2)"
    and n3: "new_page t pid (APPS_STACK_TOP div PAGE_SIZE - 1) m2 = Inr (pp3, m3)"
    and n4: "new_page t pid (APPS_STACK_TOP div PAGE_SIZE - 2) m3 = Inr (pp4, m')"
    using run by (auto simp: load_tail_def bindr_eq_Inr_iff numeral_2_eq_2)
  let ?m1 = "m1\<lparr>mem := (mem m1)(PAGE_ID_TO_ADDR pp := pg)\<rparr>"
  have f1: "frame_of m pid (PAGE_NO_TO_ADDR (APPS_ARG div PAGE_SIZE)) = None"
    unfolding tail_addrs by (rule nf(1))
  note e1 = new_page_keeps [OF n1 tab f1, unfolded tail_addrs]
  have fr: "frame_of m1 pid APPS_ARG = Some (unat pp)"
    using new_page_effect(5) [OF n1 tab f1, of pid APPS_ARG] by (simp add: tail_addrs)
  note s1 = store_frame_fpage [OF e1(1) fr, of pg]
  have t1: "table512 ?m1" "curr_vm_pid ?m1 = curr_vm_pid m"
    using e1 by (simp_all add: store_frame_other)
  have o1: "fpage ?m1 p va = fpage m p va" if "\<not> (p = pid \<and> va = APPS_ARG)" for p va
    using s1 [of p va] e1(3) that by auto
  have f2: "frame_of ?m1 pid (PAGE_NO_TO_ADDR (SYSCALL_ARG div PAGE_SIZE)) = None"
    using o1 [of pid SYSCALL_ARG] d nf by (simp add: tail_addrs fpage_None [symmetric])
  note e2 = new_page_keeps [OF n2 t1(1) f2, unfolded tail_addrs]
  have f3: "frame_of m2 pid (PAGE_NO_TO_ADDR (APPS_STACK_TOP div PAGE_SIZE - 1)) = None"
    using o1 [of pid "APPS_STACK_TOP - 4096"] e2(3) [of pid "APPS_STACK_TOP - 4096"] d nf by (simp add: tail_addrs fpage_None [symmetric])
  note e3 = new_page_keeps [OF n3 e2(1) f3, unfolded tail_addrs]
  have f4: "frame_of m3 pid (PAGE_NO_TO_ADDR (APPS_STACK_TOP div PAGE_SIZE - 2)) = None"
    using o1 [of pid "APPS_STACK_TOP - 8192"] e2(3) [of pid "APPS_STACK_TOP - 8192"] e3(3) [of pid "APPS_STACK_TOP - 8192"] d nf
    by (simp add: tail_addrs fpage_None [symmetric])
  note e4 = new_page_keeps [OF n4 e3(1) f4, unfolded tail_addrs]
  have "fpage m' pid APPS_ARG = fpage ?m1 pid APPS_ARG"
    using e2(3) [of pid APPS_ARG] e3(3) [of pid APPS_ARG] e4(3) [of pid APPS_ARG] d by simp
  also have "\<dots> = Some pg"
    using s1 by simp
  finally have "fpage m' pid APPS_ARG = Some pg" .
  moreover have "fpage m' p va = fpage m p va" if "p \<noteq> pid \<or> va \<notin> set tail_pages" for p va
    using e2(3) [of p va] e3(3) [of p va] e4(3) [of p va] o1 [of p va] that by (auto simp: tail_pages_def)
  moreover have "mem m1 (PAGE_ID_TO_ADDR pp) \<in> range (mem m)"
    using new_page_effect(4) [OF n1 tab f1] by simp
  ultimately show ?thesis
    using ap e4(1,2) e3(2) e2(2) t1(2) by (intro exI [of _ "mem m1 (PAGE_ID_TO_ADDR pp)"] exI [of _ pg]) auto
qed

lemma load_segment_takes:
  assumes "table512 m" "seg_placed ph"
  shows "takes (seg_pages ph) m (load_segment SOFT_TLB pid reader ph m)"
proof -
  let ?fs = "unat (p_filesz ph)" and ?pn = "p_vaddr ph div PAGE_SIZE"
  let ?lb = "load_blocks SOFT_TLB pid reader (p_filesz ph) 0 ?pn (p_offset ph div 512) 0 m"
  note f = seg_placedD [OF assms(2)]
  have l: "takes (pages_of ?fs) m (bindr ?lb (\<lambda>(pn, m). Inr m))"
    using load_blocks_takes [OF f(6) assms(1), of 0 pid reader ?pn "p_offset ph div 512" 0] by simp
  show ?thesis
  proof (cases ?lb)
    case (Inl e)
    then show ?thesis
      using l f(2) by (auto simp: load_segment_def takes_def seg_pages_def BLOCK_SIZE_def)
  next
    case (Inr r)
    obtain pn' m1 where r: "r = (pn', m1)"
      by fastforce
    have pn: "pn' = ?pn + of_nat (pages_of ?fs)"
      using load_blocks_pageno [OF f(6), of 0 SOFT_TLB pid reader ?pn "p_offset ph div 512" 0 m pn' m1] Inr r by simp
    have m1: "free_pages m = free_pages m1 + pages_of ?fs" "table512 m1"
      using l Inr r by (simp_all add: takes_def)
    have u: "unat (?pn + of_nat i) = unat ?pn + i" if "i \<le> seg_pages ph" for i
      using f(4) that by (simp add: unat_word_ariths unat_of_nat_less)
    have "takes (seg_pages ph - pages_of ?fs) m1 (map_rest SOFT_TLB pid pn' ((p_vaddr ph + p_memsz ph) div PAGE_SIZE) m1)"
    proof -
      have "pages_of ?fs \<le> seg_pages ph" "unat (p_memsz ph) div 4096 \<le> seg_pages ph"
        by (simp_all add: seg_pages_def)
      note this [THEN u]
      moreover have "seg_pages ph - pages_of ?fs = unat (p_memsz ph) div 4096 - pages_of ?fs"
        by (simp add: seg_pages_def)
      ultimately show ?thesis
        using map_rest_takes [OF m1(2), of "?pn + of_nat (unat (p_memsz ph) div 4096)" pn' pid]
        unfolding pn seg_placed_end [OF assms(2)] by simp
    qed
    then have "takes (seg_pages ph) m (map_rest SOFT_TLB pid pn' ((p_vaddr ph + p_memsz ph) div PAGE_SIZE) m1)"
      using m1 by (auto simp: takes_def seg_pages_def split: sum.splits)
    then show ?thesis
      using Inr r f(2) by (simp add: load_segment_def BLOCK_SIZE_def)
  qed
qed

text \<open>Both ways of translation map pages alike, for the pids that the page tables have room for.\<close>

lemma new_page_translation: "sint pid < 256 \<Longrightarrow> new_page t pid = new_page SOFT_TLB pid"
  by (cases t) (simp_all add: fun_eq_iff new_page_def earth_map_def page_table_map_def MMU_MAX_NPROCESS_def)

lemma new_zero_page_translation: "sint pid < 256 \<Longrightarrow> new_zero_page t pid = new_zero_page SOFT_TLB pid"
  by (simp add: fun_eq_iff new_zero_page_def new_page_translation [of pid t])

lemma load_blocks_translation:
  "sint pid < 256 \<Longrightarrow> load_blocks t pid reader fs b pn bn pp m = load_blocks SOFT_TLB pid reader fs b pn bn pp m"
proof (induction t pid reader fs b pn bn pp m rule: load_blocks.induct)
  case (1 t pid reader fs b pn bn pp m)
  have *: "bindr x f = bindr x g" if "\<And>y. x = Inr y \<Longrightarrow> f y = g y" for x :: "fault + 'a" and f g :: "'a \<Rightarrow> fault + 'b"
    using that by (cases x) simp_all
  show ?case
    apply (subst (1 2) load_blocks.simps)
    apply (simp only: Let_def new_zero_page_translation [OF 1(2), of t])
    apply (intro if_cong refl * prod.case_cong)
    apply (auto intro!: 1(1) [OF refl] simp: 1(2) new_zero_page_translation [OF 1(2), of t])
    done
qed

lemma map_rest_translation:
  "sint pid < 256 \<Longrightarrow> map_rest t pid pn en m = map_rest SOFT_TLB pid pn en m"
proof (induction t pid pn en m rule: map_rest.induct)
  case (1 t pid pn en m)
  have *: "bindr x f = bindr x g" if "\<And>y. x = Inr y \<Longrightarrow> f y = g y" for x :: "fault + 'a" and f g :: "'a \<Rightarrow> fault + 'b"
    using that by (cases x) simp_all
  show ?case
    apply (subst (1 2) map_rest.simps)
    apply (simp only: new_zero_page_translation [OF 1(2), of t])
    apply (intro if_cong refl * prod.case_cong)
    apply (auto intro!: 1(1) [OF _ _ refl] simp: 1(2) new_zero_page_translation [OF 1(2), of t])
    done
qed

lemma load_segment_translation: "sint pid < 256 \<Longrightarrow> load_segment t pid reader ph m = load_segment SOFT_TLB pid reader ph m"
proof -
  assume "sint pid < 256"
  then have "load_blocks t pid = load_blocks SOFT_TLB pid" "map_rest t pid = map_rest SOFT_TLB pid"
    by (simp_all add: fun_eq_iff load_blocks_translation [of pid t] map_rest_translation [of pid t])
  then show ?thesis
    unfolding load_segment_def by (simp only:)
qed

lemma load_segments_translation:
  "sint pid < 256 \<Longrightarrow> load_segments t pid reader hbuf n i m = load_segments SOFT_TLB pid reader hbuf n i m"
proof (induction n arbitrary: i m)
  case (Suc n)
  then have "load_segments t pid reader hbuf n (Suc i) = load_segments SOFT_TLB pid reader hbuf n (Suc i)"
    by (simp add: fun_eq_iff)
  then show ?case
    using Suc.prems by (simp add: load_segment_translation [of pid t])
qed simp

lemma load_tail_translation: "sint pid < 256 \<Longrightarrow> load_tail t pid argc argv m = load_tail SOFT_TLB pid argc argv m"
proof -
  assume p: "sint pid < 256"
  have "stack_pages t pid n i m = stack_pages SOFT_TLB pid n i m" for n i m
    by (induction n arbitrary: i m) (simp_all add: new_page_translation [OF p, of t] split_def)
  then have "stack_pages t pid = stack_pages SOFT_TLB pid"
    by (simp add: fun_eq_iff)
  then show ?thesis
    by (simp add: load_tail_def new_page_translation [OF p, of t])
qed

lemma elf_load_translation: "sint pid < 256 \<Longrightarrow> elf_load t pid reader argc argv m = elf_load SOFT_TLB pid reader argc argv m"
  by (simp add: elf_load_def load_segments_translation [of pid t] fun_eq_iff load_tail_translation [of pid t] cong: bindr_cong)

lemma new_page_soft:
  assumes "table512 m" "0 < free_pages m"
  shows "\<exists>pp m1. new_page SOFT_TLB pid vp m = Inr (pp, m1) \<and> table512 m1 \<and> free_pages m = Suc (free_pages m1) \<and> mem m1 = mem m"
proof -
  obtain pp m1 where z: "new_zero_page SOFT_TLB pid vp m = Inr (pp, m1)"
    using new_zero_page_soft [OF assms(1), of pid vp] assms(2) by (auto split: sum.splits)
  then obtain m0 where n: "new_page SOFT_TLB pid vp m = Inr (pp, m0)"
    by (auto simp: new_zero_page_def bindr_eq_Inr_iff)
  have "mem m0 = mem m \<and> length (page_info_table m0) = length (page_info_table m)"
    using n by (auto simp: new_page_def bindr_eq_Inr_iff mmu_alloc_def earth_map_def soft_tlb_map_def split: option.splits if_splits)
  then show ?thesis
    using n new_page_free [OF n] assms(1) by (simp add: table512_def)
qed

lemma load_tail_ok:
  assumes "table512 m" "4 \<le> free_pages m" "\<forall>pg \<in> range (mem m). \<exists>pg'. arg_page argc argv pg = Inr pg'"
  shows "\<exists>m'. load_tail SOFT_TLB pid argc argv m = Inr m'"
proof -
  obtain pp m1 where n1: "new_page SOFT_TLB pid (APPS_ARG div PAGE_SIZE) m = Inr (pp, m1)" "table512 m1"
    "free_pages m = Suc (free_pages m1)" "mem m1 = mem m"
    using new_page_soft [of m pid "APPS_ARG div PAGE_SIZE"] assms(1,2) by auto
  obtain pg where pg: "arg_page argc argv (mem m1 (PAGE_ID_TO_ADDR pp)) = Inr pg"
    using assms(3) n1(4) by auto
  let ?m1 = "m1\<lparr>mem := (mem m1)(PAGE_ID_TO_ADDR pp := pg)\<rparr>"
  have m1: "table512 ?m1" "free_pages ?m1 = free_pages m1"
    using n1(2) by (simp_all add: store_frame_other free_pages.simps)
  obtain pp2 m2 where n2: "new_page SOFT_TLB pid (SYSCALL_ARG div PAGE_SIZE) ?m1 = Inr (pp2, m2)" "table512 m2"
    "free_pages m1 = Suc (free_pages m2)"
    using new_page_soft [of ?m1 pid "SYSCALL_ARG div PAGE_SIZE"] m1 assms(2) n1(3) by auto
  obtain pp3 m3 where n3: "new_page SOFT_TLB pid (APPS_STACK_TOP div PAGE_SIZE - 1) m2 = Inr (pp3, m3)" "table512 m3"
    "free_pages m2 = Suc (free_pages m3)"
    using new_page_soft [of m2 pid "APPS_STACK_TOP div PAGE_SIZE - 1"] n2 assms(2) n1(3) by auto
  obtain pp4 m4 where n4: "new_page SOFT_TLB pid (APPS_STACK_TOP div PAGE_SIZE - 2) m3 = Inr (pp4, m4)"
    using new_page_soft [of m3 pid "APPS_STACK_TOP div PAGE_SIZE - 2"] n2 n3 assms(2) n1(3) by auto
  show ?thesis
    using n1 pg n2 n3 n4 by (simp add: load_tail_def numeral_2_eq_2)
qed

section \<open>The size of pages\<close>

definition full_pages :: "mmu_state \<Rightarrow> bool" where
  "full_pages m \<longleftrightarrow> (\<forall>a. length (mem m a) = 1024)"

lemma new_page_full: "new_page t pid vp m = Inr (pp, m1) \<Longrightarrow> full_pages m1 = full_pages m"
  by (auto simp: new_page_def bindr_eq_Inr_iff mmu_alloc_def full_pages_def soft_tlb_map_def
      dest!: earth_map_soft split: option.splits if_splits)

lemma new_zero_page_full: "new_zero_page t pid vp m = Inr (pp, m1) \<Longrightarrow> full_pages m \<Longrightarrow> full_pages m1"
  using new_page_full by (fastforce simp: new_zero_page_def bindr_eq_Inr_iff zero_page_def full_pages_def)

lemma copy_into_full:
  assumes "full_pages m" "off + n \<le> 4096" "n \<le> length buf"
  shows "full_pages (copy_into pp off buf n m)"
  using assms by (auto simp: full_pages_def copy_into_def page_copy_def Let_def length_words_of)

lemma block_len_le:
  assumes "of_nat (b * BLOCK_SIZE) < fs"
  shows "block_len fs b \<le> 512"
proof -
  define off where "off = (of_nat (b * BLOCK_SIZE) :: u32)"
  have lt: "unat off < unat fs"
    using assms by (simp add: off_def word_less_nat_alt)
  have "unat (fs - off) \<le> 512" if "\<not> off + 512 < fs"
  proof -
    have "unat (off + 512) = (if unat off + 512 < 2 ^ 32 then unat off + 512 else unat off + 512 - 2 ^ 32)"
      using unsigned_less [of off, where ?'a = nat] by (simp add: unat_word_ariths mod_if)
    then have "unat fs \<le> unat off + 512"
      using that lt unsigned_less [of off, where ?'a = nat] by (simp add: word_less_nat_alt split: if_splits)
    then show ?thesis
      using lt by (simp add: unat_sub_if')
  qed
  then show ?thesis
    unfolding block_len_def off_def [symmetric] by (simp add: BLOCK_SIZE_def)
qed

lemma load_blocks_full:
  assumes "\<forall>b. length (reader b) = 128"
  shows "load_blocks t pid reader fs b pn bn pp m = Inr (pn', m') \<Longrightarrow> full_pages m \<Longrightarrow> full_pages m'"
proof (induction "free_pages m * 8 + (8 - b mod 8) mod 8" arbitrary: b pn bn pp m rule: less_induct)
  case less
  show ?case
  proof (cases "of_nat (b * BLOCK_SIZE) < fs")
    case True
    have "unat (of_nat (b * 512) :: u32) = b * 512 mod 2 ^ 32"
      by (simp only: unat_of_nat) simp
    then have "unat (of_nat (b * 512) mod PAGE_SIZE) = b * 512 mod 2 ^ 32 mod 2 ^ 12"
      by (simp only: PAGE_SIZE_def unat_mod_distrib) simp
    also have "\<dots> = b * 512 mod 4096"
      by (subst mod_mod_cancel) (simp_all add: le_imp_power_dvd)
    also have "\<dots> = b mod 8 * 512"
      using mult_mod_left [of b 8 512] by simp
    finally have off: "unat (of_nat (b * BLOCK_SIZE) mod PAGE_SIZE) + block_len fs b \<le> 4096"
      using block_len_le [OF True] mod_less_divisor [of 8 b] by (simp add: BLOCK_SIZE_def)
    obtain pn1 pp1 m1 where st: "(if b mod 8 = 0 then bindr (new_zero_page t pid pn m) (\<lambda>(pp, m1). Inr (pn + 1, pp, m1))
        else Inr (pn, pp, m)) = Inr (pn1, pp1, m1)"
      "load_blocks t pid reader fs (Suc b) pn1 (bn + 1) pp1
         (copy_into pp1 (unat (of_nat (b * BLOCK_SIZE) mod PAGE_SIZE)) (bytes_of (reader bn)) (block_len fs b) m1) = Inr (pn', m')"
      using less.prems(1) unfolding load_blocks_go [OF True] by (subst (asm) bindr_eq_Inr_iff) auto
    have "full_pages m1"
      using st(1) less.prems(2) by (auto simp: bindr_eq_Inr_iff simp del: mod_0_imp_dvd split: if_splits dest: new_zero_page_full)
    then have "full_pages (copy_into pp1 (unat (of_nat (b * BLOCK_SIZE) mod PAGE_SIZE)) (bytes_of (reader bn)) (block_len fs b) m1)"
      using off block_len_le [OF True] assms by (intro copy_into_full) simp_all
    moreover have "free_pages m1 * 8 + (8 - Suc b mod 8) mod 8 < free_pages m * 8 + (8 - b mod 8) mod 8"
    proof (cases "b mod 8 = 0")
      case b: True
      then have "free_pages m = Suc (free_pages m1)"
        using st(1) by (auto simp: bindr_eq_Inr_iff dest: new_zero_page_free)
      then show ?thesis
        using b by (simp add: mod_Suc)
    next
      case b: False
      then have "m1 = m" "b mod 8 < 8"
        using st(1) by auto
      then show ?thesis
        using b by (auto simp: mod_Suc)
    qed
    ultimately show ?thesis
      using less.hyps [OF _ st(2)] by (simp add: copy_into_free)
  next
    case False
    then show ?thesis
      using less.prems by (subst (asm) load_blocks.simps) (simp add: Let_def)
  qed
qed

lemma map_rest_full: "map_rest t pid pn en m = Inr m' \<Longrightarrow> full_pages m \<Longrightarrow> full_pages m'"
proof (induction t pid pn en m rule: map_rest.induct)
  case (1 t pid pn en m)
  show ?case
  proof (cases "pn < en")
    case True
    then obtain pp m1 where "new_zero_page t pid pn m = Inr (pp, m1)" "map_rest t pid (pn + 1) en m1 = Inr m'"
      using 1(2) by (subst (asm) map_rest.simps) (auto simp: bindr_eq_Inr_iff)
    then show ?thesis
      using 1(1) [OF True, of "(pp, m1)" pp m1] 1(3) by (auto dest: new_zero_page_full)
  next
    case False
    then show ?thesis
      using 1(2,3) by (subst (asm) map_rest.simps) simp
  qed
qed

lemma load_segment_full:
  "load_segment t pid reader ph m = Inr m' \<Longrightarrow> \<forall>b. length (reader b) = 128 \<Longrightarrow> full_pages m \<Longrightarrow> full_pages m'"
  by (auto simp: load_segment_def Let_def bindr_eq_Inr_iff split: if_splits dest: load_blocks_full map_rest_full)

section \<open>Properties\<close>

text \<open>
  C14. After a segment is loaded, the new process sees, from the segment's address on, the bytes of
  the file and then zeros to the end of the last page that the loader maps for it, whatever the page
  frames held before; no other page of any process that is not running changes. The loader maps the
  page in which a segment of zeros ends only when that page is full or holds bytes of the file.
\<close>

theorem elf_segment_loaded:
  assumes "load_segment t pid reader ph m = Inr m'" "\<forall>b. length (reader b) = 128" "table512 m"
    "seg_fresh m pid ph" "pid \<noteq> curr_vm_pid m"
  shows "(\<forall>k < seg_pages ph * 4096. proc_byte m' pid (p_vaddr ph + of_nat k) =
      Some (if k < unat (p_filesz ph) then file_byte reader (p_offset ph div 512) k else 0)) \<and>
    (\<forall>p va. p \<noteq> curr_vm_pid m \<and> \<not> (p = pid \<and> (\<exists>j < seg_pages ph. va = p_vaddr ph + of_nat (j * 4096))) \<longrightarrow>
      vmem m' p va = vmem m p va)"
proof (intro conjI allI impI)
  let ?pn = "p_vaddr ph div PAGE_SIZE" and ?f = "file_byte reader (p_offset ph div 512)"
  note f = seg_placedD [OF seg_freshD(1) [OF assms(4)]]
  have inv: "seg_inv pid ?pn ?f m (unat (p_filesz ph)) (seg_pages ph) m'"
    using load_segment_inv assms by blast
  then have c: "curr_vm_pid m' = curr_vm_pid m"
    by (simp add: seg_inv_def)
  fix k assume "k < seg_pages ph * 4096"
  then have j: "k div 4096 < seg_pages ph"
    by (simp add: less_mult_imp_div_less)
  have "proc_byte m' pid (p_vaddr ph + of_nat k) = Some (bytes_of (seg_page ?f (unat (p_filesz ph)) (k div 4096)) ! (k mod 4096))"
    unfolding seg_byte_addr [OF f(1)] using assms(5) c j f(4) seg_inv_at [OF inv j]
    by (intro proc_byte_page pg_addr_mod) simp_all
  also have "\<dots> = Some (if k < unat (p_filesz ph) then ?f k else 0)"
    by (simp add: bytes_of_seg_page seg_list_def div_mult_mod_eq)
  finally show "proc_byte m' pid (p_vaddr ph + of_nat k) = Some (if k < unat (p_filesz ph) then ?f k else 0)" .
next
  let ?pn = "p_vaddr ph div PAGE_SIZE" and ?f = "file_byte reader (p_offset ph div 512)"
  note f = seg_placedD [OF seg_freshD(1) [OF assms(4)]]
  have inv: "seg_inv pid ?pn ?f m (unat (p_filesz ph)) (seg_pages ph) m'"
    using load_segment_inv assms by blast
  fix p va assume "p \<noteq> curr_vm_pid m \<and> \<not> (p = pid \<and> (\<exists>j < seg_pages ph. va = p_vaddr ph + of_nat (j * 4096)))"
  then show "vmem m' p va = vmem m p va"
    using seg_inv_other [OF inv, of p va] inv unfolding vaddr_page(1) [OF f(1)]
    by (simp add: fpage_vmem seg_inv_def)
qed

text \<open>A machine with no page in use, and a segment of 600 bytes of file and 9000 of memory.\<close>

definition empty_mmu :: mmu_state where
  "empty_mmu = \<lparr>page_info_table = replicate 512 null_page_info, mem = (\<lambda>_. replicate 1024 0xFFFFFFFF),
     curr_vm_pid = 1, pt_root = 0, pt_leaf = 0, pid_to_pagetable_base = (\<lambda>_. 0), plat = QEMU\<rparr>"

definition small_segment :: elf32_program_header where
  "small_segment = \<lparr>p_offset = 0x1000, p_vaddr = APPS_ENTRY, p_filesz = 600, p_memsz = 9000\<rparr>"

definition ones_reader :: "u32 \<Rightarrow> block" where
  "ones_reader b = replicate 128 0x01010101"

lemma empty_mmu_facts:
  "table512 empty_mmu" "free_pages empty_mmu = 512" "frame_of empty_mmu p va = None" "curr_vm_pid empty_mmu = 1"
  by (simp_all add: table512_def APPS_PAGES_CNT_eq empty_mmu_def free_pages.simps null_page_info_def frame_of_None
      maps_page_def)

lemma small_segment_facts: "seg_pages small_segment = 2" "seg_fresh empty_mmu p small_segment"
  by (simp_all add: seg_fresh_def seg_placed_def small_segment_def seg_pages_def pages_of_def layout_defs empty_mmu_facts)

lemma small_segment_loads: "\<exists>m'. load_segment SOFT_TLB 5 ones_reader small_segment empty_mmu = Inr m'"
  using load_segment_takes [of empty_mmu small_segment 5 ones_reader] empty_mmu_facts seg_freshD(1) [OF small_segment_facts(2)]
  by (auto simp: takes_def small_segment_facts(1) split: sum.splits)

theorem elf_segment_loaded_witness:
  "\<exists>m'. load_segment SOFT_TLB 5 ones_reader small_segment empty_mmu = Inr m' \<and>
     proc_byte m' 5 (APPS_ENTRY + 599) = Some 1 \<and> proc_byte m' 5 (APPS_ENTRY + 600) = Some 0 \<and>
     proc_byte m' 5 (APPS_ENTRY + 8191) = Some 0"
proof -
  obtain m' where m': "load_segment SOFT_TLB 5 ones_reader small_segment empty_mmu = Inr m'"
    using small_segment_loads by blast
  have b: "file_byte ones_reader (p_offset small_segment div 512) 599 = 1"
    by (simp add: file_byte_def ones_reader_def bytes_of_nth word_bytes_def small_segment_def)
  have "\<forall>k < 8192. proc_byte m' 5 (APPS_ENTRY + of_nat k) =
      Some (if k < 600 then file_byte ones_reader (p_offset small_segment div 512) k else 0)"
    using elf_segment_loaded [OF m' _ empty_mmu_facts(1) small_segment_facts(2)]
    by (simp add: ones_reader_def empty_mmu_facts small_segment_facts(1)) (simp add: small_segment_def)
  from this [rule_format, of 599] this [rule_format, of 600] this [rule_format, of 8191]
  show ?thesis
    using m' b by (intro exI [of _ m']) simp
qed

text \<open>The numbers of the pages in which a segment has an address.\<close>

definition spanned_pages :: "elf32_program_header \<Rightarrow> nat set" where
  "spanned_pages ph = (\<lambda>k. (unat (p_vaddr ph) + k) div 4096) ` {..< unat (p_memsz ph)}"

lemma card_spanned_pages:
  assumes "unat (p_vaddr ph) mod 4096 = 0"
  shows "card (spanned_pages ph) = pages_of (unat (p_memsz ph))"
proof -
  obtain q where q: "unat (p_vaddr ph) = 4096 * q"
    using assms by blast
  have "spanned_pages ph = {q ..< q + pages_of (unat (p_memsz ph))}"
  proof (rule equalityI; rule subsetI)
    fix x assume "x \<in> spanned_pages ph"
    then obtain k where "k < unat (p_memsz ph)" "x = q + k div 4096"
      by (auto simp: spanned_pages_def q)
    then show "x \<in> {q ..< q + pages_of (unat (p_memsz ph))}"
      unfolding pages_of_def by auto
  next
    fix x assume "x \<in> {q ..< q + pages_of (unat (p_memsz ph))}"
    then have "x = (unat (p_vaddr ph) + (x - q) * 4096) div 4096" "(x - q) * 4096 < unat (p_memsz ph)"
      unfolding pages_of_def q by auto
    then show "x \<in> spanned_pages ph"
      unfolding spanned_pages_def by blast
  qed
  then show ?thesis
    by simp
qed



text \<open>
  The last page of a segment's zero-filled memory is not mapped when the segment does not end
  at a page boundary: the number of the last page is rounded down, so the process has no memory at
  its last addresses.
\<close>

lemma elf_bss_tail_unmapped:
  assumes "load_segment t pid reader ph m = Inr m'" "\<forall>b. length (reader b) = 128" "table512 m"
    "seg_fresh m pid ph" "pid \<noteq> curr_vm_pid m"
    "pages_of (unat (p_filesz ph)) \<le> unat (p_memsz ph) div 4096" "unat (p_memsz ph) mod 4096 \<noteq> 0"
    "frame_of m pid (p_vaddr ph + of_nat (unat (p_memsz ph) div 4096 * 4096)) = None"
  shows "proc_byte m' pid (p_vaddr ph + p_memsz ph - 1) = None"
proof -
  let ?pn = "p_vaddr ph div PAGE_SIZE" and ?ms = "unat (p_memsz ph)"
  note f = seg_placedD [OF seg_freshD(1) [OF assms(4)]]
  have inv: "seg_inv pid ?pn (file_byte reader (p_offset ph div 512)) m (unat (p_filesz ph)) (seg_pages ph) m'"
    using load_segment_inv assms by blast
  have sp: "seg_pages ph = ?ms div 4096"
    using assms(6) by (simp add: seg_pages_def)
  have k: "(?ms - 1) div 4096 = ?ms div 4096" "0 < ?ms"
  proof -
    show "0 < ?ms"
      using assms(7) by (cases "?ms = 0") simp_all
    have "?ms = 4096 * (?ms div 4096) + ?ms mod 4096" "0 < ?ms mod 4096" "?ms mod 4096 < 4096"
      using assms(7) by simp_all
    then show "(?ms - 1) div 4096 = ?ms div 4096"
      by linarith
  qed
  have "p_memsz ph \<noteq> 0"
    using k(2) by auto
  then have "unat (p_memsz ph - 1) = ?ms - 1"
    by (simp add: unat_minus_one)
  then have "p_memsz ph - 1 = of_nat (?ms - 1)"
    by (metis of_nat_unat ucast_id)
  then have a: "p_vaddr ph + p_memsz ph - 1 = pg_addr ?pn (?ms div 4096) + of_nat ((?ms - 1) mod 4096)"
    using seg_byte_addr [OF f(1), of "?ms - 1"] unfolding k(1) by (simp only: add_diff_eq [symmetric])
  have lt: "unat ?pn + ?ms div 4096 < 2 ^ 20"
  proof -
    have "unat (p_vaddr ph) + ?ms < 2 ^ 32" "unat (p_vaddr ph) mod 4096 = 0"
      using assms(4) by (simp_all add: seg_fresh_def seg_placed_def)
    then show ?thesis
      unfolding vaddr_page(2) [OF f(1)] using assms(7) by auto
  qed
  have "fpage m' pid (pg_addr ?pn (?ms div 4096)) = fpage m pid (pg_addr ?pn (?ms div 4096))"
  proof (rule seg_inv_other [OF inv])
    have "pg_addr ?pn (?ms div 4096) \<noteq> pg_addr ?pn j" if "j < seg_pages ph" for j
    proof
      assume eq: "pg_addr ?pn (?ms div 4096) = pg_addr ?pn j"
      have "unat ?pn + j < 2 ^ 20"
        using that lt sp by linarith
      from pg_addr_inj [OF lt this eq] that sp show False
        by simp
    qed
    then show "\<not> (pid = pid \<and> (\<exists>j < seg_pages ph. pg_addr ?pn (?ms div 4096) = pg_addr ?pn j))"
      by blast
  qed
  then have "fpage m' pid (pg_addr ?pn (?ms div 4096)) = None"
    using assms(8) unfolding vaddr_page(1) [OF f(1), symmetric] by (simp add: fpage_None)
  moreover have "pid \<noteq> curr_vm_pid m'"
    using inv assms(5) by (simp add: seg_inv_def)
  ultimately show ?thesis
    unfolding a proc_byte_def by (simp add: page_base_plus pg_addr_mod [OF lt] fpage_vmem)
qed

lemma elf_bss_tail_unmapped_example:
  "\<exists>m'. load_segment SOFT_TLB 5 ones_reader small_segment empty_mmu = Inr m' \<and>
     proc_byte m' 5 (APPS_ENTRY + 8999) = None"
proof -
  obtain m' where m': "load_segment SOFT_TLB 5 ones_reader small_segment empty_mmu = Inr m'"
    using small_segment_loads by blast
  have "proc_byte m' 5 (p_vaddr small_segment + p_memsz small_segment - 1) = None"
    by (rule elf_bss_tail_unmapped [OF m' _ empty_mmu_facts(1) small_segment_facts(2)])
       (simp_all add: ones_reader_def empty_mmu_facts small_segment_def pages_of_def)
  then show ?thesis
    using m' by (auto simp: small_segment_def add.commute)
qed

text \<open>
  C16. The end of the loader gives the new process its arguments: at \<open>APPS_ARG\<close> the count, then
  pointers, the i-th of which is the address where the process finds the i-th argument; its other
  pages and the memory of other processes that are not running stay the same.
\<close>

theorem elf_arguments_in_memory:
  assumes "load_tail t pid argc (Some bs) m = Inr m'" "table512 m" "pid \<noteq> curr_vm_pid m"
    "\<forall>va \<in> set tail_pages. frame_of m pid va = None" "\<forall>a. length (mem m a) = 1024"
    "argc \<le> 16" "argc * 32 \<le> length bs"
  shows "(\<exists>pg. vmem m' pid APPS_ARG = Some pg \<and> pg ! 0 = of_nat argc \<and>
      (\<forall>i < argc. \<forall>j < 32. proc_byte m' pid (pg ! Suc i + of_nat j) = Some (bs ! (i * 32 + j)))) \<and>
    (\<forall>p va. p \<noteq> curr_vm_pid m \<longrightarrow> (p \<noteq> pid \<or> va \<notin> set tail_pages) \<longrightarrow> vmem m' p va = vmem m p va)"
proof -
  obtain pg0 pg where pg: "arg_page argc (Some bs) pg0 = Inr pg" "pg0 \<in> range (mem m)" "fpage m' pid APPS_ARG = Some pg"
    and keep: "curr_vm_pid m' = curr_vm_pid m"
      "\<forall>p va. p \<noteq> pid \<or> va \<notin> set tail_pages \<longrightarrow> fpage m' p va = fpage m p va"
    using load_tail_effect [OF assms(1,2,4)] by blast
  have "length pg0 = 1024"
    using pg(2) assms(5) by auto
  then have p: "pg ! 0 = of_nat argc" "\<And>i. i < argc \<Longrightarrow> pg ! Suc i = arg_addr i"
    "\<And>k. k < argc * 32 \<Longrightarrow> bytes_of pg ! (68 + k) = bs ! k"
    using arg_page_ok [of pg0 argc bs] assms(6,7) pg(1) by auto
  have "proc_byte m' pid (pg ! Suc i + of_nat j) = Some (bs ! (i * 32 + j))" if "i < argc" "j < 32" for i j
  proof -
    have lt: "i * 32 + j < argc * 32" "68 + (i * 32 + j) < 4096"
      using that assms(6) by linarith+
    have "pg ! Suc i + of_nat j = APPS_ARG + of_nat (68 + (i * 32 + j))"
      using p(2) [OF that(1)] by (simp add: arg_addr_def CMD_NARGS_def CMD_ARG_LEN_def)
    moreover have "proc_byte m' pid (APPS_ARG + of_nat (68 + (i * 32 + j))) = Some (bytes_of pg ! (68 + (i * 32 + j)))"
      using lt keep(1) assms(3) pg(3) by (intro proc_byte_page) (simp_all add: APPS_ARG_def)
    ultimately show ?thesis
      using p(3) [OF lt(1)] by (simp only:)
  qed
  then show ?thesis
    using pg(3) keep assms(3) p(1) by (simp add: fpage_vmem)
qed

theorem elf_arguments_in_memory_witness:
  "\<exists>m' pg. load_tail SOFT_TLB 5 2 (Some (replicate 64 7)) empty_mmu = Inr m' \<and>
     vmem m' 5 APPS_ARG = Some pg \<and> pg ! 0 = 2 \<and> proc_byte m' 5 (pg ! 2 + 31) = Some 7"
proof -
  have t: "table512 empty_mmu" "\<forall>a. length (mem empty_mmu a) = 1024" "4 \<le> free_pages empty_mmu"
    by (simp_all add: empty_mmu_facts) (simp add: empty_mmu_def)
  have "\<exists>pg'. arg_page 2 (Some (replicate 64 7)) pg = Inr pg'" if "length pg = 1024" for pg
    using arg_page_ok [OF that, of 2 "replicate 64 7"] by auto
  then have "\<forall>pg \<in> range (mem empty_mmu). \<exists>pg'. arg_page 2 (Some (replicate 64 7)) pg = Inr pg'"
    using t(2) by auto
  then obtain m' where m': "load_tail SOFT_TLB 5 2 (Some (replicate 64 7)) empty_mmu = Inr m'"
    using load_tail_ok [OF t(1,3)] by blast
  have "\<exists>pg. vmem m' 5 APPS_ARG = Some pg \<and> pg ! 0 = of_nat 2 \<and>
      (\<forall>i < 2. \<forall>j < 32. proc_byte m' 5 (pg ! Suc i + of_nat j) = Some (replicate 64 7 ! (i * 32 + j)))"
    using elf_arguments_in_memory [OF m' t(1) _ _ t(2)] by (simp add: empty_mmu_facts)
  then obtain pg where pg: "vmem m' 5 APPS_ARG = Some pg" "pg ! 0 = of_nat 2"
    and b: "\<forall>i < 2. \<forall>j < 32. proc_byte m' 5 (pg ! Suc i + of_nat j) = Some (replicate 64 7 ! (i * 32 + j))"
    by blast
  have "proc_byte m' 5 (pg ! 2 + 31) = Some 7"
    using b [rule_format, of 1 31] by (simp add: numeral_2_eq_2)
  then show ?thesis
    using m' pg by auto
qed

end
