(* ===== verification/Sys_Props.thy ===== *)
theory Sys_Props
  imports Sys_Process Elf_Props
begin

text \<open>
  What the shell and the process server promise together: commands start the programs of /bin, and
  the end of a foreground command wakes the shell that waits for it.
\<close>

section \<open>Reachable states\<close>

lemma sys_steps_ok: "(sys_step fr)\<^sup>*\<^sup>* s s' \<Longrightarrow> sys_ok s \<Longrightarrow> sys_ok s'"
  by (induction rule: rtranclp_induct) (auto intro: sys_step_ok)

lemma init_sys_ok: "kernel_ok k \<Longrightarrow> live_users k = {} \<Longrightarrow> sys_ok (Prompt, init_server, k)"
  by (simp add: sys_ok_def init_server_def)

section \<open>Commands\<close>

lemma c_str_argv:
  assumes "NUL \<notin> set name" "length name < CMD_ARG_LEN"
  shows "c_str (concat (arg_table (name # args))) = Some name"
proof -
  obtain n where "CMD_ARG_LEN - length name = Suc n"
    using assms(2) by (cases "CMD_ARG_LEN - length name") auto
  then have "concat (arg_table (name # args)) =
      name @ NUL # (replicate n NUL @ concat (map arg_slot args @ replicate (CMD_NARGS - Suc (length args)) blank_arg))"
    by (simp add: arg_table_def arg_slot_def)
  then show ?thesis
    using c_str_append [OF assms(1)] by simp
qed

lemma c_str_no_nul: "c_str buf = Some s \<Longrightarrow> NUL \<notin> set s"
  using c_str_SomeD by blast

text \<open>The request of a line: its words, at least one short one.\<close>

lemma spawn_request:
  assumes "shell_line buf = Inr (Spawn req)" "c_str buf = Some line"
  shows "req = \<lparr>req_type = PROC_SPAWN, req_argc = length (words_from [] line), req_argv = arg_table (words_from [] line)\<rparr>"
    "\<forall>u \<in> set (words_from [] line). length u < CMD_ARG_LEN" "length (words_from [] line) \<le> CMD_NARGS"
proof -
  obtain pad where pad: "buf = line @ NUL # pad" "NUL \<notin> set line"
    using c_str_SomeD [OF assms(2)] by blast
  have zero: "replicate CMD_NARGS blank_arg = partial [] []"
    by (simp add: CMD_NARGS_def arg_slot_Nil flip: replicate_Suc)
  let ?us = "words_from [] line"
  have "parse_request buf = Inr (if (\<forall>u \<in> set ?us. length u < CMD_ARG_LEN) \<and> length ?us + closing line \<le> CMD_NARGS
      then Some (length ?us, arg_table ?us) else None)"
    using parse_loop_words [of "[]" "[]" line] pad zero assms(2)
    by (simp add: parse_request_def CMD_NARGS_def CMD_ARG_LEN_def Let_def)
  then show "req = \<lparr>req_type = PROC_SPAWN, req_argc = length ?us, req_argv = arg_table ?us\<rparr>"
    "\<forall>u \<in> set ?us. length u < CMD_ARG_LEN" "length ?us \<le> CMD_NARGS"
    using assms by (auto simp: shell_line_def bindr_eq_Inr_iff split: if_splits)
qed

text \<open>The directory at inode \<open>ino\<close> lists \<open>es\<close>.\<close>

definition is_dir :: "files_reader \<Rightarrow> int \<Rightarrow> (string \<times> nat) list \<Rightarrow> bool" where
  "is_dir fr ino es \<longleftrightarrow> (\<forall>(nm, i) \<in> set es. good_name nm \<and> i < 1000) \<and> length (dir_text es) < 512 \<and>
     (\<exists>pad. dir_buffer fr ino = dir_text es @ NUL # pad)"

lemma dir_lookup_is_dir:
  assumes "is_dir fr ino es" "good_name name" "length name \<le> length (dir_text es)"
  shows "dir_lookup (dir_buffer fr ino) name = Inr (case map_of es name of None \<Rightarrow> -1 | Some i \<Rightarrow> int i)"
proof -
  obtain pad where d: "\<forall>(nm, i) \<in> set es. good_name nm \<and> i < 1000" "length (dir_text es) < 512"
    "dir_buffer fr ino = dir_text es @ NUL # pad"
    using assms(1) by (auto simp: is_dir_def)
  have "NUL \<notin> set (dir_text es)"
    using d(1) by (intro dir_text_no_nul) auto
  then have "dir_lookup (dir_buffer fr ino) name = (case search name True (dir_text es) of
      None \<Rightarrow> Inr (-1) | Some r \<Rightarrow> Inr (atoi (r @ NUL # pad)))"
    unfolding d(3) using assms(2,3) d(2) by (intro dir_lookup_search) (auto simp: good_name_def)
  also have "\<dots> = Inr (case search name True (dir_text es) of None \<Rightarrow> -1 | Some r \<Rightarrow> atoi (r @ NUL # pad))"
    by (simp split: option.split)
  finally show ?thesis
    using lookup_entries [OF assms(2) d(1)] by simp
qed

lemma bin_good_name: "good_name ''bin/''"
  by code_simp

definition background :: "string list \<Rightarrow> bool" where
  "background ws \<longleftrightarrow> hd (last ws) = CHR ''&''"

lemma last_arg_amp_table:
  assumes "ws = words_from [] line" "ws \<noteq> []" "length ws \<le> CMD_NARGS"
  shows "last_arg_amp \<lparr>req_type = t, req_argc = length ws, req_argv = arg_table ws\<rparr> = Inr (background ws)"
proof -
  have "last ws \<noteq> []"
    using words_from_good [of "[]" "last ws" line] assms(1,2) by simp
  then obtain c cs where c: "last ws = c # cs"
    by (cases "last ws") auto
  have "arg_table ws ! (length ws - 1) = arg_slot (last ws)"
    using assms(2) by (simp add: arg_table_def nth_append last_conv_nth)
  then show ?thesis
    using assms(2,3) c by (simp add: last_arg_amp_def char_at_def background_def arg_slot_def arg_table_def)
qed

lemma command_handled:
  assumes line: "shell_line buf = Inr (Spawn req)" "c_str buf = Some line" "words_from [] line = name # args"
    and name: "good_name name" "length name \<le> length (dir_text bin)"
    and dirs: "is_dir fr 0 root" "map_of root ''bin/'' = Some b" "4 \<le> length (dir_text root)" "is_dir fr (int b) bin"
  shows "map_of bin name = None \<Longrightarrow> proc_handle fr GPID_SHELL req (sv, k) =
      Inr (Some CMD_ERROR, sv\<lparr>app_ino := -1, shell_waiting := Some False\<rparr>, k)"
    and "\<lbrakk>map_of bin name = Some ino; find_unused (proc_set k) = Some i; length (proc_set k) = 17;
      elf_load SOFT_TLB (alloc_curr_pid k + 1) (app_read fr (int ino))
        (if background (name # args) then length args else Suc (length args))
        (Some (argv_bytes (arg_table (name # args)))) (mmu (machine k)) = Inr m\<rbrakk> \<Longrightarrow>
      \<exists>k'. proc_handle fr GPID_SHELL req (sv, k) = Inr (Some CMD_OK, sv\<lparr>app_ino := int ino,
          app_pid := alloc_curr_pid k + 1, shell_waiting := Some (\<not> background (name # args))\<rparr>, k') \<and>
        mmu (machine k') = m \<and> pid (proc_set k' ! i) = alloc_curr_pid k + 1 \<and>
        (i < MAX_NPROCESS \<longrightarrow> status (proc_set k' ! i) = PROC_READY) \<and>
        (\<forall>j < 17. j \<noteq> i \<longrightarrow> pid (proc_set k ! j) \<noteq> alloc_curr_pid k + 1 \<longrightarrow> proc_set k' ! j = proc_set k ! j)"
proof -
  let ?ws = "name # args"
  have req: "req = \<lparr>req_type = PROC_SPAWN, req_argc = length ?ws, req_argv = arg_table ?ws\<rparr>"
    and short: "length name < CMD_ARG_LEN" "length ?ws \<le> CMD_NARGS"
    using spawn_request [OF line(1,2)] line(3) by simp_all
  have amp: "last_arg_amp req = Inr (background ?ws)"
    unfolding req by (rule last_arg_amp_table [OF line(3) [symmetric]]) (use short(2) in simp_all)
  have nm: "c_str (concat (req_argv req)) = Some name"
    using c_str_argv [of name args] name(1) short(1) by (simp add: req good_name_def)
  have bin_dir: "dir_lookup (dir_buffer fr 0) ''bin/'' = Inr (int b)"
    using dir_lookup_is_dir [OF dirs(1) bin_good_name] dirs(2,3) by simp
  have prog: "dir_lookup (dir_buffer fr (int b)) name = Inr (case map_of bin name of None \<Rightarrow> -1 | Some i \<Rightarrow> int i)"
    by (rule dir_lookup_is_dir [OF dirs(4) name])
  have h: "proc_handle fr GPID_SHELL req (sv, k) = bindr (app_spawn fr req (sv, k)) (\<lambda>(r, sv1, k1).
      Inr (Some r, sv1\<lparr>shell_waiting := Some (\<not> background ?ws \<and> r = CMD_OK)\<rparr>, k1))"
    by (simp add: proc_handle_def amp) (simp add: req)
  show "proc_handle fr GPID_SHELL req (sv, k) = Inr (Some CMD_ERROR, sv\<lparr>app_ino := -1, shell_waiting := Some False\<rparr>, k)"
    if "map_of bin name = None"
  proof -
    have "app_spawn fr req (sv, k) = Inr (CMD_ERROR, sv\<lparr>app_ino := -1\<rparr>, k)"
      using that by (simp add: app_spawn_def bin_dir nm prog Let_def)
    then show ?thesis
      by (simp add: h CMD_ERROR_def CMD_OK_def)
  qed
  show "\<exists>k'. proc_handle fr GPID_SHELL req (sv, k) = Inr (Some CMD_OK, sv\<lparr>app_ino := int ino,
      app_pid := alloc_curr_pid k + 1, shell_waiting := Some (\<not> background ?ws)\<rparr>, k') \<and>
    mmu (machine k') = m \<and> pid (proc_set k' ! i) = alloc_curr_pid k + 1 \<and>
    (i < MAX_NPROCESS \<longrightarrow> status (proc_set k' ! i) = PROC_READY) \<and>
    (\<forall>j < 17. j \<noteq> i \<longrightarrow> pid (proc_set k ! j) \<noteq> alloc_curr_pid k + 1 \<longrightarrow> proc_set k' ! j = proc_set k ! j)"
    if found: "map_of bin name = Some ino" "find_unused (proc_set k) = Some i" "length (proc_set k) = 17"
      "elf_load SOFT_TLB (alloc_curr_pid k + 1) (app_read fr (int ino)) (if background ?ws then length args else Suc (length args))
        (Some (argv_bytes (arg_table ?ws))) (mmu (machine k)) = Inr m"
  proof -
    let ?p = "alloc_curr_pid k + 1" and ?argc = "if background ?ws then length args else Suc (length args)"
    obtain now k1 where g: "get_time egos_earth (k\<lparr>alloc_curr_pid := ?p\<rparr>) = (now, k1)"
      by fastforce
    let ?k2 = "upd_proc i (init_process ?p now) k1"
    have k1: "proc_set k1 = proc_set k" "mmu (machine ?k2) = mmu (machine k)"
      using g by (auto simp: get_time_def egos_earth_def upd_proc_def)
    have al: "proc_alloc egos_earth k = Inr (?p, ?k2)"
      using found(2) g by (simp add: proc_alloc_def Let_def)
    have "elf_load SOFT_TLB ?p (app_read fr (int ino)) ?argc (Some (argv_bytes (req_argv req))) (mmu (machine ?k2)) = Inr m"
      using found(4) by (simp add: req k1)
    then have sp: "app_spawn fr req (sv, k) = Inr (CMD_OK, sv\<lparr>app_ino := int ino, app_pid := ?p\<rparr>,
        proc_set_ready ?p (set_mmu m ?k2))"
      using found(1) al by (cases "background ?ws") (simp add: app_spawn_def bin_dir nm prog amp Let_def, simp add: req)+
    have i: "1 \<le> i" "i < 17"
      using found(2) find_unused_spec by (auto simp: MAX_NPROCESS_eq)
    have "proc_set (proc_set_ready ?p (set_mmu m ?k2)) ! j =
        (let q = if j = i then init_process ?p now (proc_set k ! i) else proc_set k ! j in
         if j < 16 \<and> pid q = ?p then q\<lparr>status := PROC_READY\<rparr> else q)" if j: "j < 17" for j
      using j found(3) i by (simp add: proc_set_ready_def proc_set_status_def set_mmu_def set_status_nth
          upd_proc_def k1 MAX_NPROCESS_eq nth_list_update_le Let_def)
    then show ?thesis
      using sp i by (auto simp: h init_process_def MAX_NPROCESS_eq Let_def proc_set_ready_def proc_set_status_def set_mmu_def)
  qed
qed

section \<open>Properties\<close>

text \<open>
  C25. What a command line does. With the directories / and /bin of the image builder, a line whose
  first word names no program is answered with an error and changes no process. If it names one, the
  program's file is loaded into a new process with the words of the line as arguments (less a last
  word that begins with an ampersand), the process becomes ready, no other process changes, and the
  server remembers that the shell waits unless there is such a word.
\<close>

theorem command_starts_program:
  assumes line: "shell_line buf = Inr (Spawn req)" "c_str buf = Some line" "words_from [] line = name # args"
    and name: "good_name name" "length name \<le> length (dir_text bin)"
    and dirs: "is_dir fr 0 root" "map_of root ''bin/'' = Some b" "4 \<le> length (dir_text root)" "is_dir fr (int b) bin"
    and slot: "find_unused (proc_set k) = Some i"
    and load: "\<And>ino. map_of bin name = Some ino \<Longrightarrow> elf_load SOFT_TLB (alloc_curr_pid k + 1) (app_read fr (int ino))
      (if background (name # args) then length args else Suc (length args))
      (Some (argv_bytes (arg_table (name # args)))) (mmu (machine k)) = Inr m"
    and len: "length (proc_set k) = 17"
  shows "\<exists>r sv' k'. proc_handle fr GPID_SHELL req (sv, k) = Inr (Some r, sv', k') \<and>
    (case map_of bin name of
       None \<Rightarrow> r = CMD_ERROR \<and> k' = k \<and> shell_waiting sv' = Some False \<and> app_pid sv' = app_pid sv
     | Some ino \<Rightarrow> r = CMD_OK \<and> app_pid sv' = alloc_curr_pid k + 1 \<and> app_ino sv' = int ino \<and>
         shell_waiting sv' = Some (\<not> background (name # args)) \<and> mmu (machine k') = m \<and>
         pid (proc_set k' ! i) = app_pid sv' \<and> (i < MAX_NPROCESS \<longrightarrow> status (proc_set k' ! i) = PROC_READY) \<and>
         (\<forall>j < 17. j \<noteq> i \<longrightarrow> pid (proc_set k ! j) \<noteq> app_pid sv' \<longrightarrow> proc_set k' ! j = proc_set k ! j))"
proof (cases "map_of bin name")
  case None
  then show ?thesis
    using command_handled(1) [OF line name dirs None] by simp
next
  case (Some ino)
  then show ?thesis
    using command_handled(2) [OF line name dirs Some slot len load [OF Some], of sv] by auto
qed

text \<open>A root directory, /bin with one program at inode 7 whose file is empty, and an idle kernel.\<close>

definition demo_root :: "(string \<times> nat) list" where
  "demo_root = [(''./'', 0), (''../'', 0), (''home/'', 1), (''bin/'', 6)]"

definition demo_bin :: "(string \<times> nat) list" where
  "demo_bin = [(''./'', 6), (''../'', 0), (''ls'', 7)]"

definition demo_files :: files_reader where
  "demo_files ino off = (if ino = 0 then map of_char (dir_text demo_root @ [NUL])
     else if ino = 6 then map of_char (dir_text demo_bin @ [NUL]) else replicate 512 0)"

definition demo_kernel :: "egos_machine kernel" where
  "demo_kernel = (kernel0 \<lparr>mmu = empty_mmu, clock = 1, kbd_empty = True\<rparr>)\<lparr>alloc_curr_pid := 4\<rparr>"

lemma demo_text: "dir_text demo_root = ''./   0 ../   0 home/   1 bin/   6 ''" "dir_text demo_bin = ''./   6 ../   0 ls   7 ''"
  by code_simp+

lemma demo_dirs: "is_dir demo_files 0 demo_root" "is_dir demo_files (int 6) demo_bin"
proof -
  have "\<forall>(nm, i) \<in> set demo_root. good_name nm \<and> i < 1000" "\<forall>(nm, i) \<in> set demo_bin. good_name nm \<and> i < 1000"
    by code_simp+
  then show "is_dir demo_files 0 demo_root" "is_dir demo_files (int 6) demo_bin"
    using char_of_bytes [of "dir_text demo_root @ [NUL]"] char_of_bytes [of "dir_text demo_bin @ [NUL]"]
    by (simp_all add: is_dir_def dir_buffer_def demo_files_def) (simp_all add: demo_text)
qed

lemma demo_load: "\<exists>m. elf_load SOFT_TLB 5 (app_read demo_files (int 7)) 1 (Some (argv_bytes (arg_table [''ls'']))) empty_mmu = Inr m"
proof -
  have "app_read demo_files (int 7) 0 = words_of (replicate 512 0)"
    by (simp add: app_read_def demo_files_def)
  moreover have "e_phnum (words_of (replicate 512 0)) = 0"
    by code_simp
  ultimately have "load_segments SOFT_TLB 5 (app_read demo_files (int 7)) (app_read demo_files (int 7) 0)
      (e_phnum (app_read demo_files (int 7) 0)) 0 empty_mmu = Inr empty_mmu"
    by simp
  moreover have "length (argv_bytes (arg_table [''ls''])) = 512"
    by code_simp
  then have "\<exists>pg'. arg_page 1 (Some (argv_bytes (arg_table [''ls'']))) pg = Inr pg'" if "length pg = 1024" for pg
    using arg_page_ok [OF that, of 1 "argv_bytes (arg_table [''ls''])"] by auto
  then have "\<forall>pg \<in> range (mem empty_mmu). \<exists>pg'. arg_page 1 (Some (argv_bytes (arg_table [''ls'']))) pg = Inr pg'"
    by (simp add: empty_mmu_def)
  moreover have "4 \<le> free_pages empty_mmu"
    by (simp add: empty_mmu_facts)
  ultimately show ?thesis
    using load_tail_ok [OF empty_mmu_facts(1)] by (simp add: elf_load_def)
qed

lemma demo_line:
  "shell_line (''ls'' @ [NUL]) = Inr (Spawn \<lparr>req_type = PROC_SPAWN, req_argc = 1, req_argv = arg_table [''ls'']\<rparr>)"
  "c_str (''ls'' @ [NUL]) = Some ''ls''" "words_from [] ''ls'' = [''ls'']"
  by code_simp+

lemma demo_names: "good_name ''ls''" "length ''ls'' \<le> length (dir_text demo_bin)" "4 \<le> length (dir_text demo_root)"
  "map_of demo_root ''bin/'' = Some 6" "map_of demo_bin ''ls'' = Some 7" "\<not> background [''ls'']"
  by (code_simp, simp_all add: demo_text) (simp_all add: demo_root_def demo_bin_def background_def)

lemma demo_slot: "find_unused (proc_set demo_kernel) = Some 1" "length (proc_set demo_kernel) = 17"
  "alloc_curr_pid demo_kernel + 1 = 5" "mmu (machine demo_kernel) = empty_mmu"
  by (simp_all add: demo_kernel_def kernel0_def find_unused_def MAX_NPROCESS_eq upt_rec null_process_def)

theorem command_starts_program_witness:
  "\<exists>sv k. proc_handle demo_files GPID_SHELL \<lparr>req_type = PROC_SPAWN, req_argc = 1, req_argv = arg_table [''ls'']\<rparr>
     (init_server, demo_kernel) = Inr (Some CMD_OK, sv, k) \<and> app_pid sv = 5 \<and> app_ino sv = 7 \<and>
     status (proc_set k ! 1) = PROC_READY"
proof -
  obtain m where m: "elf_load SOFT_TLB 5 (app_read demo_files (int 7)) 1 (Some (argv_bytes (arg_table [''ls'']))) empty_mmu = Inr m"
    using demo_load by blast
  note g = demo_names
  show ?thesis
    using command_starts_program [OF demo_line g(1,2) demo_dirs(1) g(4,3) demo_dirs(2) demo_slot(1) _ demo_slot(2),
        where m = m and sv = init_server] m g(5,6) demo_slot
    by (auto simp: MAX_NPROCESS_eq)
qed

text \<open>
  C26. Waiting for a command: in every state the shell, the process server and the kernel reach from
  the start, the exit of an application frees it, and the server sends the shell a message exactly
  when the shell waits for that application. So the server never blocks on a shell at its prompt.
\<close>

theorem exit_wakes_waiting_shell:
  assumes "(sys_step fr)\<^sup>*\<^sup>* (Prompt, init_server, k0) (sh, sv, k)" "kernel_ok k0" "live_users k0 = {}"
    "p \<in> live_users k"
  shows "sh \<noteq> Blocked \<and> (\<exists>k'. p \<notin> live_users k' \<and> proc_handle fr p exit_request (sv, k) =
    Inr (if sh = Awaiting \<and> app_pid sv = p then Some PROC_EXIT else None, sv, k'))"
proof -
  have "sys_ok (sh, sv, k)"
    using sys_steps_ok [OF assms(1)] init_sys_ok [OF assms(2,3)] by simp
  then show ?thesis
    using handle_exit [OF _ assms(4), of sh sv fr] by (auto simp: sys_ok_def)
qed

lemma demo_spawn:
  "\<exists>sv k. sys_step demo_files (Prompt, init_server, demo_kernel) (Awaiting, sv, k) \<and> app_pid sv = 5 \<and> 5 \<in> live_users k"
proof -
  let ?req = "\<lparr>req_type = PROC_SPAWN, req_argc = 1, req_argv = arg_table [''ls'']\<rparr>"
  obtain m where m: "elf_load SOFT_TLB 5 (app_read demo_files (int 7)) 1 (Some (argv_bytes (arg_table [''ls'']))) empty_mmu = Inr m"
    using demo_load by blast
  note g = demo_names
  let ?sv = "init_server\<lparr>app_ino := 7, app_pid := 5, shell_waiting := Some True\<rparr>"
  obtain k' where k': "proc_handle demo_files GPID_SHELL ?req (init_server, demo_kernel) = Inr (Some CMD_OK, ?sv, k')"
    "pid (proc_set k' ! 1) = 5" "status (proc_set k' ! 1) = PROC_READY"
    using command_handled(2) [OF demo_line g(1,2) demo_dirs(1) g(4,3) demo_dirs(2) g(5) demo_slot(1,2),
        where m = m and sv = init_server] m g(6) demo_slot(3,4) by (auto simp: MAX_NPROCESS_eq)
  have "shell_waits ?req CMD_OK = Inr True"
    using last_arg_amp_table [of "[''ls'']" "''ls''" PROC_SPAWN] demo_line(3) g(6)
    by (simp add: shell_waits_def CMD_NARGS_def)
  moreover have "alloc_curr_pid demo_kernel \<noteq> -1"
    by (simp add: demo_kernel_def)
  ultimately have "sys_step demo_files (Prompt, init_server, demo_kernel) (if True then Awaiting else Prompt, ?sv, k')"
    using k'(1) demo_line(1) by (intro sys_step.spawn) auto
  moreover have "5 \<in> live_users k'"
    using k'(2,3) unfolding live_users_def
    by (intro CollectI exI [of _ 1]) (simp add: is_live_user_def MAX_NPROCESS_eq GPID_USER_START_def)
  ultimately show ?thesis
    by (intro exI [of _ ?sv] exI [of _ k']) simp
qed

theorem exit_wakes_waiting_shell_witness:
  "\<exists>sv k k'. (sys_step demo_files)\<^sup>*\<^sup>* (Prompt, init_server, demo_kernel) (Awaiting, sv, k) \<and>
     proc_handle demo_files 5 exit_request (sv, k) = Inr (Some PROC_EXIT, sv, k')"
proof -
  obtain sv k where s: "sys_step demo_files (Prompt, init_server, demo_kernel) (Awaiting, sv, k)" "app_pid sv = 5"
    "5 \<in> live_users k"
    using demo_spawn by blast
  have r: "(sys_step demo_files)\<^sup>*\<^sup>* (Prompt, init_server, demo_kernel) (Awaiting, sv, k)"
    using s(1) by (rule r_into_rtranclp)
  have k: "kernel_ok demo_kernel" "live_users demo_kernel = {}"
    by (auto simp: demo_kernel_def kernel_ok_def kernel0_def table_ok_def slot_ok_def null_process_def null_syscall_def
        MLFQ_NLEVELS_def MAX_NPROCESS_eq NCORES_def live_users_def is_live_user_def)
  show ?thesis
    using exit_wakes_waiting_shell [OF r k s(3)] s(2) r by auto
qed

text \<open>
  A line of spaces is sent to the process server as a request without arguments, and the server
  then reads the argument before the first one: it never handles the request properly, whatever the
  files and the processes are.
\<close>

lemma blank_line_reads_outside:
  "\<exists>req. shell_line (replicate (Suc n) CHR '' '' @ NUL # pad) = Inr (Spawn req) \<and> req_argc req = 0 \<and>
    (\<forall>x. proc_handle fr GPID_SHELL req (sv, k) \<noteq> Inr x)"
proof -
  let ?line = "replicate (Suc n) CHR '' ''"
  have nul: "NUL \<notin> set ?line"
    by (auto simp: NUL_def)
  have c: "c_str (?line @ NUL # pad) = Some ?line"
    using c_str_append [OF nul] .
  have loop: "parse_loop (replicate m CHR '' '') argv 0 0 = Inr (Some (0, argv))" for m argv
    by (induction m) simp_all
  let ?req = "\<lparr>req_type = PROC_SPAWN, req_argc = 0, req_argv = replicate CMD_NARGS blank_arg\<rparr>"
  have "parse_request (?line @ NUL # pad) = Inr (Some (0, replicate CMD_NARGS blank_arg))"
    using loop [of "Suc n"] c by (simp only: parse_request_def option.case)
  moreover have "?line \<noteq> ''coresinfo'' \<and> ?line \<noteq> ''killall'' \<and> ?line \<noteq> ''clear'' \<and> ?line \<noteq> ''pwd''"
    by simp
  ultimately have s: "shell_line (?line @ NUL # pad) = Inr (Spawn ?req)"
    unfolding shell_line_def c by (simp del: replicate.simps)
  have "last_arg_amp ?req = Inl Undefined"
    by (simp add: last_arg_amp_def)
  then have "proc_handle fr GPID_SHELL ?req (sv, k) \<noteq> Inr x" for x
    by (auto simp: proc_handle_def bindr_eq_Inr_iff)
  with s show ?thesis
    by (intro exI [of _ ?req]) simp
qed

end
