(* ===== verification/Sys_File.thy ===== *)
theory Sys_File
  imports Filesystem Sys_Props
begin

text \<open>
  The file server of apps/system/sys_file.c: the tree file system over the disk, its requests, and
  \<open>file_read\<close> of its clients. The disk image that tools/mkfs.c builds holds the ramdisk behind the
  kernel's binaries, so the server reads the files the image builder wrote.
\<close>

section \<open>The disk as a store\<close>

definition FILE_SYS_DISK_START :: u32 where
  "FILE_SYS_DISK_START = of_nat (SIZE_2MB div BLOCK_SIZE)"

text \<open>The blocks of the disk: \<open>earth->disk_read\<close> and \<open>disk_write\<close> of one block.\<close>

record disk_state =
  disk :: "u32 \<Rightarrow> block"

definition sys_getsize :: "disk_state \<Rightarrow> u32 \<Rightarrow> fault + int" where
  "sys_getsize s ino = Inr (int (FILE_SYS_DISK_SIZE div BLOCK_SIZE))"

definition sys_setsize :: "disk_state \<Rightarrow> u32 \<Rightarrow> u32 \<Rightarrow> fault + (int \<times> disk_state)" where
  "sys_setsize s ino newsize = Inl (Fatal ''cannot set size'')"

definition sys_read :: "disk_state \<Rightarrow> u32 \<Rightarrow> u32 \<Rightarrow> fault + block option" where
  "sys_read s ino offset = Inr (Some (disk s (FILE_SYS_DISK_START + offset)))"

definition sys_write :: "disk_state \<Rightarrow> u32 \<Rightarrow> u32 \<Rightarrow> block \<Rightarrow> fault + (int \<times> disk_state)" where
  "sys_write s ino offset b = Inr (0, s\<lparr>disk := (disk s)(FILE_SYS_DISK_START + offset := b)\<rparr>)"

definition sys_disk :: "disk_state inode_store" where
  "sys_disk = \<lparr>st_getsize = sys_getsize, st_setsize = sys_setsize, st_read = sys_read, st_write = sys_write\<rparr>"

text \<open>The file system's part of a disk, as the ramdisk of the image builder.\<close>

definition mounted :: "disk_state \<Rightarrow> ramdisk_state" where
  "mounted s = \<lparr>fs = map (\<lambda>i. disk s (FILE_SYS_DISK_START + of_nat i)) [0 ..< 4096]\<rparr>"

text \<open>\<open>disk.img\<close>: the executables, then the ramdisk.\<close>

definition disk_image :: "(nat \<Rightarrow> block) \<Rightarrow> ramdisk_state \<Rightarrow> disk_state" where
  "disk_image exec s = \<lparr>disk = \<lambda>b. if unat b < 4096 then exec (unat b) else fs s ! (unat b - 4096)\<rparr>"

lemma FILE_SYS_DISK_START_eq: "FILE_SYS_DISK_START = 4096"
  by (simp add: FILE_SYS_DISK_START_def ram_sizes)

lemma mounted_content:
  assumes "off < RAM_NBLOCKS"
  shows "ram_content (mounted s) off = disk s (FILE_SYS_DISK_START + off)"
proof -
  have "unat off < 4096"
    using ram_bounds(3) [OF assms] .
  then show ?thesis
    by (simp add: ram_content_def mounted_def)
qed

lemma mounted_image:
  assumes "ram_inv s"
  shows "mounted (disk_image exec s) = s"
proof -
  have len: "length (fs s) = 4096"
    using assms by (simp add: ram_inv_def ram_sizes)
  have "unat (4096 + of_nat i :: u32) = 4096 + i" if "i < 4096" for i
    using that unat_of_nat_less [of "4096 + i", where ?'a = 32] by simp
  then have "map (\<lambda>i. disk (disk_image exec s) (FILE_SYS_DISK_START + of_nat i)) [0 ..< 4096] = fs s"
    using len by (intro nth_equalityI) (simp_all add: disk_image_def FILE_SYS_DISK_START_eq)
  then show ?thesis
    by (simp add: mounted_def)
qed

interpretation dsk: block_store sys_disk "ino" "ram_content \<circ> mounted" "ram_inv \<circ> mounted" RAM_NBLOCKS for ino
proof unfold_locales
  fix s :: disk_state and off :: u32 and b :: block
  assume inv: "(ram_inv \<circ> mounted) s" and off: "off < RAM_NBLOCKS"
  show "st_read sys_disk s ino off = Inr (Some ((ram_content \<circ> mounted) s off))"
    by (simp add: sys_disk_def sys_read_def mounted_content [OF off])
  show "length ((ram_content \<circ> mounted) s off) = REFS_PER_BLOCK"
    using ram.store_length [of "mounted s" off] inv off by simp
  assume lb: "length b = REFS_PER_BLOCK"
  let ?s = "s\<lparr>disk := (disk s)(FILE_SYS_DISK_START + off := b)\<rparr>"
  have c: "ram_content (mounted ?s) x = (if x = off then b else ram_content (mounted s) x)" if "x < RAM_NBLOCKS" for x
    using that by (simp add: mounted_content)
  have "ram_inv (mounted ?s)"
    using inv lb by (auto simp: ram_inv_def mounted_def ram_sizes)
  then show "\<exists>s'. st_write sys_disk s ino off b = Inr (0, s') \<and> (ram_inv \<circ> mounted) s' \<and>
      (\<forall>x<RAM_NBLOCKS. (ram_content \<circ> mounted) s' x = (if x = off then b else (ram_content \<circ> mounted) s x))"
    using c by (intro exI [of _ ?s]) (simp add: sys_disk_def sys_write_def)
next
  fix s show "st_getsize sys_disk s ino = Inr (uint RAM_NBLOCKS)"
    by (simp add: sys_disk_def sys_getsize_def ram_sizes)
qed

section \<open>The server\<close>

definition sys_ts :: "disk_state treedisk_state" where
  "sys_ts = \<lparr>below = sys_disk, below_ino = 0, ninodes = 0\<rparr>"

definition sys_fs :: "disk_state inode_store" where
  "sys_fs = treedisk_init sys_disk 0"

interpretation sysfs: treedisk_on sys_ts "ram_content \<circ> mounted" "ram_inv \<circ> mounted" RAM_NBLOCKS
proof -
  have "block_store sys_disk 0 (ram_content \<circ> mounted) (ram_inv \<circ> mounted) RAM_NBLOCKS"
    by (rule dsk.block_store_axioms)
  then show "treedisk_on sys_ts (ram_content \<circ> mounted) (ram_inv \<circ> mounted) RAM_NBLOCKS"
    by (simp add: treedisk_on_def sys_ts_def)
qed

record file_request =
  freq_type :: u32
  freq_ino :: u32
  freq_offset :: u32
  freq_block :: block

definition FILE_READ :: u32 where "FILE_READ = 1"
definition FILE_OK :: u32 where "FILE_OK = 0"
definition FILE_ERROR :: u32 where "FILE_ERROR = 1"

text \<open>
  One turn of the loop of \<open>main\<close>: status and block of the reply. The block lies over the request
  from its inode number on, and keeps those words when the read fails.
\<close>

definition file_handle :: "disk_state \<Rightarrow> file_request \<Rightarrow> fault + (u32 \<times> block)" where
  "file_handle s req =
     (if freq_type req = FILE_READ then
        bindr (st_read sys_fs s (freq_ino req) (freq_offset req)) (\<lambda>r. Inr (case r of
            Some b \<Rightarrow> (FILE_OK, b)
          | None \<Rightarrow> (FILE_ERROR, freq_ino req # freq_offset req # take 126 (freq_block req))))
      else Inl (Fatal ''sys_file: invalid request''))"

text \<open>\<open>file_read\<close>: the block is copied whatever the status is. \<open>junk\<close> is what the request's block holds.\<close>

definition file_read :: "disk_state \<Rightarrow> block \<Rightarrow> i32 \<Rightarrow> u32 \<Rightarrow> fault + (int \<times> block)" where
  "file_read s junk ino off =
     bindr (file_handle s \<lparr>freq_type = FILE_READ, freq_ino = ino, freq_offset = off, freq_block = junk\<rparr>)
       (\<lambda>(status, b). Inr (if status = FILE_OK then 0 else -1, b))"

section \<open>Reading the image\<close>

lemma sys_fs_read: "fs_wf (mounted s) k F \<Longrightarrow> st_read sys_fs s i off = Inr (spec_read (fs_files (mounted s)) i off)"
proof -
  assume "fs_wf (mounted s) k F"
  then obtain T where "ram_inv (mounted s)" "fs_ok (ram_content (mounted s)) RAM_NBLOCKS k T F"
    by (rule fs_wfE)
  then have "treedisk_read sys_ts s i off = Inr (spec_read (files_of ((ram_content \<circ> mounted) s)) i off)"
    by (intro sysfs.read_spec) simp_all
  then show ?thesis
    by (simp add: sys_fs_def treedisk_init_def sys_ts_def fs_files_def Let_def)
qed

lemma file_read_image:
  assumes "fs_wf s k F"
  shows "file_read (disk_image exec s) junk ino off = Inr (case spec_read (fs_files s) ino off of
    Some b \<Rightarrow> (0, b) | None \<Rightarrow> (-1, ino # off # take 126 junk))"
proof -
  have "ram_inv s"
    using assms by (auto elim: fs_wfE)
  then have "st_read sys_fs (disk_image exec s) ino off = Inr (spec_read (fs_files s) ino off)"
    using sys_fs_read [of "disk_image exec s" k F] assms by (simp add: mounted_image)
  then show ?thesis
    by (simp add: file_read_def file_handle_def FILE_OK_def FILE_ERROR_def split: option.split)
qed

text \<open>
  The block \<open>strncpy(inode, contents[ino], BLOCK_SIZE)\<close> leaves, and the characters \<open>dir_lookup\<close> then reads.
\<close>

definition text_block :: "string \<Rightarrow> block" where
  "text_block t = words_of (take BLOCK_SIZE (map of_char t) @ replicate (BLOCK_SIZE - length t) 0)"

definition block_text :: "block \<Rightarrow> string" where
  "block_text b = map (char_of \<circ> unat) (bytes_of b)"

lemma text_block_facts:
  assumes "length t < 512"
  shows "length (text_block t) = 128" "\<exists>pad. block_text (text_block t) = t @ NUL # pad"
proof -
  let ?bs = "map of_char t @ replicate (512 - length t) (0 :: u8)"
  have l: "length ?bs = 512"
    using assms by simp
  then show "length (text_block t) = 128"
    using assms by (simp add: text_block_def BLOCK_SIZE_def length_words_of)
  have "4 dvd length ?bs"
    unfolding l by simp
  moreover have "text_block t = words_of ?bs"
    using assms by (simp add: text_block_def BLOCK_SIZE_def)
  ultimately have "bytes_of (text_block t) = ?bs"
    by (simp only: bytes_of_words_of)
  moreover have "char_of (0 :: nat) = NUL"
    by code_simp
  ultimately have "block_text (text_block t) = map (char_of \<circ> unat) (map (of_char :: char \<Rightarrow> u8) t) @ replicate (512 - length t) NUL"
    by (simp add: block_text_def)
  moreover obtain n where "512 - length t = Suc n"
    using assms by (cases "512 - length t") auto
  ultimately show "\<exists>pad. block_text (text_block t) = t @ NUL # pad"
    by (simp only: char_of_bytes) simp
qed

section \<open>Property\<close>

text \<open>
  C30. From the image builder to the running system: a directory that mkfs writes to an inode of its
  file system is what a client of the file server reads from the disk image, whatever the kernel's
  binaries are, and looking a name up in it gives the inode number of the entry of that name. Every
  other file reads from the image as before.
\<close>

theorem image_directory_found:
  assumes fs: "fs_wf s k F" "ino < k * INODES_PER_BLOCK" "11 \<le> length F"
    and dir: "\<forall>(nm, i) \<in> set es. good_name nm \<and> i < 1000" "length (dir_text es) < 512"
    and name: "good_name name" "length name \<le> length (dir_text es)"
  shows "\<exists>s'. st_write filesys s ino 0 (text_block (dir_text es)) = Inr (0, s') \<and>
    (\<exists>b. file_read (disk_image exec s') junk ino 0 = Inr (0, b) \<and>
       dir_lookup (block_text b) name = Inr (case map_of es name of None \<Rightarrow> -1 | Some i \<Rightarrow> int i)) \<and>
    (\<forall>i off. i \<noteq> ino \<longrightarrow> file_read (disk_image exec s') junk i off = file_read (disk_image exec s) junk i off)"
proof -
  let ?b = "text_block (dir_text es)"
  note tb = text_block_facts [OF dir(2)]
  obtain T where T: "ram_inv s" "fs_ok (ram_content s) RAM_NBLOCKS k T F"
    using fs(1) by (rule fs_wfE)
  then obtain s' F' where w: "st_write filesys s ino 0 ?b = Inr (0, s')" "fs_wf s' k F'"
    "fs_files s' = spec_write (fs_files s) ino 0 ?b"
    using fsys.write_spec [OF T fs(2), of 0 ?b] fs(3) tb(1) by (auto simp: filesys_methods fs_wf_def fs_files_def)
  obtain f where f: "fs_files s ino = Some f"
    using fs(2) fsys.files_of_eq [OF T(2), of ino] by (simp add: fs_files_def)
  have "0 < (1 :: u32)" "1 \<le> max (fsize f) 1"
    by simp_all
  then have "0 < max (fsize f) 1"
    by (rule less_le_trans)
  then have "spec_read (fs_files s') ino 0 = Some ?b"
    by (simp add: w(3) f spec_write_def spec_read_def write_file_def)
  then have r: "file_read (disk_image exec s') junk ino 0 = Inr (0, ?b)"
    using file_read_image [OF w(2)] by simp
  obtain pad where pad: "block_text ?b = dir_text es @ NUL # pad"
    using tb(2) by blast
  have "is_dir (\<lambda>_ _. bytes_of ?b) 0 es"
    using dir pad by (auto simp: is_dir_def dir_buffer_def block_text_def)
  then have "dir_lookup (block_text ?b) name = Inr (case map_of es name of None \<Rightarrow> -1 | Some i \<Rightarrow> int i)"
    using dir_lookup_is_dir [OF _ name, of "\<lambda>_ _. bytes_of ?b" 0] by (simp add: dir_buffer_def block_text_def)
  moreover have "spec_read (fs_files s') i off = spec_read (fs_files s) i off" if "i \<noteq> ino" for i off
    using that f by (simp add: w(3) spec_write_def spec_read_def)
  ultimately show ?thesis
    using w(1) r file_read_image [OF w(2)] file_read_image [OF fs(1)] by auto
qed

theorem image_directory_found_witness:
  "\<exists>s' b. st_write filesys new_disk 0 0 (text_block (dir_text demo_root)) = Inr (0, s') \<and>
     file_read (disk_image (\<lambda>_. null_block) s') null_block 0 0 = Inr (0, b) \<and>
     dir_lookup (block_text b) ''bin/'' = Inr 6"
proof -
  obtain F where F: "fs_wf new_disk 2 F" "length F = 4093"
    using new_disk_wf by metis
  have es: "\<forall>(nm, i) \<in> set demo_root. good_name nm \<and> i < 1000" "length (dir_text demo_root) < 512"
    "4 \<le> length (dir_text demo_root)" "map_of demo_root ''bin/'' = Some 6"
    by (code_simp, simp_all add: demo_text) (simp add: demo_root_def)
  show ?thesis
    using image_directory_found [OF F(1) _ _ es(1,2) bin_good_name, of 0 "\<lambda>_. null_block" null_block] F(2) es(3,4)
    by (auto simp: INODES_PER_BLOCK_eq)
qed

end
