(* ===== verification/Mkfs.thy ===== *)
theory Mkfs
  imports Sys_File
begin

text \<open>
  How tools/mkfs.c fills the file system: the fixed directories and texts, one inode for each
  application and the directory /bin that lists them. Names and contents of the applications are
  what \<open>readdir\<close> and \<open>load_file\<close> return.
\<close>

section \<open>The fixed files\<close>

definition lf :: string where "lf = [CHR 0x0A]"

text \<open>\<open>contents\<close> without its last entry, which is \<open>bin_dir\<close>.\<close>

definition contents :: "string list" where
  "contents =
    [''./   0 ../   0 home/   1 bin/   6 '',
     ''./   1 ../   0 yunhao/   2 rvr/   3 yacqub/   4 '',
     ''./   2 ../   1 README   5 '',
     ''./   3 ../   1 '',
     ''./   4 ../   1 '',
     ''With only 2000 lines of code, egos-2000 implements boot loader, SD card '' @ lf @
     ''driver, tty driver, virtual memory with page tables, interrupt and '' @ lf @
     ''exception handling, preemptive scheduler, system call, file system, '' @
     ''shell, an Ethernet/UDP demo, several user commands, and the mkfs tool. '' @
     ''Moreover, the EGOS book (https://egos.fun) contains 9 course projects.'']"

definition BIN_DIR_INODE :: nat where "BIN_DIR_INODE = 6"

definition bin_dir0 :: string where "bin_dir0 = ''./   6 ../   0 ''"

type_synonym fs_write = "u32 \<times> u32 \<times> block"

definition content_writes :: "fs_write list" where
  "content_writes = map (\<lambda>ino. (of_nat ino, 0, text_block (contents ! ino))) [0 ..< BIN_DIR_INODE]"

section \<open>The applications\<close>

definition has_elf :: "string \<Rightarrow> bool" where
  "has_elf nm = list_ex (\<lambda>i. take 4 (drop i nm) = ''.elf'') [0 ..< length nm]"

text \<open>\<open>load_file\<close> overwrites the start of the buffer; the rest keeps what an earlier file left.\<close>

definition load_file :: "u8 list \<Rightarrow> u8 list \<Rightarrow> fault + u8 list" where
  "load_file bs buf = (if length bs \<le> length buf then Inr (bs @ drop (length bs) buf) else Inl Undefined)"

definition file_block :: "u8 list \<Rightarrow> nat \<Rightarrow> block" where
  "file_block buf b = words_of (take BLOCK_SIZE (drop (b * BLOCK_SIZE) buf))"

text \<open>\<open>for (uint b = 0; b * BLOCK_SIZE < file_size; b++)\<close>\<close>

definition file_nblocks :: "u8 list \<Rightarrow> nat" where
  "file_nblocks bs = (length bs + BLOCK_SIZE - 1) div BLOCK_SIZE"

definition file_writes :: "nat \<Rightarrow> u8 list \<Rightarrow> u8 list \<Rightarrow> fs_write list" where
  "file_writes ino bs buf = map (\<lambda>b. (of_nat ino, of_nat b, file_block buf b)) [0 ..< file_nblocks bs]"

text \<open>
  The loop over the directory: buffer, next inode and \<open>bin_dir\<close>, whose 256 bytes \<open>strcat\<close> must not
  leave. The last four characters of a name are cut off.
\<close>

fun app_writes :: "u8 list \<Rightarrow> nat \<Rightarrow> string \<Rightarrow> (string \<times> u8 list) list \<Rightarrow> fault + (fs_write list \<times> string)" where
  "app_writes buf ino dir [] = Inr ([], dir)"
| "app_writes buf ino dir ((nm, bs) # apps) =
     (if \<not> has_elf nm then app_writes buf ino dir apps
      else bindr (load_file bs buf) (\<lambda>buf'.
        let dir' = dir @ dir_entry (take (length nm - 4) nm) ino in
        if length dir' \<ge> 256 then Inl Undefined
        else bindr (app_writes buf' (ino + 1) dir' apps) (\<lambda>(ws, d). Inr (file_writes ino bs buf' @ ws, d))))"

text \<open>
  \<open>buf\<close> below is \<open>inode[]\<close> as the texts written before leave it (any contents are allowed).
  The block written for /bin is twice as long as \<open>bin_dir\<close>: \<open>beyond\<close> is the memory behind the array.
\<close>

definition bin_block :: "string \<Rightarrow> u8 list \<Rightarrow> block" where
  "bin_block dir beyond = words_of (map of_char dir @ replicate (256 - length dir) 0 @ beyond)"

definition populate :: "u8 list \<Rightarrow> u8 list \<Rightarrow> (string \<times> u8 list) list \<Rightarrow> ramdisk_state \<Rightarrow> fault + ramdisk_state" where
  "populate buf beyond apps s =
     bindr (app_writes buf (BIN_DIR_INODE + 1) bin_dir0 apps) (\<lambda>(ws, dir).
       run_writes (st_write filesys) s (content_writes @ ws @ [(of_nat BIN_DIR_INODE, 0, bin_block dir beyond)]))"

definition mkfs :: "u8 list \<Rightarrow> u8 list \<Rightarrow> (string \<times> u8 list) list \<Rightarrow> fault + ramdisk_state" where
  "mkfs buf beyond apps =
     bindr (treedisk_create ramdisk 0 zero_disk NINODES) (\<lambda>(rc, s).
       if rc < 0 then Inl (Fatal ''assert'') else populate buf beyond apps s)"

section \<open>Reading after many writes\<close>

abbreviation wkey :: "fs_write \<Rightarrow> u32 \<times> u32" where
  "wkey \<equiv> \<lambda>(i, off, b). (i, off)"

lemma spec_write_dom: "(spec_write m i off b) j = None \<longleftrightarrow> m j = None"
  by (auto simp: spec_write_def split: option.split)

lemma spec_write_other: "(i, off) \<noteq> (j, x) \<Longrightarrow> spec_read m j x = Some c \<Longrightarrow> spec_read (spec_write m i off b) j x = Some c"
  by (auto simp: spec_write_def spec_read_def write_file_def less_max_iff_disj split: option.splits if_splits)

lemma less_plus_one_word: "(off :: u32) + 1 \<noteq> 0 \<Longrightarrow> off < off + 1"
  by (metis less_plus_one add.commute)

lemma spec_write_same: "m i \<noteq> None \<Longrightarrow> off + 1 \<noteq> 0 \<Longrightarrow> spec_read (spec_write m i off b) i off = Some b"
  using less_plus_one_word [of off] by (auto simp: spec_write_def spec_read_def write_file_def less_max_iff_disj)

lemma spec_writes_Cons: "spec_writes m ((i, off, b) # ws) = spec_writes (spec_write m i off b) ws"
  by (simp add: spec_writes_def)

lemma spec_writes_other: "(j, x) \<notin> wkey ` set ws \<Longrightarrow> spec_read m j x = Some c \<Longrightarrow> spec_read (spec_writes m ws) j x = Some c"
proof (induction ws arbitrary: m)
  case (Cons w ws)
  obtain i off b where w: "w = (i, off, b)"
    by (cases w)
  then show ?case
    using Cons.IH [of "spec_write m i off b"] Cons.prems spec_write_other [of i off j x m c b]
    by (auto simp: spec_writes_Cons)
qed (simp add: spec_writes_def)

lemma spec_writes_read:
  assumes "distinct (map wkey ws)" "(i, off, b) \<in> set ws" "m i \<noteq> None" "off + 1 \<noteq> 0"
  shows "spec_read (spec_writes m ws) i off = Some b"
  using assms
proof (induction ws arbitrary: m)
  case (Cons w ws)
  obtain j x c where w: "w = (j, x, c)"
    by (cases w)
  show ?case
  proof (cases "w = (i, off, b)")
    case True
    then have "(i, off) \<notin> wkey ` set ws"
      using Cons.prems(1) by simp
    then show ?thesis
      using True spec_writes_other [OF _ spec_write_same] Cons.prems(3,4) by (simp add: spec_writes_Cons)
  next
    case False
    then show ?thesis
      using Cons.IH [of "spec_write m j x c"] Cons.prems by (auto simp: w spec_writes_Cons spec_write_dom)
  qed
qed simp

section \<open>What the loop writes\<close>

definition app_entries :: "nat \<Rightarrow> (string \<times> u8 list) list \<Rightarrow> (string \<times> nat) list" where
  "app_entries ino apps = map (\<lambda>j. (fst (apps ! j), ino + j)) [0 ..< length apps]"

lemma app_entries_Cons: "app_entries ino ((nm, bs) # apps) = (nm, ino) # app_entries (Suc ino) apps"
proof -
  have "[0 ..< Suc (length apps)] = 0 # map Suc [0 ..< length apps]"
    by (metis map_Suc_upt upt_conv_Cons zero_less_Suc)
  then show ?thesis
    by (simp add: app_entries_def)
qed

lemma app_entries_names: "map fst (app_entries ino apps) = map fst apps" "nm \<in> fst ` set (app_entries ino apps) \<longleftrightarrow> nm \<in> fst ` set apps"
proof -
  show "map fst (app_entries ino apps) = map fst apps"
    by (intro nth_equalityI) (simp_all add: app_entries_def)
  then show "nm \<in> fst ` set (app_entries ino apps) \<longleftrightarrow> nm \<in> fst ` set apps"
    by (metis list.set_map)
qed

lemma has_elf_suffix: "has_elf (nm @ ''.elf'')"
  unfolding has_elf_def by (auto simp: list_ex_iff intro!: bexI [of _ "length nm"])

abbreviation elf_named :: "(string \<times> u8 list) list \<Rightarrow> (string \<times> u8 list) list" where
  "elf_named apps \<equiv> map (\<lambda>(nm, bs). (nm @ ''.elf'', bs)) apps"

text \<open>\<open>holds_file ws ino bs\<close>: the writes \<open>ws\<close> put the bytes \<open>bs\<close> in inode \<open>ino\<close>.\<close>

definition holds_file :: "fs_write list \<Rightarrow> nat \<Rightarrow> u8 list \<Rightarrow> bool" where
  "holds_file ws ino bs \<longleftrightarrow> (\<forall>p < length bs. \<exists>blk. (of_nat ino, of_nat (p div 512), blk) \<in> set ws \<and>
     bytes_of blk ! (p mod 512) = bs ! p)"

lemma file_block_bytes:
  assumes "length buf = SIZE_2MB" "b < 4096"
  shows "length (file_block buf b) = 128" "bytes_of (file_block buf b) = take 512 (drop (b * 512) buf)"
proof -
  have l: "length (take 512 (drop (b * 512) buf)) = 512"
    using assms by (simp add: SIZE_2MB_def)
  then show "length (file_block buf b) = 128"
    by (simp add: file_block_def BLOCK_SIZE_def length_words_of)
  have "4 dvd length (take 512 (drop (b * 512) buf))"
    unfolding l by simp
  then show "bytes_of (file_block buf b) = take 512 (drop (b * 512) buf)"
    by (simp add: file_block_def BLOCK_SIZE_def bytes_of_words_of)
qed

lemma file_nblocks_le: "length bs \<le> SIZE_2MB \<Longrightarrow> file_nblocks bs \<le> 4096"
  by (simp add: file_nblocks_def BLOCK_SIZE_def SIZE_2MB_def)

lemma holds_file_writes:
  assumes "length buf = SIZE_2MB" "length bs \<le> SIZE_2MB"
  shows "holds_file (file_writes ino bs (bs @ drop (length bs) buf)) ino bs"
  unfolding holds_file_def
proof (intro allI impI)
  fix p assume p: "p < length bs"
  let ?buf = "bs @ drop (length bs) buf"
  have b: "p div 512 < file_nblocks bs"
    using p by (simp add: file_nblocks_def BLOCK_SIZE_def)
  have "p div 512 < 4096"
    using b file_nblocks_le [OF assms(2)] by linarith
  then have "bytes_of (file_block ?buf (p div 512)) = take 512 (drop (p div 512 * 512) ?buf)"
    using assms by (intro file_block_bytes) simp_all
  moreover have "take 512 (drop (q * 512) xs) ! r = xs ! (q * 512 + r)" if "r < 512" "q * 512 + r < length xs"
    for q r and xs :: "u8 list"
    using that by simp
  moreover have "p div 512 * 512 + p mod 512 < length ?buf" "?buf ! p = bs ! p"
    using p by (simp_all add: nth_append)
  moreover have "p mod 512 < 512" "p div 512 * 512 + p mod 512 = p"
    by simp_all
  ultimately have "bytes_of (file_block ?buf (p div 512)) ! (p mod 512) = bs ! p"
    by (simp only:)
  then show "\<exists>blk. (of_nat ino, of_nat (p div 512), blk) \<in> set (file_writes ino bs ?buf) \<and>
      bytes_of blk ! (p mod 512) = bs ! p"
    using b unfolding file_writes_def by (intro exI [of _ "file_block ?buf (p div 512)"]) simp
qed

lemma holds_file_mono: "holds_file ws ino bs \<Longrightarrow> set ws \<subseteq> set ws' \<Longrightarrow> holds_file ws' ino bs"
  unfolding holds_file_def by blast

lemma of_nat_inj_u32:
  assumes "a < 2 ^ 32" "b < 2 ^ 32" "(of_nat a :: u32) = of_nat b"
  shows "a = b"
proof -
  have "unat (of_nat a :: u32) = unat (of_nat b :: u32)"
    by (simp only: assms(3))
  moreover have "unat (of_nat a :: u32) = a" "unat (of_nat b :: u32) = b"
    using assms(1,2) by (simp_all add: unat_of_nat_less)
  ultimately show ?thesis
    by simp
qed

text \<open>The writes of one application: inode, offsets and block sizes.\<close>

definition writes_to :: "nat set \<Rightarrow> fs_write list \<Rightarrow> bool" where
  "writes_to I ws \<longleftrightarrow> distinct (map wkey ws) \<and>
     (\<forall>(i, off, b) \<in> set ws. (\<exists>n \<in> I. i = of_nat n) \<and> off + 1 \<noteq> 0 \<and> length b = 128)"

lemma writes_to_elem:
  assumes "writes_to I ws" "(i, off, b) \<in> set ws"
  obtains n where "n \<in> I" "i = of_nat n" "off + 1 \<noteq> 0" "length b = 128"
  using assms unfolding writes_to_def by fastforce

lemma writes_to_append:
  assumes "writes_to I ws" "writes_to J vs" "I \<inter> J = {}" "\<forall>n \<in> I \<union> J. n < 2 ^ 32"
  shows "writes_to (I \<union> J) (ws @ vs)"
proof -
  have "wkey ` set ws \<inter> wkey ` set vs = {}"
  proof (rule ccontr)
    assume "wkey ` set ws \<inter> wkey ` set vs \<noteq> {}"
    then obtain i off b c where "(i, off, b) \<in> set ws" "(i, off, c) \<in> set vs"
      by fastforce
    then obtain n m where "n \<in> I" "m \<in> J" "(of_nat n :: u32) = of_nat m"
      using assms(1,2) unfolding writes_to_def by fastforce
    then show False
      using of_nat_inj_u32 [of n m] assms(3,4) by auto
  qed
  then show ?thesis
    using assms(1,2) unfolding writes_to_def by fastforce
qed

lemma file_writes_to:
  assumes "length buf = SIZE_2MB" "length bs \<le> SIZE_2MB"
  shows "writes_to {ino} (file_writes ino bs buf)" "length (file_writes ino bs buf) = file_nblocks bs"
proof -
  have b: "b < 4096" if "b < file_nblocks bs" for b
    using that file_nblocks_le [OF assms(2)] by linarith
  have "inj_on (\<lambda>b. of_nat b :: u32) (set [0 ..< file_nblocks bs])"
    using b by (intro inj_onI of_nat_inj_u32) force+
  then have "distinct (map wkey (file_writes ino bs buf))"
    by (simp add: file_writes_def comp_def distinct_map inj_on_def)
  moreover have "(of_nat b :: u32) + 1 \<noteq> 0" if "b < 4096" for b
  proof
    assume "(of_nat b :: u32) + 1 = 0"
    then have "(of_nat (Suc b) :: u32) = of_nat 0"
      by (simp add: add.commute)
    then show False
      using of_nat_inj_u32 [of "Suc b" 0] that by simp
  qed
  ultimately show "writes_to {ino} (file_writes ino bs buf)"
    using b file_block_bytes(1) [OF assms(1)] by (auto simp: writes_to_def file_writes_def)
  show "length (file_writes ino bs buf) = file_nblocks bs"
    by (simp add: file_writes_def)
qed

lemma take_elf: "take (length (nm @ ''.elf'') - 4) (nm @ ''.elf'') = nm"
  by simp

text \<open>
  The loop over applications with names that end in .elf: it writes the inodes from \<open>ino\<close> on, each
  holding its application, and lists them in the directory.
\<close>

lemma app_writes_ok:
  assumes "length buf = SIZE_2MB" "\<forall>(nm, bs) \<in> set apps. length bs \<le> SIZE_2MB"
    "length dir + length (dir_text (app_entries ino apps)) < 256" "ino + length apps < 2 ^ 32"
  shows "\<exists>ws. app_writes buf ino dir (elf_named apps) = Inr (ws, dir @ dir_text (app_entries ino apps)) \<and>
    writes_to {ino ..< ino + length apps} ws \<and> length ws = (\<Sum>(nm, bs) \<leftarrow> apps. file_nblocks bs) \<and>
    (\<forall>j < length apps. holds_file ws (ino + j) (snd (apps ! j)))"
  using assms
proof (induction apps arbitrary: buf ino dir)
  case Nil
  then show ?case
    by (simp add: app_entries_def dir_text_def writes_to_def)
next
  case (Cons a apps)
  obtain nm bs where a: "a = (nm, bs)" "length bs \<le> SIZE_2MB"
    using Cons.prems(2) by (cases a) auto
  let ?buf = "bs @ drop (length bs) buf" and ?e = "dir_entry nm ino"
  have l: "length ?buf = SIZE_2MB" "load_file bs buf = Inr ?buf"
    using Cons.prems(1) a(2) by (simp_all add: load_file_def)
  have t: "dir_text (app_entries ino (a # apps)) = ?e @ dir_text (app_entries (Suc ino) apps)"
    by (simp add: a app_entries_Cons dir_text_def)
  have "length (dir @ ?e) + length (dir_text (app_entries (Suc ino) apps)) < 256" "length (dir @ ?e) < 256"
    using Cons.prems(3) by (simp_all add: t)
  then obtain ws where ws: "app_writes ?buf (Suc ino) (dir @ ?e) (elf_named apps) =
      Inr (ws, (dir @ ?e) @ dir_text (app_entries (Suc ino) apps))"
    "writes_to {Suc ino ..< Suc ino + length apps} ws" "length ws = (\<Sum>(nm, bs) \<leftarrow> apps. file_nblocks bs)"
    "\<forall>j < length apps. holds_file ws (Suc ino + j) (snd (apps ! j))"
    using Cons.IH [OF l(1), of "dir @ ?e" "Suc ino"] Cons.prems(2,4) by auto
  let ?fw = "file_writes ino bs ?buf"
  have "app_writes buf ino dir (elf_named (a # apps)) = Inr (?fw @ ws, dir @ dir_text (app_entries ino (a # apps)))"
    using ws(1) \<open>length (dir @ ?e) < 256\<close> t by (simp add: a has_elf_suffix l(2) Let_def)
  moreover have "writes_to ({ino} \<union> {Suc ino ..< Suc ino + length apps}) (?fw @ ws)"
    using file_writes_to(1) [OF l(1) a(2)] ws(2) Cons.prems(4) by (intro writes_to_append) auto
  moreover have "{ino} \<union> {Suc ino ..< Suc ino + length apps} = {ino ..< ino + length (a # apps)}"
    by auto
  moreover have "length (?fw @ ws) = (\<Sum>(nm, bs) \<leftarrow> a # apps. file_nblocks bs)"
    using file_writes_to(2) [OF l(1) a(2)] ws(3) by (simp add: a)
  moreover have "holds_file (?fw @ ws) (ino + j) (snd ((a # apps) ! j))" if "j < length (a # apps)" for j
  proof (cases j)
    case 0
    then show ?thesis
      using holds_file_mono [OF holds_file_writes [OF Cons.prems(1) a(2)]] by (simp add: a)
  next
    case (Suc i)
    then show ?thesis
      using that ws(4) holds_file_mono [of ws "Suc ino + i"] by simp
  qed
  ultimately show ?case
    by (intro exI [of _ "?fw @ ws"]) metis
qed

section \<open>The image\<close>

definition bin_entries :: "(string \<times> u8 list) list \<Rightarrow> (string \<times> nat) list" where
  "bin_entries apps = (''./'', 6) # (''../'', 0) # app_entries 7 apps"

lemma bin_dir_text: "bin_dir0 @ dir_text (app_entries 7 apps) = dir_text (bin_entries apps)"
proof -
  have "bin_dir0 = dir_text [(''./'', 6), (''../'', 0)]"
    by code_simp
  then show ?thesis
    by (simp add: bin_entries_def dir_text_def)
qed

lemma contents_short: "length contents = 6" "ino < 6 \<Longrightarrow> length (contents ! ino) < 512"
proof -
  have "list_all (\<lambda>t. length t < 512) contents" "length contents = 6"
    by (simp_all add: contents_def lf_def)
  then show "length contents = 6" "ino < 6 \<Longrightarrow> length (contents ! ino) < 512"
    by (simp_all add: list_all_length)
qed

lemma content_writes_to: "writes_to {0 ..< 6} content_writes" "length content_writes = 6"
proof -
  have "distinct (map wkey content_writes)"
    by (simp add: content_writes_def BIN_DIR_INODE_def upt_rec)
  moreover have "length (text_block (contents ! ino)) = 128" if "ino < 6" for ino
    using text_block_facts(1) contents_short(2) [OF that] .
  ultimately show "writes_to {0 ..< 6} content_writes"
    by (auto simp: writes_to_def content_writes_def BIN_DIR_INODE_def)
  show "length content_writes = 6"
    by (simp add: content_writes_def BIN_DIR_INODE_def)
qed

lemma bin_block_facts:
  assumes "length dir < 256" "length beyond = 256"
  shows "length (bin_block dir beyond) = 128" "\<exists>pad. block_text (bin_block dir beyond) = dir @ NUL # pad"
proof -
  let ?bs = "map of_char dir @ replicate (256 - length dir) (0 :: u8) @ beyond"
  have l: "length ?bs = 512"
    using assms by simp
  then show "length (bin_block dir beyond) = 128"
    by (simp add: bin_block_def length_words_of)
  have "4 dvd length ?bs"
    unfolding l by simp
  then have b: "bytes_of (bin_block dir beyond) = ?bs"
    by (simp only: bin_block_def bytes_of_words_of)
  obtain n where n: "256 - length dir = Suc n"
    using assms(1) by (cases "256 - length dir") auto
  have "char_of (0 :: nat) = NUL"
    by code_simp
  then have "block_text (bin_block dir beyond) = map (char_of \<circ> unat) (map (of_char :: char \<Rightarrow> u8) dir) @
      NUL # replicate n NUL @ map (char_of \<circ> unat) beyond"
    by (simp add: block_text_def b n)
  then show "\<exists>pad. block_text (bin_block dir beyond) = dir @ NUL # pad"
    by (simp only: char_of_bytes) blast
qed

text \<open>The applications that fit: names, sizes and the number of blocks.\<close>

definition apps_fit :: "(string \<times> u8 list) list \<Rightarrow> bool" where
  "apps_fit apps \<longleftrightarrow> (\<forall>(nm, bs) \<in> set apps. good_name nm \<and> nm \<noteq> ''./'' \<and> nm \<noteq> ''../'' \<and> length bs \<le> SIZE_2MB) \<and>
     distinct (map fst apps) \<and> length apps \<le> 121 \<and> length (dir_text (bin_entries apps)) < 256 \<and>
     11 * ((\<Sum>(nm, bs) \<leftarrow> apps. file_nblocks bs) + 7) \<le> 4093"

text \<open>All the writes of mkfs on the new file system, and what they leave.\<close>

lemma mkfs_result:
  assumes fit: "apps_fit apps" and buf: "length buf = SIZE_2MB" "length beyond = 256"
  obtains s F ws where "mkfs buf beyond (elf_named apps) = Inr s" "fs_wf s 2 F"
    "\<forall>(i, off, b) \<in> set ws. spec_read (fs_files s) i off = Some b"
    "(6, 0, bin_block (dir_text (bin_entries apps)) beyond) \<in> set ws"
    "\<forall>j < length apps. holds_file ws (7 + j) (snd (apps ! j))" "set content_writes \<subseteq> set ws"
proof -
  have f: "\<forall>(nm, bs) \<in> set apps. length bs \<le> SIZE_2MB" "7 + length apps < 2 ^ 32" "7 + length apps \<le> 128"
    using fit by (auto simp: apps_fit_def)
  have d: "length bin_dir0 + length (dir_text (app_entries 7 apps)) < 256"
    using fit bin_dir_text [of apps] unfolding apps_fit_def by (metis length_append)
  obtain aw where aw: "app_writes buf 7 bin_dir0 (elf_named apps) = Inr (aw, dir_text (bin_entries apps))"
    "writes_to {7 ..< 7 + length apps} aw" "length aw = (\<Sum>(nm, bs) \<leftarrow> apps. file_nblocks bs)"
    "\<forall>j < length apps. holds_file aw (7 + j) (snd (apps ! j))"
    using app_writes_ok [OF buf(1) f(1) d f(2)] bin_dir_text by auto
  let ?bw = "[(6, 0, bin_block (dir_text (bin_entries apps)) beyond)]" and ?n = "{7 ..< 7 + length apps}"
  have "writes_to {6} ?bw"
    using bin_block_facts(1) [OF _ buf(2)] fit by (auto simp: writes_to_def apps_fit_def)
  then have u: "writes_to (?n \<union> {6}) (aw @ ?bw)"
    using aw(2) f(2) by (intro writes_to_append) auto
  have ok: "writes_to ({0 ..< 6} \<union> (?n \<union> {6})) (content_writes @ aw @ ?bw)"
    using f(2) by (intro writes_to_append [OF content_writes_to(1) u]) auto
  let ?ws = "content_writes @ aw @ ?bw"
  have i: "(of_nat n :: u32) < 2 * INODES_PER_BLOCK" if "n < 128" for n
    using that unat_of_nat_less [of n, where ?'a = 32] by (simp add: INODES_PER_BLOCK_eq word_less_nat_alt)
  have small: "n < 128" if "n \<in> {0 ..< 6} \<union> (?n \<union> {6})" for n
    using that f(3) by auto
  have vw: "valid_write 2 (i, off, b)" if w: "(i, off, b) \<in> set ?ws" for i off b
  proof -
    obtain n where n: "n \<in> {0 ..< 6} \<union> (?n \<union> {6})" "i = of_nat n" "off + 1 \<noteq> 0" "length b = 128"
      using writes_to_elem [OF ok w] .
    from i [OF small [OF n(1)]] n(2-4) show ?thesis
      by (simp only: valid_write_def prod.case REFS_PER_BLOCK_eq simp_thms)
  qed
  have valid: "\<forall>w \<in> set ?ws. valid_write 2 w"
    using vw by (metis prod_cases3)
  obtain F0 where F0: "fs_wf new_disk 2 F0" "length F0 = 4093"
    "fs_files new_disk = (\<lambda>i. if i < 128 then Some empty_file else None)"
    using new_disk_wf by metis
  have "11 * length ?ws \<le> length F0"
    using fit aw(3) content_writes_to(2) by (simp add: apps_fit_def F0(2))
  obtain T where "ram_inv new_disk" "fs_ok (ram_content new_disk) RAM_NBLOCKS 2 T F0"
    using F0(1) by (rule fs_wfE)
  from fsys.run_writes_spec [OF this valid \<open>11 * length ?ws \<le> length F0\<close>]
  obtain s F where s: "run_writes (st_write filesys) new_disk ?ws = Inr s" "fs_wf s 2 F"
    "fs_files s = spec_writes (fs_files new_disk) ?ws"
    by (auto simp: filesys_methods fs_wf_def fs_files_def)
  have "treedisk_create ramdisk 0 zero_disk NINODES = Inr (0, new_disk)"
    using create_new [OF zero_disk_inv, of 2 NINODES] by (auto simp: new_disk_def NINODES_def INODES_PER_BLOCK_eq RAM_NBLOCKS_eq)
  then have m: "mkfs buf beyond (elf_named apps) = Inr s"
    using s(1) aw(1) by (simp add: mkfs_def populate_def BIN_DIR_INODE_def)
  have "spec_read (fs_files s) i off = Some b" if "(i, off, b) \<in> set ?ws" for i off b
  proof -
    have "i < 128" "off + 1 \<noteq> 0"
      using vw [OF that] by (simp_all add: valid_write_def INODES_PER_BLOCK_eq)
    then show ?thesis
      using ok that unfolding s(3) by (intro spec_writes_read) (auto simp: writes_to_def F0(3))
  qed
  moreover have "holds_file ?ws (7 + j) (snd (apps ! j))" if "j < length apps" for j
    by (rule holds_file_mono [OF aw(4) [rule_format, OF that]]) auto
  ultimately show thesis
    using m s(2) by (intro that [of s F ?ws]) auto
qed

text \<open>The directory /bin is read back.\<close>

lemma bin_is_dir:
  assumes "apps_fit apps" "length beyond = 256"
  shows "is_dir (\<lambda>_ _. bytes_of (bin_block (dir_text (bin_entries apps)) beyond)) 0 (bin_entries apps)"
    "distinct (map fst (bin_entries apps))"
proof -
  let ?es = "bin_entries apps"
  have fits: "\<forall>nm \<in> fst ` set apps. good_name nm \<and> nm \<noteq> ''./'' \<and> nm \<noteq> ''../''" "distinct (map fst apps)"
    "length apps \<le> 121"
    using assms(1) unfolding apps_fit_def by auto
  have "good_name ''./''" "good_name ''../''"
    by (simp_all add: good_name_def NUL_def is_digit_def)
  moreover have "good_name nm \<and> i < 1000" if "(nm, i) \<in> set (app_entries 7 apps)" for nm i
    using that fits(1,3) by (auto simp: app_entries_def)
  ultimately have good: "\<forall>(nm, i) \<in> set ?es. good_name nm \<and> i < 1000"
    by (auto simp: bin_entries_def)
  have len: "length (dir_text ?es) < 256"
    using assms(1) by (simp add: apps_fit_def)
  obtain pad where pad: "block_text (bin_block (dir_text ?es) beyond) = dir_text ?es @ NUL # pad"
    using bin_block_facts(2) [OF len assms(2)] by blast
  show "is_dir (\<lambda>_ _. bytes_of (bin_block (dir_text ?es) beyond)) 0 ?es"
    using good len pad by (auto simp: is_dir_def dir_buffer_def block_text_def)
  show "distinct (map fst ?es)"
    using fits(1,2) by (auto simp: bin_entries_def app_entries_names)
qed

section \<open>Property\<close>

text \<open>
  C31. The image holds every program under its name: mkfs succeeds on applications that fit, and on
  the disk image a client of the file server finds each of them in /bin by its name, and reads each
  of its bytes at its place in that inode.
\<close>

theorem mkfs_installs_programs:
  assumes "apps_fit apps" "length buf = SIZE_2MB" "length beyond = 256" "j < length apps"
  shows "\<exists>s. mkfs buf beyond (elf_named apps) = Inr s \<and>
    (\<exists>b. file_read (disk_image exec s) junk 6 0 = Inr (0, b) \<and>
       dir_lookup (block_text b) (fst (apps ! j)) = Inr (int (7 + j))) \<and>
    (\<forall>p < length (snd (apps ! j)). \<exists>b. file_read (disk_image exec s) junk (of_nat (7 + j)) (of_nat (p div 512)) = Inr (0, b) \<and>
       bytes_of b ! (p mod 512) = snd (apps ! j) ! p)"
proof -
  obtain s F ws where s: "mkfs buf beyond (elf_named apps) = Inr s" "fs_wf s 2 F"
    "\<forall>(i, off, b) \<in> set ws. spec_read (fs_files s) i off = Some b"
    "(6, 0, bin_block (dir_text (bin_entries apps)) beyond) \<in> set ws"
    "\<forall>j < length apps. holds_file ws (7 + j) (snd (apps ! j))"
    using mkfs_result [OF assms(1-3)] by metis
  have rd: "file_read (disk_image exec s) junk i off = Inr (0, b)" if "(i, off, b) \<in> set ws" for i off b
    using s(3) that file_read_image [OF s(2), of exec junk i off] by fastforce
  let ?es = "bin_entries apps" and ?nm = "fst (apps ! j)"
  let ?b = "bin_block (dir_text ?es) beyond"
  note dir = bin_is_dir(1) [OF assms(1,3)]
  have mem: "(?nm, 7 + j) \<in> set ?es"
    using assms(4) by (auto simp: bin_entries_def app_entries_def)
  then obtain xs ys where "?es = xs @ (?nm, 7 + j) # ys"
    by (meson split_list)
  then have nl: "length ?nm \<le> length (dir_text ?es)"
    by (simp add: dir_text_def dir_entry_def)
  have "map_of ?es ?nm = Some (7 + j)"
    using mem bin_is_dir(2) [OF assms(1,3)] by simp
  moreover have "good_name ?nm"
    using mem dir unfolding is_dir_def by fastforce
  ultimately have "dir_lookup (block_text ?b) ?nm = Inr (int (7 + j))"
    using dir_lookup_is_dir [OF dir _ nl] by (simp add: dir_buffer_def block_text_def)
  moreover have "\<exists>b. file_read (disk_image exec s) junk (of_nat (7 + j)) (of_nat (p div 512)) = Inr (0, b) \<and>
      bytes_of b ! (p mod 512) = snd (apps ! j) ! p" if "p < length (snd (apps ! j))" for p
    using s(5) assms(4) that rd unfolding holds_file_def by blast
  ultimately show ?thesis
    using s(1) rd [OF s(4)] by blast
qed

definition two_apps :: "(string \<times> u8 list) list" where
  "two_apps = [(''ls'', [1, 2, 3]), (''cat'', replicate 600 7)]"

lemma two_apps_fit: "apps_fit two_apps"
proof -
  have "dir_text (bin_entries two_apps) = ''./   6 ../   0 ls   7 cat   8 ''"
    by code_simp
  then show ?thesis
    by (simp add: apps_fit_def two_apps_def file_nblocks_def BLOCK_SIZE_def SIZE_2MB_def good_name_def NUL_def is_digit_def)
qed

theorem mkfs_installs_programs_witness:
  "\<exists>s b. mkfs (replicate SIZE_2MB 0) (replicate 256 0) (elf_named two_apps) = Inr s \<and>
     file_read (disk_image (\<lambda>_. null_block) s) null_block 8 1 = Inr (0, b) \<and> bytes_of b ! 87 = 7"
proof -
  from mkfs_installs_programs [OF two_apps_fit, of "replicate SIZE_2MB 0" "replicate 256 0" 1 "\<lambda>_. null_block" null_block]
  obtain s where s: "mkfs (replicate SIZE_2MB 0) (replicate 256 0) (elf_named two_apps) = Inr s"
    "\<forall>p < length (snd (two_apps ! 1)). \<exists>b. file_read (disk_image (\<lambda>_. null_block) s) null_block (of_nat (7 + 1)) (of_nat (p div 512)) = Inr (0, b) \<and>
       bytes_of b ! (p mod 512) = snd (two_apps ! 1) ! p"
    by (auto simp: two_apps_def)
  from s(2) [rule_format, of 599] show ?thesis
    using s(1) by (auto simp: two_apps_def)
qed

end
