(* ===== verification/Print.thy ===== *)
theory Print
  imports Cstring
begin

text \<open>
  Formatted printing of library/libc/print.c. A call builds its text in a buffer of 512 bytes; a
  longer text is written past the buffer. The result is what \<open>term_write\<close> receives.
\<close>

section \<open>Formats\<close>

datatype print_arg = PStr string | PInt i32

text \<open>\<open>itoa\<close> of the C library in bases 10 (signed) and 16 (unsigned).\<close>

definition itoa10 :: "i32 \<Rightarrow> string" where
  "itoa10 w = (if sint w < 0 then CHR ''-'' # show_nat (nat (- sint w)) else show_nat (nat (sint w)))"

definition hex_char :: "nat \<Rightarrow> char" where
  "hex_char d = (if d < 10 then digit_char d else char_of (87 + d))"

fun show_hex :: "nat \<Rightarrow> string" where
  "show_hex n = (if n < 16 then [hex_char n] else show_hex (n div 16) @ [hex_char (n mod 16)])"

declare show_hex.simps [simp del]

definition itoa16 :: "i32 \<Rightarrow> string" where
  "itoa16 w = show_hex (unat w)"

text \<open>
  The loop over the format. An unknown conversion prints nothing and takes no argument. A format that
  ends in a percent sign is read past its end, as is the list of arguments when it is too short.
\<close>

fun format_to_str :: "string \<Rightarrow> print_arg list \<Rightarrow> fault + string" where
  "format_to_str [] args = Inr []"
| "format_to_str (c # fmt) args =
     (if c \<noteq> CHR ''%'' then bindr (format_to_str fmt args) (\<lambda>out. Inr (c # out))
      else (case fmt of
        [] \<Rightarrow> Inl Undefined
      | k # rest \<Rightarrow>
          if k = CHR ''s'' then (case args of
              PStr s # as \<Rightarrow> bindr (format_to_str rest as) (\<lambda>out. Inr (s @ out))
            | _ \<Rightarrow> Inl Undefined)
          else if k = CHR ''d'' then (case args of
              PInt w # as \<Rightarrow> bindr (format_to_str rest as) (\<lambda>out. Inr (itoa10 w @ out))
            | _ \<Rightarrow> Inl Undefined)
          else if k = CHR ''x'' then (case args of
              PInt w # as \<Rightarrow> bindr (format_to_str rest as) (\<lambda>out. Inr (itoa16 w @ out))
            | _ \<Rightarrow> Inl Undefined)
          else format_to_str rest args))"

text \<open>The macro \<open>LOG\<close>.\<close>

definition LOG :: "string \<Rightarrow> string \<Rightarrow> string \<Rightarrow> print_arg list \<Rightarrow> fault + string" where
  "LOG prefix suffix fmt args =
     bindr (format_to_str fmt args) (\<lambda>s.
       if length prefix + length s + length suffix < 512 then Inr (prefix @ s @ suffix) else Inl Undefined)"

definition lf_cr :: string where "lf_cr = [CHR 0x0A, CHR 0x0D]"

definition my_printf :: "string \<Rightarrow> print_arg list \<Rightarrow> fault + string" where
  "my_printf = LOG [] []"

definition INFO :: "string \<Rightarrow> print_arg list \<Rightarrow> fault + string" where
  "INFO = LOG ''[INFO] '' lf_cr"

definition colour :: "string \<Rightarrow> string" where
  "colour code = CHR 0x1B # CHR ''['' # code @ ''m''"

definition SUCCESS :: "string \<Rightarrow> print_arg list \<Rightarrow> fault + string" where
  "SUCCESS = LOG (colour ''1;32'' @ ''[SUCCESS] '') (colour ''1;0'' @ lf_cr)"

definition CRITICAL :: "string \<Rightarrow> print_arg list \<Rightarrow> fault + string" where
  "CRITICAL = LOG (colour ''1;33'' @ ''[CRITICAL] '') (colour ''1;0'' @ lf_cr)"

text \<open>What \<open>FATAL\<close> prints before it loops forever.\<close>

definition FATAL_text :: "string \<Rightarrow> print_arg list \<Rightarrow> fault + string" where
  "FATAL_text = LOG (colour ''1;31'' @ ''[FATAL] '') (colour ''1;0'' @ lf_cr)"

section \<open>Lemmas\<close>

named_theorems print_formats

lemma format_plain: "CHR ''%'' \<notin> set fmt \<Longrightarrow> format_to_str (fmt @ rest) args = bindr (format_to_str rest args) (\<lambda>out. Inr (fmt @ out))"
proof (induction fmt)
  case Nil
  then show ?case
    by (cases "format_to_str rest args") auto
next
  case (Cons c fmt)
  then show ?case
    by (cases "format_to_str rest args") auto
qed

lemma LOG_str [print_formats]:
  assumes "CHR ''%'' \<notin> set a" "CHR ''%'' \<notin> set b"
  shows "LOG p q (a @ CHR ''%'' # CHR ''s'' # b) [PStr s] =
    (if length p + length a + length s + length b + length q < 512 then Inr (p @ a @ s @ b @ q) else Inl Undefined)"
  using format_plain [OF assms(2), of "[]" "[]"] by (auto simp: LOG_def format_plain [OF assms(1)])

lemma LOG_int [print_formats]:
  assumes "CHR ''%'' \<notin> set a" "CHR ''%'' \<notin> set b"
  shows "LOG p q (a @ CHR ''%'' # CHR ''d'' # b) [PInt w] =
    (if length p + length a + length (itoa10 w) + length b + length q < 512 then Inr (p @ a @ itoa10 w @ b @ q) else Inl Undefined)"
  using format_plain [OF assms(2), of "[]" "[]"] by (auto simp: LOG_def format_plain [OF assms(1)])

lemma LOG_plain [print_formats]:
  assumes "CHR ''%'' \<notin> set a"
  shows "LOG p q a [] = (if length p + length a + length q < 512 then Inr (p @ a @ q) else Inl Undefined)"
  using format_plain [OF assms, of "[]" "[]"] by (auto simp: LOG_def)

text \<open>A number printed with \<open>%d\<close> is read back by \<open>atoi\<close>.\<close>

lemma atoi_itoa10: "atoi (itoa10 w @ NUL # r) = sint w"
proof (cases "sint w < 0")
  case True
  have "atoi_digits 0 (show_nat n @ NUL # r) = int n" for n
    using atoi_digits_append [OF show_nat_digits, of 0 n "NUL # r"] atoi_digits_show [of n]
    by (simp add: is_digit_def NUL_def)
  then show ?thesis
    using True by (simp add: itoa10_def atoi_def is_space_def)
next
  case False
  then show ?thesis
    using atoi_show [of NUL 0 "nat (sint w)" r] by (simp add: itoa10_def is_digit_def NUL_def)
qed

end
