(* ===== verification/Apps.thy ===== *)
theory Apps
  imports Mkfs Print
begin

text \<open>
  The user commands of apps/user: cd, ls, cat, echo, loop and the students' grep and wcl, over what
  \<open>file_read\<close> returns. A command's result is its exit status and what it prints.
\<close>

section \<open>Files\<close>

text \<open>\<open>file_read\<close>: status and block, for an inode and an offset.\<close>

type_synonym file_server = "i32 \<Rightarrow> u32 \<Rightarrow> fault + (int \<times> block)"

text \<open>\<open>dir_lookup\<close> of a client, which does not look at the status of its read.\<close>

definition app_lookup :: "file_server \<Rightarrow> int \<Rightarrow> string \<Rightarrow> fault + int" where
  "app_lookup fr dir_ino name = bindr (fr (word_of_int dir_ino) 0) (\<lambda>(_, b). dir_lookup (block_text b) name)"

definition read_text :: "file_server \<Rightarrow> int \<Rightarrow> fault + string" where
  "read_text fr ino = bindr (fr (word_of_int ino) 0) (\<lambda>(_, b). Inr (block_text b))"

text \<open>The C string at the start of a buffer; without a null character it is read past its end.\<close>

definition c_string :: "string \<Rightarrow> fault + string" where
  "c_string buf = (case c_str buf of None \<Rightarrow> Inl Undefined | Some s \<Rightarrow> Inr s)"

section \<open>cd\<close>

text \<open>The shell's working directory, at \<open>SHELL_WORK_DIR\<close>.\<close>

record work_dir =
  workdir_ino :: int
  workdir :: string

text \<open>\<open>while (workdir[len] != '/') workdir[len--] = 0;\<close>\<close>

fun cd_up :: "string \<Rightarrow> nat \<Rightarrow> fault + nat" where
  "cd_up w len =
     (if len < length w \<and> w ! len = CHR ''/'' then Inr len
      else if len = 0 then Inl Undefined
      else cd_up w (len - 1))"

declare cd_up.simps [simp del]

text \<open>\<open>if (argv[1][strlen(argv[1]) - 1] != '/') strcat(argv[1], "/");\<close>\<close>

definition dir_arg :: "string \<Rightarrow> string" where
  "dir_arg arg = (if last arg \<noteq> CHR ''/'' then arg @ ''/'' else arg)"

definition cd :: "file_server \<Rightarrow> string list \<Rightarrow> work_dir \<Rightarrow> fault + (int \<times> string \<times> work_dir)" where
  "cd fr argv w =
     (if length argv = 1 then
        bindr (app_lookup fr 0 ''home/'') (\<lambda>home_ino.
        bindr (app_lookup fr home_ino ''yunhao/'') (\<lambda>ino.
        Inr (0, [], \<lparr>workdir_ino = ino, workdir = ''/home/yunhao''\<rparr>)))
      else if argv ! 1 = [] then Inl Undefined
      else
        let arg = dir_arg (argv ! 1) in
        bindr (app_lookup fr (workdir_ino w) arg) (\<lambda>dir_ino.
        if dir_ino = -1 then
          bindr (INFO ''cd: directory %s not found'' [PStr arg]) (\<lambda>out. Inr (-1, out, w))
        else
          let w' = w\<lparr>workdir_ino := dir_ino\<rparr> in
          if arg = ''./'' then Inr (0, [], w')
          else if arg = ''../'' then
            bindr (cd_up (workdir w) (length (workdir w))) (\<lambda>len.
            Inr (0, [], w'\<lparr>workdir := take (if len = 0 then 1 else len) (workdir w)\<rparr>))
          else
            Inr (0, [], w'\<lparr>workdir := (if length (workdir w) > 1 then workdir w @ ''/'' else workdir w) @
              take (length arg - 1) arg\<rparr>)))"

section \<open>ls\<close>

text \<open>The loop that blanks the inode numbers, for the indices \<open>1 .. strlen(buf) - 1\<close>.\<close>

definition ls_step :: "nat \<Rightarrow> string \<Rightarrow> string" where
  "ls_step i buf = (if buf ! (i - 1) = CHR '' '' \<and> is_digit (buf ! i) then buf[i := CHR '' ''] else buf)"

definition ls_blank :: "string \<Rightarrow> string" where
  "ls_blank buf = fold ls_step [1 ..< length buf] buf"

definition ls :: "file_server \<Rightarrow> string list \<Rightarrow> work_dir \<Rightarrow> fault + (int \<times> string)" where
  "ls fr argv w =
     (if length argv > 1 then
        bindr (INFO ''ls: ls with args is not implemented'' []) (\<lambda>out. Inr (-1, out))
      else
        bindr (read_text fr (workdir_ino w)) (\<lambda>buf.
        bindr (c_string buf) (\<lambda>s.
        bindr (my_printf (''%s'' @ lf_cr) [PStr (ls_blank s)]) (\<lambda>out. Inr (0, out)))))"

section \<open>cat\<close>

text \<open>For an empty file \<open>buf[strlen(buf) - 1]\<close> is before the buffer.\<close>

definition cat :: "file_server \<Rightarrow> string list \<Rightarrow> work_dir \<Rightarrow> fault + (int \<times> string)" where
  "cat fr argv w =
     (if length argv \<noteq> 2 then bindr (INFO ''usage: cat [FILE]'' []) (\<lambda>out. Inr (-1, out))
      else
        bindr (app_lookup fr (workdir_ino w) (argv ! 1)) (\<lambda>file_ino.
        if file_ino < 0 then
          bindr (INFO ''cat: file %s not found'' [PStr (argv ! 1)]) (\<lambda>out. Inr (-1, out))
        else
          bindr (read_text fr file_ino) (\<lambda>buf.
          bindr (c_string buf) (\<lambda>s.
          bindr (my_printf ''%s'' [PStr s]) (\<lambda>out.
          if s = [] then Inl Undefined
          else if last s \<noteq> CHR 0x0A then bindr (my_printf lf_cr []) (\<lambda>nl. Inr (0, out @ nl))
          else Inr (0, out))))))"

section \<open>echo and loop\<close>

definition echo :: "string list \<Rightarrow> fault + (int \<times> string)" where
  "echo argv =
     bindr (fold (\<lambda>arg r. bindr r (\<lambda>out. bindr (my_printf ''%s '' [PStr arg]) (\<lambda>s. Inr (out @ s)))) (tl argv) (Inr [])) (\<lambda>out.
     bindr (my_printf lf_cr []) (\<lambda>nl. Inr (0, out @ nl)))"

text \<open>Without an argument the loop never ends. The bound is compared as an unsigned number.\<close>

definition loop :: "string list \<Rightarrow> (fault + (int \<times> string)) option" where
  "loop argv =
     (if length argv = 1 then None
      else if length argv = 3 then Some (Inr (0, []))
      else Some (
        bindr (fold (\<lambda>i r. bindr r (\<lambda>out. bindr (my_printf (''loop #%d'' @ lf_cr) [PInt (of_nat i)]) (\<lambda>s. Inr (out @ s))))
          [0 ..< unat (word_of_int (atoi (argv ! 1)) :: u32)] (Inr [])) (\<lambda>out. Inr (0, out))))"

section \<open>grep\<close>

text \<open>
  The reading loop: \<open>buf\<close> has 4096 bytes, of which \<open>tot\<close> are read. \<open>file_read\<close> returns 0 or -1, so
  the loop stops after its first round.
\<close>

function grep_read :: "file_server \<Rightarrow> int \<Rightarrow> u32 \<Rightarrow> nat \<Rightarrow> string \<Rightarrow> fault + string" where
  "grep_read fr ino offset tot buf =
     bindr (fr (word_of_int ino) offset) (\<lambda>(rc, b).
       let buf' = take tot buf @ block_text b @ drop (tot + 512) buf in
       if rc \<le> 0 then Inr buf'
       else if tot + nat rc \<ge> 4096 - 512 then Inr buf'
       else grep_read fr ino (offset + 512) (tot + nat rc) buf')"
  by pat_completeness auto

termination
  by (relation "measure (\<lambda>(fr, ino, offset, tot, buf). 4096 - tot)") auto

text \<open>\<open>strstr(s, p)\<close>\<close>

definition strstr :: "string \<Rightarrow> string \<Rightarrow> bool" where
  "strstr s p = list_ex (\<lambda>i. take (length p) (drop i s) = p) [0 ..< Suc (length s)]"

text \<open>One call of \<open>strtok\<close> for the separator newline: the token and the rest of the string.\<close>

definition strtok_lf :: "string \<Rightarrow> (string \<times> string) option" where
  "strtok_lf s = (let t = dropWhile (\<lambda>c. c = CHR 0x0A) s in
     if t = [] then None
     else Some (takeWhile (\<lambda>c. c \<noteq> CHR 0x0A) t, drop 1 (dropWhile (\<lambda>c. c \<noteq> CHR 0x0A) t)))"

lemma strtok_lf_shorter: "strtok_lf s = Some (line, rest) \<Longrightarrow> length rest < length s"
proof -
  assume a: "strtok_lf s = Some (line, rest)"
  let ?t = "dropWhile (\<lambda>c. c = CHR 0x0A) s"
  have t: "?t \<noteq> []" "rest = drop 1 (dropWhile (\<lambda>c. c \<noteq> CHR 0x0A) ?t)"
    using a by (auto simp: strtok_lf_def Let_def split: if_splits)
  have "length (dropWhile (\<lambda>c. c \<noteq> CHR 0x0A) ?t) \<le> length ?t" "length ?t \<le> length s"
    by (simp_all add: length_dropWhile_le)
  then show "length rest < length s"
    using t length_dropWhile_le [of _ ?t] by (cases ?t) (auto simp: hd_dropWhile)
qed

function grep_lines :: "string \<Rightarrow> string \<Rightarrow> fault + string" where
  "grep_lines pattern s =
     (case strtok_lf s of
        None \<Rightarrow> Inr []
      | Some (line, rest) \<Rightarrow>
          bindr (if strstr line pattern then INFO (''%s'' @ [CHR 0x0A]) [PStr line] else Inr []) (\<lambda>out.
          bindr (grep_lines pattern rest) (\<lambda>outs. Inr (out @ outs))))"
  by pat_completeness auto

termination
  by (relation "measure (\<lambda>(pattern, s). length s)") (auto dest: strtok_lf_shorter)

declare grep_read.simps [simp del] grep_lines.simps [simp del]

definition grep :: "file_server \<Rightarrow> string list \<Rightarrow> work_dir \<Rightarrow> fault + (int \<times> string)" where
  "grep fr argv w =
     (if length argv \<noteq> 3 then bindr (INFO (''Incorrect input'' @ [CHR 0x0A]) []) (\<lambda>out. Inr (-1, out))
      else
        bindr (app_lookup fr (workdir_ino w) (argv ! 2)) (\<lambda>ino.
        if ino < 0 then bindr (INFO (''grep file not found'' @ [CHR 0x0A]) []) (\<lambda>out. Inr (-1, out))
        else
          bindr (grep_read fr ino 0 0 (replicate 4096 NUL)) (\<lambda>buf.
          bindr (c_string buf) (\<lambda>s.
          bindr (grep_lines (argv ! 1) s) (\<lambda>out. Inr (0, out))))))"

section \<open>wcl\<close>

text \<open>The loop over the files: output so far, newlines, and the number of files found.\<close>

fun wcl_loop :: "file_server \<Rightarrow> int \<Rightarrow> string list \<Rightarrow> string \<Rightarrow> nat \<Rightarrow> nat \<Rightarrow> fault + (string \<times> nat \<times> nat)" where
  "wcl_loop fr dir [] out tot correction = Inr (out, tot, correction)"
| "wcl_loop fr dir (f # files) out tot correction =
     bindr (app_lookup fr dir f) (\<lambda>ino.
     if ino < 0 then
       bindr (INFO (''File %s not found'' @ [CHR 0x0A]) [PStr f]) (\<lambda>s. wcl_loop fr dir files (out @ s) tot correction)
     else
       bindr (read_text fr ino) (\<lambda>buf.
       bindr (c_string buf) (\<lambda>s.
       wcl_loop fr dir files out (tot + count_list s (CHR 0x0A)) (correction + 1))))"

definition wcl :: "file_server \<Rightarrow> string list \<Rightarrow> work_dir \<Rightarrow> fault + (int \<times> string)" where
  "wcl fr argv w =
     (if length argv < 2 then bindr (INFO (''Incorrect input'' @ [CHR 0x0A]) []) (\<lambda>out. Inr (-1, out))
      else
        bindr (wcl_loop fr (workdir_ino w) (tl argv) [] 0 0) (\<lambda>(out, tot, correction).
        bindr (INFO (''%d'' @ [CHR 0x0A]) [PInt (of_nat (tot + correction))]) (\<lambda>s. Inr (0, out @ s))))"

end
