(* ===== verification/Apps_Props.thy ===== *)
theory Apps_Props
  imports Apps
begin

text \<open>
  What the user commands do: cd keeps the path in step with the inode over a tree of directories, ls
  blanks the inode numbers, grep prints the matching lines of the first block, wcl adds up lines.
\<close>

section \<open>Directories and texts behind the server\<close>

definition holds_dir :: "file_server \<Rightarrow> nat \<Rightarrow> (string \<times> nat) list \<Rightarrow> bool" where
  "holds_dir fr i es \<longleftrightarrow> (\<exists>rc b. fr (of_nat i) 0 = Inr (rc, b) \<and> is_dir (\<lambda>_ _. bytes_of b) 0 es)"

definition holds_text :: "file_server \<Rightarrow> int \<Rightarrow> string \<Rightarrow> bool" where
  "holds_text fr i t \<longleftrightarrow> NUL \<notin> set t \<and> (\<exists>rc b pad. rc \<le> 0 \<and> fr (word_of_int i) 0 = Inr (rc, b) \<and> block_text b = t @ NUL # pad)"

lemma app_lookup_dir:
  assumes "holds_dir fr i es" "good_name name" "length name \<le> length (dir_text es)"
  shows "app_lookup fr (int i) name = Inr (case map_of es name of None \<Rightarrow> -1 | Some j \<Rightarrow> int j)"
proof -
  obtain rc b where b: "fr (of_nat i) 0 = Inr (rc, b)" "is_dir (\<lambda>_ _. bytes_of b) 0 es"
    using assms(1) unfolding holds_dir_def by blast
  have "dir_lookup (block_text b) name = Inr (case map_of es name of None \<Rightarrow> -1 | Some j \<Rightarrow> int j)"
    using dir_lookup_is_dir [OF b(2) assms(2,3)] by (simp add: dir_buffer_def block_text_def)
  then show ?thesis
    using b(1) by (simp add: app_lookup_def)
qed

lemma holds_text_read: "holds_text fr i t \<Longrightarrow> \<exists>buf. read_text fr i = Inr buf \<and> c_string buf = Inr t"
  by (auto simp: holds_text_def read_text_def c_string_def c_str_append)

section \<open>Paths\<close>

definition plain_dir :: "string \<Rightarrow> bool" where
  "plain_dir n \<longleftrightarrow> n \<noteq> [] \<and> CHR ''/'' \<notin> set n \<and> n \<noteq> ''.'' \<and> n \<noteq> ''..''"

definition slashed :: "string list \<Rightarrow> string" where
  "slashed ns = concat (map (\<lambda>n. CHR ''/'' # n) ns)"

definition path_text :: "string list \<Rightarrow> string" where
  "path_text ns = (if ns = [] then ''/'' else slashed ns)"

type_synonym dirs = "nat \<Rightarrow> (string \<times> nat) list option"

fun resolve :: "dirs \<Rightarrow> nat \<Rightarrow> string list \<Rightarrow> nat option" where
  "resolve T i [] = Some i"
| "resolve T i (n # ns) = (case T i of
     None \<Rightarrow> None
   | Some es \<Rightarrow> (case map_of es (n @ ''/'') of None \<Rightarrow> None | Some j \<Rightarrow> resolve T j ns))"

text \<open>
  A tree of directories: every directory names itself and its parent, and a name that ends in a slash
  is a directory with this one as its parent.
\<close>

definition dir_tree :: "file_server \<Rightarrow> dirs \<Rightarrow> bool" where
  "dir_tree fr T \<longleftrightarrow> T 0 \<noteq> None \<and> (\<forall>es. T 0 = Some es \<longrightarrow> map_of es ''../'' = Some 0) \<and>
     (\<forall>i es. T i = Some es \<longrightarrow> holds_dir fr i es \<and> map_of es ''./'' = Some i \<and>
        (\<forall>nm j. map_of es nm = Some j \<longrightarrow> last nm = CHR ''/'' \<longrightarrow> nm \<noteq> ''./'' \<longrightarrow> nm \<noteq> ''../'' \<longrightarrow>
           plain_dir (butlast nm) \<and> (\<exists>es'. T j = Some es' \<and> map_of es' ''../'' = Some i)))"

text \<open>\<open>work_dir\<close> is the directory of the path \<open>ns\<close>.\<close>

definition at_path :: "dirs \<Rightarrow> work_dir \<Rightarrow> string list \<Rightarrow> bool" where
  "at_path T w ns \<longleftrightarrow> list_all plain_dir ns \<and> workdir w = path_text ns \<and>
     (\<exists>i. resolve T 0 ns = Some i \<and> workdir_ino w = int i \<and> T i \<noteq> None)"

text \<open>The path the argument leads to.\<close>

definition cd_path :: "dirs \<Rightarrow> string list \<Rightarrow> string \<Rightarrow> string list" where
  "cd_path T ns arg = (let a = dir_arg arg in
     if a = ''./'' then ns
     else if a = ''../'' then butlast ns
     else if resolve T 0 (ns @ [butlast a]) = None then ns
     else ns @ [butlast a])"

definition cd_arg :: "dirs \<Rightarrow> string \<Rightarrow> bool" where
  "cd_arg T arg \<longleftrightarrow> arg \<noteq> [] \<and> CHR '' '' \<notin> set arg \<and> NUL \<notin> set arg \<and> length arg < 32 \<and>
     (\<forall>i es. T i = Some es \<longrightarrow> length arg < length (dir_text es))"

lemma resolve_snoc:
  "resolve T i (ns @ [n]) = (case resolve T i ns of None \<Rightarrow> None | Some j \<Rightarrow>
     (case T j of None \<Rightarrow> None | Some es \<Rightarrow> map_of es (n @ ''/'')))"
  by (induction T i ns rule: resolve.induct) (auto split: option.split)

lemma dir_arg_facts:
  assumes "cd_arg T arg"
  shows "good_name (dir_arg arg)" "last (dir_arg arg) = CHR ''/''" "butlast (dir_arg arg) @ ''/'' = dir_arg arg"
    "length (dir_arg arg) \<le> Suc (length arg)"
proof -
  have a: "dir_arg arg \<noteq> []" "last (dir_arg arg) = CHR ''/''" "CHR '' '' \<notin> set (dir_arg arg)" "NUL \<notin> set (dir_arg arg)"
    using assms by (auto simp: cd_arg_def dir_arg_def NUL_def)
  have "CHR ''/'' \<in> set (dir_arg arg)" "\<not> is_digit (CHR ''/'')"
    using a(1,2) last_in_set by (metis, simp add: is_digit_def)
  then show "good_name (dir_arg arg)"
    using a by (auto simp: good_name_def list_all_iff)
  show "last (dir_arg arg) = CHR ''/''"
    by (rule a(2))
  show "butlast (dir_arg arg) @ ''/'' = dir_arg arg"
    using a(1,2) by (metis append_butlast_last_id)
  show "length (dir_arg arg) \<le> Suc (length arg)"
    by (simp add: dir_arg_def)
qed

lemma cd_up_slash:
  assumes "CHR ''/'' \<notin> set n"
  shows "cd_up (p @ CHR ''/'' # n) (length (p @ CHR ''/'' # n)) = Inr (length p)"
proof -
  let ?w = "p @ CHR ''/'' # n"
  have "cd_up ?w (length p + k) = Inr (length p)" if "k \<le> Suc (length n)" for k
    using that
  proof (induction k)
    case 0
    then show ?case
      by (subst cd_up.simps) simp
  next
    case (Suc k)
    have "\<not> (length p + Suc k < length ?w \<and> ?w ! (length p + Suc k) = CHR ''/'')"
      using assms Suc.prems by (auto simp: nth_append in_set_conv_nth)
    then show ?case
      using Suc by (subst cd_up.simps) (use Suc in auto)
  qed
  from this [of "Suc (length n)"] show ?thesis
    by simp
qed

lemma slashed_snoc: "slashed (ns @ [n]) = slashed ns @ CHR ''/'' # n"
  by (simp add: slashed_def)

lemma slashed_long: "list_all plain_dir ns \<Longrightarrow> ns \<noteq> [] \<Longrightarrow> 1 < length (slashed ns)"
  by (cases ns) (auto simp: slashed_def plain_dir_def)

lemma dir_tree_child:
  assumes "dir_tree fr T" "T i = Some es" "map_of es nm = Some j" "last nm = CHR ''/''" "nm \<noteq> ''./''" "nm \<noteq> ''../''"
  shows "plain_dir (butlast nm)" "\<exists>es'. T j = Some es' \<and> map_of es' ''../'' = Some i"
  using assms unfolding dir_tree_def by blast+

text \<open>One command.\<close>

lemma cd_step:
  assumes tree: "dir_tree fr T" and w: "at_path T w ns" and arg: "cd_arg T arg"
  shows "\<exists>rc out w'. cd fr [''cd'', arg] w = Inr (rc, out, w') \<and> at_path T w' (cd_path T ns arg)"
proof -
  let ?a = "dir_arg arg"
  note a = dir_arg_facts [OF arg]
  obtain i es where i: "list_all plain_dir ns" "workdir w = path_text ns" "resolve T 0 ns = Some i" "workdir_ino w = int i"
    "T i = Some es"
    using w unfolding at_path_def by blast
  have es: "holds_dir fr i es" "map_of es ''./'' = Some i"
    using tree i(5) unfolding dir_tree_def by blast+
  have "length ?a \<le> length (dir_text es)"
    using arg i(5) a(4) unfolding cd_arg_def by fastforce
  then have look: "app_lookup fr (workdir_ino w) ?a = Inr (case map_of es ?a of None \<Rightarrow> -1 | Some j \<Rightarrow> int j)"
    unfolding i(4) by (rule app_lookup_dir [OF es(1) a(1)])
  have arg': "arg \<noteq> []" "length ?a < 40"
    using arg a(4) by (auto simp: cd_arg_def)
  have cd: "cd fr [''cd'', arg] w = bindr (app_lookup fr (workdir_ino w) ?a) (\<lambda>dir_ino.
        if dir_ino = -1 then
          bindr (INFO ''cd: directory %s not found'' [PStr ?a]) (\<lambda>out. Inr (-1, out, w))
        else
          let w' = w\<lparr>workdir_ino := dir_ino\<rparr> in
          if ?a = ''./'' then Inr (0, [], w')
          else if ?a = ''../'' then
            bindr (cd_up (workdir w) (length (workdir w))) (\<lambda>len.
            Inr (0, [], w'\<lparr>workdir := take (if len = 0 then 1 else len) (workdir w)\<rparr>))
          else
            Inr (0, [], w'\<lparr>workdir := (if length (workdir w) > 1 then workdir w @ ''/'' else workdir w) @
              take (length ?a - 1) ?a\<rparr>))"
    using arg'(1) by (simp add: cd_def Let_def)
  have snoc: "resolve T 0 (ns @ [butlast ?a]) = map_of es ?a"
    by (simp add: resolve_snoc i(3,5) a(3))
  consider (here) "?a = ''./''" | (up) "?a = ''../''" | (gone) "?a \<noteq> ''./''" "?a \<noteq> ''../''" "map_of es ?a = None"
    | (down) j where "?a \<noteq> ''./''" "?a \<noteq> ''../''" "map_of es ?a = Some j"
    by blast
  then show ?thesis
  proof cases
    case here
    then show ?thesis
      using i es(2) look unfolding cd by (simp add: at_path_def cd_path_def Let_def)
  next
    case up
    show ?thesis
    proof (cases ns rule: rev_cases)
      case Nil
      have "i = 0" "map_of es ''../'' = Some 0"
        using i(3,5) tree Nil unfolding dir_tree_def by auto
      moreover have "cd_up ''/'' 1 = Inr 0"
        by (simp add: cd_up.simps)
      ultimately show ?thesis
        using up i look Nil unfolding cd by (simp add: at_path_def cd_path_def Let_def path_text_def)
    next
      case (snoc ms m)
      obtain h hs where h: "resolve T 0 ms = Some h" "T h = Some hs" "map_of hs (m @ ''/'') = Some i"
        using i(3) snoc by (auto simp: resolve_snoc split: option.splits)
      have m: "plain_dir m" "list_all plain_dir ms"
        using i(1) snoc by simp_all
      then have "last (m @ ''/'') = CHR ''/''" "m @ ''/'' \<noteq> ''./''" "m @ ''/'' \<noteq> ''../''"
        by (auto simp: plain_dir_def append_eq_Cons_conv)
      then have "map_of es ''../'' = Some h"
        using dir_tree_child [OF tree h(2,3)] i(5) by auto
      moreover have "workdir w = slashed ms @ CHR ''/'' # m"
        using i(2) snoc by (simp add: path_text_def slashed_snoc)
      moreover have "take (if length (slashed ms) = 0 then 1 else length (slashed ms)) (slashed ms @ CHR ''/'' # m) = path_text ms"
        by (cases ms) (auto simp: path_text_def slashed_def)
      ultimately show ?thesis
        using up look h(1,2) m snoc cd_up_slash [of m "slashed ms"] unfolding cd
        by (simp add: at_path_def cd_path_def Let_def plain_dir_def)
    qed
  next
    case gone
    have "\<exists>out. INFO ''cd: directory %s not found'' [PStr ?a] = Inr out"
      using LOG_str [of "''cd: directory ''" "'' not found''" "''[INFO] ''" lf_cr ?a] arg'(2)
      by (simp add: INFO_def lf_cr_def)
    then show ?thesis
      using gone look w snoc unfolding cd by (auto simp: cd_path_def Let_def)
  next
    case down
    have p: "plain_dir (butlast ?a)" "T j \<noteq> None"
      using dir_tree_child [OF tree i(5) down(3) a(2) down(1,2)] by auto
    have "(if length (workdir w) > 1 then workdir w @ ''/'' else workdir w) @ take (length ?a - 1) ?a = path_text (ns @ [butlast ?a])"
      using slashed_long [OF i(1)] by (auto simp: i(2) path_text_def slashed_snoc butlast_conv_take) (auto simp: slashed_def)
    then show ?thesis
      using down look snoc p i(1) unfolding cd by (auto simp: at_path_def cd_path_def Let_def)
  qed
qed

fun cds :: "file_server \<Rightarrow> string list \<Rightarrow> work_dir \<Rightarrow> fault + work_dir" where
  "cds fr [] w = Inr w"
| "cds fr (arg # args) w = bindr (cd fr [''cd'', arg] w) (\<lambda>(rc, out, w'). cds fr args w')"


section \<open>The tree on the image\<close>

text \<open>The directories mkfs writes, as a tree.\<close>

definition image_dirs :: "(string \<times> u8 list) list \<Rightarrow> dirs" where
  "image_dirs apps i =
     (if i = 0 then Some [(''./'', 0), (''../'', 0), (''home/'', 1), (''bin/'', 6)]
      else if i = 1 then Some home_entries
      else if i = 2 then Some [(''./'', 2), (''../'', 1), (''README'', 5)]
      else if i = 3 then Some [(''./'', 3), (''../'', 1)]
      else if i = 4 then Some [(''./'', 4), (''../'', 1)]
      else if i = 6 then Some (bin_entries apps)
      else None)"

lemma image_dir_texts:
  "i < 5 \<Longrightarrow> image_dirs apps i = Some es \<Longrightarrow> contents ! i = dir_text es"
proof -
  have "dir_text [(''./'', 0), (''../'', 0), (''home/'', 1), (''bin/'', 6)] = contents ! 0"
    "dir_text [(''./'', 2), (''../'', 1), (''README'', 5)] = contents ! 2"
    "dir_text [(''./'', 3), (''../'', 1)] = contents ! 3" "dir_text [(''./'', 4), (''../'', 1)] = contents ! 4"
    by code_simp+
  then show "i < 5 \<Longrightarrow> image_dirs apps i = Some es \<Longrightarrow> contents ! i = dir_text es"
    using home_text by (auto simp: image_dirs_def contents_def less_Suc_eq numeral_eq_Suc)
qed

lemma home_entries_eq: "home_entries = [(''./'', 1), (''../'', 0), (''yunhao/'', 2), (''rvr/'', 3), (''yacqub/'', 4)]"
  by code_simp

lemma image_dirs_good: "image_dirs apps i = Some es \<Longrightarrow> i < 5 \<Longrightarrow> \<forall>(nm, j) \<in> set es. good_name nm \<and> j < 1000"
  by (auto simp: image_dirs_def home_entries_eq good_name_def NUL_def is_digit_def split: if_splits)

text \<open>The parents and children; no application is named like a directory.\<close>

lemma image_dirs_links:
  assumes fit: "apps_fit apps" and names: "\<forall>nm \<in> fst ` set apps. last nm \<noteq> CHR ''/''"
    and e: "image_dirs apps i = Some es" "map_of es nm = Some j" "last nm = CHR ''/''" "nm \<noteq> ''./''" "nm \<noteq> ''../''"
  shows "plain_dir (butlast nm) \<and> (\<exists>es'. image_dirs apps j = Some es' \<and> map_of es' ''../'' = Some i)"
proof (cases "i = 6")
  case True
  have "es = bin_entries apps"
    using e(1) True by (simp add: image_dirs_def)
  then have "nm \<in> fst ` set (bin_entries apps)"
    using map_of_SomeD [OF e(2)] by force
  then have "nm \<in> fst ` set apps"
    using e(4,5) by (auto simp: bin_entries_def app_entries_names)
  then show ?thesis
    using names e(3) by blast
next
  case False
  then show ?thesis
    using e by (auto simp: image_dirs_def home_entries_eq bin_entries_def plain_dir_def split: if_splits)
qed

lemma image_tree:
  assumes fit: "apps_fit apps" "length buf = SIZE_2MB" "length beyond = 256"
    and names: "\<forall>nm \<in> fst ` set apps. last nm \<noteq> CHR ''/''"
  obtains s where "mkfs buf beyond (elf_named apps) = Inr s"
    "dir_tree (file_read (disk_image exec s) junk) (image_dirs apps)"
    "\<And>i. i < 6 \<Longrightarrow> file_read (disk_image exec s) junk (of_nat i) 0 = Inr (0, text_block (contents ! i))"
proof -
  obtain s F ws where s: "mkfs buf beyond (elf_named apps) = Inr s" "fs_wf s 2 F"
    "\<forall>(i, off, b) \<in> set ws. spec_read (fs_files s) i off = Some b"
    "(6, 0, bin_block (dir_text (bin_entries apps)) beyond) \<in> set ws" "set content_writes \<subseteq> set ws"
    using mkfs_result [OF fit] by metis
  let ?fr = "file_read (disk_image exec s) junk" and ?T = "image_dirs apps"
  have rd: "?fr i off = Inr (0, b)" if "(i, off, b) \<in> set ws" for i off b
    using s(3) that file_read_image [OF s(2), of exec junk i off] by fastforce
  have c: "?fr (of_nat i) 0 = Inr (0, text_block (contents ! i))" if "i < 6" for i
    using that s(5) by (intro rd) (auto simp: content_writes_def BIN_DIR_INODE_def)
  have dirs: "holds_dir ?fr i es" if "?T i = Some es" for i es
  proof (cases "i = 6")
    case True
    then have "es = bin_entries apps"
      using that by (simp add: image_dirs_def)
    then show ?thesis
      using rd [OF s(4)] bin_is_dir(1) [OF fit(1,3)] True unfolding holds_dir_def by auto
  next
    case False
    then have i: "i < 5"
      using that by (auto simp: image_dirs_def split: if_splits)
    have t: "contents ! i = dir_text es" "length (dir_text es) < 512"
      using image_dir_texts [OF i that] contents_short(2) [of i] i by simp_all
    obtain pad where "block_text (text_block (dir_text es)) = dir_text es @ NUL # pad"
      using text_block_facts(2) [OF t(2)] by blast
    then have "is_dir (\<lambda>_ _. bytes_of (text_block (contents ! i))) 0 es"
      using image_dirs_good [OF that i] t by (auto simp: is_dir_def dir_buffer_def block_text_def)
    then show ?thesis
      using c [of i] i unfolding holds_dir_def by auto
  qed
  have self: "map_of es ''./'' = Some i" if "?T i = Some es" for i es
    using that by (auto simp: image_dirs_def home_entries_eq bin_entries_def split: if_splits)
  have "dir_tree ?fr ?T"
    unfolding dir_tree_def using dirs self image_dirs_links [OF fit(1) names]
    by (auto simp: image_dirs_def [of _ 0])
  then show thesis
    using s(1) c that by blast
qed


end
