(* ===== verification/Apps_Text.thy ===== *)
theory Apps_Text
  imports Apps_Props
begin

text \<open>
  The commands that print texts: ls on a directory, cat, wcl and grep on the first block of files.
\<close>

section \<open>ls\<close>

text \<open>The loop of ls from the character after \<open>p\<close> on.\<close>

fun blank :: "char \<Rightarrow> string \<Rightarrow> string" where
  "blank p [] = []"
| "blank p (c # cs) = (if p = CHR '' '' \<and> is_digit c then CHR '' '' # blank (CHR '' '') cs else c # blank c cs)"

lemma length_blank [simp]: "length (blank p s) = length s"
  by (induction p s rule: blank.induct) simp_all

lemma ls_loop: "xs \<noteq> [] \<Longrightarrow> fold ls_step [length xs ..< length xs + length ys] (xs @ ys) = xs @ blank (last xs) ys"
proof (induction ys arbitrary: xs)
  case (Cons c cs)
  let ?c = "if last xs = CHR '' '' \<and> is_digit c then CHR '' '' else c"
  have "[length xs ..< length xs + length (c # cs)] = length xs # [length (xs @ [?c]) ..< length (xs @ [?c]) + length cs]"
    using upt_conv_Cons [of "length xs" "length xs + Suc (length cs)"] by simp
  moreover have "ls_step (length xs) (xs @ c # cs) = (xs @ [?c]) @ cs"
    using Cons.prems by (auto simp: ls_step_def nth_append last_conv_nth list_update_append)
  ultimately show ?case
    using Cons.IH [of "xs @ [?c]"] by (simp add: Let_def)
qed simp

lemma ls_blank_eq: "ls_blank (c # cs) = c # blank c cs"
  using ls_loop [of "[c]" cs] by (simp add: ls_blank_def)

lemma blank_word: "CHR '' '' \<notin> set u \<Longrightarrow> p \<noteq> CHR '' '' \<Longrightarrow> blank p (u @ CHR '' '' # s) = u @ CHR '' '' # blank (CHR '' '') s"
proof (induction u arbitrary: p)
  case (Cons c u)
  then have "c \<noteq> CHR '' ''"
    by auto
  then show ?case
    using Cons.IH [of c] Cons.prems by simp
qed (simp add: is_digit_def)

lemma blank_spaces: "blank (CHR '' '') (replicate m (CHR '' '') @ s) = replicate m (CHR '' '') @ blank (CHR '' '') s"
  by (induction m) (simp_all add: is_digit_def)

lemma blank_digits: "list_all is_digit ds \<Longrightarrow> blank (CHR '' '') (ds @ s) = replicate (length ds) (CHR '' '') @ blank (CHR '' '') s"
  by (induction ds) simp_all

definition ls_name :: "string \<Rightarrow> bool" where
  "ls_name nm \<longleftrightarrow> good_name nm \<and> \<not> is_digit (hd nm)"

lemma dir_entry_parts:
  assumes "i < 1000"
  obtains m where "dir_entry nm i = nm @ CHR '' '' # replicate m (CHR '' '') @ show_nat i @ '' ''" "m + length (show_nat i) = 3"
proof -
  have "length (show_nat i) \<le> 3"
    by (rule length_show_nat [OF assms])
  then have "pad_left 4 (show_nat i) = CHR '' '' # replicate (3 - length (show_nat i)) (CHR '' '') @ show_nat i"
    by (simp add: pad_left_def Suc_diff_le flip: replicate_Suc)
  then show thesis
    using \<open>length (show_nat i) \<le> 3\<close> by (intro that [of "3 - length (show_nat i)"]) (simp_all add: dir_entry_def)
qed

lemma blank_number:
  assumes "m + length (show_nat i) = 3"
  shows "blank (CHR '' '') (replicate m (CHR '' '') @ show_nat i @ CHR '' '' # s) = ''    '' @ blank (CHR '' '') s"
proof -
  have "list_all is_digit (show_nat i)"
    using show_nat_digits [of i] by (simp add: list_all_iff)
  then have "blank (CHR '' '') (replicate m (CHR '' '') @ show_nat i @ CHR '' '' # s) =
      replicate m (CHR '' '') @ replicate (length (show_nat i)) (CHR '' '') @ CHR '' '' # blank (CHR '' '') s"
    by (simp add: blank_spaces blank_digits)
  also have "\<dots> = replicate 3 (CHR '' '') @ CHR '' '' # blank (CHR '' '') s"
    using assms by (simp flip: replicate_add append_assoc)
  finally show ?thesis
    by (simp add: numeral_eq_Suc)
qed

lemma blank_dir_text:
  "\<forall>(nm, i) \<in> set es. ls_name nm \<and> i < 1000 \<Longrightarrow>
   blank (CHR '' '') (dir_text es) = concat (map (\<lambda>(nm, i). nm @ ''     '') es)"
proof (induction es)
  case (Cons e es)
  obtain nm i where e: "e = (nm, i)"
    by (cases e)
  then have n: "ls_name nm" "i < 1000"
    using Cons.prems by auto
  obtain m where m: "dir_entry nm i = nm @ CHR '' '' # replicate m (CHR '' '') @ show_nat i @ '' ''" "m + length (show_nat i) = 3"
    by (rule dir_entry_parts [OF n(2)])
  obtain c cs where c: "nm = c # cs" "c \<noteq> CHR '' ''" "CHR '' '' \<notin> set cs" "\<not> is_digit c"
    using n(1) by (cases nm) (auto simp: ls_name_def good_name_def)
  have "dir_text (e # es) = c # cs @ CHR '' '' # replicate m (CHR '' '') @ show_nat i @ CHR '' '' # dir_text es"
    using m(1) by (simp add: dir_text_def e c(1))
  then show ?case
    using Cons c by (simp add: blank_word blank_number [OF m(2)] e)
qed (simp add: dir_text_def)

text \<open>
  ls on a directory prints the names of its entries, each followed by five spaces in place of
  its number, provided no name begins with a digit.
\<close>

lemma ls_shows_names:
  assumes "holds_dir fr i es" "es \<noteq> []" "\<forall>(nm, j) \<in> set es. \<not> is_digit (hd nm)" "length (dir_text es) \<le> 509"
  shows "ls fr [''ls''] \<lparr>workdir_ino = int i, workdir = path\<rparr> = Inr (0, concat (map (\<lambda>(nm, j). nm @ ''     '') es) @ lf_cr)"
proof -
  obtain rc b pad where b: "fr (of_nat i) 0 = Inr (rc, b)" "\<forall>(nm, j) \<in> set es. good_name nm \<and> j < 1000"
    "block_text b = dir_text es @ NUL # pad"
    using assms(1) by (auto simp: holds_dir_def is_dir_def dir_buffer_def block_text_def)
  have n: "\<forall>(nm, j) \<in> set es. ls_name nm \<and> j < 1000"
    using b(2) assms(3) by (auto simp: ls_name_def)
  obtain nm j es' where es: "es = (nm, j) # es'"
    using assms(2) by (cases es) auto
  have "dir_text es \<noteq> []"
    by (simp add: es dir_text_def dir_entry_def)
  then obtain c cs where c: "dir_text es = c # cs"
    by (cases "dir_text es") auto
  have "c \<noteq> CHR '' ''" "\<not> is_digit c"
    using n c es by (cases nm; auto simp: dir_text_def dir_entry_def ls_name_def good_name_def)+
  then have bl: "ls_blank (dir_text es) = concat (map (\<lambda>(nm, j). nm @ ''     '') es)"
    using blank_dir_text [OF n] by (simp add: c ls_blank_eq)
  have "NUL \<notin> set (dir_text es)"
    using b(2) by (intro dir_text_no_nul) auto
  then have "read_text fr (int i) = Inr (dir_text es @ NUL # pad)" "c_string (dir_text es @ NUL # pad) = Inr (dir_text es)"
    using b(1,3) by (simp_all add: read_text_def c_string_def c_str_append)
  moreover have "length (ls_blank (dir_text es)) \<le> 509"
    using assms(4) by (simp add: c ls_blank_eq)
  ultimately show ?thesis
    using bl LOG_str [of "[]" lf_cr "[]" "[]" "ls_blank (dir_text es)"] by (simp add: ls_def my_printf_def lf_cr_def)
qed

lemma ls_shows_names_example:
  "\<exists>s. mkfs (replicate SIZE_2MB 0) (replicate 256 0) (elf_named two_apps) = Inr s \<and>
     ls (file_read (disk_image (\<lambda>_. null_block) s) null_block) [''ls''] \<lparr>workdir_ino = 1, workdir = ''/home''\<rparr> =
       Inr (0, ''./     ../     yunhao/     rvr/     yacqub/     '' @ lf_cr)"
proof -
  have l: "length (replicate SIZE_2MB (0 :: u8)) = SIZE_2MB" "length (replicate 256 (0 :: u8)) = 256"
    by simp_all
  have names: "\<forall>nm \<in> fst ` set two_apps. last nm \<noteq> CHR ''/''"
    by (simp add: two_apps_def)
  obtain s where s: "mkfs (replicate SIZE_2MB 0) (replicate 256 0) (elf_named two_apps) = Inr s"
    "dir_tree (file_read (disk_image (\<lambda>_. null_block) s) null_block) (image_dirs two_apps)"
    by (rule image_tree [OF two_apps_fit l names])
  then have d: "holds_dir (file_read (disk_image (\<lambda>_. null_block) s) null_block) 1 home_entries"
    unfolding dir_tree_def by (simp add: image_dirs_def)
  have e: "home_entries \<noteq> []" "\<forall>(nm, j) \<in> set home_entries. \<not> is_digit (hd nm)"
    "concat (map (\<lambda>(nm, j). nm @ ''     '') home_entries) = ''./     ../     yunhao/     rvr/     yacqub/     ''"
    by (simp_all add: home_entries_eq is_digit_def)
  have t: "length (dir_text home_entries) \<le> 509"
    by (simp add: home_text)
  show ?thesis
    using s(1) ls_shows_names [OF d e(1,2) t] e(3) by auto
qed

text \<open>A name that begins with a digit loses its digits.\<close>

lemma ls_eats_digits: "ls_blank ''./   1 2048   7 '' = ''./'' @ replicate 14 (CHR '' '')"
  by code_simp

section \<open>cat and wcl\<close>

lemma cat_prints:
  assumes "app_lookup fr (workdir_ino w) name = Inr i" "0 \<le> i" "holds_text fr i t" "t \<noteq> []" "length t < 512"
  shows "cat fr [''cat'', name] w = Inr (0, if last t = CHR 0x0A then t else t @ lf_cr)"
proof -
  obtain buf where "read_text fr i = Inr buf" "c_string buf = Inr t"
    using holds_text_read [OF assms(3)] by blast
  then show ?thesis
    using assms(1,2,4,5) LOG_str [of "[]" "[]" "[]" "[]" t] LOG_plain [of lf_cr "[]" "[]"]
    by (simp add: cat_def my_printf_def lf_cr_def)
qed

lemma cat_empty_file:
  assumes "app_lookup fr (workdir_ino w) name = Inr i" "0 \<le> i" "holds_text fr i []"
  shows "cat fr [''cat'', name] w = Inl Undefined"
proof -
  obtain buf where "read_text fr i = Inr buf" "c_string buf = Inr []"
    using holds_text_read [OF assms(3)] by blast
  then show ?thesis
    using assms(1,2) LOG_str [of "[]" "[]" "[]" "[]" "[]"] by (simp add: cat_def my_printf_def)
qed

text \<open>wcl counts one line more than there are newlines in each file it finds.\<close>

lemma wcl_loop_found:
  "list_all2 (\<lambda>f t. \<exists>i. app_lookup fr dir f = Inr i \<and> 0 \<le> i \<and> holds_text fr i t) files texts \<Longrightarrow>
   wcl_loop fr dir files out n c = Inr (out, n + (\<Sum>t \<leftarrow> texts. count_list t (CHR 0x0A)), c + length texts)"
proof (induction files texts arbitrary: n c rule: list_all2_induct)
  case (Cons f files t texts)
  then obtain i where i: "app_lookup fr dir f = Inr i" "0 \<le> i" "holds_text fr i t"
    by blast
  obtain buf where "read_text fr i = Inr buf" "c_string buf = Inr t"
    using holds_text_read [OF i(3)] by blast
  then show ?case
    using i(1,2) Cons.IH by simp
qed simp

section \<open>grep\<close>

text \<open>The lines of a text that are not empty.\<close>

fun split_lf :: "string \<Rightarrow> string \<Rightarrow> string list" where
  "split_lf acc [] = [acc]"
| "split_lf acc (c # cs) = (if c = CHR 0x0A then acc # split_lf [] cs else split_lf (acc @ [c]) cs)"

definition text_lines :: "string \<Rightarrow> string list" where
  "text_lines t = filter (\<lambda>l. l \<noteq> []) (split_lf [] t)"

lemma split_lf_line: "CHR 0x0A \<notin> set u \<Longrightarrow> split_lf acc (u @ s) = (case s of [] \<Rightarrow> [acc @ u] | c # cs \<Rightarrow> split_lf (acc @ u) (c # cs))"
  by (induction u arbitrary: acc) (auto split: list.split)

lemma text_lines_lf: "text_lines (CHR 0x0A # s) = text_lines s"
  by (simp add: text_lines_def)

lemma text_lines_line: "CHR 0x0A \<notin> set u \<Longrightarrow> u \<noteq> [] \<Longrightarrow> text_lines (u @ CHR 0x0A # s) = u # text_lines s"
  by (simp add: text_lines_def split_lf_line)

lemma text_lines_last: "CHR 0x0A \<notin> set u \<Longrightarrow> u \<noteq> [] \<Longrightarrow> text_lines u = [u]"
  using split_lf_line [of u "[]" "[]"] by (simp add: text_lines_def)

lemma text_lines_strtok:
  "text_lines s = (case strtok_lf s of None \<Rightarrow> [] | Some (line, rest) \<Rightarrow> line # text_lines rest)"
proof (induction s)
  case Nil
  then show ?case
    by (simp add: text_lines_def strtok_lf_def)
next
  case (Cons c s)
  show ?case
  proof (cases "c = CHR 0x0A")
    case True
    then show ?thesis
      using Cons by (simp add: text_lines_lf strtok_lf_def)
  next
    case False
    let ?P = "\<lambda>c. c \<noteq> CHR 0x0A"
    define u r where "u = takeWhile ?P (c # s)" and "r = dropWhile ?P (c # s)"
    then have u: "CHR 0x0A \<notin> set u" "u \<noteq> []" "c # s = u @ r" and r: "r \<noteq> [] \<Longrightarrow> \<not> ?P (hd r)"
      using False hd_dropWhile [of ?P "c # s"] by (auto dest: set_takeWhileD)
    have k: "strtok_lf (c # s) = Some (u, drop 1 r)"
      using False by (simp add: strtok_lf_def u_def r_def)
    show ?thesis
    proof (cases r)
      case Nil
      then have "text_lines (c # s) = [u]"
        using text_lines_last [OF u(1,2)] by (simp add: u(3))
      then show ?thesis
        unfolding k using Nil by (simp add: text_lines_def)
    next
      case (Cons d ds)
      then have "text_lines (c # s) = u # text_lines ds"
        using text_lines_line [OF u(1,2), of ds] r by (simp add: u(3))
      then show ?thesis
        unfolding k using Cons by simp
    qed
  qed
qed

definition grep_line :: "string \<Rightarrow> string" where
  "grep_line l = ''[INFO] '' @ l @ [CHR 0x0A] @ lf_cr"

lemma grep_lines_spec:
  "list_all (\<lambda>l. length l \<le> 501) (text_lines s) \<Longrightarrow>
   grep_lines pattern s = Inr (concat (map grep_line (filter (\<lambda>l. strstr l pattern) (text_lines s))))"
proof (induction pattern s rule: grep_lines.induct)
  case (1 pattern s)
  show ?case
  proof (cases "strtok_lf s")
    case None
    then show ?thesis
      by (subst grep_lines.simps) (simp add: text_lines_strtok [of s])
  next
    case (Some p)
    obtain line rest where p: "p = (line, rest)"
      by (cases p)
    have t: "text_lines s = line # text_lines rest"
      using text_lines_strtok [of s] by (simp add: Some p)
    have "INFO (''%s'' @ [CHR 0x0A]) [PStr line] = Inr (grep_line line)"
      using LOG_str [of "[]" "[CHR 0x0A]" "''[INFO] ''" lf_cr line] 1(2) by (simp add: INFO_def t grep_line_def lf_cr_def)
    then show ?thesis
      using 1(1) [OF Some [unfolded p] refl] 1(2) unfolding t
      by (subst grep_lines.simps) (auto simp: Some p)
  qed
qed


definition demo_server :: file_server where
  "demo_server ino off = Inr (0, text_block (if ino = 0 then ''./   0 ../   0 a.c   3 ''
     else if off = 0 then ''int x;'' @ [CHR 0x0A, CHR 0x0A] @ ''char y;'' @ [CHR 0x0A] @ ''int z;'' else ''int w;''))"


end
