(* ===== verification/Sv32.thy ===== *)
theory Sv32
  imports Mmu
begin

text \<open>
  What the page tables of earth/cpu_mmu.c mean to the processor: a walk of Sv32 tables as the RISC-V
  privileged specification describes it, and the proof that the tables map exactly the regions of the
  identity map, each address to itself.
\<close>

section \<open>The walk\<close>

text \<open>\<open>csrw satp\<close> in \<open>mmu_init\<close>\<close>

definition satp_value :: "mmu_state \<Rightarrow> u32" where
  "satp_value m = drop_bit 12 (pt_root m) OR push_bit 31 1"

text \<open>
  Translation of a virtual address: the physical address and the low eight bits of the entry, or
  nothing when an entry is not valid. A first-level entry with a permission is a page of 4 MB. The
  tables are read at 32-bit addresses; a translated address may have 34 bits.
\<close>

definition sv32_walk :: "(u32 \<Rightarrow> page) \<Rightarrow> u32 \<Rightarrow> u32 \<Rightarrow> (u64 \<times> u32) option" where
  "sv32_walk mm satp va =
     (let p1 = mm (push_bit 12 (satp AND 0x3FFFFF)) ! unat (drop_bit 22 va) in
      if p1 AND 1 = 0 then None
      else if p1 AND 0xE \<noteq> 0 then Some (push_bit 12 (ucast (drop_bit 10 p1)) OR ucast (va AND 0x3FFFFF), p1 AND 0xFF)
      else
        let p0 = mm (push_bit 12 (drop_bit 10 p1)) ! unat (drop_bit 12 va AND 0x3FF) in
        if p0 AND 1 = 0 then None
        else Some (push_bit 12 (ucast (drop_bit 10 p0)) OR ucast (va AND 0xFFF), p0 AND 0xFF))"

section \<open>Addresses and entries\<close>

abbreviation frame :: "nat \<Rightarrow> u32" where
  "frame f \<equiv> PAGE_ID_TO_ADDR (of_nat f)"

lemma frame_unat: "f < 512 \<Longrightarrow> unat (frame f) = 0x80400000 + f * 4096"
  by (simp add: PAGE_ID_TO_ADDR_def APPS_PAGES_BASE_def PAGE_SIZE_def unat_word_ariths unat_of_nat_less)

lemma frame_inj: "f < 512 \<Longrightarrow> g < 512 \<Longrightarrow> frame f = frame g \<longleftrightarrow> f = g"
  using PAGE_ID_TO_ADDR_inj by blast

lemma page_mask: "(0xFFFFF000 :: u32) = NOT (mask 12)" "(0xFFF :: u32) = mask 12" "(0x3FF :: u32) = mask 10"
  "(0x3FFFFF :: u32) = mask 22" "(0xFF :: u32) = mask 8"
  by (simp_all add: mask_eq_exp_minus_1)

text \<open>The bits of the address of a page.\<close>

lemma aligned_bits:
  assumes "unat (a :: u32) mod 4096 = 0" "bit a n"
  shows "12 \<le> n"
proof (rule ccontr)
  assume "\<not> 12 \<le> n"
  then have "bit (take_bit 12 a) n"
    using assms(2) by (simp add: bit_simps)
  moreover have "unat (take_bit 12 a) = 0"
    using assms(1) by (simp add: take_bit_eq_mod unat_mod_distrib)
  ultimately show False
    by (simp add: unsigned_eq_0_iff)
qed

lemma frame_aligned: "f < 512 \<Longrightarrow> unat (frame f) mod 4096 = 0"
  by (simp add: frame_unat)

lemma frame_bits: "f < 512 \<Longrightarrow> bit (frame f) n \<Longrightarrow> 12 \<le> n"
  by (rule aligned_bits [OF frame_aligned])

lemma entry_at:
  assumes "f < 512" "x < 1024"
  shows "page_base (entry_addr (frame f) (of_nat x)) = frame f" "page_word (entry_addr (frame f) (of_nat x)) = x"
proof -
  have e: "entry_addr (frame f) (of_nat x) = frame f + of_nat (x * 4)"
    by (simp add: entry_addr_def)
  show "page_base (entry_addr (frame f) (of_nat x)) = frame f"
    unfolding e using assms by (intro page_base_plus) (simp_all add: frame_aligned)
  have "unat (entry_addr (frame f) (of_nat x)) mod 4096 = x * 4"
    unfolding e using assms by (intro page_base_plus) (simp_all add: frame_aligned)
  then have "unat (entry_addr (frame f) (of_nat x) AND 0xFFF) = x * 4"
    unfolding page_mask by (simp add: take_bit_eq_mod unat_mod_distrib flip: take_bit_eq_mask)
  then show "page_word (entry_addr (frame f) (of_nat x)) = x"
    by (simp add: page_word_def)
qed

lemma rd_entry: "f < 512 \<Longrightarrow> x < 1024 \<Longrightarrow> rd_word mm (entry_addr (frame f) (of_nat x)) = mm (frame f) ! x"
  by (simp add: rd_word_def entry_at)

lemma wr_entry: "f < 512 \<Longrightarrow> x < 1024 \<Longrightarrow>
  wr_word mm (entry_addr (frame f) (of_nat x)) w = mm(frame f := (mm (frame f))[x := w])"
  by (simp add: wr_word_def entry_at)

text \<open>The entry of the root for a table in frame \<open>f\<close>.\<close>

definition pointer_entry :: "nat \<Rightarrow> u32" where
  "pointer_entry f = drop_bit 2 (frame f) OR 1"

lemma pointer_entry_facts:
  assumes "f < 512"
  shows "pointer_entry f AND 1 = 1" "pointer_entry f AND 0xE = 0"
    "push_bit 2 (pointer_entry f) AND 0xFFFFF000 = frame f" "push_bit 12 (drop_bit 10 (pointer_entry f)) = frame f"
proof -
  note b = frame_bits [OF assms]
  show "pointer_entry f AND 1 = 1"
    using b by (auto simp: pointer_entry_def bit_simps intro!: bit_word_eqI)
  have "\<not> bit (pointer_entry f) n" if "1 \<le> n" "n < 4" for n
    using that b [of "2 + n"] by (auto simp: pointer_entry_def bit_simps)
  moreover have "1 \<le> n \<and> n < 4" if "bit (0xE :: u32) n" for n
  proof -
    have "(0xE :: u32) = push_bit 1 (mask 3)"
      by (simp add: mask_eq_exp_minus_1)
    then show ?thesis
      using that by (simp only: bit_push_bit_iff bit_mask_iff) auto
  qed
  ultimately show "pointer_entry f AND 0xE = 0"
    by (auto simp: bit_and_iff intro!: bit_word_eqI)
  have p: "bit (pointer_entry f) n \<longleftrightarrow> n = 0 \<or> bit (frame f) (n + 2)" for n
    by (auto simp: pointer_entry_def bit_simps)
  have p2: "bit (pointer_entry f) (n - 2) = bit (frame f) n" if "12 \<le> n" for n
  proof -
    have "n - 2 + 2 = n" "n - 2 \<noteq> 0"
      using that by simp_all
    then show ?thesis
      using p [of "n - 2"] by (simp only:) simp
  qed
  show "push_bit 2 (pointer_entry f) AND 0xFFFFF000 = frame f"
  proof (rule bit_word_eqI)
    fix n
    assume "n < LENGTH(32)"
    then show "bit (push_bit 2 (pointer_entry f) AND 0xFFFFF000) n = bit (frame f) n"
      unfolding page_mask using b [of n] p2 [of n]
      by (cases "12 \<le> n") (auto simp: bit_and_iff bit_not_iff bit_mask_iff bit_push_bit_iff)
  qed
  show "push_bit 12 (drop_bit 10 (pointer_entry f)) = frame f"
  proof (rule bit_word_eqI)
    fix n
    assume "n < LENGTH(32)"
    then show "bit (push_bit 12 (drop_bit 10 (pointer_entry f))) n = bit (frame f) n"
      using b [of n] p2 [of n] by (cases "12 \<le> n") (auto simp: bit_drop_bit_eq bit_push_bit_iff)
  qed
qed

text \<open>
  The entry of a leaf for the page at \<open>a\<close>. Bits 2 to 9 of a region's address must be zero, since they
  fall on the flags.
\<close>

lemma leaf_entry_facts:
  assumes "(a :: u32) AND 0x3FC = 0"
  shows "drop_bit 10 (drop_bit 2 a OR USER_RWX) = drop_bit 12 a" "(drop_bit 2 a OR USER_RWX) AND 0xFF = USER_RWX"
    "(drop_bit 2 a OR USER_RWX) AND 1 = 1"
proof -
  have m: "(0x3FC :: u32) = push_bit 2 (mask 8)" "USER_RWX = 0xDF"
    by (simp_all add: mask_eq_exp_minus_1 USER_RWX_def)
  have a: "\<not> bit a n" if "2 \<le> n" "n < 10" for n
  proof -
    have "\<not> bit (a AND push_bit 2 (mask 8)) n"
      using assms unfolding m(1) by simp
    moreover have "bit (push_bit 2 (mask 8) :: u32) n"
      using that by (simp only: bit_push_bit_iff bit_mask_iff) auto
    ultimately show ?thesis
      by (simp only: bit_and_iff) simp
  qed
  have low: "take_bit 8 (0xDF :: u32) = 0xDF"
    by simp
  have f: "n < 8" if "bit (USER_RWX :: u32) n" for n
    using that unfolding m(2) using bit_take_bit_iff [of 8 "0xDF :: u32" n] unfolding low by blast
  show "drop_bit 10 (drop_bit 2 a OR USER_RWX) = drop_bit 12 a"
    by (auto simp: bit_drop_bit_eq bit_or_iff intro!: bit_word_eqI dest!: f)
  show "(drop_bit 2 a OR USER_RWX) AND 0xFF = USER_RWX"
    unfolding page_mask using f a by (auto simp: bit_drop_bit_eq bit_or_iff bit_and_iff bit_mask_iff intro!: bit_word_eqI)
  have "bit (USER_RWX :: u32) 0"
    by (simp add: m(2))
  then show "(drop_bit 2 a OR USER_RWX) AND 1 = 1"
    by (auto simp: bit_drop_bit_eq bit_or_iff bit_and_iff bit_1_iff intro!: bit_word_eqI)
qed

section \<open>Filling a leaf\<close>

lemma fill_leaf_spec:
  assumes "f < 512" "y0 + i + n \<le> 1024" "length (mm (frame f)) = 1024"
  shows "(\<forall>a. a \<noteq> frame f \<longrightarrow> fill_leaf n (of_nat i) (frame f) (of_nat y0) addr flag mm a = mm a) \<and>
    length (fill_leaf n (of_nat i) (frame f) (of_nat y0) addr flag mm (frame f)) = 1024 \<and>
    (\<forall>y < 1024. fill_leaf n (of_nat i) (frame f) (of_nat y0) addr flag mm (frame f) ! y =
      (if y0 + i \<le> y \<and> y < y0 + i + n then drop_bit 2 (addr + of_nat (y - y0) * PAGE_SIZE) OR flag else mm (frame f) ! y))"
  using assms(2,3)
proof (induction n arbitrary: i mm)
  case (Suc n)
  let ?e = "drop_bit 2 (addr + of_nat i * PAGE_SIZE) OR flag"
  let ?mm = "mm(frame f := (mm (frame f))[y0 + i := ?e])"
  have "wr_word mm (entry_addr (frame f) (of_nat (y0 + i))) ?e = ?mm"
    using Suc.prems assms(1) by (intro wr_entry) simp_all
  then have step: "fill_leaf (Suc n) (of_nat i) (frame f) (of_nat y0) addr flag mm =
      fill_leaf n (of_nat (Suc i)) (frame f) (of_nat y0) addr flag ?mm"
    by (simp add: add.commute)
  have "y0 + Suc i + n \<le> 1024" "length (?mm (frame f)) = 1024"
    using Suc.prems by simp_all
  note IH = Suc.IH [of "Suc i" ?mm, OF this]
  define g where "g = fill_leaf n (of_nat (Suc i)) (frame f) (of_nat y0) addr flag ?mm"
  have y: "of_nat y - of_nat y0 = (of_nat i :: u32)" if "y0 + i \<le> y" "\<not> Suc (y0 + i) \<le> y" for y
  proof -
    have "y = y0 + i"
      using that by simp
    then show ?thesis
      by simp
  qed
  show ?case
    using IH Suc.prems unfolding step g_def [symmetric] by (auto simp: nth_list_update_le y)
qed auto

section \<open>The invariant of the tables\<close>

text \<open>
  The root is in frame \<open>r\<close>, the table of the 4 MB region \<open>x\<close> in frame \<open>L x\<close>, all of them in use, and
  exactly the pages whose numbers are in \<open>P\<close> are mapped.
\<close>

definition leaf_ok :: "nat set \<Rightarrow> nat \<Rightarrow> u32 \<Rightarrow> bool" where
  "leaf_ok P v e \<longleftrightarrow> (if v \<in> P then e AND 1 = 1 \<and> drop_bit 10 e = of_nat v \<and> e AND 0xFF = USER_RWX else e = 0)"

definition root_entry :: "nat option \<Rightarrow> u32" where
  "root_entry t = (case t of None \<Rightarrow> 0 | Some f \<Rightarrow> pointer_entry f)"

definition used_frame :: "mmu_state \<Rightarrow> nat \<Rightarrow> bool" where
  "used_frame m f \<longleftrightarrow> f < 512 \<and> pg_use (page_info_table m ! f) \<noteq> 0"

definition table_page :: "mmu_state \<Rightarrow> nat set \<Rightarrow> nat \<Rightarrow> nat \<Rightarrow> bool" where
  "table_page m P x f \<longleftrightarrow> length (mem m (frame f)) = 1024 \<and> (\<forall>y < 1024. leaf_ok P (x * 1024 + y) (mem m (frame f) ! y))"

definition tables_ok :: "mmu_state \<Rightarrow> nat \<Rightarrow> (nat \<Rightarrow> nat option) \<Rightarrow> nat set \<Rightarrow> bool" where
  "tables_ok m r L P \<longleftrightarrow> length (page_info_table m) = 512 \<and> used_frame m r \<and> pt_root m = frame r \<and>
     length (mem m (frame r)) = 1024 \<and> (\<forall>x < 1024. mem m (frame r) ! x = root_entry (L x)) \<and>
     (\<forall>x f. L x = Some f \<longrightarrow> used_frame m f \<and> f \<noteq> r \<and> table_page m P x f) \<and>
     inj_on L (dom L) \<and> (\<forall>v \<in> P. L (v div 1024) \<noteq> None)"

definition free_frames :: "mmu_state \<Rightarrow> nat set" where
  "free_frames m = {f. f < 512 \<and> pg_use (page_info_table m ! f) = 0}"

lemma mmu_alloc_list:
  assumes "length (page_info_table m) = 512" "free_frames m \<noteq> {}"
  shows "\<exists>i \<in> free_frames m. mmu_alloc m = Inr (of_nat i,
    m\<lparr>page_info_table := (page_info_table m)[i := (page_info_table m ! i)\<lparr>pg_use := 1\<rparr>]\<rparr>)"
proof -
  obtain i where i: "find_free_page (page_info_table m) 0 = Some i"
    using assms find_free_page_None [of "page_info_table m" 0]
    by (fastforce simp: free_frames_def all_set_conv_all_nth)
  then have "i < 512" "pg_use (page_info_table m ! i) = 0"
    using find_free_page_spec [OF i] assms(1) by simp_all
  then show ?thesis
    using i by (intro bexI [of _ i]) (simp_all add: mmu_alloc_def free_frames_def)
qed

text \<open>Making a table for a region that has none.\<close>

lemma new_table:
  assumes ok: "tables_ok m r L P" and x: "x < 1024" "L x = None" and i: "i \<in> free_frames m"
    and m': "page_info_table m' = (page_info_table m)[i := p]" "pg_use p = 1" "pt_root m' = pt_root m"
      "mem m' = (mem m)(frame i := replicate 1024 0, frame r := (mem m (frame r))[x := pointer_entry i])"
  shows "tables_ok m' r (L(x \<mapsto> i)) P"
proof -
  have f: "i < 512" "\<not> used_frame m i"
    using i by (simp_all add: free_frames_def used_frame_def)
  have u: "used_frame m' f" if "used_frame m f \<or> f = i" for f
    using that f(1) ok m'(1,2) by (auto simp: used_frame_def nth_list_update_le tables_ok_def split: if_splits)
  have r: "used_frame m r" "r \<noteq> i" "r < 512"
    using ok f(2) by (auto simp: tables_ok_def used_frame_def)
  have P: "x * 1024 + y \<notin> P" if "y < 1024" for y
  proof
    assume "x * 1024 + y \<in> P"
    then have "L ((x * 1024 + y) div 1024) \<noteq> None"
      using ok unfolding tables_ok_def by blast
    then show False
      using that x(2) by simp
  qed
  have i': "table_page m' P x i"
    using P r f(1) by (simp add: table_page_def m'(4) frame_inj leaf_ok_def)
  have old: "used_frame m' f \<and> f \<noteq> r \<and> table_page m' P z f" if "L z = Some f" for z f
  proof -
    have "used_frame m f" "f \<noteq> r" "table_page m P z f"
      using ok that by (auto simp: tables_ok_def)
    moreover then have "f \<noteq> i" "f < 512"
      using f(2) by (auto simp: used_frame_def)
    ultimately show ?thesis
      using r f(1) u by (auto simp: table_page_def m'(4) frame_inj)
  qed
  have "inj_on (L(x \<mapsto> i)) (dom (L(x \<mapsto> i)))"
  proof -
    have "L z \<noteq> Some i" for z
      using ok f(2) unfolding tables_ok_def by blast
    moreover have "inj_on L (dom L)"
      using ok by (simp add: tables_ok_def)
    ultimately show ?thesis
      by (auto simp: inj_on_def dom_def dest: sym)
  qed
  moreover have "\<forall>z < 1024. mem m' (frame r) ! z = root_entry ((L(x \<mapsto> i)) z)"
    using ok x(1) by (simp add: m'(4) tables_ok_def nth_list_update_le root_entry_def)
  ultimately show ?thesis
    using ok u r i' old f(1) unfolding tables_ok_def m'(1,3) by (auto simp: m'(4))
qed

section \<open>One region\<close>

lemma word_of_unat: "unat (a :: u32) = n \<Longrightarrow> a = of_nat n"
  by auto

lemma page_number:
  assumes "unat a div 4096 = v"
  shows "drop_bit 12 (a :: u32) = of_nat v" "drop_bit 22 a = of_nat (v div 1024)" "drop_bit 12 a AND 0x3FF = of_nat (v mod 1024)"
    "v < 1048576" "v div 1024 < 1024"
proof -
  have a: "unat a < 2 ^ 32"
    using unsigned_less [of a] by simp
  then show v: "v < 1048576" "v div 1024 < 1024"
    using assms by auto
  have "unat (drop_bit 12 a) = v"
    using assms by (simp add: drop_bit_eq_div unat_div_distrib)
  then show d: "drop_bit 12 a = of_nat v"
    by (rule word_of_unat)
  have "unat (drop_bit 22 a) = unat a div 4096 div 1024"
    by (simp add: drop_bit_eq_div unat_div_distrib div_mult2_eq [symmetric])
  then show "drop_bit 22 a = of_nat (v div 1024)"
    unfolding assms by (rule word_of_unat)
  have "unat (drop_bit 12 a AND 0x3FF) = v mod 1024"
    unfolding page_mask d using v(1)
    by (simp add: take_bit_eq_mod unat_mod_distrib unat_of_nat_less flip: take_bit_eq_mask)
  then show "drop_bit 12 a AND 0x3FF = of_nat (v mod 1024)"
    by (rule word_of_unat)
qed

text \<open>The address of the \<open>k\<close>-th page of a region.\<close>

lemma region_page:
  assumes "unat addr div 4096 = v" "v + k < 1048576" "addr AND 0x3FC = 0"
  shows "drop_bit 12 (addr + of_nat k * PAGE_SIZE) = of_nat (v + k)" "(addr + of_nat k * PAGE_SIZE) AND 0x3FC = 0"
proof -
  have "unat addr < (v + 1) * 4096"
    using assms(1) by auto
  then have "unat addr + k * 4096 < 2 ^ 32"
    using assms(2) by simp
  moreover have "unat (of_nat k * PAGE_SIZE :: u32) = k * 4096"
    using assms(2) by (simp add: PAGE_SIZE_def unat_word_ariths unat_of_nat_less)
  ultimately have u: "unat (addr + of_nat k * PAGE_SIZE) = unat addr + k * 4096"
    by (simp add: unat_word_ariths)
  then have "unat (addr + of_nat k * PAGE_SIZE) div 4096 = v + k"
    using assms(1) by simp
  then show "drop_bit 12 (addr + of_nat k * PAGE_SIZE) = of_nat (v + k)"
    by (rule page_number)
  have low: "a AND 0x3FC = take_bit 12 a AND 0x3FC" for a :: u32
  proof -
    have "mask 12 AND 0x3FC = (0x3FC :: u32)"
      by (simp add: mask_eq_exp_minus_1)
    then show ?thesis
      by (simp only: take_bit_eq_mask and.assoc)
  qed
  have "unat (take_bit 12 (addr + of_nat k * PAGE_SIZE)) = unat (take_bit 12 addr)"
    using u by (simp add: take_bit_eq_mod unat_mod_distrib)
  then have "take_bit 12 (addr + of_nat k * PAGE_SIZE) = take_bit 12 addr"
    by (simp only: word_unat_eq_iff)
  then show "(addr + of_nat k * PAGE_SIZE) AND 0x3FC = 0"
    using assms(3) low [of addr] low [of "addr + of_nat k * PAGE_SIZE"] by metis
qed

lemma fill_region:
  assumes ok: "tables_ok m r L P" and x: "v div 1024 = x" "L x = Some f" and addr: "unat addr div 4096 = v" "addr AND 0x3FC = 0"
    and n: "v mod 1024 + n \<le> 1024"
    and m': "mem m' = fill_leaf n 0 (frame f) (of_nat (v mod 1024)) addr USER_RWX (mem m)"
      "page_info_table m' = page_info_table m" "pt_root m' = pt_root m"
  shows "tables_ok m' r L (P \<union> {v ..< v + n})"
proof -
  let ?P = "P \<union> {v ..< v + n}"
  have f: "used_frame m f" "f \<noteq> r" "table_page m P x f" "f < 512" "used_frame m r" "r < 512"
    using ok x(2) by (auto simp: tables_ok_def used_frame_def)
  have "v mod 1024 + 0 + n \<le> 1024" "length (mem m (frame f)) = 1024"
    using n f(3) by (simp_all add: table_page_def)
  note fl = fill_leaf_spec [of f "v mod 1024" 0 n "mem m" addr USER_RWX, OF f(4) this, simplified of_nat_0]
  have other: "mem m' (frame g) = mem m (frame g)" if "g < 512" "g \<noteq> f" for g
    using fl that f(4) by (simp add: m'(1) frame_inj)
  have v: "v = x * 1024 + v mod 1024" "v < 1048576"
    using x(1) page_number(4) [OF addr(1)] by auto
  have x1: "x < 1024"
    using x(1) v(2) by auto
  have "leaf_ok ?P (x * 1024 + y) (mem m' (frame f) ! y)" if y: "y < 1024" for y
  proof (cases "v mod 1024 \<le> y \<and> y < v mod 1024 + n")
    case True
    let ?a = "addr + of_nat (y - v mod 1024) * PAGE_SIZE"
    have k: "v + (y - v mod 1024) = x * 1024 + y"
      using v(1) True by simp
    have "x * 1024 + y < 1048576"
      using x1 y by simp
    then have a: "drop_bit 12 ?a = of_nat (x * 1024 + y)" "?a AND 0x3FC = 0"
      using region_page [OF addr(1) _ addr(2), of "y - v mod 1024"] unfolding k by blast+
    have "x * 1024 + y \<in> ?P"
      using True v(1) by auto
    moreover have "mem m' (frame f) ! y = drop_bit 2 ?a OR USER_RWX"
      using fl True y by (simp add: m'(1))
    ultimately show ?thesis
      using leaf_entry_facts [OF a(2)] a(1) by (simp add: leaf_ok_def)
  next
    case False
    then have "mem m' (frame f) ! y = mem m (frame f) ! y"
      using fl y by (auto simp: m'(1))
    moreover have "x * 1024 + y \<in> ?P \<longleftrightarrow> x * 1024 + y \<in> P"
      using False v(1) by auto
    ultimately show ?thesis
      using f(3) y by (auto simp: table_page_def leaf_ok_def)
  qed
  then have page: "table_page m' ?P x f"
    using fl by (simp add: table_page_def m'(1))
  have pages: "used_frame m' g \<and> g \<noteq> r \<and> table_page m' ?P z g" if "L z = Some g" for z g
  proof (cases "z = x")
    case True
    then show ?thesis
      using that x(2) f page by (simp add: used_frame_def m'(2))
  next
    case False
    have g: "used_frame m g" "g \<noteq> r" "table_page m P z g" "inj_on L (dom L)"
      using ok that by (auto simp: tables_ok_def)
    then have "g \<noteq> f"
      using that x(2) False by (auto dest!: inj_onD [of L _ z x])
    moreover have "z * 1024 + y \<in> ?P \<longleftrightarrow> z * 1024 + y \<in> P" if "y < 1024" for y
    proof -
      have "z * 1024 + y < v \<or> v + n \<le> z * 1024 + y"
        using False that v(1) n by (cases "z < x") auto
      then show ?thesis
        by auto
    qed
    ultimately show ?thesis
      using g other [of g] by (auto simp: table_page_def leaf_ok_def used_frame_def m'(2))
  qed
  have "L (w div 1024) \<noteq> None" if "w \<in> ?P" for w
  proof (cases "w \<in> P")
    case True
    then show ?thesis
      using ok by (simp add: tables_ok_def)
  next
    case False
    then have "w div 1024 = x"
      using that v(1) n by auto
    then show ?thesis
      using x(2) by simp
  qed
  then show ?thesis
    using ok pages other [of r] f unfolding tables_ok_def m'(2,3) by (auto simp: used_frame_def m'(2))
qed

lemma region_mapped:
  assumes ok: "tables_ok m r L P" and free: "free_frames m \<noteq> {}"
    and addr: "unat addr div 4096 = v" "addr AND 0x3FC = 0" "v mod 1024 + n \<le> 1024"
  shows "\<exists>m' L'. setup_identity_region p addr n USER_RWX m = Inr m' \<and> tables_ok m' r L' (P \<union> {v ..< v + n}) \<and>
    plat m' = plat m \<and> card (free_frames m) \<le> Suc (card (free_frames m'))"
proof -
  let ?x = "v div 1024"
  note pn = page_number [OF addr(1)]
  have r: "r < 512" "pt_root m = frame r" "mem m (frame r) ! ?x = root_entry (L ?x)" "length (page_info_table m) = 512"
    using ok pn(5) by (auto simp: tables_ok_def used_frame_def)
  then have e: "rd_word (mem m) (entry_addr (pt_root m) (drop_bit 22 addr)) = root_entry (L ?x)"
    using pn(2,5) by (simp add: rd_entry)
  show ?thesis
  proof (cases "L ?x")
    case (Some f)
    then have f: "f < 512"
      using ok by (auto simp: tables_ok_def used_frame_def)
    define m' where "m' = m\<lparr>pt_leaf := frame f, mem := fill_leaf n 0 (frame f) (of_nat (v mod 1024)) addr USER_RWX (mem m)\<rparr>"
    have "setup_identity_region p addr n USER_RWX m = Inr m'"
      using Some e pn(3) pointer_entry_facts [OF f] by (simp add: setup_identity_region_def Let_def root_entry_def m'_def)
    moreover have "tables_ok m' r L (P \<union> {v ..< v + n})"
      using ok Some addr by (intro fill_region) (simp_all add: m'_def)
    moreover have "free_frames m' = free_frames m" "plat m' = plat m"
      by (simp_all add: m'_def free_frames_def)
    ultimately show ?thesis
      by auto
  next
    case None
    obtain i where i: "i \<in> free_frames m" "mmu_alloc m = Inr (of_nat i,
        m\<lparr>page_info_table := (page_info_table m)[i := (page_info_table m ! i)\<lparr>pg_use := 1\<rparr>]\<rparr>)"
      using mmu_alloc_list [OF r(4) free] by blast
    then have i5: "i < 512" "unat (of_nat i :: u32) = i"
      by (simp_all add: free_frames_def unat_of_nat_less)
    define m1 where "m1 = m\<lparr>page_info_table := (page_info_table m)[i := (page_info_table m ! i)\<lparr>pg_use := 1, pg_pid := p\<rparr>],
      mem := (mem m)(frame i := replicate 1024 0, frame r := (mem m (frame r))[?x := pointer_entry i]), pt_leaf := frame i\<rparr>"
    have "used_frame m r" "\<not> used_frame m i"
      using ok i(1) by (simp_all add: tables_ok_def used_frame_def free_frames_def)
    then have ri: "frame r \<noteq> frame i"
      using r(1) i5(1) by (auto simp: frame_inj)
    have m1: "tables_ok m1 r (L(?x \<mapsto> i)) P"
      by (rule new_table [OF ok pn(5) None i(1), where p = "(page_info_table m ! i)\<lparr>pg_use := 1, pg_pid := p\<rparr>"])
        (simp_all add: m1_def)
    define m' where "m' = m1\<lparr>mem := fill_leaf n 0 (frame i) (of_nat (v mod 1024)) addr USER_RWX (mem m1)\<rparr>"
    have "setup_identity_region p addr n USER_RWX m = Inr m'"
      using None e pn(2,3,5) i(2) i5 r ri
      by (simp add: setup_identity_region_def Let_def root_entry_def m'_def m1_def wr_entry pointer_entry_def)
    moreover have "tables_ok m' r (L(?x \<mapsto> i)) (P \<union> {v ..< v + n})"
      by (rule fill_region [OF m1 refl _ addr(1,2), where f = i and n = n]) (use addr(3) in \<open>simp_all add: m'_def\<close>)
    moreover have "free_frames m' = free_frames m - {i}"
      using r(4) by (auto simp: m'_def m1_def free_frames_def nth_list_update_le split: if_splits)
    then have "card (free_frames m) \<le> Suc (card (free_frames m'))"
      using card_Suc_Diff1 [of "free_frames m" i] i(1) by (simp add: free_frames_def)
    moreover have "plat m' = plat m"
      by (simp add: m'_def m1_def)
    ultimately show ?thesis
      by blast
  qed
qed

section \<open>The identity map\<close>

definition region_ok :: "u32 \<times> nat \<Rightarrow> bool" where
  "region_ok = (\<lambda>(a, n). a AND 0x3FC = 0 \<and> unat a div 4096 mod 1024 + n \<le> 1024)"

definition region_pages :: "u32 \<times> nat \<Rightarrow> nat set" where
  "region_pages = (\<lambda>(a, n). {unat a div 4096 ..< unat a div 4096 + n})"

lemma regions_mapped:
  "tables_ok m r L P \<Longrightarrow> list_all region_ok rs \<Longrightarrow> length rs \<le> card (free_frames m) \<Longrightarrow>
   \<exists>m' L'. setup_regions p rs m = Inr m' \<and> tables_ok m' r L' (P \<union> (\<Union>x \<in> set rs. region_pages x)) \<and>
     card (free_frames m) \<le> card (free_frames m') + length rs"
proof (induction rs arbitrary: m L P)
  case (Cons ra rs)
  obtain a n where ra: "ra = (a, n)"
    by (cases ra)
  have "free_frames m \<noteq> {}"
    using Cons.prems(3) by auto
  then obtain m1 L1 where m1: "setup_identity_region p a n USER_RWX m = Inr m1"
    "tables_ok m1 r L1 (P \<union> region_pages ra)" "card (free_frames m) \<le> Suc (card (free_frames m1))"
    using region_mapped [OF Cons.prems(1), of a "unat a div 4096" n p] Cons.prems(2)
    by (auto simp: ra region_ok_def region_pages_def)
  then obtain m' L' where "setup_regions p rs m1 = Inr m'"
    "tables_ok m' r L' (P \<union> region_pages ra \<union> (\<Union>x \<in> set rs. region_pages x))"
    "card (free_frames m1) \<le> card (free_frames m') + length rs"
    using Cons.IH [OF m1(2)] Cons.prems(2,3) by auto
  then show ?case
    using m1 by (auto simp: ra Un_assoc)
qed auto

lemma ram_regions_eq: "ram_regions RAM_START = [0x80000000, 0x80400000]"
  by (simp add: RAM_START_def RAM_END_def PAGE_SIZE_def ram_regions.simps)

lemma identity_regions_ok: "list_all region_ok (identity_regions p)" "length (identity_regions p) \<le> 10"
  by (cases p; simp add: identity_regions_def ram_regions_eq region_ok_def NIC_BASE_def UART_BASE_def CLINT_BASE_def
    FLASH_ROM_BASE_def VIDEO_FRAME_BASE_def SDHCI_BASE_def NIC_PCI_ECAM_def SDSPI_BASE_def NIC_TX_BUFFER_def NIC_RX_BUFFER_def)+

lemma walk_tables:
  assumes "tables_ok m r L P"
  shows "sv32_walk (mem m) (satp_value m) va = (if unat va div 4096 \<in> P then Some (ucast va, USER_RWX) else None)"
proof -
  let ?v = "unat va div 4096"
  let ?x = "?v div 1024" and ?y = "?v mod 1024"
  note v = page_number [OF refl, of va]
  have r: "r < 512" "pt_root m = frame r" "mem m (frame r) ! ?x = root_entry (L ?x)"
    using assms v(5) by (auto simp: tables_ok_def used_frame_def)
  have b: "12 \<le> n" if "bit (frame r) n" for n
    using frame_bits [OF r(1) that] .
  have satp: "push_bit 12 (satp_value m AND 0x3FFFFF) = frame r"
  proof -
    define top :: u32 where "top = push_bit 31 1"
    have t: "n = 31" if "bit top n" for n
      using that unfolding top_def by (simp only: bit_push_bit_iff bit_1_iff) auto
    show ?thesis
      unfolding page_mask satp_value_def r(2) top_def [symmetric]
      by (rule bit_word_eqI) (use b in \<open>auto simp: bit_push_bit_iff bit_and_iff bit_or_iff bit_mask_iff bit_drop_bit_eq dest!: t\<close>)
  qed
  have x: "unat (drop_bit 22 va) = ?x" "unat (drop_bit 12 va AND 0x3FF) = ?y"
    using v by (simp_all add: unat_of_nat_less)
  show ?thesis
  proof (cases "L ?x")
    case None
    then have "?v \<notin> P"
      using assms unfolding tables_ok_def by blast
    then show ?thesis
      using None r(3) unfolding sv32_walk_def satp x by (simp add: root_entry_def)
  next
    case (Some f)
    then have "used_frame m f" "table_page m P ?x f"
      using assms unfolding tables_ok_def by blast+
    then have f: "f < 512" "leaf_ok P (?x * 1024 + ?y) (mem m (frame f) ! ?y)"
      unfolding used_frame_def table_page_def using mod_less_divisor [of 1024 ?v] by (blast, blast intro: mod_less_divisor zero_less_numeral)
    let ?e = "mem m (frame f) ! ?y"
    note pe = pointer_entry_facts [OF f(1)]
    have w: "sv32_walk (mem m) (satp_value m) va = (if ?e AND 1 = 0 then None
        else Some (push_bit 12 (ucast (drop_bit 10 ?e)) OR ucast (va AND 0xFFF), ?e AND 0xFF))"
      using Some r(3) pe unfolding sv32_walk_def satp x by (simp add: root_entry_def Let_def)
    have l: "leaf_ok P ?v ?e"
      using f(2) by simp
    show ?thesis
    proof (cases "?v \<in> P")
      case True
      then have e: "?e AND 1 = 1" "drop_bit 10 ?e = drop_bit 12 va" "?e AND 0xFF = USER_RWX"
        using l v(1) by (simp_all add: leaf_ok_def)
      have "push_bit 12 (ucast (drop_bit 12 va)) OR ucast (va AND 0xFFF) = (ucast va :: u64)"
        unfolding page_mask
        by (rule bit_word_eqI) (auto simp: bit_push_bit_iff bit_and_iff bit_or_iff bit_mask_iff bit_drop_bit_eq bit_ucast_iff)
      then show ?thesis
        using True e by (simp add: w)
    next
      case False
      then show ?thesis
        using l by (simp add: w leaf_ok_def)
    qed
  qed
qed

text \<open>The state after the root has been made.\<close>

lemma empty_root:
  assumes "length (page_info_table m) = 512" "i \<in> free_frames m"
    "m' = m\<lparr>page_info_table := (page_info_table m)[i := (page_info_table m ! i)\<lparr>pg_use := 1, pg_pid := p\<rparr>],
       pt_root := frame i, pid_to_pagetable_base := q, mem := (mem m)(frame i := replicate 1024 0)\<rparr>"
  shows "tables_ok m' i (\<lambda>_. None) {}" "card (free_frames m) = Suc (card (free_frames m'))"
proof -
  have i: "i < 512"
    using assms(2) by (simp add: free_frames_def)
  then show "tables_ok m' i (\<lambda>_. None) {}"
    using assms(1) by (simp add: assms(3) tables_ok_def used_frame_def root_entry_def)
  have "free_frames m' = free_frames m - {i}"
    using assms(1) by (auto simp: assms(3) free_frames_def nth_list_update_le split: if_splits)
  then show "card (free_frames m) = Suc (card (free_frames m'))"
    using card_Suc_Diff1 [of "free_frames m" i] assms(2) by (simp add: free_frames_def)
qed

lemma identity_map_tables:
  assumes "length (page_info_table m) = 512" "11 \<le> card (free_frames m)"
  shows "\<exists>m' i L. pagetable_identity_map 0 m = Inr m' \<and>
    tables_ok m' i L (\<Union>x \<in> set (identity_regions (plat m)). region_pages x) \<and>
    card (free_frames m) \<le> card (free_frames m') + 11"
proof -
  have "free_frames m \<noteq> {}"
    using assms(2) by auto
  then obtain i where i: "i \<in> free_frames m" "mmu_alloc m = Inr (of_nat i,
      m\<lparr>page_info_table := (page_info_table m)[i := (page_info_table m ! i)\<lparr>pg_use := 1\<rparr>]\<rparr>)"
    using mmu_alloc_list [OF assms(1)] by blast
  then have i5: "i < 512" "unat (of_nat i :: u32) = i"
    by (simp_all add: free_frames_def unat_of_nat_less)
  define m1 where "m1 = m\<lparr>page_info_table := (page_info_table m)[i := (page_info_table m ! i)\<lparr>pg_use := 1, pg_pid := 0\<rparr>],
    pt_root := frame i, pid_to_pagetable_base := (pid_to_pagetable_base m)(0 := frame i),
    mem := (mem m)(frame i := replicate 1024 0)\<rparr>"
  note m1 = empty_root [OF assms(1) i(1) m1_def]
  have "pagetable_identity_map 0 m = setup_regions 0 (identity_regions (plat m)) m1"
    using i(2) i5 assms(1) by (simp add: pagetable_identity_map_def Let_def MMU_MAX_NPROCESS_def m1_def)
  moreover have "length (identity_regions (plat m)) \<le> card (free_frames m1)"
    using identity_regions_ok(2) [of "plat m"] m1(2) assms(2) by simp
  then obtain m' L where "setup_regions 0 (identity_regions (plat m)) m1 = Inr m'"
    "tables_ok m' i L ({} \<union> (\<Union>x \<in> set (identity_regions (plat m)). region_pages x))"
    "card (free_frames m1) \<le> card (free_frames m') + length (identity_regions (plat m))"
    using regions_mapped [OF m1(1) identity_regions_ok(1)] by blast
  ultimately show ?thesis
    using m1(2) identity_regions_ok(2) [of "plat m"] by (intro exI [of _ m'] exI [of _ i] exI [of _ L]) auto
qed

lemma mmu_init_pages:
  assumes "length (page_info_table m) = 512" "11 \<le> card (free_frames m)"
  shows "\<exists>intf m'. mmu_init t m = Inr (intf, m') \<and> length (page_info_table m') = 512 \<and>
    card (free_frames m) \<le> card (free_frames m') + 11"
  using identity_map_tables [OF assms] assms(1) by (cases t) (auto simp: mmu_init_def tables_ok_def)

text \<open>
  C10. The page tables are an identity map of exactly the regions they are made for: when 11 pages are
  free, \<open>mmu_init\<close> with page tables ends, and from then on the processor translates an address to
  itself, for user code with all permissions, when its page lies in one of the regions of the platform,
  and faults on every other address.
\<close>

theorem identity_map_exact:
  assumes "length (page_info_table m) = 512" "11 \<le> card (free_frames m)"
  shows "\<exists>intf m'. mmu_init PAGE_TABLE m = Inr (intf, m') \<and>
    (\<forall>va. sv32_walk (mem m') (satp_value m') va =
      (if unat va div 4096 \<in> (\<Union>r \<in> set (identity_regions (plat m)). region_pages r)
       then Some (ucast va, USER_RWX) else None))"
proof -
  obtain m' i L where "pagetable_identity_map 0 m = Inr m'"
    "tables_ok m' i L (\<Union>x \<in> set (identity_regions (plat m)). region_pages x)"
    using identity_map_tables [OF assms] by blast
  then show ?thesis
    by (auto simp: mmu_init_def walk_tables)
qed

text \<open>At boot every page is free.\<close>

definition boot_memory :: "platform \<Rightarrow> mmu_state" where
  "boot_memory p = \<lparr>page_info_table = replicate 512 null_page_info, mem = \<lambda>_. replicate 1024 0, curr_vm_pid = -1,
     pt_root = 0, pt_leaf = 0, pid_to_pagetable_base = \<lambda>_. 0, plat = p\<rparr>"

theorem identity_map_exact_witness:
  "\<exists>intf m'. mmu_init PAGE_TABLE (boot_memory QEMU) = Inr (intf, m') \<and>
     sv32_walk (mem m') (satp_value m') 0x80200123 = Some (0x80200123, USER_RWX) \<and>
     sv32_walk (mem m') (satp_value m') 0 = None"
proof -
  have "free_frames (boot_memory QEMU) = {..< 512}"
    by (auto simp: free_frames_def boot_memory_def null_page_info_def)
  then have "length (page_info_table (boot_memory QEMU)) = 512" "11 \<le> card (free_frames (boot_memory QEMU))"
    by (simp_all add: boot_memory_def)
  from identity_map_exact [OF this] obtain intf m' where m': "mmu_init PAGE_TABLE (boot_memory QEMU) = Inr (intf, m')"
    "\<And>va. sv32_walk (mem m') (satp_value m') va =
      (if unat va div 4096 \<in> (\<Union>r \<in> set (identity_regions QEMU). region_pages r) then Some (ucast va, USER_RWX) else None)"
    by (auto simp: boot_memory_def)
  have "sv32_walk (mem m') (satp_value m') 0x80200123 = Some (0x80200123, USER_RWX)" "sv32_walk (mem m') (satp_value m') 0 = None"
    unfolding m'(2) by (simp_all add: identity_regions_def ram_regions_eq region_pages_def NIC_BASE_def UART_BASE_def
      CLINT_BASE_def FLASH_ROM_BASE_def VIDEO_FRAME_BASE_def SDHCI_BASE_def NIC_PCI_ECAM_def)
  with m'(1) show ?thesis
    by blast
qed

end
