(* ===== verification/Mkfs_Image.thy ===== *)
theory Mkfs_Image
  imports Mkfs
begin

text \<open>
  The images tools/mkfs.c writes: the kernel's binaries, one after the other in slots of 128 KB, and
  behind them the file system; for the boards with the FPGA's own binary in front.
\<close>

section \<open>The code\<close>

definition EGOS_BIN_MAX_NBYTE :: nat where "EGOS_BIN_MAX_NBYTE = 128 * 1024"

text \<open>\<open>SYS_PROC_EXEC_START\<close> and the others: slots 1 to 4.\<close>

definition EXEC_START :: "nat \<Rightarrow> u32" where
  "EXEC_START n = of_nat (EGOS_BIN_MAX_NBYTE div BLOCK_SIZE) * of_nat n"

text \<open>\<open>load_file\<close> to an offset of \<open>exec\<close>; a file that does not fit is written past the array.\<close>

definition load_at :: "nat \<Rightarrow> u8 list \<Rightarrow> u8 list \<Rightarrow> fault + u8 list" where
  "load_at off bs exec = bindr (load_file bs (drop off exec)) (\<lambda>r. if off \<le> length exec then Inr (take off exec @ r) else Inl Undefined)"

fun load_binaries :: "nat \<Rightarrow> u8 list list \<Rightarrow> u8 list \<Rightarrow> fault + u8 list" where
  "load_binaries i [] exec = Inr exec"
| "load_binaries i (bs # files) exec =
     bindr (load_at (i * EGOS_BIN_MAX_NBYTE) bs exec) (load_binaries (i + 1) files)"

definition fs_bytes :: "ramdisk_state \<Rightarrow> u8 list" where
  "fs_bytes s = concat (map bytes_of (fs s))"

definition disk_img :: "u8 list \<Rightarrow> ramdisk_state \<Rightarrow> u8 list" where
  "disk_img exec s = exec @ fs_bytes s"

definition fpga_rom :: "u8 list \<Rightarrow> u8 list \<Rightarrow> ramdisk_state \<Rightarrow> fault + u8 list" where
  "fpga_rom cpu exec s =
     bindr (load_file cpu (replicate (SIZE_2MB * 2) 0)) (\<lambda>vexriscv.
       if length cpu < SIZE_2MB * 2 then Inr (vexriscv @ exec @ fs_bytes s) else Inl (Fatal ''assert''))"

definition qemu_rom :: "u8 list \<Rightarrow> ramdisk_state \<Rightarrow> u8 list" where
  "qemu_rom exec s = exec @ concat (replicate 15 (fs_bytes s))"

text \<open>\<open>main\<close> around the file system: the binaries, then the images, of full size.\<close>

definition make_images :: "u8 list list \<Rightarrow> u8 list \<Rightarrow> ramdisk_state \<Rightarrow> fault + (u8 list \<times> u8 list \<times> u8 list)" where
  "make_images files cpu s =
     bindr (load_binaries 0 files (replicate SIZE_2MB 0)) (\<lambda>exec.
     bindr (fpga_rom cpu exec s) (\<lambda>fpga.
       let img = disk_img exec s; qemu = qemu_rom exec s in
       if length img = SIZE_2MB * 2 \<and> length fpga = SIZE_2MB * 4 \<and> length qemu = SIZE_2MB * 16
       then Inr (img, fpga, qemu) else Inl (Fatal ''assert'')))"

text \<open>A block of an image.\<close>

definition image_block :: "u8 list \<Rightarrow> nat \<Rightarrow> block" where
  "image_block img b = words_of (take BLOCK_SIZE (drop (BLOCK_SIZE * b) img))"

section \<open>Where the binaries are\<close>

lemma load_at_eq:
  "load_at off bs exec = (if off + length bs \<le> length exec then Inr (take off exec @ bs @ drop (off + length bs) exec) else Inl Undefined)"
  by (auto simp: load_at_def load_file_def add.commute)

lemma load_binaries_spec:
  assumes "\<forall>f \<in> set (butlast files). length f \<le> EGOS_BIN_MAX_NBYTE" "files \<noteq> []"
    "(i + length files - 1) * EGOS_BIN_MAX_NBYTE + length (last files) \<le> length exec"
  shows "\<exists>exec'. load_binaries i files exec = Inr exec' \<and> length exec' = length exec \<and>
    (\<forall>y < i * EGOS_BIN_MAX_NBYTE. exec' ! y = exec ! y) \<and>
    (\<forall>j x. j < length files \<longrightarrow> x < length (files ! j) \<longrightarrow> exec' ! ((i + j) * EGOS_BIN_MAX_NBYTE + x) = files ! j ! x)"
  using assms
proof (induction files arbitrary: i exec)
  case (Cons bs files)
  let ?off = "i * EGOS_BIN_MAX_NBYTE"
  let ?e = "take ?off exec @ bs @ drop (?off + length bs) exec"
  show ?case
  proof (cases "files = []")
    case True
    then have "?off + length bs \<le> length exec"
      using Cons.prems(3) by simp
    then show ?thesis
      using True by (auto simp: load_at_eq nth_append)
  next
    case False
    have bs: "length bs \<le> EGOS_BIN_MAX_NBYTE"
      using Cons.prems(1) False by simp
    have "i + 1 \<le> i + length files"
      using False by (cases files) auto
    then have "(i + 1) * EGOS_BIN_MAX_NBYTE \<le> (i + length files) * EGOS_BIN_MAX_NBYTE"
      by (rule mult_le_mono1)
    moreover have "(i + length files) * EGOS_BIN_MAX_NBYTE \<le> length exec"
      using Cons.prems(3) by simp
    ultimately have fit: "?off + EGOS_BIN_MAX_NBYTE \<le> length exec"
      by simp
    then have l: "length ?e = length exec"
      using bs by simp
    obtain e' where e': "load_binaries (i + 1) files ?e = Inr e'" "length e' = length exec"
      "\<forall>y < (i + 1) * EGOS_BIN_MAX_NBYTE. e' ! y = ?e ! y"
      "\<forall>j x. j < length files \<longrightarrow> x < length (files ! j) \<longrightarrow> e' ! ((i + 1 + j) * EGOS_BIN_MAX_NBYTE + x) = files ! j ! x"
      using Cons.IH [of "i + 1" ?e] Cons.prems False l by auto
    have "load_binaries i (bs # files) exec = Inr e'"
      using fit bs e'(1) by (simp add: load_at_eq)
    moreover have "e' ! y = exec ! y" if "y < ?off" for y
      using e'(3) that fit by (simp add: nth_append)
    moreover have "e' ! ((i + j) * EGOS_BIN_MAX_NBYTE + x) = (bs # files) ! j ! x"
      if "j < length (bs # files)" "x < length ((bs # files) ! j)" for j x
    proof (cases j)
      case 0
      then have "?off + x < (i + 1) * EGOS_BIN_MAX_NBYTE"
        using that bs by simp
      then show ?thesis
        using 0 that e'(3) fit bs by (simp add: nth_append)
    next
      case (Suc k)
      then have "i + j = i + 1 + k"
        by simp
      then show ?thesis
        using Suc that e'(4) by simp
    qed
    ultimately show ?thesis
      using e'(2) by blast
  qed
qed simp

lemma concat_blocks_length: "\<forall>b \<in> set bs. length b = 128 \<Longrightarrow> length (concat (map bytes_of bs)) = 512 * length bs"
  by (induction bs) simp_all

lemma fs_bytes_length: "ram_inv s \<Longrightarrow> length (fs_bytes s) = SIZE_2MB"
  by (simp add: fs_bytes_def concat_blocks_length ram_inv_def ram_sizes REFS_PER_BLOCK_def BLOCK_SIZE_def SIZE_2MB_def)

lemma image_block_byte:
  assumes "k < length img" "k div BLOCK_SIZE = b" "length img mod BLOCK_SIZE = 0"
  shows "bytes_of (image_block img b) ! (k mod BLOCK_SIZE) = img ! k"
proof -
  obtain q where q: "length img = 512 * q"
    using assms(3) by (auto simp: BLOCK_SIZE_def)
  have k: "k = 512 * b + k mod 512"
    using assms(2) mult_div_mod_eq [of 512 k] by (simp add: BLOCK_SIZE_def)
  moreover have "b < q"
    using assms(1,2) q by (simp add: BLOCK_SIZE_def less_mult_imp_div_less mult.commute)
  then have l: "length (take 512 (drop (512 * b) img)) = 512"
    using q by simp
  then have "bytes_of (image_block img b) = take 512 (drop (512 * b) img)"
    unfolding image_block_def BLOCK_SIZE_def by (intro bytes_of_words_of) simp
  then have "bytes_of (image_block img b) ! (k mod 512) = img ! (512 * b + k mod 512)"
    using assms(1) k by simp
  then show ?thesis
    using k by (simp add: BLOCK_SIZE_def)
qed

lemma block_of_concat:
  "\<forall>b \<in> set bs. length b = 128 \<Longrightarrow> j < length bs \<Longrightarrow> take 512 (drop (512 * j) (concat (map bytes_of bs))) = bytes_of (bs ! j)"
proof (induction bs arbitrary: j)
  case (Cons b bs)
  then show ?case
    by (cases j) simp_all
qed simp

text \<open>The bytes of the image are the disk that the file server and the loaders read.\<close>

lemma image_is_disk:
  assumes "ram_inv s" "length exec = SIZE_2MB" "unat b < 8192"
  shows "image_block (disk_img exec s) (unat b) = disk (disk_image (image_block exec) s) b"
proof (cases "unat b < 4096")
  case True
  then show ?thesis
    using assms(2) by (simp add: image_block_def disk_img_def disk_image_def BLOCK_SIZE_def SIZE_2MB_def)
next
  case False
  then have b: "512 * unat b = SIZE_2MB + 512 * (unat b - 4096)"
    by (simp add: SIZE_2MB_def)
  have "\<forall>b \<in> set (fs s). length b = 128" "unat b - 4096 < length (fs s)"
    using assms(1,3) False by (auto simp: ram_inv_def ram_sizes REFS_PER_BLOCK_def BLOCK_SIZE_def)
  then have "take 512 (drop (512 * (unat b - 4096)) (fs_bytes s)) = bytes_of (fs s ! (unat b - 4096))"
    unfolding fs_bytes_def by (rule block_of_concat)
  moreover have "drop (512 * unat b) (disk_img exec s) = drop (512 * (unat b - 4096)) (fs_bytes s)"
    unfolding b disk_img_def using assms(2) by simp
  ultimately show ?thesis
    using False by (simp add: image_block_def disk_image_def BLOCK_SIZE_def)
qed

lemma slot_fits:
  assumes "files \<noteq> []" "\<forall>f \<in> set (butlast files). length f \<le> EGOS_BIN_MAX_NBYTE"
    "(length files - 1) * EGOS_BIN_MAX_NBYTE + length (last files) \<le> m" "i < length files" "x < length (files ! i)"
  shows "i * EGOS_BIN_MAX_NBYTE + x < m"
proof (cases "i = length files - 1")
  case True
  then have "length (files ! i) = length (last files)"
    using assms(1) by (simp add: last_conv_nth)
  then show ?thesis
    using assms(3,5) unfolding True by simp
next
  case False
  then have i: "i < length files - 1"
    using assms(4) by simp
  then have "files ! i \<in> set (butlast files)"
    by (metis length_butlast nth_butlast nth_mem)
  then have "x < EGOS_BIN_MAX_NBYTE"
    using assms(2,5) by fastforce
  moreover have "(i + 1) * EGOS_BIN_MAX_NBYTE \<le> (length files - 1) * EGOS_BIN_MAX_NBYTE"
    using i by (intro mult_le_mono1) simp
  ultimately show ?thesis
    using assms(3) by simp
qed

lemma exec_block_byte:
  assumes "length exec = SIZE_2MB" and k: "i * EGOS_BIN_MAX_NBYTE + x < SIZE_2MB"
  shows "bytes_of (disk (disk_image (image_block exec) s) (EXEC_START i + of_nat (x div BLOCK_SIZE))) ! (x mod BLOCK_SIZE) =
    exec ! (i * EGOS_BIN_MAX_NBYTE + x)"
proof -
  let ?k = "i * EGOS_BIN_MAX_NBYTE + x"
  have kx: "?k = x + 512 * (256 * i)"
    by (simp add: EGOS_BIN_MAX_NBYTE_def)
  then have "?k div 512 = 256 * i + x div 512"
    by (simp only: div_mult_self2 simp_thms)
  then have n: "EXEC_START i + of_nat (x div BLOCK_SIZE) = of_nat (?k div BLOCK_SIZE)"
    by (simp add: EXEC_START_def EGOS_BIN_MAX_NBYTE_def BLOCK_SIZE_def)
  have "?k div BLOCK_SIZE < 4096"
    using k by (simp add: SIZE_2MB_def BLOCK_SIZE_def less_mult_imp_div_less)
  then have u: "unat (of_nat (?k div BLOCK_SIZE) :: u32) = ?k div BLOCK_SIZE"
    by (intro unat_of_nat_less) simp
  have "bytes_of (image_block exec (?k div BLOCK_SIZE)) ! (?k mod BLOCK_SIZE) = exec ! ?k"
    using k assms(1) by (intro image_block_byte) (simp_all add: SIZE_2MB_def BLOCK_SIZE_def)
  moreover have "?k mod BLOCK_SIZE = x mod BLOCK_SIZE"
    unfolding kx BLOCK_SIZE_def by (rule mod_mult_self2)
  moreover have "disk (disk_image (image_block exec) s) (of_nat (?k div BLOCK_SIZE)) = image_block exec (?k div BLOCK_SIZE)"
    using \<open>?k div BLOCK_SIZE < 4096\<close> u by (simp add: disk_image_def)
  ultimately show ?thesis
    unfolding n by simp
qed

text \<open>
  C32. The images hold the binaries where the system looks for them: when every binary but the last fits
  its slot, the last fits the rest of the 2 MB and the FPGA's binary is shorter than 4 MB, the images
  have their full sizes, and every byte of every binary is found in the blocks of \<open>disk.img\<close> from the
  start of its slot on (where grass/init.c and sys_proc.c read the servers), in the ROM image of QEMU at
  the same place, and in the ROM image of the boards 4 MB further on.
\<close>

theorem images_hold_binaries:
  assumes "files \<noteq> []" "\<forall>f \<in> set (butlast files). length f \<le> EGOS_BIN_MAX_NBYTE"
    "(length files - 1) * EGOS_BIN_MAX_NBYTE + length (last files) \<le> SIZE_2MB" "length cpu < SIZE_2MB * 2" "ram_inv s"
  shows "\<exists>exec img fpga qemu. make_images files cpu s = Inr (img, fpga, qemu) \<and>
    (\<forall>b. unat b < 8192 \<longrightarrow> image_block img (unat b) = disk (disk_image (image_block exec) s) b) \<and>
    (\<forall>i x. i < length files \<longrightarrow> x < length (files ! i) \<longrightarrow>
      bytes_of (disk (disk_image (image_block exec) s) (EXEC_START i + of_nat (x div BLOCK_SIZE))) ! (x mod BLOCK_SIZE) = files ! i ! x \<and>
      qemu ! (i * EGOS_BIN_MAX_NBYTE + x) = files ! i ! x \<and>
      fpga ! (SIZE_2MB * 2 + i * EGOS_BIN_MAX_NBYTE + x) = files ! i ! x)"
proof -
  obtain exec where e: "load_binaries 0 files (replicate SIZE_2MB 0) = Inr exec" "length exec = SIZE_2MB"
    "\<forall>j x. j < length files \<longrightarrow> x < length (files ! j) \<longrightarrow> exec ! (j * EGOS_BIN_MAX_NBYTE + x) = files ! j ! x"
    using load_binaries_spec [OF assms(2,1), of 0 "replicate SIZE_2MB 0"] assms(3) by auto
  let ?vex = "cpu @ replicate (SIZE_2MB * 2 - length cpu) 0"
  have fpga: "fpga_rom cpu exec s = Inr (?vex @ exec @ fs_bytes s)"
    using assms(4) by (simp add: fpga_rom_def load_file_def)
  note fl = fs_bytes_length [OF assms(5)]
  have "length (qemu_rom exec s) = SIZE_2MB * 16"
    using e(2) fl by (simp add: qemu_rom_def length_concat sum_list_replicate)
  then have make: "make_images files cpu s = Inr (disk_img exec s, ?vex @ exec @ fs_bytes s, qemu_rom exec s)"
    using e(1,2) fl fpga assms(4) by (simp add: make_images_def Let_def disk_img_def)
  have byte: "bytes_of (disk (disk_image (image_block exec) s) (EXEC_START i + of_nat (x div BLOCK_SIZE))) ! (x mod BLOCK_SIZE) = files ! i ! x \<and>
      qemu_rom exec s ! (i * EGOS_BIN_MAX_NBYTE + x) = files ! i ! x \<and>
      (?vex @ exec @ fs_bytes s) ! (SIZE_2MB * 2 + i * EGOS_BIN_MAX_NBYTE + x) = files ! i ! x"
    if ix: "i < length files" "x < length (files ! i)" for i x
  proof -
    let ?k = "i * EGOS_BIN_MAX_NBYTE + x"
    have k: "?k < SIZE_2MB"
      using slot_fits [OF assms(1-3) ix] .
    note exec_block_byte [OF e(2) k]
    moreover have "(?vex @ exec @ fs_bytes s) ! (SIZE_2MB * 2 + ?k) = exec ! ?k"
    proof -
      have "length ?vex = SIZE_2MB * 2"
        using assms(4) by simp
      then have "(?vex @ exec @ fs_bytes s) ! (SIZE_2MB * 2 + ?k) = (exec @ fs_bytes s) ! ?k"
        by (metis nth_append_length_plus)
      then show ?thesis
        using k e(2) by (simp add: nth_append)
    qed
    moreover have "qemu_rom exec s ! ?k = exec ! ?k"
      using k e(2) by (simp add: qemu_rom_def nth_append)
    moreover have "exec ! ?k = files ! i ! x"
      using e(3) ix by simp
    ultimately show ?thesis
      by (simp only: add.assoc)
  qed
  show ?thesis
    using make byte image_is_disk [OF assms(5) e(2)] by blast
qed

theorem images_hold_binaries_witness:
  "\<exists>img fpga qemu. make_images [[7], [1, 2, 3]] [9] zero_disk = Inr (img, fpga, qemu) \<and>
     qemu ! 131074 = 3 \<and> fpga ! 4325378 = 3"
proof -
  have h: "[[7], [1, 2, 3]] \<noteq> ([] :: u8 list list)" "\<forall>f \<in> set (butlast [[7], [1, 2, 3 :: u8]]). length f \<le> EGOS_BIN_MAX_NBYTE"
    "(length [[7], [1, 2, 3 :: u8]] - 1) * EGOS_BIN_MAX_NBYTE + length (last [[7], [1, 2, 3 :: u8]]) \<le> SIZE_2MB"
    "length [9 :: u8] < SIZE_2MB * 2"
    by (simp_all add: EGOS_BIN_MAX_NBYTE_def SIZE_2MB_def)
  obtain img fpga qemu where m: "make_images [[7], [1, 2, 3]] [9] zero_disk = Inr (img, fpga, qemu)"
    "\<forall>i x. i < length [[7], [1, 2, 3 :: u8]] \<longrightarrow> x < length ([[7], [1, 2, 3 :: u8]] ! i) \<longrightarrow>
      qemu ! (i * EGOS_BIN_MAX_NBYTE + x) = [[7], [1, 2, 3]] ! i ! x \<and>
      fpga ! (SIZE_2MB * 2 + i * EGOS_BIN_MAX_NBYTE + x) = [[7], [1, 2, 3]] ! i ! x"
    using images_hold_binaries [OF h zero_disk_inv(1)] by metis
  have "qemu ! 131074 = 3" "fpga ! 4325378 = 3"
    using m(2) [rule_format, of 1 2] by (simp_all add: EGOS_BIN_MAX_NBYTE_def SIZE_2MB_def)
  with m(1) show ?thesis
    by blast
qed

end
