(* ===== verification/Mmio.thy ===== *)
theory Mmio
  imports Prelude
begin

text \<open>
  Memory-mapped registers: \<open>REGW\<close> and \<open>REGB\<close> of library/egos.h, and the driver code that uses
  them. The devices are a parameter: a state \<open>'d\<close> and what a load or a store at an address does to
  it. A computation that polls a register forever has the value \<open>None\<close>.
\<close>

section \<open>Devices\<close>

record 'd bus =
  load_word :: "u32 \<Rightarrow> 'd \<Rightarrow> u32 \<times> 'd"
  store_word :: "u32 \<Rightarrow> u32 \<Rightarrow> 'd \<Rightarrow> 'd"
  load_byte :: "u32 \<Rightarrow> 'd \<Rightarrow> u8 \<times> 'd"
  store_byte :: "u32 \<Rightarrow> u8 \<Rightarrow> 'd \<Rightarrow> 'd"
  memory :: "'d \<Rightarrow> u32 \<Rightarrow> u8"

datatype platform = HARDWARE | QEMU

section \<open>Driver code\<close>

type_synonym ('d, 'a) io = "'d \<Rightarrow> (fault + 'a \<times> 'd) option"

definition ret :: "'a \<Rightarrow> ('d, 'a) io" where
  "ret x d = Some (Inr (x, d))"

definition fail :: "fault \<Rightarrow> ('d, 'a) io" where
  "fail e d = Some (Inl e)"

definition bindio :: "('d, 'a) io \<Rightarrow> ('a \<Rightarrow> ('d, 'b) io) \<Rightarrow> ('d, 'b) io" where
  "bindio m f d = (case m d of
       None \<Rightarrow> None
     | Some (Inl e) \<Rightarrow> Some (Inl e)
     | Some (Inr (x, d')) \<Rightarrow> f x d')"

definition REGW :: "'d bus \<Rightarrow> u32 \<Rightarrow> u32 \<Rightarrow> ('d, u32) io" where
  "REGW bus base offset d = Some (Inr (load_word bus (base + offset) d))"

definition set_REGW :: "'d bus \<Rightarrow> u32 \<Rightarrow> u32 \<Rightarrow> u32 \<Rightarrow> ('d, unit) io" where
  "set_REGW bus base offset w d = Some (Inr ((), store_word bus (base + offset) w d))"

definition REGB :: "'d bus \<Rightarrow> u32 \<Rightarrow> u32 \<Rightarrow> ('d, u8) io" where
  "REGB bus base offset d = Some (Inr (load_byte bus (base + offset) d))"

definition set_REGB :: "'d bus \<Rightarrow> u32 \<Rightarrow> u32 \<Rightarrow> u8 \<Rightarrow> ('d, unit) io" where
  "set_REGB bus base offset w d = Some (Inr ((), store_byte bus (base + offset) w d))"

text \<open>\<open>memcpy\<close> of \<open>n\<close> bytes from an address.\<close>

definition copy_memory :: "'d bus \<Rightarrow> u32 \<Rightarrow> nat \<Rightarrow> ('d, u8 list) io" where
  "copy_memory bus a n d = Some (Inr (map (\<lambda>i. memory bus d (a + of_nat i)) [0 ..< n], d))"

text \<open>\<open>do x = m; while (!p(x));\<close>\<close>

partial_function (option) poll :: "('d, 'a) io \<Rightarrow> ('a \<Rightarrow> bool) \<Rightarrow> ('d, 'a) io" where
  "poll m p d = (case m d of
       None \<Rightarrow> None
     | Some r \<Rightarrow> (case r of
         Inl e \<Rightarrow> Some (Inl e)
       | Inr y \<Rightarrow> if p (fst y) then Some (Inr y) else poll m p (snd y)))"

declare poll.simps [code]

text \<open>\<open>for (i = 0; i < n; i++) x[i] = f(i);\<close>, collecting the results.\<close>

primrec for_io :: "(nat \<Rightarrow> ('d, 'a) io) \<Rightarrow> nat \<Rightarrow> nat \<Rightarrow> ('d, 'a list) io" where
  "for_io f i 0 = ret []"
| "for_io f i (Suc n) = bindio (f i) (\<lambda>x. bindio (for_io f (Suc i) n) (\<lambda>xs. ret (x # xs)))"

section \<open>Running driver code\<close>

text \<open>\<open>runs m d x d'\<close>: the code returns \<open>x\<close> and leaves the devices in \<open>d'\<close>.\<close>

abbreviation runs :: "('d, 'a) io \<Rightarrow> 'd \<Rightarrow> 'a \<Rightarrow> 'd \<Rightarrow> bool" where
  "runs m d x d' \<equiv> m d = Some (Inr (x, d'))"

named_theorems io_runs

lemma bindio_run [io_runs]: "runs m d x d' \<Longrightarrow> bindio m f d = f x d'"
  by (simp add: bindio_def)

lemma bindio_fault [io_runs]: "m d = Some (Inl e) \<Longrightarrow> bindio m f d = Some (Inl e)"
  by (simp add: bindio_def)

lemma bindio_hangs [io_runs]: "m d = None \<Longrightarrow> bindio m f d = None"
  by (simp add: bindio_def)

lemma ret_run [simp]: "ret x d = Some (Inr (x, d))"
  by (simp add: ret_def)

lemma fail_run [simp]: "fail e d = Some (Inl e)"
  by (simp add: fail_def)

lemma poll_hit: "runs m d x d' \<Longrightarrow> p x \<Longrightarrow> runs (poll m p) d x d'"
  by (subst poll.simps) simp

lemma poll_miss: "runs m d x d' \<Longrightarrow> \<not> p x \<Longrightarrow> poll m p d = poll m p d'"
  by (subst poll.simps) simp

text \<open>Polling something that stays busy never returns.\<close>

lemma poll_never_returns:
  assumes "poll m p d = Some r"
  shows "\<forall>d. I d \<longrightarrow> (\<exists>x d'. runs m d x d' \<and> \<not> p x \<and> I d') \<Longrightarrow> I d \<Longrightarrow> False"
proof (induction rule: poll.raw_induct [OF _ assms])
  case (1 poll m p d r)
  obtain x d' where x: "runs m d x d'" "\<not> p x" "I d'"
    using 1(3,4) by blast
  then have "poll m p d' = Some r"
    using 1(2) by simp
  then show ?case
    using 1(1) [OF _ 1(3) x(3)] by blast
qed

lemma poll_never:
  assumes "I d" "\<forall>d. I d \<longrightarrow> (\<exists>x d'. runs m d x d' \<and> \<not> p x \<and> I d')"
  shows "poll m p d = None"
  using poll_never_returns [OF _ assms(2,1)] by (cases "poll m p d") auto

end
