(* ===== verification/Timer.thy ===== *)
theory Timer
  imports Mmio
begin

text \<open>
  The timer of earth/cpu_intr.c: reading the 64-bit clock through two 32-bit registers, and arming
  the timer interrupt of a core through the two halves of its compare register.
\<close>

section \<open>The code\<close>

definition CLINT_BASE :: "platform \<Rightarrow> u32" where
  "CLINT_BASE pf = (if pf = QEMU then 0x02000000 else 0xF0010000)"

definition MTIME_BASE :: "platform \<Rightarrow> u32" where "MTIME_BASE pf = CLINT_BASE pf + 0xBFF8"
definition MTIMECMP_BASE :: "platform \<Rightarrow> u32" where "MTIMECMP_BASE pf = CLINT_BASE pf + 0x4000"

definition QUANTUM :: "platform \<Rightarrow> u64" where
  "QUANTUM pf = (if pf = QEMU then 100000 else 50000000)"

text \<open>One round of the loop: high word, low word, and the high word again for the test.\<close>

definition mtime_round :: "'d bus \<Rightarrow> platform \<Rightarrow> ('d, u32 \<times> u32 \<times> u32) io" where
  "mtime_round bus pf =
     bindio (REGW bus (MTIME_BASE pf) 4) (\<lambda>high.
     bindio (REGW bus (MTIME_BASE pf) 0) (\<lambda>low.
     bindio (REGW bus (MTIME_BASE pf) 4) (\<lambda>again. ret (high, low, again))))"

definition mtime_get :: "'d bus \<Rightarrow> platform \<Rightarrow> ('d, u64) io" where
  "mtime_get bus pf =
     bindio (poll (mtime_round bus pf) (\<lambda>(high, low, again). again = high)) (\<lambda>(high, low, again).
       ret (push_bit 32 (ucast high) OR ucast low))"

text \<open>The three stores of \<open>mtimecmp_set\<close>, in their order.\<close>

definition mtimecmp_stores :: "platform \<Rightarrow> u64 \<Rightarrow> u32 \<Rightarrow> (u32 \<times> u32) list" where
  "mtimecmp_stores pf time core_id =
     [(MTIMECMP_BASE pf + (core_id * 8 + 4), 0xFFFFFFFF),
      (MTIMECMP_BASE pf + (core_id * 8 + 0), ucast time),
      (MTIMECMP_BASE pf + (core_id * 8 + 4), ucast (drop_bit 32 time))]"

definition store_all :: "'d bus \<Rightarrow> (u32 \<times> u32) list \<Rightarrow> 'd \<Rightarrow> 'd" where
  "store_all bus ws d = fold (\<lambda>(a, w). store_word bus a w) ws d"

definition mtimecmp_set :: "'d bus \<Rightarrow> platform \<Rightarrow> u64 \<Rightarrow> u32 \<Rightarrow> ('d, unit) io" where
  "mtimecmp_set bus pf time core_id d = ret () (store_all bus (mtimecmp_stores pf time core_id) d)"

definition timer_reset :: "'d bus \<Rightarrow> platform \<Rightarrow> u32 \<Rightarrow> ('d, unit) io" where
  "timer_reset bus pf core_id =
     bindio (mtime_get bus pf) (\<lambda>t. mtimecmp_set bus pf (t + QUANTUM pf) core_id)"

text \<open>The part of \<open>intr_init\<close> that drives the timer: no interrupt until the first reset.\<close>

definition intr_init :: "'d bus \<Rightarrow> platform \<Rightarrow> u32 \<Rightarrow> ('d, unit) io" where
  "intr_init bus pf core_id = mtimecmp_set bus pf 0x0FFFFFFFFFFFFFFF core_id"

section \<open>Clocks and timers\<close>

text \<open>
  A clock that counts \<open>time\<close> and shows it in the two registers of \<open>mtime\<close>. It goes on while the
  code runs, by less than \<open>step\<close> ticks between two loads.
\<close>

definition step :: nat where "step = 2 ^ 28"

definition is_clock :: "'d bus \<Rightarrow> platform \<Rightarrow> ('d \<Rightarrow> nat) \<Rightarrow> bool" where
  "is_clock bus pf time \<longleftrightarrow>
     (\<forall>d. fst (load_word bus (MTIME_BASE pf + 4) d) = of_nat (time d div 2 ^ 32) \<and>
          time d \<le> time (snd (load_word bus (MTIME_BASE pf + 4) d)) \<and>
          time (snd (load_word bus (MTIME_BASE pf + 4) d)) \<le> time d + step \<and>
          fst (load_word bus (MTIME_BASE pf) d) = of_nat (time d) \<and>
          time d \<le> time (snd (load_word bus (MTIME_BASE pf) d)) \<and>
          time (snd (load_word bus (MTIME_BASE pf) d)) \<le> time d + step)"

lemma clock_round:
  assumes "is_clock bus pf time"
  obtains t1 t2 d' where
    "runs (mtime_round bus pf) d (of_nat (time d div 2 ^ 32), of_nat t1, of_nat (t2 div 2 ^ 32)) d'"
    "time d \<le> t1" "t1 \<le> t2" "t2 \<le> time d'" "t1 \<le> time d + step" "t2 \<le> t1 + step" "time d' \<le> t2 + step"
proof -
  let ?hi = "load_word bus (MTIME_BASE pf + 4)" and ?lo = "load_word bus (MTIME_BASE pf)"
  let ?d1 = "snd (?hi d)"
  let ?d2 = "snd (?lo ?d1)"
  have "runs (mtime_round bus pf) d (fst (?hi d), fst (?lo ?d1), fst (?hi ?d2)) (snd (?hi ?d2))"
    by (simp add: mtime_round_def bindio_def REGW_def case_prod_unfold)
  then show thesis
    using assms that [of "time ?d1" "time ?d2" "snd (?hi ?d2)"] unfolding is_clock_def by simp
qed

lemma high_low_word:
  assumes "t < 2 ^ 64"
  shows "unat (push_bit 32 (ucast (of_nat (t div 2 ^ 32) :: u32)) OR ucast (of_nat t :: u32) :: u64) = t"
proof -
  have "(push_bit 32 (ucast (of_nat (t div 2 ^ 32) :: u32)) OR ucast (of_nat t :: u32) :: u64) = of_nat t"
  proof (rule bit_word_eqI)
    fix n assume n: "n < LENGTH(64)"
    have "(4294967296 :: nat) * 2 ^ (n - 32) = 2 ^ n" if "\<not> n < 32"
      using that power_add [of "2 :: nat" 32 "n - 32"] by simp
    with n show "bit (push_bit 32 (ucast (of_nat (t div 2 ^ 32) :: u32)) OR ucast (of_nat t :: u32) :: u64) n = bit (of_nat t :: u64) n"
      by (cases "n < 32") (auto simp: bit_simps bit_of_nat_iff bit_nat_def power_add [symmetric] div_mult2_eq [symmetric])
  qed
  then show ?thesis
    using assms by (simp add: unat_of_nat_less)
qed

lemma same_high_word:
  assumes "(of_nat (a div 2 ^ 32) :: u32) = of_nat (b div 2 ^ 32)" "a < 2 ^ 64" "b < 2 ^ 64"
  shows "a div 2 ^ 32 = b div 2 ^ 32"
proof -
  have "a div 2 ^ 32 < 2 ^ 32" "b div 2 ^ 32 < 2 ^ 32"
    using assms(2,3) by (simp_all add: less_mult_imp_div_less)
  then have "unat (of_nat (a div 2 ^ 32) :: u32) = a div 2 ^ 32" "unat (of_nat (b div 2 ^ 32) :: u32) = b div 2 ^ 32"
    by (simp_all add: unat_of_nat_less)
  then show ?thesis
    by (metis assms(1))
qed

text \<open>One round from \<open>d\<close>: either the high word did not change, or the clock has just carried.\<close>

lemma same_quotient: "(a :: nat) \<le> b \<Longrightarrow> b < (a div m + 1) * m \<Longrightarrow> b div m = a div m"
  by (metis Suc_eq_plus1 div_le_mono less_Suc_eq_le less_mult_imp_div_less order_antisym)

lemma carry_bound: "(a :: nat) \<le> b \<Longrightarrow> b div m \<noteq> a div m \<Longrightarrow> (a div m + 1) * m \<le> b"
  using same_quotient [of a b m] by linarith

lemma mtime_returns:
  assumes "is_clock bus pf time" "time d + 6 * step < 2 ^ 64"
  obtains t d' where "runs (mtime_get bus pf) d t d'" "time d \<le> unat t" "unat t \<le> time d'" "time d' \<le> time d + 6 * step"
proof -
  let ?M = "2 ^ 32 :: nat" and ?p = "\<lambda>(high, low, again). again = high"
  let ?val = "\<lambda>t. push_bit 32 (ucast (of_nat (t div 2 ^ 32) :: u32)) OR ucast (of_nat t :: u32) :: u64"
  have fin: "\<exists>t d''. runs (mtime_get bus pf) d t d'' \<and> time a \<le> unat t \<and> unat t \<le> time d'' \<and> d'' = b"
    if r: "runs (mtime_round bus pf) a (of_nat (time a div ?M), of_nat t1, of_nat (t2 div ?M)) b"
      and "poll (mtime_round bus pf) ?p d = poll (mtime_round bus pf) ?p a"
      and t: "time a \<le> t1" "t1 \<le> t2" "t2 \<le> time b" "t2 < 2 ^ 64" "t2 div ?M = time a div ?M" for a b t1 t2
  proof -
    have "runs (poll (mtime_round bus pf) ?p) d (of_nat (time a div ?M), of_nat t1, of_nat (t2 div ?M)) b"
      unfolding that(2) using r t(5) by (intro poll_hit) simp_all
    moreover have "time a div ?M = t1 div ?M"
      using t div_le_mono [of "time a" t1 ?M] div_le_mono [of t1 t2 ?M] by linarith
    ultimately have "runs (mtime_get bus pf) d (?val t1) b"
      by (simp add: mtime_get_def bindio_def)
    then show ?thesis
      using high_low_word [of t1] t by (intro exI [of _ "?val t1"] exI [of _ b]) simp
  qed
  obtain t1 t2 a where r: "runs (mtime_round bus pf) d (of_nat (time d div ?M), of_nat t1, of_nat (t2 div ?M)) a"
    and t: "time d \<le> t1" "t1 \<le> t2" "t2 \<le> time a" "t1 \<le> time d + step" "t2 \<le> t1 + step" "time a \<le> t2 + step"
    using clock_round [OF assms(1), of d] .
  show thesis
  proof (cases "t2 div ?M = time d div ?M")
    case True
    then show thesis
      using fin [OF r refl t(1-3) _ True] assms(2) t that by fastforce
  next
    case False
    have b: "t2 < 2 ^ 64" "time d < 2 ^ 64"
      using t assms(2) by linarith+
    then have "(of_nat (t2 div ?M) :: u32) \<noteq> of_nat (time d div ?M)"
      using same_high_word [of t2 "time d"] False by blast
    then have p: "poll (mtime_round bus pf) ?p d = poll (mtime_round bus pf) ?p a"
      using r by (intro poll_miss) (assumption, simp only: prod.case not_False_eq_True)
    obtain u1 u2 c where r': "runs (mtime_round bus pf) a (of_nat (time a div ?M), of_nat u1, of_nat (u2 div ?M)) c"
      and u: "time a \<le> u1" "u1 \<le> u2" "u2 \<le> time c" "u1 \<le> time a + step" "u2 \<le> u1 + step" "time c \<le> u2 + step"
      using clock_round [OF assms(1), of a] .
    let ?q = "time d div ?M + 1"
    have lo: "?q * ?M \<le> t2"
      using carry_bound False t by (metis order.trans)
    have hi: "time d < ?q * ?M"
      using dividend_less_times_div [of ?M "time d"] by simp
    have "u2 < (?q + 1) * ?M"
      using hi t u by (simp add: step_def)
    moreover have "?q \<le> time a div ?M"
      using lo t(3) by (simp add: less_eq_div_iff_mult_less_eq)
    ultimately have "u2 div ?M = time a div ?M"
      using u by (intro same_quotient) (auto elim: order.strict_trans2)
    then show thesis
      using fin [OF r' p u(1-3)] assms(2) t u that by fastforce
  qed
qed

section \<open>Arming the timer\<close>

text \<open>A compare register \<open>cmp\<close> of a core, written by halves.\<close>

definition is_timer :: "'d bus \<Rightarrow> platform \<Rightarrow> u32 \<Rightarrow> ('d \<Rightarrow> u64) \<Rightarrow> bool" where
  "is_timer bus pf core_id cmp \<longleftrightarrow>
     (\<forall>d w. cmp (store_word bus (MTIMECMP_BASE pf + (core_id * 8 + 4)) w d) = (cmp d AND mask 32) OR push_bit 32 (ucast w) \<and>
            cmp (store_word bus (MTIMECMP_BASE pf + core_id * 8) w d) = (cmp d AND NOT (mask 32)) OR ucast w)"

lemma high_word: "(0xFFFFFFFF00000000 :: u64) = push_bit 32 (mask 32)"
  by code_simp

lemma or_high_ge: "push_bit 32 (mask 32) \<le> x OR push_bit 32 (mask 32 :: u64)"
  using or_greater_eq [of "uint x" "uint (push_bit 32 (mask 32 :: u64))"]
  by (simp add: word_le_def unsigned_or_eq or.commute)

lemma compare_values:
  fixes t :: u64
  assumes "is_timer bus pf core_id cmp"
  defines "ws \<equiv> mtimecmp_stores pf t core_id"
  shows "0xFFFFFFFF00000000 \<le> cmp (store_all bus (take 1 ws) d)"
    "0xFFFFFFFF00000000 \<le> cmp (store_all bus (take 2 ws) d)"
    "cmp (store_all bus (take 3 ws) d) = t"
proof -
  let ?d1 = "store_all bus (take 1 ws) d" and ?d2 = "store_all bus (take 2 ws) d"
  have c1: "cmp ?d1 = (cmp d AND mask 32) OR push_bit 32 (mask 32)"
    using assms(1) by (simp add: ws_def is_timer_def store_all_def mtimecmp_stores_def flip: high_word)
  then show "0xFFFFFFFF00000000 \<le> cmp ?d1"
    by (simp only: high_word or_high_ge)
  have "cmp ?d2 = (cmp ?d1 AND NOT (mask 32)) OR ucast (ucast t :: u32)"
    using assms(1) by (simp add: ws_def is_timer_def store_all_def mtimecmp_stores_def)
  also have "\<dots> = (t AND mask 32) OR push_bit 32 (mask 32)"
    unfolding c1 by (rule bit_word_eqI) (auto simp: bit_simps)
  finally have c2: "cmp ?d2 = (t AND mask 32) OR push_bit 32 (mask 32)" .
  then show "0xFFFFFFFF00000000 \<le> cmp ?d2"
    by (simp only: high_word or_high_ge)
  have "cmp (store_all bus (take 3 ws) d) = (cmp ?d2 AND mask 32) OR push_bit 32 (ucast (ucast (drop_bit 32 t) :: u32))"
    using assms(1) by (simp add: ws_def is_timer_def store_all_def mtimecmp_stores_def)
  also have "\<dots> = t"
    unfolding c2 by (rule bit_word_eqI) (auto simp: bit_simps)
  finally show "cmp (store_all bus (take 3 ws) d) = t" .
qed

text \<open>
  C35. Resetting the timer terminates and arms it for one quantum after a moment during the call: the
  clock value the code puts together from two registers lies between the clock at the start and
  after the loads, also when the low word carries between them. The compare register is never
  lower than one quantum from the start while its halves are written, so no early interrupt fires.
\<close>

theorem timer_reset_arms:
  assumes "is_clock bus pf time" "is_timer bus pf core_id cmp" "time d + 6 * step + 50000000 \<le> 0xFFFFFFFF00000000"
  shows "\<exists>t d1. let ws = mtimecmp_stores pf (t + QUANTUM pf) core_id in
    runs (mtime_get bus pf) d t d1 \<and> time d \<le> unat t \<and> unat t \<le> time d1 \<and>
    runs (timer_reset bus pf core_id) d () (store_all bus ws d1) \<and>
    unat (cmp (store_all bus ws d1)) = unat t + unat (QUANTUM pf) \<and>
    list_all (\<lambda>k. time d + unat (QUANTUM pf) \<le> unat (cmp (store_all bus (take k ws) d1))) [1, 2, 3]"
proof -
  have "time d + 6 * step < 2 ^ 64"
    using assms(3) by simp
  then obtain t d1 where t: "runs (mtime_get bus pf) d t d1" "time d \<le> unat t" "unat t \<le> time d1" "time d1 \<le> time d + 6 * step"
    using mtime_returns [OF assms(1)] by metis
  have q: "unat (QUANTUM pf) \<le> 50000000"
    by (simp add: QUANTUM_def)
  then have "unat t + unat (QUANTUM pf) < 2 ^ 64"
    using t(3,4) assms(3) by simp
  then have s: "unat (t + QUANTUM pf) = unat t + unat (QUANTUM pf)"
    by (simp add: unat_add_lem [THEN iffD1])
  let ?ws = "mtimecmp_stores pf (t + QUANTUM pf) core_id"
  note c = compare_values [OF assms(2), of "t + QUANTUM pf" d1]
  have "unat (0xFFFFFFFF00000000 :: u64) = 0xFFFFFFFF00000000"
    by simp
  then have k: "time d + unat (QUANTUM pf) \<le> unat (0xFFFFFFFF00000000 :: u64)"
    using q assms(3) by simp
  have "time d + unat (QUANTUM pf) \<le> unat (cmp (store_all bus (take k ?ws) d1))" if "k = 1 \<or> k = 2" for k
    using that order.trans [OF k c(1) [unfolded word_le_nat_alt]] order.trans [OF k c(2) [unfolded word_le_nat_alt]] by metis
  moreover have "take 3 ?ws = ?ws"
    by (simp add: mtimecmp_stores_def)
  moreover have "runs (timer_reset bus pf core_id) d () (store_all bus ?ws d1)"
    using t(1) by (simp add: timer_reset_def bindio_def mtimecmp_set_def)
  ultimately show ?thesis
    using t c(3) s by (intro exI [of _ t] exI [of _ d1]) simp
qed

text \<open>A clock that carries into the high word while it is read.\<close>

record clint =
  clk :: nat
  compare :: u64

definition clint_bus :: "clint bus" where
  "clint_bus = \<lparr>
     load_word = (\<lambda>a c. (of_nat (if a = 0x0200BFFC then clk c div 2 ^ 32 else clk c), c\<lparr>clk := clk c + 10\<rparr>)),
     store_word = (\<lambda>a w c. if a = 0x02004004 then c\<lparr>compare := (compare c AND mask 32) OR push_bit 32 (ucast w)\<rparr>
                          else if a = 0x02004000 then c\<lparr>compare := (compare c AND NOT (mask 32)) OR ucast w\<rparr> else c),
     load_byte = (\<lambda>a c. (0, c)), store_byte = (\<lambda>a w c. c), memory = (\<lambda>c a. 0)\<rparr>"

theorem timer_reset_arms_witness:
  "\<exists>t d1. runs (mtime_get clint_bus QEMU) \<lparr>clk = 2 ^ 32 - 15, compare = 0\<rparr> t d1 \<and> 2 ^ 32 - 15 \<le> unat t \<and> unat t \<le> clk d1 \<and>
     (\<exists>d2. runs (timer_reset clint_bus QEMU 0) \<lparr>clk = 2 ^ 32 - 15, compare = 0\<rparr> () d2 \<and> unat (compare d2) = unat t + 100000)"
proof -
  have "is_clock clint_bus QEMU clk" "is_timer clint_bus QEMU 0 compare"
    by (auto simp: is_clock_def is_timer_def clint_bus_def MTIME_BASE_def MTIMECMP_BASE_def CLINT_BASE_def step_def)
  from timer_reset_arms [OF this, of "\<lparr>clk = 2 ^ 32 - 15, compare = 0\<rparr>"]
  show ?thesis
    by (auto simp: step_def QUANTUM_def Let_def)
qed

end
