(* ===== verification/Terminal.thy ===== *)
theory Terminal
  imports Cstring
begin

text \<open>
  The terminal: the line editor \<open>term_read\<close> of library/syscall/servers.c as the kernel's terminal
  server runs it, and the request loop of apps/system/sys_terminal.c.
\<close>

section \<open>The line editor\<close>

definition ENTER :: char where "ENTER = CHR 0x0D"
definition BACKSPACE :: char where "BACKSPACE = CHR 0x7F"

definition rubout :: string where "rubout = [CHR 0x08, CHR '' '', CHR 0x08]"
definition newline :: string where "newline = [CHR 0x0A, CHR 0x0D]"

text \<open>
  The loop of \<open>term_read\<close> at index \<open>i\<close>: \<open>keys\<close> are the characters still to come from the keyboard,
  \<open>out\<close> is what has been written to the screen. It returns the length, the buffer, the screen and the
  rest of the keys; \<open>None\<close> is a loop that waits for a key. The bound \<open>len - 1\<close> is unsigned.
\<close>

type_synonym term_result = "(fault + (u32 \<times> string \<times> string \<times> string)) option"

definition term_full :: "u32 \<Rightarrow> string \<Rightarrow> string \<Rightarrow> string \<Rightarrow> term_result" where
  "term_full len keys buf out = Some (if unat (len - 1) < length buf
     then Inr (len, buf[unat (len - 1) := NUL], out, keys) else Inl Undefined)"

fun term_loop :: "u32 \<Rightarrow> string \<Rightarrow> string \<Rightarrow> nat \<Rightarrow> string \<Rightarrow> term_result" where
  "term_loop len [] buf i out = (if i < unat (len - 1) then None else term_full len [] buf out)"
| "term_loop len (c # keys) buf i out =
     (if \<not> i < unat (len - 1) then term_full len (c # keys) buf out
      else if i \<ge> length buf then Some (Inl Undefined)
      else if c = ENTER then
        Some (Inr (if i = 0 then 0 else of_nat (i + 1), buf[i := NUL], out @ newline, keys))
      else if c = BACKSPACE then
        (if i = 0 then term_loop len keys (buf[i := c]) 0 out
         else term_loop len keys (buf[i := c]) (i - 1) (out @ rubout))
      else term_loop len keys (buf[i := c]) (i + 1) (if c = NUL then out else out @ [c]))"

definition term_read :: "u32 \<Rightarrow> string \<Rightarrow> string \<Rightarrow> term_result" where
  "term_read len keys buf = term_loop len keys buf 0 []"

section \<open>The terminal server\<close>

definition TERM_BUF_SIZE :: nat where "TERM_BUF_SIZE = 512"

definition TERM_INPUT :: u32 where "TERM_INPUT = 0"
definition TERM_OUTPUT :: u32 where "TERM_OUTPUT = 1"

record term_message =
  term_type :: u32
  term_len :: u32
  term_buf :: string

text \<open>What a request makes the server do: wait for keys, reply, or write to the screen.\<close>

datatype term_action =
    Waiting
  | Reply u32 string string string
  | Screen string

text \<open>
  One turn of the loop of \<open>main\<close>. The reply lies over the request in the message buffer, its text
  over the length of the request and all but the end of its text; the length is checked before the
  type.
\<close>

definition reply_buf :: "term_message \<Rightarrow> string" where
  "reply_buf req = map (char_of \<circ> unat) (word_bytes (term_len req)) @ take (TERM_BUF_SIZE - 4) (term_buf req)"

definition term_handle :: "term_message \<Rightarrow> string \<Rightarrow> fault + term_action" where
  "term_handle req keys =
     (if unat (term_len req) > TERM_BUF_SIZE then Inl (Fatal ''sys_terminal: request len'')
      else if term_type req = TERM_INPUT then
        (case term_read (term_len req) keys (reply_buf req) of
           None \<Rightarrow> Inr Waiting
         | Some r \<Rightarrow> bindr r (\<lambda>(len, buf, out, rest). Inr (Reply len buf out rest)))
      else if term_type req = TERM_OUTPUT then Inr (Screen (take (unat (term_len req)) (term_buf req)))
      else Inl (Fatal ''sys_terminal: invalid request''))"

section \<open>What the user means\<close>

definition edit :: "string \<Rightarrow> char \<Rightarrow> string" where
  "edit line c = (if c = BACKSPACE then butlast line else line @ [c])"

abbreviation edited :: "string \<Rightarrow> string" where
  "edited keys \<equiv> foldl edit [] keys"

text \<open>The screen as the text before the cursor and the text from the cursor on.\<close>

fun display :: "string \<times> string \<Rightarrow> char \<Rightarrow> string \<times> string" where
  "display (l, r) c = (if c = CHR 0x08 then (if l = [] then ([], r) else (butlast l, last l # r)) else (l @ [c], tl r))"

lemma display_rubout: "l \<noteq> [] \<Longrightarrow> foldl display (l, r) rubout = (butlast l, CHR '' '' # r)"
  by (simp add: rubout_def)

definition typed :: "char \<Rightarrow> bool" where
  "typed c \<longleftrightarrow> c \<notin> {ENTER, NUL, CHR 0x08}"

text \<open>
  While the line is shorter than \<open>m\<close> the loop keeps the line in the buffer up to \<open>i\<close>, shows it, and
  leaves only spaces after the cursor.
\<close>

definition on_screen :: "string \<Rightarrow> string \<Rightarrow> bool" where
  "on_screen out line \<longleftrightarrow> (\<exists>n. foldl display ([], []) out = (line, replicate n CHR '' ''))"

lemma on_screen_char: "on_screen out line \<Longrightarrow> c \<noteq> CHR 0x08 \<Longrightarrow> on_screen (out @ [c]) (line @ [c])"
proof -
  assume "on_screen out line" "c \<noteq> CHR 0x08"
  then obtain n where "foldl display ([], []) (out @ [c]) = (line @ [c], tl (replicate n CHR '' ''))"
    by (auto simp: on_screen_def)
  then show ?thesis
    by (cases n) (auto simp: on_screen_def intro: exI [of _ 0])
qed

lemma on_screen_rubout: "on_screen out line \<Longrightarrow> line \<noteq> [] \<Longrightarrow> on_screen (out @ rubout) (butlast line)"
proof -
  assume "on_screen out line" "line \<noteq> []"
  then obtain n where "foldl display ([], []) (out @ rubout) = (butlast line, CHR '' '' # replicate n CHR '' '')"
    by (auto simp: on_screen_def display_rubout)
  then show ?thesis
    unfolding on_screen_def by (intro exI [of _ "Suc n"]) simp
qed

text \<open>The loop over keys during which the line stays short.\<close>

lemma term_loop_keys:
  assumes "list_all typed keys" "take i buf = line" "i = length line" "on_screen out line"
    "\<And>k. k < length keys \<Longrightarrow> length (foldl edit line (take k keys)) < unat (len - 1)"
    "unat (len - 1) \<le> length buf"
  shows "\<exists>buf' out'. length buf' = length buf \<and> take (length (foldl edit line keys)) buf' = foldl edit line keys \<and>
    on_screen out' (foldl edit line keys) \<and>
    term_loop len (keys @ rest) buf i out = term_loop len rest buf' (length (foldl edit line keys)) out'"
  using assms
proof (induction keys arbitrary: i buf line out)
  case (Cons c keys)
  have i: "i < unat (len - 1)" "i < length buf"
    using Cons.prems(5) [of 0] Cons.prems(3,6) by simp_all
  have tk: "typed c" "list_all typed keys"
    using Cons.prems(1) by simp_all
  have c: "c \<noteq> ENTER" "c \<noteq> NUL" "c \<noteq> CHR 0x08"
    using tk(1) by (simp_all add: typed_def)
  have pre: "length (foldl edit (edit line c) (take k keys)) < unat (len - 1)" if "k < length keys" for k
    using Cons.prems(5) [of "Suc k"] that by simp
  let ?buf = "buf[i := c]"
  show ?case
  proof (cases "c = BACKSPACE")
    case True
    then have e: "edit line c = butlast line"
      by (simp add: edit_def)
    have t: "take (i - 1) ?buf = butlast line"
      using Cons.prems(2,3) by (metis butlast_take diff_le_self i(2) less_or_eq_imp_le take_update_cancel)
    have s: "on_screen (if i = 0 then out else out @ rubout) (butlast line)"
      using on_screen_rubout Cons.prems(3,4) by auto
    have "term_loop len ((c # keys) @ rest) buf i out =
        term_loop len (keys @ rest) ?buf (i - 1) (if i = 0 then out else out @ rubout)"
      using True i c by simp
    then show ?thesis
      using Cons.IH [OF tk(2) t _ s] pre Cons.prems(3,6) e by simp
  next
    case False
    then have e: "edit line c = line @ [c]"
      by (simp add: edit_def)
    have t: "take (i + 1) ?buf = line @ [c]"
      using i(2) Cons.prems(2) by (simp add: take_Suc_conv_app_nth)
    have s: "on_screen (out @ [c]) (line @ [c])"
      using on_screen_char Cons.prems(4) c(3) by blast
    have "term_loop len ((c # keys) @ rest) buf i out = term_loop len (keys @ rest) ?buf (i + 1) (out @ [c])"
      using False i c by simp
    then show ?thesis
      using Cons.IH [OF tk(2) t _ s] pre Cons.prems(3,6) e by simp
  qed
qed auto

section \<open>Properties\<close>

text \<open>
  C28. The line editor against its meaning: typing \<open>keys\<close> and Enter gives the line after all
  backspaces, ended by a null character, and shows that line on the screen; the length counts the
  null character and is 0 for an empty line. A line that fills the buffer is returned at once, with
  the length of the buffer.
\<close>

theorem term_read_edits:
  assumes "list_all typed keys" "length buf = unat len" "0 < len"
    "\<And>k. k < length keys \<Longrightarrow> length (edited (take k keys)) < unat (len - 1)"
  shows "\<exists>buf' out'. on_screen out' (edited keys) \<and> take (length (edited keys) + 1) buf' = edited keys @ [NUL] \<and>
    (if length (edited keys) < unat (len - 1)
     then term_read len (keys @ ENTER # rest) buf =
       Some (Inr (if edited keys = [] then 0 else of_nat (length (edited keys) + 1), buf', out' @ newline, rest))
     else term_read len (keys @ rest) buf = Some (Inr (len, buf', out', rest)))"
proof -
  have n: "unat (len - 1) = unat len - 1" "unat (len - 1) < length buf"
    using assms(2,3) unat_minus_one [of len] unat_gt_0 [of len] by auto
  have sh: "on_screen [] []"
    by (simp add: on_screen_def)
  let ?l = "edited keys"
  have loop: "\<exists>buf' out'. length buf' = length buf \<and> take (length ?l) buf' = ?l \<and> on_screen out' ?l \<and>
      term_read len (keys @ r) buf = term_loop len r buf' (length ?l) out'" for r
    using term_loop_keys [OF assms(1) _ _ sh assms(4), of 0 buf r] n(2) by (simp add: term_read_def)
  have upd: "take (length ?l + 1) (b[length ?l := NUL]) = ?l @ [NUL]"
    if "take (length ?l) b = ?l" "length ?l < length b" for b
    using that by (simp add: take_Suc_conv_app_nth)
  have le: "length ?l \<le> unat (len - 1)"
  proof (cases keys rule: rev_cases)
    case (snoc ks k)
    then have "length (edited ks) < unat (len - 1)"
      using assms(4) [of "length ks"] by simp
    then show ?thesis
      using snoc by (auto simp: edit_def)
  qed simp
  show ?thesis
  proof (cases "length ?l < unat (len - 1)")
    case True
    obtain b o' where b: "length b = length buf" "take (length ?l) b = ?l" "on_screen o' ?l"
        "term_read len (keys @ ENTER # rest) buf = term_loop len (ENTER # rest) b (length ?l) o'"
      using loop [of "ENTER # rest"] by blast
    have "term_loop len (ENTER # rest) b (length ?l) o' =
        Some (Inr (if ?l = [] then 0 else of_nat (length ?l + 1), b[length ?l := NUL], o' @ newline, rest))"
      using True b(1) n(2) by simp
    then show ?thesis
      using True b upd [OF b(2)] n(2) by (intro exI [of _ "b[length ?l := NUL]"] exI [of _ o']) simp
  next
    case False
    obtain b o' where b: "length b = length buf" "take (length ?l) b = ?l" "on_screen o' ?l"
        "term_read len (keys @ rest) buf = term_loop len rest b (length ?l) o'"
      using loop [of rest] by blast
    have l: "length ?l = unat (len - 1)"
      using False le by simp
    have "term_loop len rest b (length ?l) o' = Some (Inr (len, b[length ?l := NUL], o', rest))"
      using l b(1) n(2) by (cases rest) (simp_all add: term_full_def)
    then show ?thesis
      using False b upd [OF b(2)] l n(2) by (intro exI [of _ "b[length ?l := NUL]"] exI [of _ o']) simp
  qed
qed

theorem term_read_edits_witness:
  "\<exists>b out. take 3 b = ''ls'' @ [NUL] \<and> on_screen out ''ls'' \<and>
     term_read 4 (''lx'' @ [BACKSPACE, CHR ''s''] @ [ENTER]) (replicate 4 NUL) = Some (Inr (3, b, out @ newline, []))"
proof -
  let ?keys = "''lx'' @ [BACKSPACE, CHR ''s'']"
  have e: "edited ?keys = ''ls''"
    by (simp add: edit_def BACKSPACE_def)
  have p: "length (edited (take k ?keys)) < unat ((4 :: u32) - 1)" if "k < length ?keys" for k
  proof -
    have "k \<in> {0, 1, 2, 3}"
      using that by auto
    then show ?thesis
      by (auto simp: edit_def BACKSPACE_def)
  qed
  have t: "list_all typed ?keys"
    by (simp add: typed_def ENTER_def NUL_def BACKSPACE_def)
  show ?thesis
    using term_read_edits [OF t _ _ p, of "replicate 4 NUL" "[]"] unfolding e by simp (auto simp: numeral_3_eq_3)
qed

end
