(* ===== verification/Dev_Tty.thy ===== *)
theory Dev_Tty
  imports Mmio Terminal
begin

text \<open>
  The serial line of earth/dev_tty.c and the kernel's \<open>term_write\<close> over it. A C \<open>char\<close> is a byte
  (unsigned on RISC-V). A read of a line without input polls forever.
\<close>

section \<open>The code\<close>

definition UART_BASE :: "platform \<Rightarrow> u32" where
  "UART_BASE pf = (if pf = QEMU then 0x10000000 else 0xF0001000)"

definition LITEX_UART_TXFULL :: u32 where "LITEX_UART_TXFULL = 4"
definition LITEX_UART_RXEMPTY :: u32 where "LITEX_UART_RXEMPTY = 8"
definition LITEX_UART_EVPEND :: u32 where "LITEX_UART_EVPEND = 16"
definition VIRT_LINE_STATUS :: u32 where "VIRT_LINE_STATUS = 5"

definition uart_rx_empty :: "'d bus \<Rightarrow> platform \<Rightarrow> ('d, u32) io" where
  "uart_rx_empty bus pf =
     (if pf = HARDWARE then REGW bus (UART_BASE pf) LITEX_UART_RXEMPTY
      else bindio (REGB bus (UART_BASE pf) VIRT_LINE_STATUS) (\<lambda>s. ret (if s AND 1 = 0 then 1 else 0)))"

text \<open>The conditions of the polling loops: a byte has come; there is room for one.\<close>

definition rx_ready :: "'d bus \<Rightarrow> platform \<Rightarrow> ('d, bool) io" where
  "rx_ready bus pf =
     (if pf = HARDWARE then bindio (REGW bus (UART_BASE pf) LITEX_UART_RXEMPTY) (\<lambda>e. ret (e = 0))
      else bindio (REGB bus (UART_BASE pf) VIRT_LINE_STATUS) (\<lambda>s. ret (s AND 1 \<noteq> 0)))"

definition tx_ready :: "'d bus \<Rightarrow> platform \<Rightarrow> ('d, bool) io" where
  "tx_ready bus pf =
     (if pf = HARDWARE then bindio (REGW bus (UART_BASE pf) LITEX_UART_TXFULL) (\<lambda>f. ret (f = 0))
      else bindio (REGB bus (UART_BASE pf) VIRT_LINE_STATUS) (\<lambda>s. ret (s AND 32 \<noteq> 0)))"

definition uart_getc :: "'d bus \<Rightarrow> platform \<Rightarrow> ('d, u8) io" where
  "uart_getc bus pf =
     bindio (poll (rx_ready bus pf) (\<lambda>b. b)) (\<lambda>_.
     bindio (REGW bus (UART_BASE pf) 0) (\<lambda>w.
     if pf = HARDWARE then bindio (set_REGW bus (UART_BASE pf) LITEX_UART_EVPEND 2) (\<lambda>_. ret (ucast (w AND 0xFF)))
     else ret (ucast (w AND 0xFF))))"

definition uart_putc :: "'d bus \<Rightarrow> platform \<Rightarrow> u8 \<Rightarrow> ('d, unit) io" where
  "uart_putc bus pf c =
     bindio (poll (tx_ready bus pf) (\<lambda>b. b)) (\<lambda>_.
     bindio (set_REGW bus (UART_BASE pf) 0 (ucast c)) (\<lambda>_.
     if pf = HARDWARE then set_REGW bus (UART_BASE pf) LITEX_UART_EVPEND 1 else ret ()))"

text \<open>\<open>term_write\<close> of the kernel.\<close>

primrec term_write :: "'d bus \<Rightarrow> platform \<Rightarrow> u8 list \<Rightarrow> ('d, unit) io" where
  "term_write bus pf [] = ret ()"
| "term_write bus pf (c # cs) = bindio (uart_putc bus pf c) (\<lambda>_. term_write bus pf cs)"

section \<open>Serial lines\<close>

text \<open>
  What the documentation of the two controllers says of their registers, at their addresses: the
  16550 of QEMU has its data at \<open>0x10000000\<close> and its line status five bytes behind, bit 0 for a
  received byte and bit 5 for room to send; the LiteX controller has its data at \<open>0xF0001000\<close>, and
  \<open>TXFULL\<close>, \<open>RXEMPTY\<close> and the pending events behind it. A line is seen as the bytes to come, the
  bytes sent, and how often its status is still read before it delivers or accepts one.
\<close>

record 'd line =
  incoming :: "'d \<Rightarrow> u8 list"
  sent :: "'d \<Rightarrow> u8 list"
  rx_wait :: "'d \<Rightarrow> nat"
  tx_wait :: "'d \<Rightarrow> nat"

abbreviation same_bytes :: "'d line \<Rightarrow> 'd \<Rightarrow> 'd \<Rightarrow> bool" where
  "same_bytes ln d d' \<equiv> incoming ln d' = incoming ln d \<and> sent ln d' = sent ln d"

definition data_register :: "platform \<Rightarrow> u32" where
  "data_register pf = (if pf = HARDWARE then 0xF0001000 else 0x10000000)"

definition rx_status :: "'d bus \<Rightarrow> platform \<Rightarrow> 'd \<Rightarrow> bool \<times> 'd" where
  "rx_status bus pf d =
     (if pf = HARDWARE then apfst (\<lambda>w. w = 0) (load_word bus 0xF0001008 d) else apfst (\<lambda>b. bit b 0) (load_byte bus 0x10000005 d))"

definition tx_status :: "'d bus \<Rightarrow> platform \<Rightarrow> 'd \<Rightarrow> bool \<times> 'd" where
  "tx_status bus pf d =
     (if pf = HARDWARE then apfst (\<lambda>w. w = 0) (load_word bus 0xF0001004 d) else apfst (\<lambda>b. bit b 5) (load_byte bus 0x10000005 d))"

definition rx_delivers :: "'d bus \<Rightarrow> platform \<Rightarrow> 'd line \<Rightarrow> bool" where
  "rx_delivers bus pf ln \<longleftrightarrow> (\<forall>d. \<exists>d'. rx_status bus pf d = (incoming ln d \<noteq> [] \<and> rx_wait ln d = 0, d') \<and>
     same_bytes ln d d' \<and> rx_wait ln d' = rx_wait ln d - 1)"

definition tx_accepts :: "'d bus \<Rightarrow> platform \<Rightarrow> 'd line \<Rightarrow> bool" where
  "tx_accepts bus pf ln \<longleftrightarrow> (\<forall>d. \<exists>d'. tx_status bus pf d = (tx_wait ln d = 0, d') \<and>
     same_bytes ln d d' \<and> tx_wait ln d' = tx_wait ln d - 1)"

text \<open>
  A read of the data register gives the next byte when there is one; the 16550 takes it off the line,
  the LiteX controller when the receive event is acknowledged. A byte stored while there is room is
  sent. Nothing is said of a read before a byte has come, or of a store while the transmitter is full.
\<close>

definition rx_takes :: "'d bus \<Rightarrow> platform \<Rightarrow> 'd line \<Rightarrow> bool" where
  "rx_takes bus pf ln \<longleftrightarrow> (\<forall>d c cs w d'. incoming ln d = c # cs \<and> rx_wait ln d = 0 \<and> load_word bus (data_register pf) d = (w, d') \<longrightarrow>
     w AND 0xFF = ucast c \<and> sent ln d' = sent ln d \<and>
     (if pf = HARDWARE
      then incoming ln (store_word bus 0xF0001010 2 d') = cs \<and> sent ln (store_word bus 0xF0001010 2 d') = sent ln d
      else incoming ln d' = cs))"

definition tx_sends :: "'d bus \<Rightarrow> platform \<Rightarrow> 'd line \<Rightarrow> bool" where
  "tx_sends bus pf ln \<longleftrightarrow> (\<forall>d c. tx_wait ln d = 0 \<longrightarrow>
     sent ln (store_word bus (data_register pf) (ucast (c :: u8)) d) = sent ln d @ [c] \<and>
     incoming ln (store_word bus (data_register pf) (ucast c) d) = incoming ln d)"

definition is_uart :: "'d bus \<Rightarrow> platform \<Rightarrow> 'd line \<Rightarrow> bool" where
  "is_uart bus pf ln \<longleftrightarrow> rx_delivers bus pf ln \<and> tx_accepts bus pf ln \<and> rx_takes bus pf ln \<and> tx_sends bus pf ln \<and>
     (\<forall>d. pf = HARDWARE \<longrightarrow> same_bytes ln d (store_word bus 0xF0001010 1 d))"

text \<open>The driver's addresses and masks are those of the registers.\<close>

lemma data_register: "UART_BASE pf + 0 = data_register pf"
  by (cases pf) (simp_all add: UART_BASE_def data_register_def)

lemma acknowledge: "set_REGW bus (UART_BASE HARDWARE) LITEX_UART_EVPEND w d = Some (Inr ((), store_word bus 0xF0001010 w d))"
  by (simp add: set_REGW_def UART_BASE_def LITEX_UART_EVPEND_def)

lemma rx_ready_status: "rx_ready bus pf d = Some (Inr (rx_status bus pf d))"
proof -
  have "bit b 0 \<longleftrightarrow> b AND 1 \<noteq> 0" for b :: u8
    by (simp add: bit_iff_and_push_bit_not_eq_0)
  then show ?thesis
    by (cases pf) (simp_all add: rx_ready_def rx_status_def bindio_def REGW_def REGB_def UART_BASE_def LITEX_UART_RXEMPTY_def
        VIRT_LINE_STATUS_def apfst_def map_prod_def case_prod_unfold)
qed

lemma tx_ready_status: "tx_ready bus pf d = Some (Inr (tx_status bus pf d))"
proof -
  have "bit b 5 \<longleftrightarrow> b AND 32 \<noteq> 0" for b :: u8
    by (simp add: bit_iff_and_push_bit_not_eq_0)
  then show ?thesis
    by (cases pf) (simp_all add: tx_ready_def tx_status_def bindio_def REGW_def REGB_def UART_BASE_def LITEX_UART_TXFULL_def
        VIRT_LINE_STATUS_def apfst_def map_prod_def case_prod_unfold)
qed

lemma rx_deliversD:
  assumes "rx_delivers bus pf ln"
  obtains d' where "runs (rx_ready bus pf) d (incoming ln d \<noteq> [] \<and> rx_wait ln d = 0) d'" "same_bytes ln d d'"
    "rx_wait ln d' = rx_wait ln d - 1"
  using assms unfolding rx_delivers_def rx_ready_status by (metis (no_types, lifting))

lemma tx_acceptsD:
  assumes "tx_accepts bus pf ln"
  obtains d' where "runs (tx_ready bus pf) d (tx_wait ln d = 0) d'" "same_bytes ln d d'" "tx_wait ln d' = tx_wait ln d - 1"
  using assms unfolding tx_accepts_def tx_ready_status by (metis (no_types, lifting))

text \<open>The polling loops end.\<close>

lemma rx_poll_returns:
  assumes "rx_delivers bus pf ln" "incoming ln d \<noteq> []"
  shows "\<exists>d'. runs (poll (rx_ready bus pf) (\<lambda>b. b)) d True d' \<and> same_bytes ln d d' \<and> rx_wait ln d' = 0"
  using assms(2)
proof (induction "rx_wait ln d" arbitrary: d)
  case 0
  obtain d' where d: "runs (rx_ready bus pf) d (incoming ln d \<noteq> [] \<and> rx_wait ln d = 0) d'" "same_bytes ln d d'" "rx_wait ln d' = rx_wait ln d - 1"
    using rx_deliversD [OF assms(1)] .
  then have "runs (rx_ready bus pf) d True d'"
    using 0 by simp
  then have "runs (poll (rx_ready bus pf) (\<lambda>b. b)) d True d'"
    by (rule poll_hit) simp
  with d(2,3) 0 show ?case
    by auto
next
  case (Suc n)
  obtain e where e: "runs (rx_ready bus pf) d (incoming ln d \<noteq> [] \<and> rx_wait ln d = 0) e" "same_bytes ln d e" "rx_wait ln e = rx_wait ln d - 1"
    using rx_deliversD [OF assms(1)] .
  then have r: "runs (rx_ready bus pf) d False e" and n: "n = rx_wait ln e"
    using Suc.hyps(2) by simp_all
  have "poll (rx_ready bus pf) (\<lambda>b. b) d = poll (rx_ready bus pf) (\<lambda>b. b) e"
    using r by (rule poll_miss) simp
  then show ?case
    using Suc.hyps(1) [OF n] Suc.prems e(2) by simp
qed

lemma tx_poll_returns:
  assumes "tx_accepts bus pf ln"
  shows "\<exists>d'. runs (poll (tx_ready bus pf) (\<lambda>b. b)) d True d' \<and> same_bytes ln d d' \<and> tx_wait ln d' = 0"
proof (induction "tx_wait ln d" arbitrary: d)
  case 0
  obtain d' where d: "runs (tx_ready bus pf) d (tx_wait ln d = 0) d'" "same_bytes ln d d'" "tx_wait ln d' = tx_wait ln d - 1"
    using tx_acceptsD [OF assms(1)] .
  then have "runs (tx_ready bus pf) d True d'"
    using 0 by simp
  then have "runs (poll (tx_ready bus pf) (\<lambda>b. b)) d True d'"
    by (rule poll_hit) simp
  with d(2,3) 0 show ?case
    by auto
next
  case (Suc n)
  obtain e where e: "runs (tx_ready bus pf) d (tx_wait ln d = 0) e" "same_bytes ln d e" "tx_wait ln e = tx_wait ln d - 1"
    using tx_acceptsD [OF assms(1)] .
  then have r: "runs (tx_ready bus pf) d False e" and n: "n = tx_wait ln e"
    using Suc.hyps(2) by simp_all
  have "poll (tx_ready bus pf) (\<lambda>b. b) d = poll (tx_ready bus pf) (\<lambda>b. b) e"
    using r by (rule poll_miss) simp
  then show ?case
    using Suc.hyps(1) [OF n] e(2) by simp
qed

lemma rx_poll_hangs:
  assumes "rx_delivers bus pf ln" "incoming ln d = []"
  shows "poll (rx_ready bus pf) (\<lambda>b. b) d = None"
proof (rule poll_never [where I = "\<lambda>d. incoming ln d = []"])
  show "\<forall>d. incoming ln d = [] \<longrightarrow> (\<exists>x d'. runs (rx_ready bus pf) d x d' \<and> \<not> x \<and> incoming ln d' = [])"
  proof (intro allI impI)
    fix d assume e: "incoming ln d = []"
    obtain d' where "runs (rx_ready bus pf) d (incoming ln d \<noteq> [] \<and> rx_wait ln d = 0) d'" "same_bytes ln d d'"
      using rx_deliversD [OF assms(1)] .
    then show "\<exists>x d'. runs (rx_ready bus pf) d x d' \<and> \<not> x \<and> incoming ln d' = []"
      using e by auto
  qed
qed (rule assms(2))

lemma ucast_mask_byte: "ucast (ucast (c :: u8) :: u32) = c"
  by (rule bit_word_eqI) (simp add: bit_simps)

lemma uart_getc_next:
  assumes "is_uart bus pf ln" "incoming ln d = c # cs"
  shows "\<exists>d'. runs (uart_getc bus pf) d c d' \<and> incoming ln d' = cs \<and> sent ln d' = sent ln d"
proof -
  obtain e where e: "runs (poll (rx_ready bus pf) (\<lambda>b. b)) d True e" "same_bytes ln d e" "rx_wait ln e = 0"
    using rx_poll_returns [of bus pf ln d] assms unfolding is_uart_def by auto
  obtain w f where f: "load_word bus (data_register pf) e = (w, f)"
    by fastforce
  define g where "g = (if pf = HARDWARE then store_word bus 0xF0001010 2 f else f)"
  have "rx_takes bus pf ln"
    using assms(1) by (simp add: is_uart_def)
  moreover have "incoming ln e = c # cs \<and> rx_wait ln e = 0 \<and> load_word bus (data_register pf) e = (w, f)"
    using e(2,3) assms(2) f by simp
  ultimately have "w AND 0xFF = ucast c \<and> sent ln f = sent ln e \<and>
     (if pf = HARDWARE then incoming ln (store_word bus 0xF0001010 2 f) = cs \<and> sent ln (store_word bus 0xF0001010 2 f) = sent ln e
      else incoming ln f = cs)"
    unfolding rx_takes_def by blast
  then have w: "w AND 0xFF = ucast c" "incoming ln g = cs" "sent ln g = sent ln d"
    using e(2) by (cases pf; simp add: g_def)+
  have r: "REGW bus (UART_BASE pf) 0 e = Some (Inr (w, f))"
    by (simp only: REGW_def data_register f)
  have "uart_getc bus pf d = (if pf = HARDWARE then bindio (set_REGW bus (UART_BASE pf) LITEX_UART_EVPEND 2) (\<lambda>_. ret c) f else ret c f)"
    by (simp add: uart_getc_def bindio_def e(1) r w(1) ucast_mask_byte)
  also have "\<dots> = Some (Inr (c, g))"
    by (cases pf) (simp_all add: g_def bindio_def acknowledge)
  finally show ?thesis
    using w(2,3) by blast
qed

lemma uart_putc_sends:
  assumes "is_uart bus pf ln"
  shows "\<exists>d'. runs (uart_putc bus pf c) d () d' \<and> incoming ln d' = incoming ln d \<and> sent ln d' = sent ln d @ [c]"
proof -
  obtain e where e: "runs (poll (tx_ready bus pf) (\<lambda>b. b)) d True e" "same_bytes ln d e" "tx_wait ln e = 0"
    using tx_poll_returns [of bus pf ln d] assms unfolding is_uart_def by auto
  let ?f = "store_word bus (data_register pf) (ucast c) e"
  let ?g = "if pf = HARDWARE then store_word bus 0xF0001010 1 ?f else ?f"
  have "incoming ln ?g = incoming ln d \<and> sent ln ?g = sent ln d @ [c]"
    using assms e(2,3) unfolding is_uart_def tx_sends_def by auto
  moreover have "set_REGW bus (UART_BASE pf) 0 (ucast c) e = Some (Inr ((), ?f))"
    by (simp only: set_REGW_def data_register)
  ultimately show ?thesis
    using e(1) by (cases "pf = HARDWARE")
      (simp_all add: uart_putc_def bindio_run acknowledge)
qed

lemma term_write_sends:
  assumes "is_uart bus pf ln"
  shows "\<exists>d'. runs (term_write bus pf cs) d () d' \<and> incoming ln d' = incoming ln d \<and> sent ln d' = sent ln d @ cs"
proof (induction cs arbitrary: d)
  case (Cons c cs)
  obtain e where "runs (uart_putc bus pf c) d () e" "incoming ln e = incoming ln d" "sent ln e = sent ln d @ [c]"
    using uart_putc_sends [OF assms] by metis
  then show ?case
    using Cons.IH [of e] by (simp add: bindio_def)
qed simp

section \<open>The line editor over the driver\<close>

definition text_of :: "u8 list \<Rightarrow> string" where
  "text_of bs = map (\<lambda>b. char_of (unat b)) bs"

definition bytes_of_text :: "string \<Rightarrow> u8 list" where
  "bytes_of_text cs = map of_char cs"

text \<open>\<open>term_read\<close> of the kernel as it is written, on \<open>tty_read\<close> and \<open>tty_write\<close>.\<close>

partial_function (option) kernel_term_loop ::
    "'d bus \<Rightarrow> platform \<Rightarrow> u32 \<Rightarrow> string \<Rightarrow> nat \<Rightarrow> ('d, u32 \<times> string) io" where
  "kernel_term_loop bus pf len buf i d =
     (if \<not> i < unat (len - 1) then
        if unat (len - 1) < length buf then Some (Inr ((len, buf[unat (len - 1) := NUL]), d)) else Some (Inl Undefined)
      else (case uart_getc bus pf d of
        None \<Rightarrow> None
      | Some r \<Rightarrow> (case r of
          Inl e \<Rightarrow> Some (Inl e)
        | Inr (b, d1) \<Rightarrow>
            if i \<ge> length buf then Some (Inl Undefined)
            else if char_of (unat b) = ENTER then
              (case term_write bus pf (bytes_of_text newline) d1 of
                 None \<Rightarrow> None
               | Some w \<Rightarrow> (case w of
                   Inl e \<Rightarrow> Some (Inl e)
                 | Inr (_, d2) \<Rightarrow> Some (Inr ((if i = 0 then 0 else of_nat (i + 1), buf[i := NUL]), d2))))
            else if char_of (unat b) = BACKSPACE then
              (if i = 0 then kernel_term_loop bus pf len (buf[i := char_of (unat b)]) 0 d1
               else (case term_write bus pf (bytes_of_text rubout) d1 of
                   None \<Rightarrow> None
                 | Some w \<Rightarrow> (case w of
                     Inl e \<Rightarrow> Some (Inl e)
                   | Inr (_, d2) \<Rightarrow> kernel_term_loop bus pf len (buf[i := char_of (unat b)]) (i - 1) d2)))
            else if char_of (unat b) = NUL then kernel_term_loop bus pf len (buf[i := char_of (unat b)]) (i + 1) d1
            else (case term_write bus pf [b] d1 of
                   None \<Rightarrow> None
                 | Some w \<Rightarrow> (case w of
                     Inl e \<Rightarrow> Some (Inl e)
                   | Inr (_, d2) \<Rightarrow> kernel_term_loop bus pf len (buf[i := char_of (unat b)]) (i + 1) d2)))))"

declare kernel_term_loop.simps [code]

text \<open>What the editor on lists of characters says about the driver's: result, screen and the rest of the keys.\<close>

definition term_agrees :: "'d line \<Rightarrow> (fault + (u32 \<times> string) \<times> 'd) option \<Rightarrow> term_result \<Rightarrow> bool" where
  "term_agrees ln r t = (case t of
       None \<Rightarrow> r = None
     | Some (Inl e) \<Rightarrow> r = Some (Inl e)
     | Some (Inr (n, buf, out, keys)) \<Rightarrow> (\<exists>d'. r = Some (Inr ((n, buf), d')) \<and>
         text_of (sent ln d') = out \<and> text_of (incoming ln d') = keys))"

lemma text_of_bytes: "text_of (bytes_of_text cs) = cs"
  using char_of_bytes [of cs] by (simp add: text_of_def bytes_of_text_def comp_def)

lemma uart_getc_hangs:
  assumes "is_uart bus pf ln" "incoming ln d = []"
  shows "uart_getc bus pf d = None"
  using rx_poll_hangs [of bus pf ln d] assms unfolding is_uart_def by (simp add: uart_getc_def bindio_def)

lemma kernel_term_loop_refines:
  assumes "is_uart bus pf ln"
  shows "term_agrees ln (kernel_term_loop bus pf len buf i d)
    (term_loop len (text_of (incoming ln d)) buf i (text_of (sent ln d)))"
proof (induction "incoming ln d" arbitrary: buf i d)
  case Nil
  have h: "uart_getc bus pf d = None"
    using uart_getc_hangs [OF assms] Nil by simp
  show ?case
    using Nil [symmetric] by (subst kernel_term_loop.simps) (simp add: h term_agrees_def term_full_def text_of_def)
next
  case (Cons b bs)
  let ?c = "char_of (unat b) :: char"
  obtain d1 where d1: "runs (uart_getc bus pf) d b d1" "incoming ln d1 = bs" "sent ln d1 = sent ln d"
    using uart_getc_next [OF assms] Cons.hyps(2) by metis
  have w: "\<exists>d2. runs (term_write bus pf cs) d1 () d2 \<and> incoming ln d2 = bs \<and> sent ln d2 = sent ln d @ cs" for cs
    using term_write_sends [OF assms, of cs d1] d1 by simp
  have t: "text_of (incoming ln d) = ?c # text_of bs"
    using Cons.hyps(2) [symmetric] by (simp add: text_of_def)
  have app: "text_of (xs @ ys) = text_of xs @ text_of ys" for xs ys
    by (simp add: text_of_def)
  let ?buf = "buf[i := ?c]"
  consider (full) "\<not> i < unat (len - 1)" | (outside) "i < unat (len - 1)" "length buf \<le> i"
    | (enter) "i < unat (len - 1)" "i < length buf" "?c = ENTER"
    | (first) "i < unat (len - 1)" "i < length buf" "?c \<noteq> ENTER" "?c = BACKSPACE" "i = 0"
    | (bspace) "i < unat (len - 1)" "i < length buf" "?c \<noteq> ENTER" "?c = BACKSPACE" "i \<noteq> 0"
    | (nul) "i < unat (len - 1)" "i < length buf" "?c \<noteq> ENTER" "?c \<noteq> BACKSPACE" "?c = NUL"
    | (key) "i < unat (len - 1)" "i < length buf" "?c \<noteq> ENTER" "?c \<noteq> BACKSPACE" "?c \<noteq> NUL"
    by linarith
  then show ?case
  proof cases
    case full
    have "kernel_term_loop bus pf len buf i d =
        (if unat (len - 1) < length buf then Some (Inr ((len, buf[unat (len - 1) := NUL]), d)) else Some (Inl Undefined))"
      using full by (subst kernel_term_loop.simps) simp
    then show ?thesis
      using full t by (simp add: term_agrees_def term_full_def)
  next
    case outside
    have "kernel_term_loop bus pf len buf i d = Some (Inl Undefined)"
      using outside d1(1) by (subst kernel_term_loop.simps) simp
    then show ?thesis
      using outside t by (simp add: term_agrees_def)
  next
    case enter
    obtain d2 where w2: "runs (term_write bus pf (bytes_of_text newline)) d1 () d2" "incoming ln d2 = bs"
      "sent ln d2 = sent ln d @ bytes_of_text newline"
      using w by blast
    have "kernel_term_loop bus pf len buf i d = Some (Inr ((if i = 0 then 0 else of_nat (i + 1), buf[i := NUL]), d2))"
      using enter d1(1) w2(1) by (subst kernel_term_loop.simps) simp
    then show ?thesis
      using enter t w2 by (simp add: term_agrees_def app text_of_bytes)
  next
    case first
    have "kernel_term_loop bus pf len buf i d = kernel_term_loop bus pf len ?buf 0 d1"
      using first d1(1) by (subst kernel_term_loop.simps) simp
    then show ?thesis
      using first t Cons.hyps(1) [of d1 ?buf 0] d1 by simp
  next
    case bspace
    obtain d2 where w2: "runs (term_write bus pf (bytes_of_text rubout)) d1 () d2" "incoming ln d2 = bs"
      "sent ln d2 = sent ln d @ bytes_of_text rubout"
      using w by blast
    have "kernel_term_loop bus pf len buf i d = kernel_term_loop bus pf len ?buf (i - 1) d2"
      using bspace d1(1) w2(1) by (subst kernel_term_loop.simps) simp
    then show ?thesis
      using bspace t Cons.hyps(1) [of d2 ?buf "i - 1"] w2 by (simp add: app text_of_bytes)
  next
    case nul
    have "kernel_term_loop bus pf len buf i d = kernel_term_loop bus pf len ?buf (i + 1) d1"
      using nul d1(1) by (subst kernel_term_loop.simps) simp
    then show ?thesis
      using nul t Cons.hyps(1) [of d1 ?buf "i + 1"] d1 by simp
  next
    case key
    obtain d2 where w2: "runs (term_write bus pf [b]) d1 () d2" "incoming ln d2 = bs" "sent ln d2 = sent ln d @ [b]"
      using w by blast
    have "kernel_term_loop bus pf len buf i d = kernel_term_loop bus pf len ?buf (i + 1) d2"
      using key d1(1) w2(1) by (subst kernel_term_loop.simps) simp
    moreover have "text_of [b] = [?c]"
      by (simp add: text_of_def)
    ultimately show ?thesis
      using key t Cons.hyps(1) [of d2 ?buf "i + 1"] w2 by (simp add: app)
  qed
qed

section \<open>Property\<close>

text \<open>
  C37. The kernel's line editor over the serial driver does what the editor on lists of keys does: on
  a line that delivers and accepts bytes after finitely many reads of its status, that gives the next
  byte only when it has come and sends a byte only when there is room, it returns the same length and
  buffer, sends the same characters to the screen and leaves the same keys, and it waits forever
  exactly when the keys run out.
\<close>

theorem tty_editor_refines:
  assumes "is_uart bus pf ln" "sent ln d = []"
  shows "term_agrees ln (kernel_term_loop bus pf len buf 0 d) (term_read len (text_of (incoming ln d)) buf)"
  using kernel_term_loop_refines [OF assms(1), of len buf 0 d] assms(2) by (simp add: term_read_def text_of_def)

text \<open>
  A serial line of QEMU that is busy from time to time: a read too early gives a zero byte, a byte
  stored while the transmitter is full is lost.
\<close>

record uart =
  u_in :: "u8 list"
  u_out :: "u8 list"
  u_rx :: nat
  u_tx :: nat

definition uart_bus :: "uart bus" where
  "uart_bus = \<lparr>
     load_word = (\<lambda>a u. if u_in u = [] \<or> u_rx u \<noteq> 0 then (0, u) else (ucast (hd (u_in u)), u\<lparr>u_in := tl (u_in u), u_rx := 2\<rparr>)),
     store_word = (\<lambda>a w u. if u_tx u \<noteq> 0 then u else u\<lparr>u_out := u_out u @ [ucast w], u_tx := 3\<rparr>),
     load_byte = (\<lambda>a u. ((if u_in u \<noteq> [] \<and> u_rx u = 0 then 1 else 0) OR (if u_tx u = 0 then 32 else 0),
       u\<lparr>u_rx := u_rx u - 1, u_tx := u_tx u - 1\<rparr>)),
     store_byte = (\<lambda>a w u. u), memory = (\<lambda>u a. 0)\<rparr>"

definition uart_line :: "uart line" where
  "uart_line = \<lparr>incoming = u_in, sent = u_out, rx_wait = u_rx, tx_wait = u_tx\<rparr>"

lemma ucast_and_byte: "(ucast (c :: u8) :: u32) AND 0xFF = ucast c"
proof -
  have "(ucast (c :: u8) :: u32) AND mask 8 = ucast c" for c
    by (rule bit_word_eqI, simp only: bit_simps) (auto dest: bit_imp_le_length)
  moreover have "(mask 8 :: u32) = 0xFF"
    by code_simp
  ultimately show ?thesis
    by metis
qed

lemma uart_bus_is_uart: "is_uart uart_bus QEMU uart_line"
proof -
  have "bit ((if p then 1 else 0) OR (if q then 32 else 0 :: u8)) 0 = p" "bit ((if p then 1 else 0) OR (if q then 32 else 0 :: u8)) 5 = q" for p q
    by (cases p; cases q; simp add: bit_simps)+
  then show ?thesis
    by (simp add: is_uart_def rx_delivers_def tx_accepts_def rx_takes_def tx_sends_def rx_status_def tx_status_def
        uart_bus_def uart_line_def ucast_mask_byte) (auto simp: ucast_and_byte)
qed

theorem tty_editor_refines_witness:
  "\<exists>d'. runs (kernel_term_loop uart_bus QEMU 4 (replicate 4 NUL) 0)
       \<lparr>u_in = [0x6C, 0x78, 0x7F, 0x73, 0x0D], u_out = [], u_rx = 5, u_tx = 0\<rparr> (3, ''ls'' @ [NUL, NUL]) d' \<and>
     u_in d' = [] \<and> text_of (u_out d') = ''lx'' @ rubout @ ''s'' @ newline"
proof -
  have "term_read 4 (text_of [0x6C, 0x78, 0x7F, 0x73, 0x0D]) (replicate 4 NUL) =
      Some (Inr (3, ''ls'' @ [NUL, NUL], ''lx'' @ rubout @ ''s'' @ newline, []))"
    by code_simp
  then show ?thesis
    using tty_editor_refines [OF uart_bus_is_uart, of "\<lparr>u_in = [0x6C, 0x78, 0x7F, 0x73, 0x0D], u_out = [], u_rx = 5, u_tx = 0\<rparr>" 4 "replicate 4 NUL"]
    by (auto simp: term_agrees_def uart_line_def text_of_def)
qed

end
