(* ===== verification/Dev_Disk.thy ===== *)
theory Dev_Disk
  imports Mmio Bytes Inode_Store
begin

text \<open>
  The disk driver of earth/dev_disk.c: SD cards over the SPI bus of the hardware and over the SD
  host controller of QEMU, and the flash memory that replaces a missing card. Messages on the
  terminal are left out; \<open>FATAL\<close> ends the computation.
\<close>

section \<open>SD host controller\<close>

definition SDHCI_PCI_ECAM :: u32 where "SDHCI_PCI_ECAM = 0x30008000"
definition SDHCI_BASE :: u32 where "SDHCI_BASE = 0x40000000"
definition SDHCI_DMA_ADDRESS :: u32 where "SDHCI_DMA_ADDRESS = 0x00"
definition SDHCI_BLK_CNT_AND_SIZE :: u32 where "SDHCI_BLK_CNT_AND_SIZE = 0x04"
definition SDHCI_ARGUMENT :: u32 where "SDHCI_ARGUMENT = 0x08"
definition SDHCI_CMD_AND_MODE :: u32 where "SDHCI_CMD_AND_MODE = 0x0C"
definition SDHCI_RESPONSE0 :: u32 where "SDHCI_RESPONSE0 = 0x10"
definition SDHCI_PRESENT_STATE :: u32 where "SDHCI_PRESENT_STATE = 0x24"
definition SDHCI_CLKCON :: u32 where "SDHCI_CLKCON = 0x2C"
definition SDHCI_SOFTWARE_RESET :: u32 where "SDHCI_SOFTWARE_RESET = 0x2F"
definition SDHCI_INT_STAT :: u32 where "SDHCI_INT_STAT = 0x30"
definition SDHCI_INT_STAT_ENABLE :: u32 where "SDHCI_INT_STAT_ENABLE = 0x34"
definition SDHCI_INT_SIG_ENABLE :: u32 where "SDHCI_INT_SIG_ENABLE = 0x38"

definition sdhci_exec_cmd :: "'d bus \<Rightarrow> u32 \<Rightarrow> u32 \<Rightarrow> u8 \<Rightarrow> u32 \<Rightarrow> ('d, unit) io" where
  "sdhci_exec_cmd bus idx arg flag mode =
     bindio (poll (REGW bus SDHCI_BASE SDHCI_PRESENT_STATE) (\<lambda>w. w AND 0x3 = 0)) (\<lambda>_.
     bindio (set_REGW bus SDHCI_BASE SDHCI_INT_STAT 0xFFFFFFFF) (\<lambda>_.
     bindio (set_REGW bus SDHCI_BASE SDHCI_ARGUMENT arg) (\<lambda>_.
     bindio (set_REGW bus SDHCI_BASE SDHCI_CMD_AND_MODE (push_bit 16 (push_bit 8 idx OR ucast flag) OR mode)) (\<lambda>_.
     bindio (poll (REGW bus SDHCI_BASE SDHCI_INT_STAT) (\<lambda>w. w AND 0x1 \<noteq> 0)) (\<lambda>_. ret ())))))"

text \<open>\<open>buf\<close> is the address of \<open>aligned_buf\<close>. The result is what is copied to \<open>dst\<close>.\<close>

definition sdhci_read :: "'d bus \<Rightarrow> u32 \<Rightarrow> u32 \<Rightarrow> ('d, u8 list) io" where
  "sdhci_read bus buf offset =
     bindio (set_REGW bus SDHCI_BASE SDHCI_DMA_ADDRESS buf) (\<lambda>_.
     bindio (set_REGW bus SDHCI_BASE SDHCI_BLK_CNT_AND_SIZE (push_bit 16 1 OR of_nat BLOCK_SIZE)) (\<lambda>_.
     bindio (sdhci_exec_cmd bus 17 (offset * of_nat BLOCK_SIZE) (push_bit 5 1) (push_bit 4 1 OR 1)) (\<lambda>_.
     copy_memory bus buf BLOCK_SIZE)))"

definition sdhci_init :: "'d bus \<Rightarrow> ('d, unit) io" where
  "sdhci_init bus =
     bindio (set_REGW bus SDHCI_PCI_ECAM 0x4 (push_bit 1 1 OR push_bit 2 1)) (\<lambda>_.
     bindio (set_REGW bus SDHCI_PCI_ECAM 0x10 SDHCI_BASE) (\<lambda>_.
     bindio (set_REGB bus SDHCI_BASE SDHCI_SOFTWARE_RESET 0x1) (\<lambda>_.
     bindio (poll (REGB bus SDHCI_BASE SDHCI_SOFTWARE_RESET) (\<lambda>b. b AND 0x1 = 0)) (\<lambda>_.
     bindio (set_REGB bus SDHCI_BASE SDHCI_CLKCON 0x5) (\<lambda>_.
     bindio (set_REGW bus SDHCI_BASE SDHCI_INT_SIG_ENABLE 0x0) (\<lambda>_.
     bindio (set_REGW bus SDHCI_BASE SDHCI_INT_STAT_ENABLE 0x27F003B) (\<lambda>_.
     bindio (sdhci_exec_cmd bus 55 0 0 0) (\<lambda>_.
     bindio (sdhci_exec_cmd bus 41 0xFFF0000 0 0) (\<lambda>_.
     bindio (sdhci_exec_cmd bus 2 0 0 0) (\<lambda>_.
     bindio (sdhci_exec_cmd bus 3 0 2 0) (\<lambda>_.
     bindio (REGW bus SDHCI_BASE SDHCI_RESPONSE0) (\<lambda>rca.
     sdhci_exec_cmd bus 7 rca 0 0))))))))))))"

section \<open>SPI\<close>

definition SDSPI_BASE :: u32 where "SDSPI_BASE = 0xF0008800"
definition LITEX_SPI_CONTROL :: u32 where "LITEX_SPI_CONTROL = 0"
definition LITEX_SPI_STATUS :: u32 where "LITEX_SPI_STATUS = 4"
definition LITEX_SPI_MOSI :: u32 where "LITEX_SPI_MOSI = 8"
definition LITEX_SPI_MISO :: u32 where "LITEX_SPI_MISO = 12"
definition LITEX_SPI_CS :: u32 where "LITEX_SPI_CS = 16"
definition LITEX_SPI_CLKDIV :: u32 where "LITEX_SPI_CLKDIV = 24"
definition CPU_CLOCK_RATE :: u32 where "CPU_CLOCK_RATE = 100000000"

definition spi_exchange :: "'d bus \<Rightarrow> u8 \<Rightarrow> ('d, u8) io" where
  "spi_exchange bus byte =
     bindio (set_REGW bus SDSPI_BASE LITEX_SPI_MOSI (ucast byte)) (\<lambda>_.
     bindio (set_REGW bus SDSPI_BASE LITEX_SPI_CONTROL (8 * push_bit 8 1 OR 1)) (\<lambda>_.
     bindio (poll (REGW bus SDSPI_BASE LITEX_SPI_STATUS) (\<lambda>s. s AND 1 = 1)) (\<lambda>_.
     bindio (REGW bus SDSPI_BASE LITEX_SPI_MISO) (\<lambda>w. ret (ucast (w AND 0xFF))))))"

text \<open>A loop that exchanges one byte after the other and keeps the answers.\<close>

primrec spi_exchanges :: "'d bus \<Rightarrow> u8 list \<Rightarrow> ('d, u8 list) io" where
  "spi_exchanges bus [] = ret []"
| "spi_exchanges bus (b # bs) = bindio (spi_exchange bus b) (\<lambda>r. bindio (spi_exchanges bus bs) (\<lambda>rs. ret (r # rs)))"

text \<open>\<open>while (spi_exchange(0xFF) != b);\<close>\<close>

definition spi_wait :: "'d bus \<Rightarrow> u8 \<Rightarrow> ('d, u8) io" where
  "spi_wait bus b = poll (spi_exchange bus 0xFF) (\<lambda>r. r = b)"

text \<open>The second loop of \<open>sdspi_exec_cmd\<close>, with the rounds left.\<close>

primrec sdspi_reply :: "'d bus \<Rightarrow> nat \<Rightarrow> ('d, u8) io" where
  "sdspi_reply bus 0 = ret 0xFF"
| "sdspi_reply bus (Suc n) = bindio (spi_exchange bus 0xFF) (\<lambda>r. if r \<noteq> 0xFF then ret r else sdspi_reply bus n)"

definition sdspi_exec_cmd :: "'d bus \<Rightarrow> u8 list \<Rightarrow> ('d, u8) io" where
  "sdspi_exec_cmd bus cmd = bindio (spi_exchanges bus cmd) (\<lambda>_. sdspi_reply bus 8000)"

definition sdspi_exec_acmd :: "'d bus \<Rightarrow> u8 list \<Rightarrow> ('d, u8) io" where
  "sdspi_exec_acmd bus cmd =
     bindio (spi_wait bus 0xFF) (\<lambda>_.
     bindio (sdspi_exec_cmd bus [0x77, 0x00, 0x00, 0x00, 0x00, 0xFF]) (\<lambda>_.
     bindio (spi_wait bus 0xFF) (\<lambda>_.
     sdspi_exec_cmd bus cmd)))"

definition cmd17 :: "u32 \<Rightarrow> u8 list" where
  "cmd17 offset = [17 OR push_bit 6 1, ucast (drop_bit 24 offset), ucast (drop_bit 16 offset),
     ucast (drop_bit 8 offset), ucast offset, 0xFF]"

definition sdspi_read :: "'d bus \<Rightarrow> u32 \<Rightarrow> ('d, u8 list) io" where
  "sdspi_read bus offset =
     bindio (spi_wait bus 0xFF) (\<lambda>_.
     bindio (sdspi_exec_cmd bus (cmd17 offset)) (\<lambda>reply.
     if reply \<noteq> 0 then fail (Fatal ''cmd17 returns status'')
     else
       bindio (spi_wait bus 0xFE) (\<lambda>_.
       bindio (spi_exchanges bus (replicate BLOCK_SIZE 0xFF)) (\<lambda>dst.
       bindio (spi_exchanges bus [0xFF, 0xFF]) (\<lambda>_. ret dst)))))"

text \<open>The last four answers of cmd8, the first of them the most significant.\<close>

definition payload_of :: "u8 list \<Rightarrow> u32" where
  "payload_of bs = fold (\<lambda>b w. push_bit 8 w OR ucast b) bs 0"

definition sdspi_init :: "'d bus \<Rightarrow> ('d, int) io" where
  "sdspi_init bus =
     bindio (set_REGW bus SDSPI_BASE LITEX_SPI_CLKDIV (CPU_CLOCK_RATE div 400000 + 1)) (\<lambda>_.
     bindio (set_REGW bus SDSPI_BASE LITEX_SPI_CS 0) (\<lambda>_.
     bindio (spi_exchanges bus (replicate 1000 0xFF)) (\<lambda>_.
     bindio (set_REGW bus SDSPI_BASE LITEX_SPI_CS 1) (\<lambda>_.
     bindio (sdspi_exec_cmd bus [0x40, 0x00, 0x00, 0x00, 0x00, 0x95]) (\<lambda>reply.
     if reply = 0xFF then ret (- 1)
     else
       bindio (if reply = 0x01 then ret reply else spi_wait bus 0x01) (\<lambda>_.
       bindio (spi_wait bus 0xFF) (\<lambda>_.
       bindio (sdspi_exec_cmd bus [0x48, 0x00, 0x00, 0x01, 0xAA, 0x87]) (\<lambda>reply.
       if reply AND 0x04 \<noteq> 0 then fail (Fatal ''Only SD2/SDHC/SDXC cards are supported'')
       else
         bindio (spi_exchanges bus (replicate 4 0xFF)) (\<lambda>bs.
         if payload_of bs AND 0xFFF \<noteq> 0x1AA then fail (Fatal ''Fail to check SD card type'')
         else
           bindio (spi_wait bus 0xFF) (\<lambda>_.
           bindio (poll (sdspi_exec_acmd bus [0x69, 0x40, 0x00, 0x00, 0x00, 0xFF]) (\<lambda>r. r = 0)) (\<lambda>_.
           bindio (spi_wait bus 0xFF) (\<lambda>_.
           bindio (set_REGW bus SDSPI_BASE LITEX_SPI_CLKDIV (CPU_CLOCK_RATE div 20000000 + 1)) (\<lambda>_.
           ret 0)))))))))))))"

section \<open>The driver\<close>

datatype disk_type = SD_CARD | FLASH_ROM

definition FLASH_ROM_BASE :: "platform \<Rightarrow> u32" where
  "FLASH_ROM_BASE pf = (if pf = QEMU then 0x22000000 else 0x20400000)"

definition disk_read :: "'d bus \<Rightarrow> platform \<Rightarrow> u32 \<Rightarrow> disk_type \<Rightarrow> u32 \<Rightarrow> u32 \<Rightarrow> ('d, u8 list) io" where
  "disk_read bus pf buf ty block_no nblocks =
     (if ty = FLASH_ROM then
        copy_memory bus (FLASH_ROM_BASE pf + block_no * of_nat BLOCK_SIZE) (unat (nblocks * of_nat BLOCK_SIZE))
      else
        bindio (for_io (\<lambda>i. if pf = HARDWARE then sdspi_read bus (block_no + of_nat i)
                            else sdhci_read bus buf (block_no + of_nat i)) 0 (unat nblocks)) (\<lambda>blocks.
        ret (concat blocks)))"

text \<open>Writing to a card is left to the students: it does nothing.\<close>

definition disk_write :: "'d bus \<Rightarrow> disk_type \<Rightarrow> u32 \<Rightarrow> u32 \<Rightarrow> u8 list \<Rightarrow> ('d, unit) io" where
  "disk_write bus ty block_no nblocks src =
     (if ty = FLASH_ROM then fail (Fatal ''FLASH_ROM is read only'') else ret ())"

text \<open>The type of the disk is \<open>SD_CARD\<close> until \<open>disk_init\<close> finds that there is none.\<close>

definition disk_init :: "'d bus \<Rightarrow> platform \<Rightarrow> ('d, disk_type) io" where
  "disk_init bus pf =
     (if pf = QEMU then bindio (sdhci_init bus) (\<lambda>_. ret SD_CARD)
      else bindio (sdspi_init bus) (\<lambda>rc. ret (if rc = 0 then SD_CARD else FLASH_ROM)))"

section \<open>Exchanges\<close>

lemma bindio_ret_eq: "bindio m f d = Some (Inr (y, d')) \<longleftrightarrow> (\<exists>x e. runs m d x e \<and> runs (f x) e y d')"
  by (auto simp: bindio_def split: option.splits sum.splits)

lemma spi_exchanges_length: "runs (spi_exchanges bus bs) d rs d' \<Longrightarrow> length rs = length bs"
  by (induction bs arbitrary: d rs) (auto simp: bindio_ret_eq)

lemma spi_exchanges_append:
  "runs (spi_exchanges bus (as @ bs)) d rs d' \<longleftrightarrow>
   (\<exists>r1 r2 e. rs = r1 @ r2 \<and> runs (spi_exchanges bus as) d r1 e \<and> runs (spi_exchanges bus bs) e r2 d')"
proof (induction as arbitrary: d rs)
  case (Cons a as)
  show ?case
    by (auto simp: bindio_ret_eq Cons.IH)
qed auto

lemma spi_join:
  "runs (spi_exchanges bus as) d r1 e \<Longrightarrow> runs (spi_exchanges bus bs) e r2 d' \<Longrightarrow> runs (spi_exchanges bus (as @ bs)) d (r1 @ r2) d'"
  unfolding spi_exchanges_append by blast

text \<open>The same with the answers split as the bytes are.\<close>

lemma spi_split:
  assumes "runs (spi_exchanges bus (as @ bs)) d (r1 @ r2) d'" "length r1 = length as"
  obtains e where "runs (spi_exchanges bus as) d r1 e" "runs (spi_exchanges bus bs) e r2 d'"
  using assms spi_exchanges_length by (fastforce simp: spi_exchanges_append append_eq_append_conv)

lemma spi_wait_run:
  "runs (spi_exchanges bus (replicate (length rs) 0xFF @ [0xFF])) d (rs @ [b]) d' \<Longrightarrow> b \<notin> set rs \<Longrightarrow>
   runs (spi_wait bus b) d b d'"
proof (induction rs arbitrary: d)
  case Nil
  then show ?case
    by (auto simp: spi_wait_def bindio_ret_eq intro: poll_hit)
next
  case (Cons r rs)
  obtain e where e: "runs (spi_exchange bus 0xFF) d r e"
    "runs (spi_exchanges bus (replicate (length rs) 0xFF @ [0xFF])) e (rs @ [b]) d'"
    using Cons.prems(1) by (auto simp: bindio_ret_eq)
  have "spi_wait bus b d = spi_wait bus b e"
    unfolding spi_wait_def using e(1) by (rule poll_miss) (use Cons.prems(2) in auto)
  then show ?case
    using Cons.IH [OF e(2)] Cons.prems(2) by simp
qed

lemma sdspi_reply_run:
  "runs (spi_exchanges bus (replicate k 0xFF @ [0xFF])) d (replicate k 0xFF @ [r]) d' \<Longrightarrow> r \<noteq> 0xFF \<Longrightarrow> k < n \<Longrightarrow>
   runs (sdspi_reply bus n) d r d'"
proof (induction k arbitrary: d n)
  case 0
  then show ?case
    by (cases n) (auto simp: bindio_ret_eq)
next
  case (Suc k)
  obtain m where m: "n = Suc m"
    using Suc.prems(3) by (cases n) auto
  obtain e where e: "runs (spi_exchange bus 0xFF) d 0xFF e"
    "runs (spi_exchanges bus (replicate k 0xFF @ [0xFF])) e (replicate k 0xFF @ [r]) d'"
    using Suc.prems(1) by (auto simp: bindio_ret_eq)
  then show ?case
    using Suc.IH [OF e(2) Suc.prems(2), of m] Suc.prems(3) by (auto simp: m bindio_ret_eq)
qed

section \<open>The SPI controller\<close>

text \<open>
  What the documentation of the LiteX SPI controller says of its registers, at their addresses from
  \<open>0xF0008800\<close>: the byte to send at 8, the start of a transfer of eight bits by a store of \<open>0x801\<close> at 0,
  bit 0 of the status at 4 when no transfer is going on, the byte received at 12, select and clock divider
  at 16 and 24. What is at the other end of the line is a state and the byte it answers to a byte.
  \<open>transfer\<close> is how often the status is still read until a transfer has ended; nothing is said of
  reads of the received byte, or of stores, before that.
\<close>

record ('d, 'c) spi =
  card_at :: "'d \<Rightarrow> 'c"
  mosi_of :: "'d \<Rightarrow> u8"
  miso_of :: "'d \<Rightarrow> u8"
  transfer :: "'d \<Rightarrow> nat"

definition spi_stores :: "'d bus \<Rightarrow> ('d, 'c) spi \<Rightarrow> ('c \<Rightarrow> u8 \<Rightarrow> u8 \<times> 'c) \<Rightarrow> bool" where
  "spi_stores bus sp shift \<longleftrightarrow> (\<forall>d w. transfer sp d = 0 \<longrightarrow>
     transfer sp (store_word bus 0xF0008808 w d) = 0 \<and> card_at sp (store_word bus 0xF0008808 w d) = card_at sp d \<and>
     mosi_of sp (store_word bus 0xF0008808 w d) = ucast w \<and>
     (miso_of sp (store_word bus 0xF0008800 0x801 d), card_at sp (store_word bus 0xF0008800 0x801 d)) = shift (card_at sp d) (mosi_of sp d) \<and>
     transfer sp (store_word bus 0xF0008810 w d) = 0 \<and> transfer sp (store_word bus 0xF0008818 w d) = 0)"

definition spi_loads :: "'d bus \<Rightarrow> ('d, 'c) spi \<Rightarrow> bool" where
  "spi_loads bus sp \<longleftrightarrow>
     (\<forall>d w e. load_word bus 0xF0008804 d = (w, e) \<longrightarrow> bit w 0 = (transfer sp d = 0) \<and> transfer sp e = transfer sp d - 1 \<and>
        card_at sp e = card_at sp d \<and> miso_of sp e = miso_of sp d) \<and>
     (\<forall>d w e. load_word bus 0xF000880C d = (w, e) \<longrightarrow> transfer sp d = 0 \<longrightarrow>
        w AND 0xFF = ucast (miso_of sp d) \<and> transfer sp e = 0 \<and> card_at sp e = card_at sp d)"

definition spi_controller :: "'d bus \<Rightarrow> ('d, 'c) spi \<Rightarrow> ('c \<Rightarrow> u8 \<Rightarrow> u8 \<times> 'c) \<Rightarrow> bool" where
  "spi_controller bus sp shift \<longleftrightarrow> spi_stores bus sp shift \<and> spi_loads bus sp"

text \<open>Whatever no access to these registers changes.\<close>

definition spi_keeps :: "'d bus \<Rightarrow> ('d \<Rightarrow> bool) \<Rightarrow> bool" where
  "spi_keeps bus I \<longleftrightarrow>
     (\<forall>d w. \<forall>a \<in> {0xF0008800, 0xF0008808, 0xF0008810, 0xF0008818}. I d \<longrightarrow> I (store_word bus a w d)) \<and>
     (\<forall>d. \<forall>a \<in> {0xF0008804, 0xF000880C}. I d \<longrightarrow> I (snd (load_word bus a d)))"

text \<open>The driver waits for the end of the transfer and gets the byte the other end answers.\<close>

lemma transfer_ends:
  assumes "spi_loads bus sp" "spi_keeps bus I" "I d"
  shows "\<exists>w e. runs (poll (REGW bus SDSPI_BASE LITEX_SPI_STATUS) (\<lambda>s. s AND 1 = 1)) d w e \<and> transfer sp e = 0 \<and>
    card_at sp e = card_at sp d \<and> miso_of sp e = miso_of sp d \<and> I e"
  using assms(3)
proof (induction "transfer sp d" arbitrary: d)
  case 0
  obtain w e where l: "load_word bus 0xF0008804 d = (w, e)"
    by fastforce
  then have e: "bit w 0" "transfer sp e = 0" "card_at sp e = card_at sp d" "miso_of sp e = miso_of sp d"
    using assms(1) 0 unfolding spi_loads_def by auto
  have i: "I e"
    using assms(2) 0(2) l unfolding spi_keeps_def by (metis insertI1 snd_conv)
  have "w AND 1 = 1"
    using e(1) by (simp add: and_one_eq bit_0 odd_iff_mod_2_eq_one)
  moreover have "runs (REGW bus SDSPI_BASE LITEX_SPI_STATUS) d w e"
    by (simp add: REGW_def SDSPI_BASE_def LITEX_SPI_STATUS_def l)
  ultimately have "runs (poll (REGW bus SDSPI_BASE LITEX_SPI_STATUS) (\<lambda>s. s AND 1 = 1)) d w e"
    by (intro poll_hit)
  with e(2-) i show ?case
    by blast
next
  case (Suc n)
  obtain w e where l: "load_word bus 0xF0008804 d = (w, e)"
    by fastforce
  then have e: "\<not> bit w 0" "n = transfer sp e" "card_at sp e = card_at sp d" "miso_of sp e = miso_of sp d"
    using assms(1) Suc.hyps(2) unfolding spi_loads_def by auto
  have i: "I e"
    using assms(2) Suc.prems l unfolding spi_keeps_def by (metis insertI1 snd_conv)
  have "w AND 1 \<noteq> 1"
    using e(1) by (simp add: and_one_eq bit_0 even_iff_mod_2_eq_zero)
  moreover have "runs (REGW bus SDSPI_BASE LITEX_SPI_STATUS) d w e"
    by (simp add: REGW_def SDSPI_BASE_def LITEX_SPI_STATUS_def l)
  ultimately have "poll (REGW bus SDSPI_BASE LITEX_SPI_STATUS) (\<lambda>s. s AND 1 = 1) d = poll (REGW bus SDSPI_BASE LITEX_SPI_STATUS) (\<lambda>s. s AND 1 = 1) e"
    using poll_miss by fast
  then show ?case
    using Suc.hyps(1) [OF e(2) i] e(3,4) by simp
qed

lemma ucast_of_byte: "ucast (ucast (c :: u8) :: u32) = c"
  by (rule bit_word_eqI) (simp add: bit_simps)

lemma spi_exchange_shift:
  assumes "spi_controller bus sp shift" "transfer sp d = 0" "spi_keeps bus I" "I d"
  shows "\<exists>e. runs (spi_exchange bus b) d (fst (shift (card_at sp d) b)) e \<and> transfer sp e = 0 \<and>
    card_at sp e = snd (shift (card_at sp d) b) \<and> I e"
proof -
  define d1 where "d1 = store_word bus 0xF0008808 (ucast b) d"
  define d2 where "d2 = store_word bus 0xF0008800 0x801 d1"
  have s: "spi_stores bus sp shift" "spi_loads bus sp"
    using assms(1) by (simp_all add: spi_controller_def)
  have d1: "transfer sp d1 = 0" "card_at sp d1 = card_at sp d" "mosi_of sp d1 = b"
    using s(1) assms(2) by (simp_all add: spi_stores_def d1_def ucast_of_byte)
  then have d2: "miso_of sp d2 = fst (shift (card_at sp d) b)" "card_at sp d2 = snd (shift (card_at sp d) b)"
    using s(1) unfolding spi_stores_def d2_def by (metis fst_conv, metis snd_conv)
  have i: "I d2"
    using assms(3,4) by (simp add: spi_keeps_def d1_def d2_def)
  obtain w d3 where d3: "runs (poll (REGW bus SDSPI_BASE LITEX_SPI_STATUS) (\<lambda>s. s AND 1 = 1)) d2 w d3" "transfer sp d3 = 0"
    "card_at sp d3 = card_at sp d2" "miso_of sp d3 = miso_of sp d2" "I d3"
    using transfer_ends [OF s(2) assms(3) i] by blast
  obtain v e where l: "load_word bus 0xF000880C d3 = (v, e)"
    by fastforce
  then have e: "v AND 0xFF = ucast (miso_of sp d3)" "transfer sp e = 0" "card_at sp e = card_at sp d3"
    using s(2) d3(2) unfolding spi_loads_def by auto
  have "I (snd (load_word bus 0xF000880C d3))"
    using assms(3) d3(5) by (simp add: spi_keeps_def)
  then have "I e"
    by (simp add: l)
  have r: "set_REGW bus SDSPI_BASE LITEX_SPI_MOSI (ucast b) d = Some (Inr ((), d1))"
    "set_REGW bus SDSPI_BASE LITEX_SPI_CONTROL 2049 d1 = Some (Inr ((), d2))"
    "REGW bus SDSPI_BASE LITEX_SPI_MISO d3 = Some (Inr (v, e))"
    by (simp_all add: set_REGW_def REGW_def SDSPI_BASE_def LITEX_SPI_MOSI_def LITEX_SPI_CONTROL_def LITEX_SPI_MISO_def l d1_def d2_def)
  have "runs (spi_exchange bus b) d (fst (shift (card_at sp d) b)) e"
    unfolding spi_exchange_def by (simp add: bindio_def r d3(1) e(1) d3(4) d2(1) ucast_of_byte)
  then show ?thesis
    using e(2,3) d3(3) d2(2) \<open>I e\<close> by auto
qed

text \<open>A sequence of bytes sent to the other end, and its answers.\<close>

fun card_bytes :: "('c \<Rightarrow> u8 \<Rightarrow> u8 \<times> 'c) \<Rightarrow> 'c \<Rightarrow> u8 list \<Rightarrow> u8 list \<times> 'c" where
  "card_bytes shift c [] = ([], c)"
| "card_bytes shift c (b # bs) = (case shift c b of (r, c') \<Rightarrow> apfst (\<lambda>rs. r # rs) (card_bytes shift c' bs))"

lemma spi_exchanges_card:
  assumes "spi_controller bus sp shift"
  shows "transfer sp d = 0 \<Longrightarrow> \<exists>e. runs (spi_exchanges bus bs) d (fst (card_bytes shift (card_at sp d) bs)) e \<and>
    transfer sp e = 0 \<and> card_at sp e = snd (card_bytes shift (card_at sp d) bs)"
proof (induction bs arbitrary: d)
  case (Cons b bs)
  obtain d1 where d1: "runs (spi_exchange bus b) d (fst (shift (card_at sp d) b)) d1" "transfer sp d1 = 0"
    "card_at sp d1 = snd (shift (card_at sp d) b)"
    using spi_exchange_shift [OF assms Cons.prems, of "\<lambda>_. True"] by (auto simp: spi_keeps_def)
  obtain e where "runs (spi_exchanges bus bs) d1 (fst (card_bytes shift (card_at sp d1) bs)) e" "transfer sp e = 0"
    "card_at sp e = snd (card_bytes shift (card_at sp d1) bs)"
    using Cons.IH [OF d1(2)] by blast
  then show ?case
    using d1 by (auto simp: bindio_run case_prod_unfold)
qed simp

section \<open>Cards\<close>

text \<open>
  A card that keeps the SD protocol of a single block read over SPI, by the bytes on the line: it may be
  busy first, takes the six bytes of command 17 with the number of the block, answers with status 0 after
  at most 8000 bytes of silence, and sends the start token, the 512 bytes of the block and a checksum.
\<close>

definition sd_reads :: "('c \<Rightarrow> u8 \<Rightarrow> u8 \<times> 'c) \<Rightarrow> u32 \<Rightarrow> u8 list \<Rightarrow> 'c \<Rightarrow> 'c \<Rightarrow> bool" where
  "sd_reads shift n block c c' \<longleftrightarrow>
     (\<exists>busy answers k toks crc. 0xFF \<notin> set busy \<and> length answers = 6 \<and> k < 8000 \<and> 0xFE \<notin> set toks \<and>
        length crc = 2 \<and> length block = 512 \<and>
        card_bytes shift c (replicate (length busy + 1) 0xFF @
            [0x51, ucast (drop_bit 24 n), ucast (drop_bit 16 n), ucast (drop_bit 8 n), ucast n, 0xFF] @
            replicate (k + 1) 0xFF @ replicate (length toks + 1) 0xFF @ replicate 512 0xFF @ replicate 2 0xFF) =
          (busy @ [0xFF] @ answers @ replicate k 0xFF @ [0] @ toks @ [0xFE] @ block @ crc, c'))"

definition sd_card :: "('c \<Rightarrow> u8 \<Rightarrow> u8 \<times> 'c) \<Rightarrow> ('c \<Rightarrow> bool) \<Rightarrow> ('c \<Rightarrow> u32 \<Rightarrow> u8 list) \<Rightarrow> bool" where
  "sd_card shift ready blocks \<longleftrightarrow>
     (\<forall>c n. ready c \<longrightarrow> (\<exists>c'. sd_reads shift n (blocks c n) c c' \<and> ready c' \<and> blocks c' = blocks c))"

text \<open>The same dialog as the driver leads it, with the bytes it sends.\<close>

definition read_dialog :: "'d bus \<Rightarrow> u32 \<Rightarrow> u8 list \<Rightarrow> 'd \<Rightarrow> 'd \<Rightarrow> bool" where
  "read_dialog bus n block d d' \<longleftrightarrow>
     (\<exists>busy answers k toks crc. 0xFF \<notin> set busy \<and> length answers = 6 \<and> k < 8000 \<and> 0xFE \<notin> set toks \<and>
        length crc = 2 \<and> length block = BLOCK_SIZE \<and>
        runs (spi_exchanges bus ((replicate (length busy) 0xFF @ [0xFF]) @ cmd17 n @ (replicate k 0xFF @ [0xFF]) @
            (replicate (length toks) 0xFF @ [0xFF]) @ replicate BLOCK_SIZE 0xFF @ [0xFF, 0xFF]))
          d ((busy @ [0xFF]) @ answers @ (replicate k 0xFF @ [0]) @ (toks @ [0xFE]) @ block @ crc) d')"

lemma sd_reads_dialog:
  assumes "spi_controller bus sp shift" "transfer sp d = 0" "sd_reads shift n block (card_at sp d) c'"
  shows "\<exists>d'. read_dialog bus n block d d' \<and> transfer sp d' = 0 \<and> card_at sp d' = c'"
proof -
  obtain busy answers k toks crc where c: "0xFF \<notin> set busy" "length answers = 6" "k < 8000" "0xFE \<notin> set toks"
      "length crc = 2" "length block = 512"
    and b: "card_bytes shift (card_at sp d) (replicate (length busy + 1) 0xFF @
            [0x51, ucast (drop_bit 24 n), ucast (drop_bit 16 n), ucast (drop_bit 8 n), ucast n, 0xFF] @
            replicate (k + 1) 0xFF @ replicate (length toks + 1) 0xFF @ replicate 512 0xFF @ replicate 2 0xFF) =
          (busy @ [0xFF] @ answers @ replicate k 0xFF @ [0] @ toks @ [0xFE] @ block @ crc, c')"
    using assms(3) unfolding sd_reads_def by blast
  let ?bs = "(replicate (length busy) 0xFF @ [0xFF]) @ cmd17 n @ (replicate k 0xFF @ [0xFF]) @
            (replicate (length toks) 0xFF @ [0xFF]) @ replicate BLOCK_SIZE 0xFF @ [0xFF, 0xFF]"
  have one: "replicate (m + 1) (x :: u8) = replicate m x @ [x]" for m x
    by (simp add: replicate_append_same)
  have two: "replicate 2 (x :: u8) = [x, x]" for x
    by (simp add: numeral_2_eq_2)
  have "(17 :: u8) OR push_bit 6 1 = 0x51"
    by code_simp
  then have cmd: "cmd17 n = [0x51, ucast (drop_bit 24 n), ucast (drop_bit 16 n), ucast (drop_bit 8 n), ucast n, 0xFF]"
    by (simp add: cmd17_def)
  have "card_bytes shift (card_at sp d) ?bs = (busy @ [0xFF] @ answers @ replicate k 0xFF @ [0] @ toks @ [0xFE] @ block @ crc, c')"
    using b unfolding one two cmd BLOCK_SIZE_def append_assoc .
  with spi_exchanges_card [OF assms(1,2), of ?bs] obtain d' where d': "transfer sp d' = 0" "card_at sp d' = c'"
    "runs (spi_exchanges bus ?bs) d ((busy @ [0xFF]) @ answers @ (replicate k 0xFF @ [0]) @ (toks @ [0xFE]) @ block @ crc) d'"
    by (auto simp del: spi_exchanges.simps)
  have "read_dialog bus n block d d'"
    unfolding read_dialog_def using c d'(3) BLOCK_SIZE_def by metis
  then show ?thesis
    using d' by blast
qed

lemma sdspi_read_block:
  assumes "read_dialog bus n block d d'"
  shows "runs (sdspi_read bus n) d block d'"
proof -
  obtain busy answers k toks crc where c: "0xFF \<notin> set busy" "length answers = 6" "k < 8000" "0xFE \<notin> set toks"
      "length crc = 2" "length block = BLOCK_SIZE"
    and r: "runs (spi_exchanges bus ((replicate (length busy) 0xFF @ [0xFF]) @ cmd17 n @ (replicate k 0xFF @ [0xFF]) @
            (replicate (length toks) 0xFF @ [0xFF]) @ replicate BLOCK_SIZE 0xFF @ [0xFF, 0xFF]))
          d ((busy @ [0xFF]) @ answers @ (replicate k 0xFF @ [0]) @ (toks @ [0xFE]) @ block @ crc) d'"
    using assms unfolding read_dialog_def by metis
  obtain e1 where e1: "runs (spi_exchanges bus (replicate (length busy) 0xFF @ [0xFF])) d (busy @ [0xFF]) e1"
    and r: "runs (spi_exchanges bus (cmd17 n @ (replicate k 0xFF @ [0xFF]) @
            (replicate (length toks) 0xFF @ [0xFF]) @ replicate BLOCK_SIZE 0xFF @ [0xFF, 0xFF]))
          e1 (answers @ (replicate k 0xFF @ [0]) @ (toks @ [0xFE]) @ block @ crc) d'"
    using r by (rule spi_split) simp
  obtain e2 where e2: "runs (spi_exchanges bus (cmd17 n)) e1 answers e2"
    and r: "runs (spi_exchanges bus ((replicate k 0xFF @ [0xFF]) @
            (replicate (length toks) 0xFF @ [0xFF]) @ replicate BLOCK_SIZE 0xFF @ [0xFF, 0xFF]))
          e2 ((replicate k 0xFF @ [0]) @ (toks @ [0xFE]) @ block @ crc) d'"
    using r by (rule spi_split) (simp add: c(2) cmd17_def)
  obtain e3 where e3: "runs (spi_exchanges bus (replicate k 0xFF @ [0xFF])) e2 (replicate k 0xFF @ [0]) e3"
    and r: "runs (spi_exchanges bus ((replicate (length toks) 0xFF @ [0xFF]) @ replicate BLOCK_SIZE 0xFF @ [0xFF, 0xFF]))
          e3 ((toks @ [0xFE]) @ block @ crc) d'"
    using r by (rule spi_split) simp
  obtain e4 where e4: "runs (spi_exchanges bus (replicate (length toks) 0xFF @ [0xFF])) e3 (toks @ [0xFE]) e4"
    and r: "runs (spi_exchanges bus (replicate BLOCK_SIZE 0xFF @ [0xFF, 0xFF])) e4 (block @ crc) d'"
    using r by (rule spi_split) simp
  obtain e5 where e5: "runs (spi_exchanges bus (replicate BLOCK_SIZE 0xFF)) e4 block e5"
    and e6: "runs (spi_exchanges bus [0xFF, 0xFF]) e5 crc d'"
    using r by (rule spi_split) (simp add: c(6))
  have "runs (sdspi_exec_cmd bus (cmd17 n)) e1 0 e3"
    using e2 sdspi_reply_run [OF e3] c(3) by (simp add: sdspi_exec_cmd_def bindio_run)
  then show ?thesis
    using spi_wait_run [OF e1 c(1)] spi_wait_run [OF e4 c(4)] e5 e6
    by (simp add: sdspi_read_def bindio_run del: spi_exchanges.simps)
qed

lemma for_io_runs:
  assumes "\<And>i d. I d \<Longrightarrow> \<exists>d'. runs (f i) d (g i) d' \<and> I d'" "I d"
  shows "\<exists>d'. runs (for_io f i n) d (map g [i ..< i + n]) d' \<and> I d'"
  using assms(2)
proof (induction n arbitrary: i d)
  case (Suc n)
  obtain e where e: "runs (f i) d (g i) e" "I e"
    using assms(1) Suc.prems by blast
  obtain d' where "runs (for_io f (Suc i) n) e (map g [Suc i ..< Suc i + n]) d'" "I d'"
    using Suc.IH [OF e(2)] by blast
  moreover have "[i ..< i + Suc n] = i # [Suc i ..< Suc i + n]"
    by (simp add: upt_conv_Cons)
  ultimately show ?case
    using e(1) by (auto simp: bindio_run)
qed simp

section \<open>A machine without a card\<close>

text \<open>
  Nobody drives the answer line, so that every byte received is \<open>0xFF\<close>; the controller's registers are
  no part of the memory.
\<close>

definition no_card :: "'d bus \<Rightarrow> ('d, 'c) spi \<Rightarrow> bool" where
  "no_card bus sp \<longleftrightarrow> (\<exists>shift. spi_controller bus sp shift \<and> (\<forall>c b. fst (shift c b) = 0xFF)) \<and>
     (\<forall>d w. \<forall>a \<in> {0xF0008800, 0xF0008808, 0xF0008810, 0xF0008818}. memory bus (store_word bus a w d) = memory bus d) \<and>
     (\<forall>d. \<forall>a \<in> {0xF0008804, 0xF000880C}. memory bus (snd (load_word bus a d)) = memory bus d)"

text \<open>No transfer is going on and the memory is \<open>M\<close>.\<close>

definition silent :: "'d bus \<Rightarrow> ('d, 'c) spi \<Rightarrow> (u32 \<Rightarrow> u8) \<Rightarrow> 'd \<Rightarrow> bool" where
  "silent bus sp M d \<longleftrightarrow> transfer sp d = 0 \<and> memory bus d = M"

lemma no_card_exchange:
  assumes "no_card bus sp" "silent bus sp M d"
  shows "\<exists>e. runs (spi_exchange bus b) d 0xFF e \<and> silent bus sp M e"
proof -
  obtain shift where s: "spi_controller bus sp shift" "\<forall>c b. fst (shift c b) = 0xFF"
    using assms(1) unfolding no_card_def by blast
  have "spi_keeps bus (\<lambda>d. memory bus d = M)"
    using assms(1) unfolding no_card_def spi_keeps_def by auto
  then show ?thesis
    using spi_exchange_shift [OF s(1), of d "\<lambda>d. memory bus d = M" b] s(2) assms(2) unfolding silent_def by auto
qed

lemma no_card_select:
  assumes "no_card bus sp" "silent bus sp M d" "off \<in> {LITEX_SPI_CS, LITEX_SPI_CLKDIV}"
  shows "\<exists>e. runs (set_REGW bus SDSPI_BASE off w) d () e \<and> silent bus sp M e"
  using assms unfolding no_card_def silent_def spi_controller_def spi_stores_def
  by (auto simp: set_REGW_def SDSPI_BASE_def LITEX_SPI_CS_def LITEX_SPI_CLKDIV_def)

lemma no_card_exchanges:
  assumes "no_card bus sp"
  shows "silent bus sp M d \<Longrightarrow> \<exists>e. runs (spi_exchanges bus bs) d (replicate (length bs) 0xFF) e \<and> silent bus sp M e"
proof (induction bs arbitrary: d)
  case (Cons b bs)
  obtain e where "runs (spi_exchange bus b) d 0xFF e" "silent bus sp M e"
    using no_card_exchange [OF assms Cons.prems] by blast
  then show ?case
    using Cons.IH [of e] by (auto simp: bindio_run)
qed auto

lemma no_card_reply:
  assumes "no_card bus sp"
  shows "silent bus sp M d \<Longrightarrow> \<exists>e. runs (sdspi_reply bus n) d 0xFF e \<and> silent bus sp M e"
proof (induction n arbitrary: d)
  case (Suc n)
  obtain e where "runs (spi_exchange bus 0xFF) d 0xFF e" "silent bus sp M e"
    using no_card_exchange [OF assms Suc.prems] by blast
  then show ?case
    using Suc.IH [of e] by (auto simp: bindio_run)
qed auto

lemma no_card_cmd:
  assumes "no_card bus sp" "silent bus sp M d"
  shows "\<exists>e. runs (sdspi_exec_cmd bus cmd) d 0xFF e \<and> silent bus sp M e"
proof -
  obtain e where "runs (spi_exchanges bus cmd) d (replicate (length cmd) 0xFF) e" "silent bus sp M e"
    using no_card_exchanges [OF assms] by blast
  then show ?thesis
    using no_card_reply [OF assms(1), of M e 8000] by (auto simp: sdspi_exec_cmd_def bindio_run)
qed

lemma no_card_init:
  assumes "no_card bus sp" "silent bus sp M d"
  shows "\<exists>e. runs (sdspi_init bus) d (- 1) e \<and> silent bus sp M e"
proof -
  obtain d1 where d1: "runs (set_REGW bus SDSPI_BASE LITEX_SPI_CLKDIV (CPU_CLOCK_RATE div 400000 + 1)) d () d1" "silent bus sp M d1"
    using no_card_select [OF assms] by blast
  obtain d2 where d2: "runs (set_REGW bus SDSPI_BASE LITEX_SPI_CS 0) d1 () d2" "silent bus sp M d2"
    using no_card_select [OF assms(1) d1(2)] by blast
  obtain d3 where d3: "runs (spi_exchanges bus (replicate 1000 0xFF)) d2 (replicate 1000 0xFF) d3" "silent bus sp M d3"
    using no_card_exchanges [OF assms(1) d2(2), of "replicate 1000 0xFF"] unfolding length_replicate by blast
  obtain d4 where d4: "runs (set_REGW bus SDSPI_BASE LITEX_SPI_CS 1) d3 () d4" "silent bus sp M d4"
    using no_card_select [OF assms(1) d3(2)] by blast
  obtain e where e: "runs (sdspi_exec_cmd bus [0x40, 0x00, 0x00, 0x00, 0x00, 0x95]) d4 0xFF e" "silent bus sp M e"
    using no_card_cmd [OF assms(1) d4(2)] by blast
  have "runs (sdspi_init bus) d (- 1) e"
    unfolding sdspi_init_def using d1(1) d2(1) d3(1) d4(1) e(1) by (simp add: bindio_def del: replicate.simps)
  with e(2) show ?thesis
    by blast
qed

section \<open>The commands to the host controller\<close>

text \<open>
  What a block read stores in the registers of a host controller that is never busy: the address of
  the buffer, one block of 512 bytes, the byte offset (which wraps at 4 GB) and command 17.
\<close>

definition sdhci_read_stores :: "u32 \<Rightarrow> u32 \<Rightarrow> (u32 \<times> u32) list" where
  "sdhci_read_stores buf offset = [(SDHCI_DMA_ADDRESS, buf), (SDHCI_BLK_CNT_AND_SIZE, 0x10200), (SDHCI_INT_STAT, 0xFFFFFFFF),
     (SDHCI_ARGUMENT, offset * 512), (SDHCI_CMD_AND_MODE, 0x11200011)]"

lemma sdhci_read_registers:
  assumes "\<And>d. \<exists>w. load_word bus (SDHCI_BASE + SDHCI_PRESENT_STATE) d = (w, d) \<and> w AND 3 = 0"
    "\<And>d. \<exists>w. load_word bus (SDHCI_BASE + SDHCI_INT_STAT) d = (w, d) \<and> w AND 1 \<noteq> 0"
  defines "stored d buf offset \<equiv> fold (\<lambda>(a, w). store_word bus (SDHCI_BASE + a) w) (sdhci_read_stores buf offset) d"
  shows "runs (sdhci_read bus buf offset) d
    (map (\<lambda>i. memory bus (stored d buf offset) (buf + of_nat i)) [0 ..< 512]) (stored d buf offset)"
proof -
  have p: "\<exists>w. runs (poll (REGW bus SDHCI_BASE SDHCI_PRESENT_STATE) (\<lambda>w. w AND 0x3 = 0)) d w d" for d
    using assms(1) [of d] by (auto simp: REGW_def intro!: poll_hit)
  have i: "\<exists>w. runs (poll (REGW bus SDHCI_BASE SDHCI_INT_STAT) (\<lambda>w. w AND 0x1 \<noteq> 0)) d w d" for d
    using assms(2) [of d] by (auto simp: REGW_def intro!: poll_hit)
  have e: "sdhci_exec_cmd bus idx arg flag mode d = Some (Inr ((), fold (\<lambda>(a, w). store_word bus (SDHCI_BASE + a) w)
      [(SDHCI_INT_STAT, 0xFFFFFFFF), (SDHCI_ARGUMENT, arg), (SDHCI_CMD_AND_MODE, push_bit 16 (push_bit 8 idx OR ucast flag) OR mode)] d))"
    for idx arg flag mode d
  proof -
    obtain w where w: "runs (poll (REGW bus SDHCI_BASE SDHCI_PRESENT_STATE) (\<lambda>w. w AND 0x3 = 0)) d w d"
      using p by blast
    let ?d = "fold (\<lambda>(a, w). store_word bus (SDHCI_BASE + a) w)
      [(SDHCI_INT_STAT, 0xFFFFFFFF), (SDHCI_ARGUMENT, arg), (SDHCI_CMD_AND_MODE, push_bit 16 (push_bit 8 idx OR ucast flag) OR mode)] d"
    obtain v where v: "runs (poll (REGW bus SDHCI_BASE SDHCI_INT_STAT) (\<lambda>w. w AND 0x1 \<noteq> 0)) ?d v ?d"
      using i by blast
    show ?thesis
      using w v by (simp add: sdhci_exec_cmd_def set_REGW_def bindio_def)
  qed
  have "push_bit 16 (push_bit 8 (17 :: u32) OR ucast (push_bit 5 (1 :: u8))) OR (push_bit 4 1 OR 1) = 0x11200011"
    "push_bit 16 (1 :: u32) OR 512 = 0x10200"
    by code_simp+
  then show ?thesis
    by (simp add: sdhci_read_def stored_def sdhci_read_stores_def e bindio_def set_REGW_def copy_memory_def BLOCK_SIZE_def)
qed

section \<open>Properties\<close>

text \<open>
  C34. On the board (\<open>HARDWARE\<close>) the driver reads what is on the card: over a controller whose transfers
  end after finitely many reads of its status, from a card that keeps the protocol of block reads,
  however long it is busy and silent, \<open>disk_read\<close> returns the bytes of the blocks asked for, in order,
  and leaves the card ready with the same blocks. Both are described by the registers and by the bytes
  on the line, not by the driver's functions.
\<close>

theorem disk_read_blocks:
  assumes "spi_controller bus sp shift" "sd_card shift ready blocks" "ready (card_at sp d)" "transfer sp d = 0"
  shows "\<exists>d'. runs (disk_read bus HARDWARE buf SD_CARD block_no nblocks) d
      (concat (map (\<lambda>i. blocks (card_at sp d) (block_no + of_nat i)) [0 ..< unat nblocks])) d' \<and>
    ready (card_at sp d') \<and> transfer sp d' = 0 \<and> blocks (card_at sp d') = blocks (card_at sp d)"
proof -
  let ?B = "blocks (card_at sp d)"
  let ?I = "\<lambda>e. ready (card_at sp e) \<and> transfer sp e = 0 \<and> blocks (card_at sp e) = ?B"
  have "\<exists>e'. runs (sdspi_read bus (block_no + of_nat i)) e (?B (block_no + of_nat i)) e' \<and> ?I e'" if I: "?I e" for i e
  proof -
    have "\<exists>c'. sd_reads shift (block_no + of_nat i) (blocks (card_at sp e) (block_no + of_nat i)) (card_at sp e) c' \<and>
        ready c' \<and> blocks c' = blocks (card_at sp e)"
      using assms(2) I unfolding sd_card_def by blast
    then obtain c' where c: "sd_reads shift (block_no + of_nat i) (?B (block_no + of_nat i)) (card_at sp e) c'" "ready c'" "blocks c' = ?B"
      using I by auto
    obtain e' where e': "read_dialog bus (block_no + of_nat i) (?B (block_no + of_nat i)) e e'" "transfer sp e' = 0" "card_at sp e' = c'"
      using sd_reads_dialog [OF assms(1) conjunct1 [OF conjunct2 [OF I]] c(1)] by (elim exE conjE)
    from sdspi_read_block [OF e'(1)] show ?thesis
      using e'(2,3) c(2,3) by (intro exI [of _ e']) simp
  qed
  then have "\<exists>d'. runs (for_io (\<lambda>i. sdspi_read bus (block_no + of_nat i)) 0 (unat nblocks)) d
      (map (\<lambda>i. ?B (block_no + of_nat i)) [0 ..< 0 + unat nblocks]) d' \<and> ?I d'"
    using assms(3,4) by (intro for_io_runs [where I = ?I]) auto
  then show ?thesis
    by (auto simp: disk_read_def bindio_run)
qed

text \<open>
  C40. Without a card the board (\<open>HARDWARE\<close>) starts from the flash memory: \<open>disk_init\<close> ends and reports
  \<open>FLASH_ROM\<close>, reads return the bytes of the flash memory at the block, and writes stop the machine.
  A card that is gone later stops the machine at its next read. On QEMU there is no such fallback:
  \<open>disk_init\<close> never reports \<open>FLASH_ROM\<close>.
\<close>

theorem no_card_uses_flash:
  assumes "no_card bus sp" "transfer sp d = 0" "nblocks \<noteq> 0"
  shows "(\<exists>d'. runs (disk_init bus HARDWARE) d FLASH_ROM d' \<and>
      runs (disk_read bus HARDWARE buf FLASH_ROM block_no nblocks) d'
        (map (\<lambda>i. memory bus d (0x20400000 + block_no * 512 + of_nat i)) [0 ..< unat (nblocks * 512)]) d' \<and>
      disk_write bus FLASH_ROM block_no nblocks src d' = Some (Inl (Fatal ''FLASH_ROM is read only''))) \<and>
    disk_read bus HARDWARE buf SD_CARD block_no nblocks d = Some (Inl (Fatal ''cmd17 returns status'')) \<and>
    (\<forall>t e. runs (disk_init bus QEMU) d t e \<longrightarrow> t = SD_CARD)"
proof (intro conjI)
  have q: "silent bus sp (memory bus d) d"
    using assms(2) by (simp add: silent_def)
  obtain d' where "runs (sdspi_init bus) d (- 1) d'" "memory bus d' = memory bus d"
    using no_card_init [OF assms(1) q] unfolding silent_def by blast
  then show "\<exists>d'. runs (disk_init bus HARDWARE) d FLASH_ROM d' \<and>
      runs (disk_read bus HARDWARE buf FLASH_ROM block_no nblocks) d'
        (map (\<lambda>i. memory bus d (0x20400000 + block_no * 512 + of_nat i)) [0 ..< unat (nblocks * 512)]) d' \<and>
      disk_write bus FLASH_ROM block_no nblocks src d' = Some (Inl (Fatal ''FLASH_ROM is read only''))"
    by (intro exI [of _ d'])
      (simp add: disk_init_def bindio_run disk_read_def copy_memory_def FLASH_ROM_BASE_def BLOCK_SIZE_def disk_write_def)
  obtain e where e: "runs (spi_exchange bus 0xFF) d 0xFF e" "silent bus sp (memory bus d) e"
    using no_card_exchange [OF assms(1) q] by blast
  have w: "runs (spi_wait bus 0xFF) d 0xFF e"
    unfolding spi_wait_def using e(1) by (rule poll_hit) simp
  obtain f where "runs (sdspi_exec_cmd bus (cmd17 (block_no + of_nat 0))) e 0xFF f"
    using no_card_cmd [OF assms(1) e(2)] by blast
  then have "sdspi_read bus (block_no + of_nat 0) d = Some (Inl (Fatal ''cmd17 returns status''))"
    using w by (simp add: sdspi_read_def bindio_run)
  moreover obtain n where "unat nblocks = Suc n"
    using assms(3) unat_gt_0 [of nblocks] by (cases "unat nblocks") auto
  ultimately show "disk_read bus HARDWARE buf SD_CARD block_no nblocks d = Some (Inl (Fatal ''cmd17 returns status''))"
    by (simp add: disk_read_def bindio_fault)
  show "\<forall>t e. runs (disk_init bus QEMU) d t e \<longrightarrow> t = SD_CARD"
    by (auto simp: disk_init_def bindio_ret_eq)
qed

section \<open>A card\<close>

text \<open>
  A board whose controller needs two reads of the status for each transfer and meanwhile shows a zero byte,
  with a card that answers each read command after a byte of silence.
\<close>

record card =
  c_cmd :: "u8 list"
  c_out :: "u8 list"

record board =
  b_mosi :: u8
  b_miso :: u8
  b_wait :: nat
  b_card :: card

definition card_block :: "u32 \<Rightarrow> u8 list" where
  "card_block n = map (\<lambda>i. ucast n + of_nat i) [0 ..< 512]"

definition card_answer :: "u8 list \<Rightarrow> u8 list" where
  "card_answer cmd = (if cmd ! 0 = 0x51
     then [0xFF, 0, 0xFF, 0xFE] @ card_block (bytes_word (cmd ! 4) (cmd ! 3) (cmd ! 2) (cmd ! 1)) @ [0, 0] else [0])"

definition card_shift :: "card \<Rightarrow> u8 \<Rightarrow> u8 \<times> card" where
  "card_shift c b =
     (case c_out c of
        r # rs \<Rightarrow> (r, c\<lparr>c_out := rs\<rparr>)
      | [] \<Rightarrow>
          if c_cmd c = [] \<and> b = 0xFF then (0xFF, c)
          else if length (c_cmd c) < 5 then (0xFF, c\<lparr>c_cmd := c_cmd c @ [b]\<rparr>)
          else (0xFF, c\<lparr>c_cmd := [], c_out := card_answer (c_cmd c @ [b])\<rparr>))"

definition board_bus :: "(card \<Rightarrow> u8 \<Rightarrow> u8 \<times> card) \<Rightarrow> board bus" where
  "board_bus shift = \<lparr>
     load_word = (\<lambda>a b. if a = 0xF0008804 then (if b_wait b = 0 then 1 else 0, b\<lparr>b_wait := b_wait b - 1\<rparr>)
                        else if a = 0xF000880C then (if b_wait b = 0 then ucast (b_miso b) else 0, b) else (0, b)),
     store_word = (\<lambda>a w b. if b_wait b \<noteq> 0 then b
                          else if a = 0xF0008808 then b\<lparr>b_mosi := ucast w\<rparr>
                          else if a = 0xF0008800 \<and> w = 0x801
                          then (let (r, c) = shift (b_card b) (b_mosi b) in b\<lparr>b_miso := r, b_card := c, b_wait := 2\<rparr>) else b),
     load_byte = (\<lambda>a b. (0, b)), store_byte = (\<lambda>a w b. b), memory = (\<lambda>b a. ucast a)\<rparr>"

definition board_spi :: "(board, card) spi" where
  "board_spi = \<lparr>card_at = b_card, mosi_of = b_mosi, miso_of = b_miso, transfer = b_wait\<rparr>"

lemma ucast_and_mask: "(ucast (c :: u8) :: u32) AND 0xFF = ucast c"
proof -
  have "(ucast c :: u32) AND mask 8 = ucast c"
    by (rule bit_word_eqI, simp only: bit_simps) (auto dest: bit_imp_le_length)
  moreover have "(mask 8 :: u32) = 0xFF"
    by code_simp
  ultimately show ?thesis
    by metis
qed

lemma board_controller: "spi_controller (board_bus shift) board_spi shift"
  by (auto simp: spi_controller_def spi_stores_def spi_loads_def board_bus_def board_spi_def case_prod_unfold Let_def ucast_and_mask
      split: if_splits)

lemma card_answers:
  "length bs = length q \<Longrightarrow> c_out c = q @ q' \<Longrightarrow> card_bytes card_shift c bs = (q, c\<lparr>c_out := q'\<rparr>)"
proof (induction bs arbitrary: q c)
  case (Cons b bs)
  then obtain r rs where q: "q = r # rs" "length bs = length rs"
    by (cases q) auto
  then show ?case
    using Cons.prems(2) Cons.IH [of rs "c\<lparr>c_out := rs @ q'\<rparr>"] by (simp add: card_shift_def)
qed simp

lemma card_bytes_append:
  "card_bytes shift c (as @ bs) = (case card_bytes shift c as of (rs, c') \<Rightarrow> apfst (\<lambda>rs'. rs @ rs') (card_bytes shift c' bs))"
  by (induction as arbitrary: c) (simp_all add: case_prod_unfold apfst_def map_prod_def)

lemma card_takes_command:
  "card_bytes card_shift \<lparr>c_cmd = [], c_out = []\<rparr>
     [0xFF, 0x51, ucast (drop_bit 24 n), ucast (drop_bit 16 n), ucast (drop_bit 8 n), ucast n, 0xFF] =
   (replicate 7 0xFF, \<lparr>c_cmd = [], c_out = [0xFF, 0, 0xFF, 0xFE] @ card_block n @ [0, 0]\<rparr>)"
proof -
  have "bytes_word (ucast n) (ucast (drop_bit 8 n)) (ucast (drop_bit 16 n)) (ucast (drop_bit 24 n)) = n"
    by (rule bytes_word_word_bytes) (simp add: word_bytes_def)
  moreover have "replicate 7 (0xFF :: u8) = [0xFF, 0xFF, 0xFF, 0xFF, 0xFF, 0xFF, 0xFF]"
    by code_simp
  ultimately show ?thesis
    by (simp add: card_shift_def card_answer_def)
qed

lemma card_keeps_protocol: "sd_card card_shift (\<lambda>c. c = \<lparr>c_cmd = [], c_out = []\<rparr>) (\<lambda>c. card_block)"
  unfolding sd_card_def
proof (intro allI impI)
  fix c :: card and n assume c: "c = \<lparr>c_cmd = [], c_out = []\<rparr>"
  let ?q = "[0xFF, 0, 0xFF, 0xFE] @ card_block n @ [0, 0 :: u8]"
  let ?c = "\<lparr>c_cmd = [], c_out = ?q\<rparr>"
  let ?cmd = "[0xFF, 0x51, ucast (drop_bit 24 n), ucast (drop_bit 16 n), ucast (drop_bit 8 n), ucast n, 0xFF] :: u8 list"
  let ?bs = "replicate 2 0xFF @ replicate 2 0xFF @ replicate 512 0xFF @ replicate 2 (0xFF :: u8)"
  have "length ?bs = length ?q"
    by (simp add: card_block_def)
  then have "card_bytes card_shift c (?cmd @ ?bs) = (replicate 7 0xFF @ ?q, c)"
    unfolding card_bytes_append [of _ _ ?cmd ?bs] c card_takes_command using card_answers [of ?bs ?q ?c "[]"]
    by (simp del: replicate.simps)
  moreover have one: "replicate (0 + 1) x = [x]" "replicate 1 x = [x]" "replicate 7 x = [x] @ replicate 6 x" for x :: u8
    by (simp_all add: numeral_eq_Suc)
  moreover have six: "replicate 2 x = [x, x]" for x :: u8
    by (simp add: numeral_2_eq_2)
  ultimately have "sd_reads card_shift n (card_block n) c c"
    unfolding sd_reads_def
    by (intro exI [of _ "[]"] exI [of _ "replicate 6 0xFF"] exI [of _ 1] exI [of _ "[0xFF]"] exI [of _ "[0, 0]"])
      (simp_all add: card_block_def one six)
  then show "\<exists>c'. sd_reads card_shift n (card_block n) c c' \<and> c' = \<lparr>c_cmd = [], c_out = []\<rparr> \<and> card_block = card_block"
    using c by blast
qed

theorem disk_read_blocks_witness:
  "\<exists>d'. runs (disk_read (board_bus card_shift) HARDWARE 0 SD_CARD 7 2)
     \<lparr>b_mosi = 0, b_miso = 0, b_wait = 0, b_card = \<lparr>c_cmd = [], c_out = []\<rparr>\<rparr> (card_block 7 @ card_block 8) d'"
  using disk_read_blocks [OF board_controller card_keeps_protocol, of "\<lparr>b_mosi = 0, b_miso = 0, b_wait = 0, b_card = \<lparr>c_cmd = [], c_out = []\<rparr>\<rparr>" 0 7 2]
  by (auto simp: board_spi_def upt_rec)

text \<open>The same board with an empty slot.\<close>

lemma empty_slot: "no_card (board_bus (\<lambda>c b. (0xFF, c))) board_spi"
  unfolding no_card_def using board_controller [of "\<lambda>c b. (0xFF, c)"] by (auto simp: board_bus_def)

theorem no_card_uses_flash_witness:
  "\<exists>d'. runs (disk_init (board_bus (\<lambda>c b. (0xFF, c))) HARDWARE)
     \<lparr>b_mosi = 0, b_miso = 0, b_wait = 0, b_card = \<lparr>c_cmd = [], c_out = []\<rparr>\<rparr> FLASH_ROM d' \<and>
   disk_read (board_bus (\<lambda>c b. (0xFF, c))) HARDWARE 0 SD_CARD 1 1 \<lparr>b_mosi = 0, b_miso = 0, b_wait = 0, b_card = \<lparr>c_cmd = [], c_out = []\<rparr>\<rparr> =
     Some (Inl (Fatal ''cmd17 returns status''))"
  using no_card_uses_flash [OF empty_slot, of "\<lparr>b_mosi = 0, b_miso = 0, b_wait = 0, b_card = \<lparr>c_cmd = [], c_out = []\<rparr>\<rparr>" 1 0 1 "[]"]
  by (auto simp: board_spi_def)

end
