(* ===== verification/Boot.thy ===== *)
theory Boot
  imports Sv32 Machine Elf_Props Mkfs_Image Timer Dev_Tty Dev_Disk
begin

text \<open>
  The start of the machine: earth/boot.c on the first core, the control registers that
  earth/cpu_intr.c and earth/cpu_mmu.c set, and the jump of grass/init.c into the first process.
  Messages on the terminal are left out.
\<close>

section \<open>Control registers\<close>

record csrs =
  mtvec :: u32
  mip :: u32
  mie :: u32
  mstatus :: u32
  csr_mepc :: u32
  pmpaddr0 :: u32
  pmpcfg0 :: u32
  satp :: u32

text \<open>The inline assembly of \<open>intr_init\<close>; \<open>csrs\<close> sets the bits of its operand.\<close>

definition intr_csrs :: "u32 \<Rightarrow> csrs \<Rightarrow> csrs" where
  "intr_csrs trap_entry c = c\<lparr>mtvec := trap_entry, mip := 0, mie := mie c OR 0x80, mstatus := mstatus c OR 0x88\<rparr>"

text \<open>The inline assembly of \<open>mmu_init\<close>, on the state it ends in.\<close>

definition mmu_csrs :: "translation \<Rightarrow> mmu_state \<Rightarrow> csrs \<Rightarrow> csrs" where
  "mmu_csrs t m c =
     (let c1 = c\<lparr>pmpaddr0 := 0x40000000, pmpcfg0 := 0xF\<rparr> in
      if t = PAGE_TABLE then c1\<lparr>satp := satp_value m\<rparr> else c1)"

text \<open>\<open>flush_cache\<close>, as the instructions it executes.\<close>

datatype cache_instr = FLUSH_L1 | SFENCE_VMA

definition flush_cache :: "Mmio.platform \<Rightarrow> translation \<Rightarrow> cache_instr list" where
  "flush_cache pf t = (if pf = Mmio.HARDWARE then [FLUSH_L1] else []) @ (if t = PAGE_TABLE then [SFENCE_VMA] else [])"

section \<open>The first core\<close>

definition boot_platform :: "u32 \<Rightarrow> Mmio.platform" where
  "boot_platform mvendorid = (if mvendorid = 666 then Mmio.HARDWARE else Mmio.QEMU)"

definition mmu_platform :: "Mmio.platform \<Rightarrow> Mmu.platform" where
  "mmu_platform pf = (case pf of Mmio.HARDWARE \<Rightarrow> Mmu.HARDWARE | Mmio.QEMU \<Rightarrow> Mmu.QEMU)"

text \<open>\<open>for (buf[0] = 0; buf[0] != '0' && buf[0] != '1'; earth->tty_read(&buf[0]));\<close>\<close>

definition read_choice :: "'d bus \<Rightarrow> Mmio.platform \<Rightarrow> ('d, translation) io" where
  "read_choice bus pf =
     bindio (poll (uart_getc bus pf) (\<lambda>c. c = 0x30 \<or> c = 0x31)) (\<lambda>c.
       ret (if c = 0x30 then PAGE_TABLE else SOFT_TLB))"

record booted_core =
  b_disk :: disk_type
  b_translation :: translation
  b_mmu :: mmu_intf
  b_memory :: mmu_state
  b_csrs :: csrs

text \<open>
  \<open>boot\<close> up to the call of \<open>grass_entry\<close>, with the number of cores booted before. Other cores are left
  to the students: nothing happens on them.
\<close>

definition boot :: "'d bus \<Rightarrow> u32 \<Rightarrow> u32 \<Rightarrow> u32 \<Rightarrow> nat \<Rightarrow> csrs \<Rightarrow> mmu_state \<Rightarrow> ('d, booted_core option \<times> nat) io" where
  "boot bus mvendorid core_id trap_entry booted_core_cnt c m =
     (let pf = boot_platform mvendorid in
      if booted_core_cnt = 0 then
        bindio (disk_init bus pf) (\<lambda>dt.
        bindio (read_choice bus pf) (\<lambda>t.
        case mmu_init t (m\<lparr>plat := mmu_platform pf\<rparr>) of
          Inl e \<Rightarrow> fail e
        | Inr (intf, m') \<Rightarrow>
            bindio (intr_init bus pf core_id) (\<lambda>_.
              ret (Some \<lparr>b_disk = dt, b_translation = t, b_mmu = intf, b_memory = m',
                b_csrs = intr_csrs trap_entry (mmu_csrs t m' c)\<rparr>, booted_core_cnt + 1))))
      else ret (None, booted_core_cnt + 1))"

section \<open>The first process\<close>

text \<open>What the processor runs after the end of \<open>grass_entry\<close>: program counter, privilege and arguments.\<close>

record cpu =
  pc :: u32
  privilege :: u32
  a0 :: u32
  a1 :: u32
  cpu_csrs :: csrs

text \<open>\<open>mret\<close>: privilege from MPP (bits 11 and 12), MIE (bit 3) from MPIE (bit 7); MPIE is set, MPP cleared.\<close>

definition mret :: "u32 \<Rightarrow> u32 \<Rightarrow> csrs \<Rightarrow> cpu" where
  "mret x y c =
     \<lparr>pc = csr_mepc c, privilege = drop_bit 11 (mstatus c) AND 3, a0 = x, a1 = y,
      cpu_csrs = c\<lparr>mstatus := (let s = mstatus c AND NOT 0x1808 in (if bit (mstatus c) 7 then s OR 8 else s) OR 0x80)\<rparr>\<rparr>"

definition enter_process :: "translation \<Rightarrow> u32 \<Rightarrow> csrs \<Rightarrow> cpu" where
  "enter_process t boot_lock c =
     (let mode = (if t = SOFT_TLB then 3 else 0) in
      mret APPS_ARG boot_lock (c\<lparr>mstatus := (mstatus c AND NOT (push_bit 11 3)) OR push_bit 11 mode, csr_mepc := APPS_ENTRY\<rparr>))"

text \<open>The functions of \<open>mmu_init\<close> in the interface of the kernel.\<close>

definition boot_earth :: "mmu_intf \<Rightarrow> egos_machine earth" where
  "boot_earth i = egos_earth\<lparr>
     earth_mmu_translate := (\<lambda>p a m. let (a', u) = mmu_translate i p a (mmu m) in (a', m\<lparr>mmu := u\<rparr>)),
     earth_mmu_switch := (\<lambda>p m. m\<lparr>mmu := mmu_switch i p (mmu m)\<rparr>)\<rparr>"

text \<open>
  \<open>elf_load(GPID_PROCESS, sys_proc_read, 0, 0)\<close>: the reader's block 0 is the first one of the second
  slot of the disk; \<open>blks\<close> gives the blocks that the driver reads.
\<close>

definition sys_proc_read :: "(u32 \<Rightarrow> block) \<Rightarrow> u32 \<Rightarrow> block" where
  "sys_proc_read blks block_no = blks (EXEC_START 1 + block_no)"

definition load_process :: "translation \<Rightarrow> (u32 \<Rightarrow> block) \<Rightarrow> egos_machine \<Rightarrow> fault + egos_machine" where
  "load_process t blks m =
     bindr (elf_load t GPID_PROCESS (sys_proc_read blks) 0 None (mmu m)) (\<lambda>u. Inr (m\<lparr>mmu := u\<rparr>))"

text \<open>The whole start; \<open>now\<close> and \<open>quiet\<close> are the clock and the terminal's input at the time.\<close>

definition start_system :: "'d bus \<Rightarrow> u32 \<Rightarrow> nat \<Rightarrow> u32 \<Rightarrow> csrs \<Rightarrow> mmu_state \<Rightarrow> (u32 \<Rightarrow> block) \<Rightarrow> u64 \<Rightarrow> bool \<Rightarrow>
    u32 \<Rightarrow> ('d, (egos_machine kernel \<times> cpu) option) io" where
  "start_system bus mvendorid core_id trap_entry c m blks now quiet boot_lock =
     bindio (boot bus mvendorid (of_nat core_id) trap_entry 0 c m) (\<lambda>(b, cnt).
     case b of
       None \<Rightarrow> ret None
     | Some b \<Rightarrow> (case grass_entry (boot_earth (b_mmu b)) (load_process (b_translation b) blks) core_id
           (kernel0 \<lparr>mmu = b_memory b, clock = now, kbd_empty = quiet\<rparr>) of
         Inl f \<Rightarrow> fail f
       | Inr k \<Rightarrow> ret (Some (k, enter_process (b_translation b) boot_lock (b_csrs b)))))"

section \<open>What the start does\<close>

lemma read_choice_line:
  assumes "is_uart bus pf ln" "choose_translation (text_of (incoming ln d)) = Some t"
  shows "\<exists>d'. runs (read_choice bus pf) d t d'"
proof -
  have "\<exists>c d'. runs (poll (uart_getc bus pf) (\<lambda>c. c = 0x30 \<or> c = 0x31)) d c d' \<and> t = (if c = 0x30 then PAGE_TABLE else SOFT_TLB)"
    using assms(2)
  proof (induction "incoming ln d" arbitrary: d)
    case Nil
    then show ?case
      by (simp add: Nil.hyps [symmetric] text_of_def)
  next
    case (Cons b bs)
    obtain d1 where d1: "runs (uart_getc bus pf) d b d1" "incoming ln d1 = bs"
      using uart_getc_next [OF assms(1) Cons.hyps(2) [symmetric]] by blast
    have c: "char_of (unat b) = CHR ''0'' \<longleftrightarrow> b = 0x30" "char_of (unat b) = CHR ''1'' \<longleftrightarrow> b = 0x31"
    proof -
      have "unat b < 2 ^ LENGTH(8)"
        by (rule unsigned_less)
      then have "take_bit 8 (unat b) = unat b"
        by (intro take_bit_nat_eq_self) simp
      then have "char_of (unat b) = CHR ''0'' \<longleftrightarrow> unat b = 48" "char_of (unat b) = CHR ''1'' \<longleftrightarrow> unat b = 49"
        by (auto simp: char_of_eq_iff)
      then show "char_of (unat b) = CHR ''0'' \<longleftrightarrow> b = 0x30" "char_of (unat b) = CHR ''1'' \<longleftrightarrow> b = 0x31"
        by (simp_all add: word_unat_eq_iff)
    qed
    have t: "choose_translation (text_of (incoming ln d)) =
        (if b = 0x30 then Some PAGE_TABLE else if b = 0x31 then Some SOFT_TLB else choose_translation (text_of bs))"
      by (simp add: Cons.hyps(2) [symmetric] text_of_def c)
    show ?case
    proof (cases "b = 0x30 \<or> b = 0x31")
      case True
      then have "runs (poll (uart_getc bus pf) (\<lambda>c. c = 0x30 \<or> c = 0x31)) d b d1"
        using d1(1) by (intro poll_hit) simp_all
      then show ?thesis
        using t True Cons.prems by (auto split: if_splits)
    next
      case False
      have "poll (uart_getc bus pf) (\<lambda>c. c = 0x30 \<or> c = 0x31) d = poll (uart_getc bus pf) (\<lambda>c. c = 0x30 \<or> c = 0x31) d1"
        using d1(1) False by (intro poll_miss)
      then show ?thesis
        using Cons.hyps(1) [of d1] d1(2) t False Cons.prems by simp
    qed
  qed
  then show ?thesis
    by (auto simp: read_choice_def bindio_def)
qed

lemma first_process:
  assumes "core < NCORES" "load_process t blks m = Inr m1" "mmu_switch i = soft_tlb_switch"
  shows "\<exists>k. grass_entry (boot_earth i) (load_process t blks) core (kernel0 m) = Inr k \<and> core_to_proc_idx k ! core = 1 \<and>
    pid (proc_set k ! 1) = GPID_PROCESS \<and> status (proc_set k ! 1) = PROC_RUNNING \<and>
    mmu (machine k) = soft_tlb_switch GPID_PROCESS (mmu m1)"
proof -
  let ?e = "boot_earth i"
  have a: "proc_alloc ?e ((kernel0 m)\<lparr>machine := m1\<rparr>) = Inr (1, (kernel0 (m1\<lparr>clock := clock m1 + 1\<rparr>))\<lparr>alloc_curr_pid := 1,
      proc_set := (replicate 17 null_process)[1 := init_process 1 (clock m1) null_process]\<rparr>)"
    by (simp add: proc_alloc_def kernel0_def MAX_NPROCESS_eq find_unused_kernel0 get_time_def
        boot_earth_def egos_earth_def upd_proc_def del: replicate.simps)
  let ?ps = "set_status 1 PROC_RUNNING ((replicate 17 null_process)[1 := init_process 1 (clock m1) null_process])"
  have "pid (?ps ! 1) = 1" "status (?ps ! 1) = PROC_RUNNING"
    by (simp_all add: set_status_nth MAX_NPROCESS_eq init_process_def del: replicate.simps)
  then show ?thesis
    using a assms by (simp add: grass_entry_def proc_set_running_def proc_set_status_def Let_def NCORES_def
        kernel0_def GPID_PROCESS_def boot_earth_def egos_earth_def del: replicate.simps)
qed

text \<open>
  The header of the process server: its program headers, and the pages they need. Segments below the
  memory are skipped.
\<close>

definition headers_of :: "block \<Rightarrow> (fault + elf32_program_header) list" where
  "headers_of hbuf = map (pheader hbuf) [0 ..< e_phnum hbuf]"

definition loaded_headers :: "elf32_program_header list \<Rightarrow> elf32_program_header list" where
  "loaded_headers phs = filter (\<lambda>ph. RAM_START \<le> p_vaddr ph) phs"

lemma load_segments_ok:
  assumes "map (pheader hbuf) [i ..< i + length phs] = map Inr phs" "\<forall>ph \<in> set (loaded_headers phs). seg_placed ph"
    "table512 m" "sum_list (map seg_pages (loaded_headers phs)) + n \<le> free_pages m" "\<forall>b. length (reader b) = 128" "full_pages m"
  shows "\<exists>m'. load_segments SOFT_TLB p reader hbuf (length phs) i m = Inr m' \<and> table512 m' \<and> n \<le> free_pages m' \<and> full_pages m'"
  using assms(1-4,6)
proof (induction phs arbitrary: i m)
  case (Cons ph phs)
  have h: "pheader hbuf i = Inr ph" "map (pheader hbuf) [Suc i ..< Suc i + length phs] = map Inr phs"
    using Cons.prems(1) by (simp_all add: upt_conv_Cons del: upt_Suc)
  obtain m1 where m1: "load_segment SOFT_TLB p reader ph m = Inr m1" "table512 m1"
    "sum_list (map seg_pages (loaded_headers phs)) + n \<le> free_pages m1"
  proof (cases "RAM_START \<le> p_vaddr ph")
    case True
    then show ?thesis
      using load_segment_takes [OF Cons.prems(3), of ph p reader] Cons.prems(2,4) that
      by (auto simp: takes_def loaded_headers_def split: sum.splits)
  next
    case False
    then have "load_segment SOFT_TLB p reader ph m = Inr m"
      by (simp add: load_segment_def Let_def not_le)
    then show ?thesis
      using False Cons.prems(3,4) that by (simp add: loaded_headers_def)
  qed
  have "full_pages m1"
    using load_segment_full [OF m1(1) assms(5) Cons.prems(5)] .
  then show ?case
    using Cons.IH [OF h(2) _ m1(2,3)] Cons.prems(2) h(1) m1(1) by (auto simp: loaded_headers_def split: if_splits)
qed simp

lemma elf_load_ok:
  assumes "headers_of (reader 0) = map Inr phs" "\<forall>ph \<in> set (loaded_headers phs). seg_placed ph"
    "table512 m" "sum_list (map seg_pages (loaded_headers phs)) + 4 \<le> free_pages m" "sint p < 256"
    "\<forall>b. length (reader b) = 128" "full_pages m"
  shows "\<exists>m'. elf_load t p reader 0 None m = Inr m'"
proof -
  have n: "e_phnum (reader 0) = length phs"
    using arg_cong [OF assms(1), of length] by (simp add: headers_of_def)
  then have "map (pheader (reader 0)) [0 ..< 0 + length phs] = map Inr phs"
    using assms(1) by (simp add: headers_of_def)
  from load_segments_ok [OF this assms(2-4,6,7), of p] obtain m1 where
    m1: "load_segments SOFT_TLB p reader (reader 0) (length phs) 0 m = Inr m1" "table512 m1" "4 \<le> free_pages m1" "full_pages m1"
    by blast
  have "mem m1 a \<noteq> []" for a
    using m1(4) unfolding full_pages_def by (metis length_0_conv zero_neq_numeral)
  then have "\<forall>pg \<in> range (mem m1). \<exists>pg'. arg_page 0 None pg = Inr pg'"
    by (auto simp: arg_page_def Let_def)
  then obtain m' where "load_tail SOFT_TLB p 0 None m1 = Inr m'"
    using load_tail_ok [OF m1(2,3)] by blast
  then show ?thesis
    using elf_load_translation [OF assms(5), of t reader 0 None m] m1(1) n by (simp add: elf_load_def)
qed

lemma free_pages_card: "length (page_info_table m) = 512 \<Longrightarrow> free_pages m = card (free_frames m)"
  by (simp add: free_pages.simps length_filter_conv_card free_frames_def)

lemma fill_leaf_length: "length (fill_leaf n i leaf v a flag mm x) = length (mm x)"
  by (induction n arbitrary: i mm) (simp_all add: wr_word_def)

lemma setup_regions_full: "setup_regions p rs m = Inr m' \<Longrightarrow> full_pages m \<Longrightarrow> full_pages m'"
proof (induction rs arbitrary: m)
  case (Cons ra rs)
  obtain a n where ra: "ra = (a, n)"
    by (cases ra)
  obtain m1 where m1: "setup_identity_region p a n USER_RWX m = Inr m1" "setup_regions p rs m1 = Inr m'"
    using Cons.prems(1) by (auto simp: ra bindr_eq_Inr_iff)
  have "full_pages m1"
    using m1(1) Cons.prems(2) by (auto simp: setup_identity_region_def bindr_eq_Inr_iff full_pages_def fill_leaf_length
        mmu_alloc_def wr_word_def Let_def split: if_splits option.splits)
  then show ?case
    using Cons.IH [OF m1(2)] by simp
qed simp

lemma mmu_init_full: "mmu_init t m = Inr (i, m') \<Longrightarrow> full_pages m \<Longrightarrow> full_pages m' \<and> mmu_switch i = soft_tlb_switch"
proof (cases t)
  case PAGE_TABLE
  moreover assume a: "mmu_init t m = Inr (i, m')" "full_pages m"
  ultimately have "full_pages m'"
    by (auto simp: mmu_init_def pagetable_identity_map_def bindr_eq_Inr_iff Let_def mmu_alloc_def
        split: option.splits if_splits elim!: setup_regions_full) (simp add: full_pages_def)
  then show ?thesis
    using a(1) PAGE_TABLE by (auto simp: mmu_init_def bindr_eq_Inr_iff page_table_switch_def fun_eq_iff)
qed (auto simp: mmu_init_def)

text \<open>The privilege and the interrupts after the jump, whatever \<open>mstatus\<close> was.\<close>

lemma enter_process_csrs:
  assumes "bit (mstatus c) 7"
  shows "pc (enter_process t lock c) = APPS_ENTRY" "a0 (enter_process t lock c) = APPS_ARG" "a1 (enter_process t lock c) = lock"
    "privilege (enter_process t lock c) = (if t = SOFT_TLB then 3 else 0)"
    "bit (mstatus (cpu_csrs (enter_process t lock c))) 3" "mie (cpu_csrs (enter_process t lock c)) = mie c"
    "mtvec (cpu_csrs (enter_process t lock c)) = mtvec c" "satp (cpu_csrs (enter_process t lock c)) = satp c"
proof -
  have m3: "(3 :: u32) = mask 2"
    by (simp add: mask_eq_exp_minus_1)
  define mode :: u32 where "mode = (if t = SOFT_TLB then 3 else 0)"
  define st where "st = (mstatus c AND NOT (push_bit 11 3)) OR push_bit 11 mode"
  have e: "enter_process t lock c = mret APPS_ARG lock (c\<lparr>mstatus := st, csr_mepc := APPS_ENTRY\<rparr>)"
    by (simp only: enter_process_def mode_def st_def Let_def)
  have mode: "n < 2" if "bit mode n" for n
  proof -
    have "mode = mask 2 \<or> mode = 0"
      unfolding mode_def m3 by simp
    then show ?thesis
      using that by (auto simp: bit_mask_iff)
  qed
  have "drop_bit 11 st AND 3 = mode"
    unfolding st_def m3
    by (rule bit_word_eqI)
      (auto simp: bit_drop_bit_eq bit_and_iff bit_or_iff bit_not_iff bit_push_bit_iff bit_mask_iff dest: mode)
  then show "privilege (enter_process t lock c) = (if t = SOFT_TLB then 3 else 0)"
    unfolding e mode_def by (simp add: mret_def)
  have "bit st 7"
    unfolding st_def m3 using assms by (auto simp: bit_and_iff bit_or_iff bit_not_iff bit_push_bit_iff bit_mask_iff)
  moreover have "bit ((x OR 8) OR 0x80 :: u32) 3" for x
    by (simp add: bit_or_iff)
  ultimately show "bit (mstatus (cpu_csrs (enter_process t lock c))) 3"
    unfolding e by (simp add: mret_def)
qed (simp_all add: enter_process_def mret_def Let_def)

text \<open>
  C11. The first core starts the first process: when the disk driver's initialization returns, the serial
  line delivers an answer, the program headers of the process server on the disk can be read and its
  segments are page-aligned and in the address space, and there are free pages for them, for the four
  pages of every process and for 11 pages of page tables, then the start ends with a well-formed process
  table in which process 1 runs on this core, in whose memory \<open>elf_load\<close> has put the process server. The
  processor continues at the entry of the applications with the address of the arguments in \<open>a0\<close>, in
  machine mode with the software TLB and in user mode with page tables (whose root is then in \<open>satp\<close>),
  with timer interrupts enabled and the kernel's trap entry installed.
\<close>

theorem boot_enters_first_process:
  assumes "runs (disk_init bus (boot_platform v)) d dt d1"
    and "is_uart bus (boot_platform v) ln" "choose_translation (text_of (incoming ln d1)) = Some t"
    and "length (page_info_table m) = 512" "\<forall>a. length (mem m a) = 1024" "core < NCORES"
    and "\<forall>b. length (blks b) = 128" "headers_of (sys_proc_read blks 0) = map Inr phs"
    and "\<forall>ph \<in> set (loaded_headers phs). seg_placed ph"
    and "11 + sum_list (map seg_pages (loaded_headers phs)) + 4 \<le> free_pages m"
  shows "\<exists>k cpu d' intf m' u. runs (start_system bus v core trap_entry c m blks now quiet lock) d (Some (k, cpu)) d' \<and>
    kernel_ok k \<and> core_to_proc_idx k ! core = 1 \<and> pid (proc_set k ! 1) = GPID_PROCESS \<and> status (proc_set k ! 1) = PROC_RUNNING \<and>
    pc cpu = APPS_ENTRY \<and> a0 cpu = APPS_ARG \<and> a1 cpu = lock \<and> privilege cpu = (if t = SOFT_TLB then 3 else 0) \<and>
    mmu_init t (m\<lparr>plat := mmu_platform (boot_platform v)\<rparr>) = Inr (intf, m') \<and>
    elf_load t GPID_PROCESS (sys_proc_read blks) 0 None m' = Inr u \<and>
    mmu (machine k) = soft_tlb_switch GPID_PROCESS u \<and>
    satp (cpu_csrs cpu) = (if t = PAGE_TABLE then satp_value m' else satp c) \<and>
    bit (mstatus (cpu_csrs cpu)) 3 \<and> bit (mie (cpu_csrs cpu)) 7 \<and> mtvec (cpu_csrs cpu) = trap_entry"
proof -
  let ?pf = "boot_platform v" and ?m = "m\<lparr>plat := mmu_platform (boot_platform v)\<rparr>"
  obtain d2 where d2: "runs (read_choice bus ?pf) d1 t d2"
    using read_choice_line [OF assms(2,3)] by blast
  have fr: "length (page_info_table ?m) = 512" "card (free_frames ?m) = free_pages m" "full_pages ?m"
    using assms(4,5) free_pages_card [OF assms(4)] by (simp_all add: free_frames_def full_pages_def)
  then obtain intf m' where m': "mmu_init t ?m = Inr (intf, m')" "length (page_info_table m') = 512"
    "free_pages m \<le> card (free_frames m') + 11"
    using mmu_init_pages [of ?m t] assms(10) by auto
  note full = mmu_init_full [OF m'(1) fr(3)]
  have "sum_list (map seg_pages (loaded_headers phs)) + 4 \<le> free_pages m'" "table512 m'"
    using m'(2,3) assms(10) free_pages_card [OF m'(2)] by (simp_all add: table512_def APPS_PAGES_CNT_eq)
  then obtain u where u: "elf_load t GPID_PROCESS (sys_proc_read blks) 0 None m' = Inr u"
    using elf_load_ok [where reader = "sys_proc_read blks" and m = m' and t = t and p = GPID_PROCESS, OF assms(8,9)] assms(7) full
    by (auto simp: sys_proc_read_def GPID_PROCESS_def)
  obtain d3 where d3: "runs (intr_init bus ?pf (of_nat core)) d2 () d3"
    by (simp add: intr_init_def mtimecmp_set_def)
  let ?c = "intr_csrs trap_entry (mmu_csrs t m' c)" and ?M = "\<lparr>mmu = m', clock = now, kbd_empty = quiet\<rparr>"
  let ?b = "\<lparr>b_disk = dt, b_translation = t, b_mmu = intf, b_memory = m', b_csrs = ?c\<rparr>"
  have boot: "runs (boot bus v (of_nat core) trap_entry 0 c m) d (Some ?b, 1) d3"
    using assms(1) d2 m' d3 by (simp add: boot_def bindio_run Let_def)
  have "load_process t blks ?M = Inr (?M\<lparr>mmu := u\<rparr>)"
    using u by (simp add: load_process_def)
  then obtain k where k: "grass_entry (boot_earth intf) (load_process t blks) core (kernel0 ?M) = Inr k" "core_to_proc_idx k ! core = 1"
    "pid (proc_set k ! 1) = GPID_PROCESS" "status (proc_set k ! 1) = PROC_RUNNING" "mmu (machine k) = soft_tlb_switch GPID_PROCESS u"
    using first_process [OF assms(6)] full by fastforce
  have "kernel_ok k"
    using grass_entry_ok [OF assms(6) k(1)] .
  moreover have "runs (start_system bus v core trap_entry c m blks now quiet lock) d (Some (k, enter_process t lock ?c)) d3"
    using boot k(1) by (simp add: start_system_def bindio_run)
  moreover have "bit (mstatus ?c) 7" "bit (mie ?c) 7" "mtvec ?c = trap_entry" "satp ?c = (if t = PAGE_TABLE then satp_value m' else satp c)"
    by (auto simp: intr_csrs_def mmu_csrs_def Let_def bit_or_iff)
  moreover note enter_process_csrs [OF this(1), of t lock]
  ultimately show ?thesis
    using k(2-) m'(1) u by (intro exI [of _ k] exI [of _ "enter_process t lock ?c"] exI [of _ d3] exI [of _ intf] exI [of _ m']
      exI [of _ u]) simp
qed

text \<open>A machine of QEMU with an SD card and somebody who types.\<close>

definition boot_bus :: "(u8 list \<times> u8 list) bus" where
  "boot_bus = \<lparr>
     load_word = (\<lambda>a d. if a = 0x10000000 then (case fst d of [] \<Rightarrow> (0, d) | c # cs \<Rightarrow> (ucast c, (cs, snd d)))
       else (if a = 0x40000030 then 1 else 0, d)),
     store_word = (\<lambda>a w d. if a = 0x10000000 then (fst d, snd d @ [ucast w]) else d),
     load_byte = (\<lambda>a d. (if a = 0x10000005 then (if fst d = [] then 32 else 33) else 0, d)),
     store_byte = (\<lambda>a w d. d), memory = (\<lambda>d a. 0)\<rparr>"

definition boot_line :: "(u8 list \<times> u8 list) line" where
  "boot_line = \<lparr>incoming = fst, sent = snd, rx_wait = \<lambda>_. 0, tx_wait = \<lambda>_. 0\<rparr>"

lemma boot_bus_is_uart: "is_uart boot_bus Mmio.QEMU boot_line"
proof -
  have "bit (33 :: u8) 0" "bit (33 :: u8) 5" "\<not> bit (32 :: u8) 0" "bit (32 :: u8) 5"
    by code_simp+
  then show ?thesis
    by (simp add: is_uart_def rx_delivers_def tx_accepts_def rx_takes_def tx_sends_def rx_status_def tx_status_def
        data_register_def boot_bus_def boot_line_def ucast_mask_byte) (auto simp: ucast_and_byte)
qed

lemma boot_bus_access:
  "base + off \<noteq> 0x10000000 \<Longrightarrow> set_REGW boot_bus base off w d = Some (Inr ((), d))"
  "set_REGB boot_bus base off x d = Some (Inr ((), d))"
  "base + off \<noteq> 0x10000000 \<Longrightarrow> REGW boot_bus base off d = Some (Inr (if base + off = 0x40000030 then 1 else 0, d))"
  by (simp_all add: set_REGW_def set_REGB_def REGW_def boot_bus_def)

lemmas sdhci_addresses = Dev_Disk.SDHCI_BASE_def Dev_Disk.SDHCI_PCI_ECAM_def SDHCI_PRESENT_STATE_def SDHCI_INT_STAT_def
  SDHCI_ARGUMENT_def SDHCI_CMD_AND_MODE_def SDHCI_INT_SIG_ENABLE_def SDHCI_INT_STAT_ENABLE_def SDHCI_RESPONSE0_def

lemma boot_bus_command: "sdhci_exec_cmd boot_bus idx arg flag mode d = Some (Inr ((), d))"
proof -
  have "runs (poll (REGW boot_bus 0x40000000 0x24) (\<lambda>w. w AND 0x3 = 0)) d 0 d"
    by (rule poll_hit) (simp_all add: boot_bus_access)
  moreover have "runs (poll (REGW boot_bus 0x40000000 0x30) (\<lambda>w. w AND 0x1 \<noteq> 0)) d 1 d"
    by (rule poll_hit) (simp_all add: boot_bus_access)
  ultimately show ?thesis
    by (simp add: sdhci_exec_cmd_def sdhci_addresses bindio_run boot_bus_access)
qed

lemma boot_bus_disk: "runs (disk_init boot_bus Mmio.QEMU) d SD_CARD d"
proof -
  have "runs (poll (REGB boot_bus 0x40000000 SDHCI_SOFTWARE_RESET) (\<lambda>b. b AND 0x1 = 0)) d 0 d"
    by (rule poll_hit) (simp_all add: REGB_def boot_bus_def SDHCI_SOFTWARE_RESET_def)
  then show ?thesis
    by (simp add: disk_init_def sdhci_init_def sdhci_addresses bindio_run boot_bus_access boot_bus_command)
qed

definition reset_csrs :: csrs where
  "reset_csrs = \<lparr>mtvec = 0, mip = 0, mie = 0, mstatus = 0, csr_mepc = 0, pmpaddr0 = 0, pmpcfg0 = 0, satp = 0\<rparr>"

text \<open>A disk whose process server has one segment of 600 bytes of file and 9000 of memory.\<close>

definition server_header :: block where
  "server_header = (replicate 128 0)[7 := 52, 11 := 1, 13 := 1, 14 := 0x1000, 15 := APPS_ENTRY, 17 := 600, 18 := 9000]"

definition server_disk :: "u32 \<Rightarrow> block" where
  "server_disk b = (if b = EXEC_START 1 then server_header else replicate 128 0x01010101)"

lemma server_facts:
  "headers_of (sys_proc_read server_disk 0) = map Inr [small_segment]" "loaded_headers [small_segment] = [small_segment]"
  "\<forall>b. length (server_disk b) = 128"
proof -
  show "headers_of (sys_proc_read server_disk 0) = map Inr [small_segment]"
    by (simp add: headers_of_def sys_proc_read_def server_disk_def server_header_def e_phnum_def pheader_def e_phoff_def
        hdr_word_def Let_def small_segment_def del: replicate.simps)
  show "loaded_headers [small_segment] = [small_segment]"
    by (simp add: loaded_headers_def small_segment_def layout_defs)
  show "\<forall>b. length (server_disk b) = 128"
    by (simp add: server_disk_def server_header_def)
qed

theorem boot_enters_first_process_witness:
  "\<exists>k cpu d'. runs (start_system boot_bus 0 0 0x80001000 reset_csrs (boot_memory Mmu.QEMU) server_disk 7 True 0x80002000)
       ([0x78, 0x30], []) (Some (k, cpu)) d' \<and>
     kernel_ok k \<and> pc cpu = APPS_ENTRY \<and> privilege cpu = 0 \<and> bit (mstatus (cpu_csrs cpu)) 3"
proof -
  have v: "boot_platform 0 = Mmio.QEMU"
    by (simp add: boot_platform_def)
  have t: "choose_translation (text_of (incoming boot_line ([0x78, 0x30], []))) = Some PAGE_TABLE"
    by (simp add: boot_line_def) code_simp
  have m: "length (page_info_table (boot_memory Mmu.QEMU)) = 512" "\<forall>a. length (mem (boot_memory Mmu.QEMU) a) = 1024"
    "free_pages (boot_memory Mmu.QEMU) = 512"
    by (simp_all add: boot_memory_def free_pages.simps null_page_info_def)
  have s: "\<forall>ph \<in> set (loaded_headers [small_segment]). seg_placed ph"
    "11 + sum_list (map seg_pages (loaded_headers [small_segment])) + 4 \<le> free_pages (boot_memory Mmu.QEMU)"
    using seg_freshD(1) [OF small_segment_facts(2)] by (simp_all add: server_facts(2) m(3) small_segment_facts(1))
  show ?thesis
    using boot_enters_first_process [where v = 0 and core = 0 and now = 7 and quiet = True and blks = server_disk
        and c = reset_csrs and trap_entry = "0x80001000" and lock = "0x80002000", unfolded v,
        OF boot_bus_disk boot_bus_is_uart t m(1,2) _ server_facts(3,1) s]
    by (fastforce simp: NCORES_def)
qed

end
