(* ===== verification/Elf_File.thy ===== *)
theory Elf_File
  imports Bytes
begin

text \<open>
  ELF files as the loaders of group-16 and group-16-4 read them: the headers of \<open>elf.h\<close> as records,
  decoded from the bytes of a file. The programs are built with \<open>-m32\<close>, so \<open>unsigned long\<close>,
  \<open>size_t\<close> and \<open>off_t\<close> are 32-bit words.
\<close>

section \<open>Bytes of a file\<close>

text \<open>\<open>read\<close> of \<open>n\<close> bytes at a position; a short read gives fewer.\<close>

definition read_at :: "u8 list \<Rightarrow> nat \<Rightarrow> nat \<Rightarrow> u8 list" where
  "read_at file pos n = take n (drop pos file)"

definition le32 :: "u8 list \<Rightarrow> nat \<Rightarrow> u32" where
  "le32 bs i = bytes_word (bs ! i) (bs ! (i + 1)) (bs ! (i + 2)) (bs ! (i + 3))"

definition le16 :: "u8 list \<Rightarrow> nat \<Rightarrow> u16" where
  "le16 bs i = ucast (bs ! i) OR push_bit 8 (ucast (bs ! (i + 1)))"

lemma length_read_at: "length (read_at file pos n) = min n (length file - pos)"
  by (simp add: read_at_def)

section \<open>Headers\<close>

record elf_header =
  eh_ident :: "u8 list"
  eh_entry :: u32
  eh_phoff :: u32
  eh_phnum :: u16

record program_header =
  ph_type :: u32
  ph_offset :: u32
  ph_vaddr :: u32
  ph_filesz :: u32
  ph_memsz :: u32
  ph_flags :: u32

definition PT_LOAD :: u32 where "PT_LOAD = 1"
definition PF_X :: u32 where "PF_X = 1"
definition PF_W :: u32 where "PF_W = 2"
definition PF_R :: u32 where "PF_R = 4"

definition EHDR_SIZE :: nat where "EHDR_SIZE = 52"
definition PHDR_SIZE :: nat where "PHDR_SIZE = 32"

definition decode_ehdr :: "u8 list \<Rightarrow> elf_header" where
  "decode_ehdr bs = \<lparr>eh_ident = take 16 bs, eh_entry = le32 bs 24, eh_phoff = le32 bs 28, eh_phnum = le16 bs 44\<rparr>"

definition decode_phdr :: "u8 list \<Rightarrow> program_header" where
  "decode_phdr bs = \<lparr>ph_type = le32 bs 0, ph_offset = le32 bs 4, ph_vaddr = le32 bs 8,
     ph_filesz = le32 bs 16, ph_memsz = le32 bs 20, ph_flags = le32 bs 24\<rparr>"

fun decode_phdrs :: "nat \<Rightarrow> u8 list \<Rightarrow> program_header list" where
  "decode_phdrs 0 bs = []"
| "decode_phdrs (Suc n) bs = decode_phdr bs # decode_phdrs n (drop PHDR_SIZE bs)"

lemma length_decode_phdrs [simp]: "length (decode_phdrs n bs) = n"
  by (induction n arbitrary: bs) simp_all

section \<open>Files by the layout of elf.h\<close>

text \<open>
  What a file holds at an offset, least significant byte first, and the headers of \<open>elf.h\<close> field by
  field: the specification the loaders' reads are compared with. The other fields of the headers may
  hold anything, and so may all other bytes of the file.
\<close>

definition u32_at :: "u8 list \<Rightarrow> nat \<Rightarrow> u32 \<Rightarrow> bool" where
  "u32_at bs i w \<longleftrightarrow> take 4 (drop i bs) = word_bytes w"

definition u16_at :: "u8 list \<Rightarrow> nat \<Rightarrow> u16 \<Rightarrow> bool" where
  "u16_at bs i w \<longleftrightarrow> take 2 (drop i bs) = [ucast w, ucast (drop_bit 8 w)]"

definition holds_ehdr :: "u8 list \<Rightarrow> elf_header \<Rightarrow> bool" where
  "holds_ehdr bs h \<longleftrightarrow> EHDR_SIZE \<le> length bs \<and> take 16 bs = eh_ident h \<and> u32_at bs 24 (eh_entry h) \<and>
     u32_at bs 28 (eh_phoff h) \<and> u16_at bs 44 (eh_phnum h)"

definition holds_phdr :: "u8 list \<Rightarrow> nat \<Rightarrow> program_header \<Rightarrow> bool" where
  "holds_phdr bs i p \<longleftrightarrow> i + PHDR_SIZE \<le> length bs \<and> u32_at bs i (ph_type p) \<and> u32_at bs (i + 4) (ph_offset p) \<and>
     u32_at bs (i + 8) (ph_vaddr p) \<and> u32_at bs (i + 16) (ph_filesz p) \<and> u32_at bs (i + 20) (ph_memsz p) \<and>
     u32_at bs (i + 24) (ph_flags p)"

text \<open>A file whose header is \<open>h\<close> and whose table, wherever \<open>e_phoff\<close> puts it, has the entries \<open>ps\<close>.\<close>

definition holds_headers :: "u8 list \<Rightarrow> elf_header \<Rightarrow> program_header list \<Rightarrow> bool" where
  "holds_headers bs h ps \<longleftrightarrow> holds_ehdr bs h \<and> length ps = unat (eh_phnum h) \<and>
     (\<forall>i < length ps. holds_phdr bs (unat (eh_phoff h) + 32 * i) (ps ! i))"

lemma take_Suc_nth: "take (Suc n) (drop i bs) = x # xs \<Longrightarrow> bs ! i = x \<and> take n (drop (Suc i) bs) = xs"
  using drop_Suc [of i bs] tl_drop [of i bs] by (cases "drop i bs") (auto simp: nth_via_drop)

lemma le32_u32_at: "u32_at bs i w \<Longrightarrow> le32 bs i = w"
proof -
  assume a: "u32_at bs i w"
  obtain b0 b1 b2 b3 where w: "word_bytes w = [b0, b1, b2, b3]"
    by (simp add: word_bytes_def)
  then have "take (Suc (Suc (Suc (Suc 0)))) (drop i bs) = [b0, b1, b2, b3]"
    using a by (simp add: u32_at_def numeral_eq_Suc)
  from take_Suc_nth [OF this] have t: "bs ! i = b0" "take (Suc (Suc (Suc 0))) (drop (Suc i) bs) = [b1, b2, b3]"
    by simp_all
  from take_Suc_nth [OF t(2)] have u: "bs ! Suc i = b1" "take (Suc (Suc 0)) (drop (Suc (Suc i)) bs) = [b2, b3]"
    by simp_all
  from take_Suc_nth [OF u(2)] have v: "bs ! Suc (Suc i) = b2" "take (Suc 0) (drop (Suc (Suc (Suc i))) bs) = [b3]"
    by simp_all
  from take_Suc_nth [OF v(2)] have "bs ! Suc (Suc (Suc i)) = b3"
    by simp
  then show ?thesis
    using t(1) u(1) v(1) bytes_word_word_bytes [OF w] by (simp add: le32_def numeral_eq_Suc)
qed

lemma le16_u16_at: "u16_at bs i w \<Longrightarrow> le16 bs i = w"
proof -
  assume "u16_at bs i w"
  then have "take (Suc (Suc 0)) (drop i bs) = [ucast w, ucast (drop_bit 8 w)]"
    by (simp add: u16_at_def numeral_eq_Suc)
  from take_Suc_nth [OF this] have t: "bs ! i = ucast w" "take (Suc 0) (drop (Suc i) bs) = [ucast (drop_bit 8 w)]"
    by simp_all
  from take_Suc_nth [OF t(2)] t(1) show ?thesis
    by (auto simp: le16_def bit_simps intro!: bit_word_eqI)
qed

lemma u32_at_read_at: "u32_at bs (pos + i) w \<Longrightarrow> i + 4 \<le> n \<Longrightarrow> u32_at (read_at bs pos n) i w"
  by (simp add: u32_at_def read_at_def drop_take add.commute)

lemma u16_at_read_at: "u16_at bs (pos + i) w \<Longrightarrow> i + 2 \<le> n \<Longrightarrow> u16_at (read_at bs pos n) i w"
  by (simp add: u16_at_def read_at_def drop_take add.commute)

lemma decode_holds_ehdr: "holds_ehdr bs h \<Longrightarrow> decode_ehdr bs = h"
  by (cases h) (simp add: holds_ehdr_def decode_ehdr_def le32_u32_at le16_u16_at)

lemma holds_ehdr_read: "holds_ehdr bs h \<Longrightarrow> holds_ehdr (read_at bs 0 EHDR_SIZE) h"
  using u32_at_read_at [of bs 0 _ _ EHDR_SIZE] u16_at_read_at [of bs 0 _ _ EHDR_SIZE]
  by (simp add: holds_ehdr_def EHDR_SIZE_def length_read_at) (simp add: read_at_def)

lemma decode_holds_phdr: "holds_phdr bs i p \<Longrightarrow> PHDR_SIZE \<le> n \<Longrightarrow> decode_phdr (read_at bs i n) = p"
  using u32_at_read_at [of bs i _ _ n, THEN le32_u32_at] u32_at_read_at [of bs i 0 _ n, simplified, THEN le32_u32_at]
  by (cases p) (simp add: holds_phdr_def decode_phdr_def PHDR_SIZE_def)

lemma decode_holds_phdrs:
  assumes "\<forall>i < length ps. holds_phdr bs (pos + 32 * i) (ps ! i)"
  shows "length (read_at bs pos (length ps * PHDR_SIZE)) = length ps * PHDR_SIZE"
    "decode_phdrs (length ps) (read_at bs pos (length ps * PHDR_SIZE)) = ps"
proof -
  show "length (read_at bs pos (length ps * PHDR_SIZE)) = length ps * PHDR_SIZE"
  proof (cases ps rule: rev_cases)
    case (snoc ps' p)
    then show ?thesis
      using assms [rule_format, of "length ps'"] by (auto simp: holds_phdr_def PHDR_SIZE_def length_read_at min_def)
  qed (simp add: length_read_at)
  show "decode_phdrs (length ps) (read_at bs pos (length ps * PHDR_SIZE)) = ps"
    using assms
  proof (induction ps arbitrary: pos)
    case (Cons p ps)
    have "holds_phdr bs (pos + 32 + 32 * i) (ps ! i)" if "i < length ps" for i
      using Cons.prems [rule_format, of "Suc i"] that by (simp add: add.assoc)
    then have "decode_phdrs (length ps) (read_at bs (pos + PHDR_SIZE) (length ps * PHDR_SIZE)) = ps"
      using Cons.IH [of "pos + PHDR_SIZE"] by (simp add: PHDR_SIZE_def)
    moreover have "drop PHDR_SIZE (read_at bs pos (PHDR_SIZE + length ps * PHDR_SIZE)) = read_at bs (pos + PHDR_SIZE) (length ps * PHDR_SIZE)"
      by (simp add: read_at_def drop_take add.commute)
    moreover have "decode_phdr (read_at bs pos (PHDR_SIZE + length ps * PHDR_SIZE)) = p"
      using Cons.prems [rule_format, of 0] by (intro decode_holds_phdr) simp_all
    ultimately show ?case
      by simp
  qed simp
qed

text \<open>Bytes of the two headers, for examples.\<close>

definition encode_phdr :: "program_header \<Rightarrow> u8 list" where
  "encode_phdr p = bytes_of [ph_type p, ph_offset p, ph_vaddr p, ph_vaddr p, ph_filesz p, ph_memsz p, ph_flags p, 0x1000]"

definition encode_ehdr :: "elf_header \<Rightarrow> u8 list" where
  "encode_ehdr h = eh_ident h @ bytes_of [0x00030002, 1, eh_entry h, eh_phoff h, 0, 0, 0x00200034] @
     [ucast (eh_phnum h), ucast (drop_bit 8 (eh_phnum h)), 0, 0, 0, 0, 0, 0]"

lemmas layout_defs = holds_headers_def holds_ehdr_def holds_phdr_def u32_at_def u16_at_def encode_ehdr_def encode_phdr_def
  EHDR_SIZE_def PHDR_SIZE_def bytes_of_def word_bytes_def

end
