(* ===== verification/Entry_Loader.thy ===== *)
theory Entry_Loader
  imports Elf_File
begin

text \<open>
  The loader of group-16/starter/without-bonus/loader.c: it maps the segment that holds the entry
  point, with the permissions of everything, and calls into it. What \<open>malloc\<close> and \<open>mmap\<close> answer and
  what the program computes are arguments.
\<close>

section \<open>State and answers\<close>

text \<open>The globals \<open>ehdr\<close>, \<open>phdr\<close>, \<open>fd\<close> and \<open>virtual_memory\<close> (with the length of the mapping).\<close>

record loader =
  ehdr :: "elf_header option"
  phdr :: "program_header list option"
  fd :: int
  virtual_memory :: "(u32 \<times> u32) option"

definition loader0 :: loader where
  "loader0 = \<lparr>ehdr = None, phdr = None, fd = 0, virtual_memory = None\<rparr>"

text \<open>
  \<open>mmap_base\<close> answers for an address and a length; \<open>entered\<close> is the value of the code at an address,
  given the base of the mapping and its bytes.
\<close>

record world =
  open_fd :: int
  malloc_ehdr_ok :: bool
  malloc_phdr_ok :: bool
  mmap_base :: "u32 \<Rightarrow> u32 \<Rightarrow> u32 option"
  entered :: "u32 \<Rightarrow> u8 list \<Rightarrow> u32 \<Rightarrow> u32"

text \<open>What is printed: a message, or the value \<open>_start\<close> returns.\<close>

datatype printed = Message string | Start_returned u32

definition PAGE :: nat where "PAGE = 4096"

definition page_up :: "nat \<Rightarrow> nat" where
  "page_up n = (n + PAGE - 1) div PAGE * PAGE"

text \<open>
  The bytes of a private mapping of a file, in whole pages: the bytes of the file, zeros to the end of
  its last page, and nothing that can be accessed after that.
\<close>

definition mapped_bytes :: "u8 list \<Rightarrow> nat \<Rightarrow> nat \<Rightarrow> u8 list" where
  "mapped_bytes file off len =
     take (page_up len) (drop off (file @ replicate (page_up (length file) - length file) 0))"

section \<open>The loader\<close>

text \<open>
  The loop over the program headers: the index of the first loadable segment whose addresses, the one
  past its end included, hold the entry point; the number of headers when there is none.
\<close>

fun find_segment :: "u32 \<Rightarrow> program_header list \<Rightarrow> nat \<Rightarrow> nat" where
  "find_segment entry [] cnt = cnt"
| "find_segment entry (p # ps) cnt =
     (let start = ph_vaddr p; end' = start + ph_memsz p in
      if ph_type p = PT_LOAD \<and> entry \<ge> start \<and> entry \<le> end' then cnt
      else find_segment entry ps (cnt + 1))"

text \<open>
  \<open>lseek\<close> refuses a negative offset with -1, which the comparison with \<open>e_phoff\<close> takes for success when
  \<open>e_phoff\<close> is \<open>0xFFFFFFFF\<close>: the position is then still behind the header.
\<close>

definition seek_result :: "u32 \<Rightarrow> u32 \<times> nat" where
  "seek_result off = (if sint off < 0 then (0xFFFFFFFF, EHDR_SIZE) else (off, unat off))"

text \<open>
  \<open>load_and_run_elf\<close>. Without a segment the header behind the table is read and the null pointer plus an
  offset is called; a failed \<open>mmap\<close> is not noticed either.
\<close>

definition load_and_run_elf :: "world \<Rightarrow> u8 list \<Rightarrow> loader \<Rightarrow> fault + (printed \<times> loader)" where
  "load_and_run_elf w file s =
     (let s1 = s\<lparr>fd := open_fd w\<rparr> in
      if open_fd w < 0 then Inr (Message ''Opening has failed'', s1)
      else if \<not> malloc_ehdr_ok w then Inr (Message ''Ehdr not valid'', s1)
      else
        let raw = read_at file 0 EHDR_SIZE; h = decode_ehdr raw; s2 = s1\<lparr>ehdr := Some h\<rparr> in
        if length raw \<noteq> EHDR_SIZE then Inr (Message ''There was an error reading the ehdr'', s2)
        else if \<not> malloc_phdr_ok w then Inr (Message ''Phdr not valid'', s2)
        else
          let n = unat (eh_phnum h); (at, pos) = seek_result (eh_phoff h) in
          if at \<noteq> eh_phoff h then Inr (Message ''Error seeking to program header table'', s2\<lparr>phdr := Some []\<rparr>)
          else
            let raw = read_at file pos (PHDR_SIZE * n); ps = decode_phdrs n raw; s3 = s2\<lparr>phdr := Some ps\<rparr> in
            if length raw \<noteq> PHDR_SIZE * n then Inr (Message ''Error reading program header table'', s3)
            else
              let cnt = find_segment (eh_entry h) ps 0 in
              if cnt = n then Inl Undefined
              else
                let p = ps ! cnt in
                if ph_memsz p = 0 \<or> unat (ph_offset p) mod PAGE \<noteq> 0 then Inl Undefined
                else (case mmap_base w (ph_vaddr p) (ph_memsz p) of
                    None \<Rightarrow> Inl Undefined
                  | Some base \<Rightarrow>
                      let bytes = mapped_bytes file (unat (ph_offset p)) (unat (ph_memsz p));
                          offset = eh_entry h - ph_vaddr p in
                      if unat offset < length bytes
                      then Inr (Start_returned (entered w base bytes (base + offset)), s3\<lparr>virtual_memory := Some (base, ph_memsz p)\<rparr>)
                      else Inl Undefined))"

text \<open>\<open>loader_cleanup\<close> frees and closes; the mapping stays.\<close>

definition loader_cleanup :: "loader \<Rightarrow> loader" where
  "loader_cleanup s = s\<lparr>phdr := None, ehdr := None, fd := (if fd s \<ge> 0 then -1 else fd s)\<rparr>"

definition loader_main :: "world \<Rightarrow> u8 list \<Rightarrow> nat \<Rightarrow> fault + (printed \<times> loader)" where
  "loader_main w file argc =
     (if argc \<noteq> 2 then Inr (Message ''Usage'', loader0)
      else bindr (load_and_run_elf w file loader0) (\<lambda>(out, s). Inr (out, loader_cleanup s)))"

section \<open>Lemmas\<close>

lemma find_segment_first:
  assumes "k < length ps" "ph_type (ps ! k) = PT_LOAD" "ph_vaddr (ps ! k) \<le> entry" "entry \<le> ph_vaddr (ps ! k) + ph_memsz (ps ! k)"
    "\<forall>i < k. \<not> (ph_type (ps ! i) = PT_LOAD \<and> ph_vaddr (ps ! i) \<le> entry \<and> entry \<le> ph_vaddr (ps ! i) + ph_memsz (ps ! i))"
  shows "find_segment entry ps c = c + k"
  using assms
proof (induction ps arbitrary: k c)
  case (Cons p ps)
  show ?case
  proof (cases k)
    case 0
    then show ?thesis
      using Cons.prems by (simp add: Let_def)
  next
    case (Suc j)
    have "find_segment entry ps (c + 1) = c + 1 + j"
      using Cons.prems Suc by (intro Cons.IH) force+
    then show ?thesis
      using Cons.prems(5) [rule_format, of 0] Suc by (auto simp: Let_def)
  qed
qed simp

lemma find_segment_none:
  "\<forall>p \<in> set ps. \<not> (ph_type p = PT_LOAD \<and> ph_vaddr p \<le> entry \<and> entry \<le> ph_vaddr p + ph_memsz p) \<Longrightarrow>
   find_segment entry ps c = c + length ps"
  by (induction ps arbitrary: c) (auto simp: Let_def)

lemma page_up_ge: "n \<le> page_up n"
proof -
  define m where "m = n + 4095"
  have "m mod 4096 < 4096" "m div 4096 * 4096 + m mod 4096 = m"
    by simp_all
  moreover have "page_up n = m div 4096 * 4096"
    by (simp add: page_up_def PAGE_def m_def)
  ultimately show ?thesis
    unfolding m_def by linarith
qed

lemma length_mapped_bytes: "length (mapped_bytes file off len) = min (page_up len) (page_up (length file) - off)"
  using page_up_ge [of "length file"] by (simp add: mapped_bytes_def)

lemma mapped_bytes_file: "i < len \<Longrightarrow> off + i < length file \<Longrightarrow> mapped_bytes file off len ! i = file ! (off + i)"
  using page_up_ge [of len] by (simp add: mapped_bytes_def nth_append less_diff_conv add.commute)

text \<open>The headers the loader reads are those the file holds.\<close>

lemma headers_read:
  assumes "holds_headers file h ps"
  shows "length (read_at file 0 EHDR_SIZE) = EHDR_SIZE" "decode_ehdr (read_at file 0 EHDR_SIZE) = h"
    "unat (eh_phnum h) = length ps"
    "length (read_at file (unat (eh_phoff h)) (PHDR_SIZE * length ps)) = PHDR_SIZE * length ps"
    "decode_phdrs (length ps) (read_at file (unat (eh_phoff h)) (PHDR_SIZE * length ps)) = ps"
proof -
  have e: "holds_ehdr file h" and t: "\<forall>i < length ps. holds_phdr file (unat (eh_phoff h) + 32 * i) (ps ! i)"
    and n: "length ps = unat (eh_phnum h)"
    using assms by (simp_all add: holds_headers_def)
  show "length (read_at file 0 EHDR_SIZE) = EHDR_SIZE" "unat (eh_phnum h) = length ps"
    using e n by (simp_all add: holds_ehdr_def length_read_at)
  show "decode_ehdr (read_at file 0 EHDR_SIZE) = h"
    by (rule decode_holds_ehdr [OF holds_ehdr_read [OF e]])
  show "length (read_at file (unat (eh_phoff h)) (PHDR_SIZE * length ps)) = PHDR_SIZE * length ps"
    "decode_phdrs (length ps) (read_at file (unat (eh_phoff h)) (PHDR_SIZE * length ps)) = ps"
    using decode_holds_phdrs [OF t] by (simp_all add: mult.commute)
qed

section \<open>Property\<close>

text \<open>
  C38. The loader runs the code at the entry point. The file holds its headers, the program header
  table at any offset \<open>e_phoff\<close> that is a file position; no system call fails. It takes the first
  loadable segment whose range, the address behind its end included, holds the entry point; when the
  entry point lies inside this segment (so that no earlier segment ends exactly there, compare
  \<open>entry_past_end\<close>), the segment's offset in the file is a multiple of the page size and all its bytes
  in memory lie in the file, then the loader maps it and calls the address at which the byte of the
  file for the entry point lies; all addresses of the segment show the bytes of the file that follow
  its offset, those beyond \<open>p_filesz\<close> included, which are not cleared. Cleaning up keeps the mapping
  and nothing else.
\<close>

theorem entry_code_called:
  assumes elf: "holds_headers file h ps" "0 \<le> sint (eh_phoff h)" and calls: "open_fd w \<ge> 0" "malloc_ehdr_ok w" "malloc_phdr_ok w"
    and k: "k < length ps" "ph_type (ps ! k) = PT_LOAD" "ph_vaddr (ps ! k) \<le> eh_entry h"
      "eh_entry h < ph_vaddr (ps ! k) + ph_memsz (ps ! k)"
    and first: "\<forall>i < k. \<not> (ph_type (ps ! i) = PT_LOAD \<and> ph_vaddr (ps ! i) \<le> eh_entry h \<and> eh_entry h \<le> ph_vaddr (ps ! i) + ph_memsz (ps ! i))"
    and map: "unat (ph_offset (ps ! k)) mod PAGE = 0" "mmap_base w (ph_vaddr (ps ! k)) (ph_memsz (ps ! k)) = Some base"
    and len: "unat (ph_offset (ps ! k)) + unat (ph_memsz (ps ! k)) \<le> length file"
  shows "\<exists>bytes. loader_main w file 2 =
      Inr (Start_returned (entered w base bytes (base + (eh_entry h - ph_vaddr (ps ! k)))),
        \<lparr>ehdr = None, phdr = None, fd = -1, virtual_memory = Some (base, ph_memsz (ps ! k))\<rparr>) \<and>
    unat (eh_entry h - ph_vaddr (ps ! k)) < unat (ph_memsz (ps ! k)) \<and>
    (\<forall>i < unat (ph_memsz (ps ! k)). bytes ! i = file ! (unat (ph_offset (ps ! k)) + i))"
proof -
  let ?p = "ps ! k"
  let ?bytes = "mapped_bytes file (unat (ph_offset ?p)) (unat (ph_memsz ?p))"
  note hd = headers_read [OF elf(1)]
  have f: "find_segment (eh_entry h) ps 0 = k"
    using find_segment_first [OF k(1-3) _ first, of 0] k(4) by simp
  have off: "unat (eh_entry h - ph_vaddr ?p) < unat (ph_memsz ?p)"
  proof -
    have "unat (ph_vaddr ?p + ph_memsz ?p) \<le> unat (ph_vaddr ?p) + unat (ph_memsz ?p)"
      by (simp add: unat_word_ariths)
    then show ?thesis
      using k(3,4) by (simp add: unat_sub word_le_nat_alt word_less_nat_alt)
  qed
  have "unat (ph_memsz ?p) \<le> length ?bytes"
    using page_up_ge [of "unat (ph_memsz ?p)"] page_up_ge [of "length file"] len by (simp add: length_mapped_bytes)
  then have o2: "unat (eh_entry h - ph_vaddr ?p) < length ?bytes" and m: "ph_memsz ?p \<noteq> 0"
    using off by auto
  have s: "seek_result (eh_phoff h) = (eh_phoff h, unat (eh_phoff h))"
    using elf(2) by (simp add: seek_result_def)
  have "load_and_run_elf w file loader0 = Inr (Start_returned (entered w base ?bytes (base + (eh_entry h - ph_vaddr ?p))),
      \<lparr>ehdr = Some h, phdr = Some ps, fd = open_fd w, virtual_memory = Some (base, ph_memsz ?p)\<rparr>)"
    using calls k(1) map m o2 by (simp add: load_and_run_elf_def loader0_def Let_def hd s f)
  then have "loader_main w file 2 = Inr (Start_returned (entered w base ?bytes (base + (eh_entry h - ph_vaddr ?p))),
      \<lparr>ehdr = None, phdr = None, fd = -1, virtual_memory = Some (base, ph_memsz ?p)\<rparr>)"
    using calls(1) by (simp add: loader_main_def loader_cleanup_def)
  moreover have "\<forall>i < unat (ph_memsz ?p). ?bytes ! i = file ! (unat (ph_offset ?p) + i)"
    using len by (auto intro: mapped_bytes_file)
  ultimately show ?thesis
    using off by blast
qed

text \<open>A file without a segment that holds its entry point.\<close>

lemma no_segment_undefined:
  assumes "holds_headers file h ps" "0 \<le> sint (eh_phoff h)" "open_fd w \<ge> 0" "malloc_ehdr_ok w" "malloc_phdr_ok w"
    "\<forall>p \<in> set ps. \<not> (ph_type p = PT_LOAD \<and> ph_vaddr p \<le> eh_entry h \<and> eh_entry h \<le> ph_vaddr p + ph_memsz p)"
  shows "loader_main w file 2 = Inl Undefined"
proof -
  have "seek_result (eh_phoff h) = (eh_phoff h, unat (eh_phoff h))"
    using assms(2) by (simp add: seek_result_def)
  then show ?thesis
    using assms(3-5) find_segment_none [OF assms(6), of 0]
    by (simp add: loader_main_def load_and_run_elf_def Let_def headers_read [OF assms(1)])
qed

text \<open>An entry point right behind a segment of whole pages is taken for one of its own.\<close>

lemma entry_past_end:
  "find_segment 0x8049000 [\<lparr>ph_type = PT_LOAD, ph_offset = 0, ph_vaddr = 0x8048000, ph_filesz = 0x1000, ph_memsz = 0x1000, ph_flags = 5\<rparr>,
     \<lparr>ph_type = PT_LOAD, ph_offset = 0x1000, ph_vaddr = 0x8049000, ph_filesz = 0x1000, ph_memsz = 0x1000, ph_flags = 5\<rparr>] 0 = 0"
  by (simp add: PT_LOAD_def)

definition one_segment :: program_header where
  "one_segment = \<lparr>ph_type = PT_LOAD, ph_offset = 0, ph_vaddr = 0x8048000, ph_filesz = 100, ph_memsz = 102, ph_flags = 5\<rparr>"

definition demo_world :: world where
  "demo_world = \<lparr>open_fd = 3, malloc_ehdr_ok = True, malloc_phdr_ok = True, mmap_base = (\<lambda>a n. Some a),
     entered = (\<lambda>base bytes a. ucast (bytes ! unat (a - base)))\<rparr>"

text \<open>A file of 102 bytes whose program header table starts at byte 64.\<close>

definition one_segment_file :: "u8 list" where
  "one_segment_file = encode_ehdr \<lparr>eh_ident = replicate 16 0, eh_entry = 0x8048061, eh_phoff = 64, eh_phnum = 1\<rparr> @
     replicate 12 0xAA @ encode_phdr one_segment @ [1, 2, 3, 4, 5, 6]"

text \<open>The byte at the entry point is read; the two bytes beyond the file part are those of the file.\<close>

theorem entry_code_called_witness:
  "\<exists>bytes. loader_main demo_world one_segment_file 2 =
     Inr (Start_returned (entered demo_world 0x8048000 bytes 0x8048061),
       \<lparr>ehdr = None, phdr = None, fd = -1, virtual_memory = Some (0x8048000, 102)\<rparr>) \<and> bytes ! 97 = 2 \<and> bytes ! 101 = 6"
proof -
  let ?h = "\<lparr>eh_ident = replicate 16 0, eh_entry = 0x8048061, eh_phoff = 64, eh_phnum = 1\<rparr>"
  have h: "holds_headers one_segment_file ?h [one_segment]"
    by (simp add: one_segment_file_def layout_defs one_segment_def PT_LOAD_def)
  have l: "length one_segment_file = 102" "one_segment_file ! 97 = 2" "one_segment_file ! 101 = 6"
    by (simp_all add: one_segment_file_def layout_defs nth_append)
  have p: "ph_type one_segment = PT_LOAD" "ph_offset one_segment = 0" "ph_vaddr one_segment = 0x8048000" "ph_memsz one_segment = 102"
    by (simp_all add: one_segment_def)
  have "\<exists>bytes. loader_main demo_world one_segment_file 2 =
      Inr (Start_returned (entered demo_world 0x8048000 bytes (0x8048000 + (eh_entry ?h - ph_vaddr ([one_segment] ! 0)))),
        \<lparr>ehdr = None, phdr = None, fd = -1, virtual_memory = Some (0x8048000, ph_memsz ([one_segment] ! 0))\<rparr>) \<and>
    unat (eh_entry ?h - ph_vaddr ([one_segment] ! 0)) < unat (ph_memsz ([one_segment] ! 0)) \<and>
    (\<forall>i < unat (ph_memsz ([one_segment] ! 0)). bytes ! i = one_segment_file ! (unat (ph_offset ([one_segment] ! 0)) + i))"
    by (rule entry_code_called [OF h]) (simp_all add: demo_world_def p l)
  then obtain bytes where "loader_main demo_world one_segment_file 2 =
      Inr (Start_returned (entered demo_world 0x8048000 bytes 0x8048061),
        \<lparr>ehdr = None, phdr = None, fd = -1, virtual_memory = Some (0x8048000, 102)\<rparr>)"
    "\<forall>i < 102. bytes ! i = one_segment_file ! i"
    by (auto simp: p)
  then show ?thesis
    using l by auto
qed

end
