(* ===== verification/Syscall_Lib.thy ===== *)
theory Syscall_Lib
  imports Machine Terminal
begin

text \<open>
  The library side of system calls: \<open>sys_send\<close> and \<open>sys_recv\<close> of library/syscall/syscall.c on the
  \<open>struct syscall\<close> of the calling process, and the terminal requests applications build with them in
  library/syscall/servers.c.
\<close>

section \<open>Sending and receiving\<close>

definition SYSCALL_MSG_LEN :: nat where "SYSCALL_MSG_LEN = 1024"

text \<open>
  What \<open>sys_send\<close> leaves in the structure before its \<open>ecall\<close>; a message that is too long is written
  past the content.
\<close>

definition sys_send :: "i32 \<Rightarrow> u8 list \<Rightarrow> syscall \<Rightarrow> fault + syscall" where
  "sys_send receiver msg sc =
     (if length msg \<le> SYSCALL_MSG_LEN
      then Inr (sc\<lparr>sc_type := SYS_SEND, sc_receiver := receiver, sc_content := msg @ drop (length msg) (sc_content sc)\<rparr>)
      else Inl Undefined)"

text \<open>\<open>sys_recv\<close> before and after its \<open>ecall\<close>: the bytes copied to the buffer and the sender.\<close>

definition sys_recv_call :: "i32 \<Rightarrow> syscall \<Rightarrow> syscall" where
  "sys_recv_call from_pid sc = sc\<lparr>sc_type := SYS_RECV, sc_sender := from_pid\<rparr>"

definition sys_recv_result :: "nat \<Rightarrow> syscall \<Rightarrow> fault + (u8 list \<times> i32)" where
  "sys_recv_result n sc =
     (if n \<le> SYSCALL_MSG_LEN then Inr (take n (sc_content sc), sc_sender sc) else Inl Undefined)"

text \<open>
  The structure the kernel works on when the call traps: the status is set, the sender's or receiver's
  field is what the library wrote.
\<close>

section \<open>Terminal requests\<close>

text \<open>\<open>term_write\<close> of an application; \<open>junk\<close> is what the request's buffer holds.\<close>

definition user_term_write :: "string \<Rightarrow> string \<Rightarrow> fault + term_message" where
  "user_term_write str junk =
     (if length str \<le> TERM_BUF_SIZE
      then Inr \<lparr>term_type = TERM_OUTPUT, term_len = of_nat (length str), term_buf = str @ drop (length str) junk\<rparr>
      else Inl Undefined)"

text \<open>\<open>term_read\<close> of an application: its request, and the length and text taken from the reply.\<close>

definition user_term_request :: "u32 \<Rightarrow> string \<Rightarrow> term_message" where
  "user_term_request len junk = \<lparr>term_type = TERM_INPUT, term_len = len, term_buf = junk\<rparr>"

definition user_term_result :: "u32 \<Rightarrow> string \<Rightarrow> fault + (u32 \<times> string)" where
  "user_term_result len buf =
     (if unat len \<le> length buf then Inr (len, take (unat len) buf) else Inl Undefined)"

lemma term_write_shown:
  assumes "length str \<le> TERM_BUF_SIZE"
  shows "bindr (user_term_write str junk) (\<lambda>req. term_handle req keys) = Inr (Screen str)"
proof -
  have "unat (of_nat (length str) :: u32) = length str"
    using assms by (intro unat_of_nat_less) (simp add: TERM_BUF_SIZE_def)
  then show ?thesis
    using assms by (simp add: user_term_write_def term_handle_def TERM_INPUT_def TERM_OUTPUT_def)
qed

section \<open>Property\<close>

text \<open>
  C5. Messages arrive: when the process of slot \<open>s\<close> has called \<open>sys_send\<close> for the process of slot
  \<open>d\<close>, and that one has called \<open>sys_recv\<close> from it or from anyone, the kernel handles both calls, and
  \<open>sys_recv\<close> returns exactly the message and the pid of the sender. Both processes become runnable and
  no other slot of the process table changes. Of the memory of all processes whose pages are their own,
  the receiver's page at \<open>SYSCALL_ARG\<close> is the only one that changes, and there only the structure does.
\<close>

theorem send_recv_roundtrip:
  assumes ok: "kernel_ok k" "egos_inv (machine k)" "egos_has (machine k) (pid (proc_set k ! d))"
    and slots: "s < MAX_NPROCESS" "d < MAX_NPROCESS" "s \<noteq> d"
      "status (proc_set k ! s) = PROC_PENDING_SYSCALL" "status (proc_set k ! d) = PROC_PENDING_SYSCALL"
    and snd: "sys_send (pid (proc_set k ! d)) msg sc = Inr (syscall_of (proc_set k ! s))" "length (sc_content sc) = 1024"
    and rcv: "syscall_of (proc_set k ! d) = (sys_recv_call from_pid rc)\<lparr>sc_status := PENDING\<rparr>"
      "from_pid \<in> {GPID_ALL, pid (proc_set k ! s)}"
  shows "\<exists>k1 k2. proc_try_syscall egos_earth s k = Inr k1 \<and> proc_try_syscall egos_earth d k1 = Inr k2 \<and>
    sys_recv_result (length msg) (egos_user_sc (machine k2) (pid (proc_set k ! d))) = Inr (msg, pid (proc_set k ! s)) \<and>
    (\<forall>q. egos_has (machine k) q \<longrightarrow> q \<noteq> pid (proc_set k ! d) \<longrightarrow>
       egos_user_sc (machine k2) q = egos_user_sc (machine k) q) \<and>
    (\<forall>q va. pid_ok (page_info_table (mmu (machine k))) q \<longrightarrow> vmem (mmu (machine k2)) q va =
      (if q = pid (proc_set k ! d) \<and> va = SYSCALL_ARG
       then map_option (put_syscall ((syscall_of (proc_set k ! d))\<lparr>sc_status := DONE, sc_sender := pid (proc_set k ! s),
         sc_content := sc_content (syscall_of (proc_set k ! s))\<rparr>)) (vmem (mmu (machine k)) q va)
       else vmem (mmu (machine k)) q va)) \<and>
    status (proc_set k2 ! s) = PROC_RUNNABLE \<and> status (proc_set k2 ! d) = PROC_RUNNABLE \<and>
    (\<forall>j < 17. j \<noteq> s \<longrightarrow> j \<noteq> d \<longrightarrow> proc_set k2 ! j = proc_set k ! j)"
proof -
  have m: "length msg \<le> 1024" "syscall_of (proc_set k ! s) =
      sc\<lparr>sc_type := SYS_SEND, sc_receiver := pid (proc_set k ! d), sc_content := msg @ drop (length msg) (sc_content sc)\<rparr>"
    using snd(1) by (auto simp: sys_send_def SYSCALL_MSG_LEN_def split: if_splits)
  have "\<exists>k1 k2. proc_try_syscall egos_earth s k = Inr k1 \<and> proc_try_syscall egos_earth d k1 = Inr k2 \<and>
    egos_user_sc (machine k2) (pid (proc_set k ! d)) = (syscall_of (proc_set k ! d))\<lparr>sc_status := DONE,
      sc_sender := pid (proc_set k ! s), sc_content := sc_content (syscall_of (proc_set k ! s))\<rparr> \<and>
    (\<forall>q. egos_has (machine k) q \<longrightarrow> q \<noteq> pid (proc_set k ! d) \<longrightarrow>
       egos_user_sc (machine k2) q = egos_user_sc (machine k) q) \<and>
    (\<forall>q va. pid_ok (page_info_table (mmu (machine k))) q \<longrightarrow> vmem (mmu (machine k2)) q va =
      (if q = pid (proc_set k ! d) \<and> va = SYSCALL_ARG
       then map_option (put_syscall ((syscall_of (proc_set k ! d))\<lparr>sc_status := DONE, sc_sender := pid (proc_set k ! s),
         sc_content := sc_content (syscall_of (proc_set k ! s))\<rparr>)) (vmem (mmu (machine k)) q va)
       else vmem (mmu (machine k)) q va)) \<and>
    status (proc_set k2 ! s) = PROC_RUNNABLE \<and> status (proc_set k2 ! d) = PROC_RUNNABLE \<and>
    (\<forall>j < 17. j \<noteq> s \<longrightarrow> j \<noteq> d \<longrightarrow> proc_set k2 ! j = proc_set k ! j) \<and> egos_inv (machine k2)"
    using ok slots m snd(2) rcv unfolding egos_owns_def [symmetric]
    by (intro egos.deliver) (simp_all add: sys_recv_call_def)
  then obtain k1 k2 where k: "proc_try_syscall egos_earth s k = Inr k1" "proc_try_syscall egos_earth d k1 = Inr k2"
    "egos_user_sc (machine k2) (pid (proc_set k ! d)) = (syscall_of (proc_set k ! d))\<lparr>sc_status := DONE,
      sc_sender := pid (proc_set k ! s), sc_content := sc_content (syscall_of (proc_set k ! s))\<rparr>"
    "\<forall>q. egos_has (machine k) q \<longrightarrow> q \<noteq> pid (proc_set k ! d) \<longrightarrow>
       egos_user_sc (machine k2) q = egos_user_sc (machine k) q"
    "\<forall>q va. pid_ok (page_info_table (mmu (machine k))) q \<longrightarrow> vmem (mmu (machine k2)) q va =
      (if q = pid (proc_set k ! d) \<and> va = SYSCALL_ARG
       then map_option (put_syscall ((syscall_of (proc_set k ! d))\<lparr>sc_status := DONE, sc_sender := pid (proc_set k ! s),
         sc_content := sc_content (syscall_of (proc_set k ! s))\<rparr>)) (vmem (mmu (machine k)) q va)
       else vmem (mmu (machine k)) q va)"
    "status (proc_set k2 ! s) = PROC_RUNNABLE" "status (proc_set k2 ! d) = PROC_RUNNABLE"
    "\<forall>j < 17. j \<noteq> s \<longrightarrow> j \<noteq> d \<longrightarrow> proc_set k2 ! j = proc_set k ! j"
    by blast
  have "sys_recv_result (length msg) (egos_user_sc (machine k2) (pid (proc_set k ! d))) = Inr (msg, pid (proc_set k ! s))"
    using m by (simp add: k(3) sys_recv_result_def SYSCALL_MSG_LEN_def)
  then show ?thesis
    using k by blast
qed

theorem send_recv_roundtrip_witness:
  "\<exists>k1 k2. proc_try_syscall egos_earth 1 mail_kernel = Inr k1 \<and> proc_try_syscall egos_earth 2 k1 = Inr k2 \<and>
     sys_recv_result 5 (egos_user_sc (machine k2) 2) = Inr (replicate 5 7, 1)"
proof -
  have p: "proc_set mail_kernel ! 1 = mail_sender" "proc_set mail_kernel ! 2 = mail_receiver"
    by (simp_all add: mail_nth)
  have "pid (proc_set mail_kernel ! 2) = 2"
    by (simp add: p mail_receiver_def)
  then have h: "egos_has (machine mail_kernel) (pid (proc_set mail_kernel ! 2))"
    using mail_machine(2) by simp
  have "replicate 5 (7 :: u8) @ drop 5 (replicate 1024 7) = replicate 1024 7"
    by (simp flip: replicate_add)
  then have s: "sys_send (pid (proc_set mail_kernel ! 2)) (replicate 5 7) (null_syscall\<lparr>sc_content := replicate 1024 7\<rparr>) =
      Inr (syscall_of (proc_set mail_kernel ! 1))"
    unfolding p by (simp add: sys_send_def SYSCALL_MSG_LEN_def mail_sender_def mail_receiver_def null_syscall_def null_process_def)
  have r: "syscall_of (proc_set mail_kernel ! 2) = (sys_recv_call GPID_ALL null_syscall)\<lparr>sc_status := PENDING\<rparr>"
    unfolding p by (simp add: sys_recv_call_def mail_receiver_def null_syscall_def null_process_def)
  show ?thesis
    using send_recv_roundtrip [OF mail_kernel_ok mail_machine(1) h _ _ _ _ _ s _ r]
    unfolding p by (fastforce simp: mail_sender_def mail_receiver_def null_process_def null_syscall_def MAX_NPROCESS_eq)
qed

end
