(* ===== verification/Smart_Loader.thy ===== *)
theory Smart_Loader
  imports Elf_File
begin

text \<open>
  The lazy ELF loader of group-16-4/SimpleSmartLoader.c: a program starts with none of its pages
  mapped, and the handler of \<open>SIGSEGV\<close> maps the page of each faulting address. Words are 32 bits
  (\<open>-m32\<close>). What \<open>mmap\<close>, \<open>realloc\<close> and \<open>malloc\<close> answer is an argument.
\<close>

section \<open>State\<close>

record page_prot =
  prot_read :: bool
  prot_write :: bool
  prot_exec :: bool

record mapping =
  mp_prot :: page_prot
  mp_bytes :: "u8 list"

text \<open>
  \<open>pages\<close> are the mapped pages, by the number of the page. \<open>map_ranges\<close> is the array of the
  source, \<open>None\<close> for its null pointer.
\<close>

record loader_state =
  pages :: "u32 \<Rightarrow> mapping option"
  map_ranges :: "(u32 \<times> u32) list option"
  map_ranges_count :: nat
  no_page_faults :: u32
  no_allocations :: u32
  no_internal_fragmentation :: u32

record answers =
  mmap_ok :: bool
  realloc_ok :: bool

definition PAGE :: u32 where
  "PAGE = 4096"

definition page_start :: "u32 \<Rightarrow> u32" where
  "page_start a = a div PAGE * PAGE"

section \<open>Mapping a page\<close>

definition seg_prot :: "program_header \<Rightarrow> page_prot" where
  "seg_prot seg = \<lparr>prot_read = ph_flags seg AND PF_R \<noteq> 0, prot_write = ph_flags seg AND PF_W \<noteq> 0,
     prot_exec = ph_flags seg AND PF_X \<noteq> 0\<rparr>"

text \<open>A private file mapping: the page's bytes of the file, zeros after its end.\<close>

definition file_page :: "u8 list \<Rightarrow> u32 \<Rightarrow> u8 list" where
  "file_page file off = (let bs = read_at file (unat off) 4096 in bs @ replicate (4096 - length bs) 0)"

text \<open>\<open>memset(m + start, 0, n)\<close> on a page: a page without write permission stops the program.\<close>

definition zero_bytes :: "u32 \<Rightarrow> nat \<Rightarrow> nat \<Rightarrow> loader_state \<Rightarrow> fault + loader_state" where
  "zero_bytes base start n s = (case pages s base of
     None \<Rightarrow> Inl Undefined
   | Some mp \<Rightarrow>
       if n = 0 then Inr s
       else if \<not> prot_write (mp_prot mp) then Inl (Fatal ''SIGSEGV'')
       else Inr (s\<lparr>pages := (pages s)(base \<mapsto> mp\<lparr>mp_bytes := take start (mp_bytes mp) @ replicate n 0 @ drop (start + n) (mp_bytes mp)\<rparr>)\<rparr>))"

text \<open>
  The array of mappings grows by one. A failing \<open>realloc\<close> unmaps the page and leaves the null
  pointer in \<open>map_ranges\<close>.
\<close>

definition record_range :: "answers \<Rightarrow> u32 \<Rightarrow> loader_state \<Rightarrow> fault + (bool \<times> loader_state)" where
  "record_range ans m s =
     (if \<not> realloc_ok ans then Inr (False, s\<lparr>pages := (pages s)(m := None), map_ranges := None\<rparr>)
      else case map_ranges s of
        Some rs \<Rightarrow> Inr (True, s\<lparr>map_ranges := Some (rs @ [(m, PAGE)]), map_ranges_count := Suc (map_ranges_count s)\<rparr>)
      | None \<Rightarrow> if map_ranges_count s = 0 then Inr (True, s\<lparr>map_ranges := Some [(m, PAGE)], map_ranges_count := 1\<rparr>)
               else Inl Undefined)"

text \<open>The branch for an address inside the file part of the segment.\<close>

definition map_file_page :: "answers \<Rightarrow> u8 list \<Rightarrow> program_header \<Rightarrow> u32 \<Rightarrow> loader_state \<Rightarrow> fault + (bool \<times> loader_state)" where
  "map_file_page ans file seg base s =
     (let file_end = ph_vaddr seg + ph_filesz seg; mem_end = ph_vaddr seg + ph_memsz seg;
          file_offset = page_start (ph_offset seg) + (base - page_start (ph_vaddr seg)) in
      if \<not> mmap_ok ans then Inr (False, s)
      else
        let s1 = s\<lparr>pages := (pages s)(base \<mapsto> \<lparr>mp_prot = seg_prot seg, mp_bytes = file_page file file_offset\<rparr>)\<rparr> in
        bindr
          (if ph_filesz seg < ph_memsz seg \<and> base \<le> file_end \<and> file_end < base + PAGE
           then let bss_start = file_end - base;
                    bss_end = (if mem_end \<le> base + PAGE then mem_end - base else PAGE) in
                zero_bytes base (unat bss_start) (unat (bss_end - bss_start)) s1
           else Inr s1)
          (record_range ans base))"

text \<open>The branch for an address in the zero-filled part.\<close>

definition map_bss_page :: "answers \<Rightarrow> program_header \<Rightarrow> u32 \<Rightarrow> loader_state \<Rightarrow> fault + (bool \<times> loader_state)" where
  "map_bss_page ans seg base s =
     (if \<not> mmap_ok ans then Inr (False, s)
      else bindr (zero_bytes base 0 4096
             (s\<lparr>pages := (pages s)(base \<mapsto> \<lparr>mp_prot = seg_prot seg, mp_bytes = replicate 4096 0\<rparr>)\<rparr>))
           (record_range ans base))"

definition count_page :: "program_header \<Rightarrow> u32 \<Rightarrow> loader_state \<Rightarrow> loader_state" where
  "count_page seg base s =
     (let mem_end = ph_vaddr seg + ph_memsz seg; page_end = base + PAGE;
          used_start = (if base < ph_vaddr seg then ph_vaddr seg else base);
          used_end = (if page_end > mem_end then mem_end else page_end) in
      s\<lparr>no_allocations := no_allocations s + 1,
        no_internal_fragmentation := no_internal_fragmentation s +
          (if used_start < used_end then PAGE - (used_end - used_start) else 0)\<rparr>)"

definition loader_map_segment :: "answers \<Rightarrow> u8 list \<Rightarrow> program_header \<Rightarrow> u32 \<Rightarrow> loader_state \<Rightarrow> fault + (int \<times> loader_state)" where
  "loader_map_segment ans file seg fa s =
     (let base = page_start fa in
      bindr (if fa < ph_vaddr seg + ph_filesz seg then map_file_page ans file seg base s
             else map_bss_page ans seg base s)
        (\<lambda>(ok, s1). Inr (if ok then (0, count_page seg base s1) else (-1, s1))))"

section \<open>The fault handler\<close>

definition in_segment :: "program_header \<Rightarrow> u32 \<Rightarrow> bool" where
  "in_segment seg fa \<longleftrightarrow> ph_type seg = PT_LOAD \<and> ph_vaddr seg \<le> fa \<and> fa < ph_vaddr seg + ph_memsz seg"

fun try_load_for_fault :: "answers \<Rightarrow> u8 list \<Rightarrow> program_header list \<Rightarrow> u32 \<Rightarrow> loader_state \<Rightarrow> fault + (int \<times> loader_state)" where
  "try_load_for_fault ans file [] fa s = Inr (-1, s)"
| "try_load_for_fault ans file (seg # segs) fa s =
     (if in_segment seg fa
      then bindr (loader_map_segment ans file seg fa s) (\<lambda>(r, s1). Inr (if r = 0 then (0, s1) else (-1, s1)))
      else try_load_for_fault ans file segs fa s)"

text \<open>A fault that cannot be served restores the default action and raises the signal again.\<close>

definition segv_handler :: "answers \<Rightarrow> u8 list \<Rightarrow> program_header list \<Rightarrow> u32 \<Rightarrow> loader_state \<Rightarrow> fault + loader_state" where
  "segv_handler ans file segs fa s =
     bindr (try_load_for_fault ans file segs fa (s\<lparr>no_page_faults := no_page_faults s + 1\<rparr>))
       (\<lambda>(loaded, s1). if loaded = 0 then Inr s1 else Inl (Fatal ''SIGSEGV''))"

section \<open>Running a program\<close>

text \<open>
  A program is the sequence of its memory accesses. An access to an address that is not mapped, or
  not with the permission it needs, raises the signal and is retried after the handler: \<open>fuel\<close>
  bounds the number of attempts, and \<open>None\<close> says that it was not enough.
\<close>

datatype access = Load u32 | Store u32 u8

fun access_addr :: "access \<Rightarrow> u32" where
  "access_addr (Load a) = a"
| "access_addr (Store a v) = a"

definition do_access :: "access \<Rightarrow> loader_state \<Rightarrow> (u8 \<times> loader_state) option" where
  "do_access ac s = (case pages s (page_start (access_addr ac)) of
     None \<Rightarrow> None
   | Some mp \<Rightarrow> (case ac of
       Load a \<Rightarrow> if prot_read (mp_prot mp) then Some (mp_bytes mp ! (unat a mod 4096), s) else None
     | Store a v \<Rightarrow>
         if prot_write (mp_prot mp)
         then Some (v, s\<lparr>pages := (pages s)(page_start a \<mapsto> mp\<lparr>mp_bytes := (mp_bytes mp)[unat a mod 4096 := v]\<rparr>)\<rparr>)
         else None))"

fun run_access :: "nat \<Rightarrow> answers \<Rightarrow> u8 list \<Rightarrow> program_header list \<Rightarrow> access \<Rightarrow> loader_state \<Rightarrow> (fault + (u8 \<times> loader_state)) option" where
  "run_access 0 ans file segs ac s = None"
| "run_access (Suc fuel) ans file segs ac s = (case do_access ac s of
     Some r \<Rightarrow> Some (Inr r)
   | None \<Rightarrow> (case segv_handler ans file segs (access_addr ac) s of
       Inl e \<Rightarrow> Some (Inl e)
     | Inr s1 \<Rightarrow> run_access fuel ans file segs ac s1))"

text \<open>The run of a program, with the bytes its accesses read or write.\<close>

fun run_program :: "nat \<Rightarrow> answers \<Rightarrow> u8 list \<Rightarrow> program_header list \<Rightarrow> access list \<Rightarrow> loader_state \<Rightarrow> (fault + (u8 list \<times> loader_state)) option" where
  "run_program fuel ans file segs [] s = Some (Inr ([], s))"
| "run_program fuel ans file segs (ac # acs) s = (case run_access fuel ans file segs ac s of
     None \<Rightarrow> None
   | Some (Inl e) \<Rightarrow> Some (Inl e)
   | Some (Inr (v, s1)) \<Rightarrow> (case run_program fuel ans file segs acs s1 of
       Some (Inr (vs, s2)) \<Rightarrow> Some (Inr (v # vs, s2)) | r \<Rightarrow> r))"

section \<open>The whole loader\<close>

definition loader_cleanup :: "loader_state \<Rightarrow> loader_state" where
  "loader_cleanup s = (case map_ranges s of
     None \<Rightarrow> s
   | Some rs \<Rightarrow> s\<lparr>pages := fold (\<lambda>(a, n) pgs. if a \<noteq> 0 \<and> n \<noteq> 0 then pgs(a := None) else pgs)
         (take (map_ranges_count s) rs) (pages s),
       map_ranges := None, map_ranges_count := 0\<rparr>)"

definition elf_magic :: "u8 list" where
  "elf_magic = [0x7F, 0x45, 0x4C, 0x46]"

text \<open>
  The checks of \<open>load_and_run_elf\<close>: \<open>file\<close> is \<open>None\<close> when it cannot be opened. The handler is
  installed before them.
\<close>

definition read_headers :: "bool \<Rightarrow> bool \<Rightarrow> u8 list option \<Rightarrow> fault + (elf_header \<times> program_header list)" where
  "read_headers malloc1_ok malloc2_ok file = (case file of
     None \<Rightarrow> Inl (Fatal ''wrong file path'')
   | Some bs \<Rightarrow>
       if \<not> malloc1_ok then Inl (Fatal ''wrong malloc ehdr'')
       else if length (read_at bs 0 EHDR_SIZE) \<noteq> EHDR_SIZE then Inl (Fatal ''wrong read ehdr'')
       else let h = decode_ehdr bs; n = unat (eh_phnum h) in
         if take 4 (eh_ident h) \<noteq> elf_magic then Inl (Fatal ''not an ELF file'')
         else if \<not> malloc2_ok then Inl (Fatal ''wrong malloc phdr'')
         else if sint (eh_phoff h) < 0 then Inl (Fatal ''wrong lseek phdr'')
         else let raw = read_at bs (unat (eh_phoff h)) (n * PHDR_SIZE) in
           if length raw \<noteq> n * PHDR_SIZE then Inl (Fatal ''wrong read phdr'')
           else Inr (h, decode_phdrs n raw))"

definition start_state :: loader_state where
  "start_state = \<lparr>pages = (\<lambda>_. None), map_ranges = None, map_ranges_count = 0, no_page_faults = 0,
     no_allocations = 0, no_internal_fragmentation = 0\<rparr>"

text \<open>
  \<open>prog\<close> gives the accesses of the program at an entry point and the value it returns; the result is
  this value, the counters that are printed, and the state after the cleanup.
\<close>

definition load_and_run_elf ::
  "nat \<Rightarrow> answers \<Rightarrow> (u32 \<Rightarrow> access list \<times> u32) \<Rightarrow> u8 list option \<Rightarrow> (fault + ((u32 \<times> u32 \<times> u32 \<times> u32) \<times> loader_state)) option" where
  "load_and_run_elf fuel ans prog file = (case read_headers True True file of
     Inl e \<Rightarrow> Some (Inl e)
   | Inr (h, segs) \<Rightarrow>
       let (acs, result) = prog (eh_entry h) in
       (case run_program fuel ans (the file) segs acs start_state of
         None \<Rightarrow> None
       | Some (Inl e) \<Rightarrow> Some (Inl e)
       | Some (Inr (vs, s)) \<Rightarrow> Some (Inr ((result, no_page_faults s, no_allocations s, no_internal_fragmentation s),
           loader_cleanup s))))"

text \<open>\<open>main\<close>: it cleans up once more. \<open>files\<close> are the contents of the files that can be opened.\<close>

definition smart_main ::
  "nat \<Rightarrow> answers \<Rightarrow> (u32 \<Rightarrow> access list \<times> u32) \<Rightarrow> (string \<Rightarrow> u8 list option) \<Rightarrow> string list \<Rightarrow>
    (fault + (int \<times> ((u32 \<times> u32 \<times> u32 \<times> u32) \<times> loader_state) option)) option" where
  "smart_main fuel ans prog files argv =
     (if length argv \<noteq> 2 then Some (Inr (1, None))
      else case load_and_run_elf fuel ans prog (files (argv ! 1)) of
        None \<Rightarrow> None
      | Some (Inl e) \<Rightarrow> Some (Inl e)
      | Some (Inr (out, s)) \<Rightarrow> Some (Inr (0, Some (out, loader_cleanup s))))"

lemma cleanup_twice: "loader_cleanup (loader_cleanup s) = loader_cleanup s"
  by (cases "map_ranges s") (simp_all add: loader_cleanup_def)

end
