(* ===== verification/Smart_Props.thy ===== *)
theory Smart_Props
  imports Smart_Loader
begin

text \<open>
  Correctness of the lazy loader: the page a fault maps holds the bytes of the program's image, and a
  program that runs on demand-loaded pages reads what it would read from a fully loaded image.
\<close>

section \<open>The image of a program\<close>

definition seg_byte :: "u8 list \<Rightarrow> program_header \<Rightarrow> u32 \<Rightarrow> u8" where
  "seg_byte file seg a =
     (if a < ph_vaddr seg + ph_filesz seg then file ! unat (ph_offset seg + (a - ph_vaddr seg)) else 0)"

definition image :: "u8 list \<Rightarrow> program_header list \<Rightarrow> u32 \<Rightarrow> u8" where
  "image file segs a = (case find (\<lambda>seg. in_segment seg a) segs of Some seg \<Rightarrow> seg_byte file seg a | None \<Rightarrow> 0)"

text \<open>A segment as linkers write them.\<close>

definition good_segment :: "u8 list \<Rightarrow> program_header \<Rightarrow> bool" where
  "good_segment file seg \<longleftrightarrow> unat (ph_offset seg) mod 4096 = unat (ph_vaddr seg) mod 4096 \<and>
     unat (ph_offset seg) + unat (ph_filesz seg) \<le> length file \<and> length file < 2 ^ 31 \<and>
     ph_filesz seg \<le> ph_memsz seg \<and> unat (ph_vaddr seg) + unat (ph_memsz seg) \<le> 2 ^ 32 - 4096 \<and>
     (ph_filesz seg < ph_memsz seg \<longrightarrow> prot_write (seg_prot seg)) \<and> prot_read (seg_prot seg)"

definition byte_at :: "loader_state \<Rightarrow> u32 \<Rightarrow> u8 option" where
  "byte_at s a = map_option (\<lambda>mp. mp_bytes mp ! (unat a mod 4096)) (pages s (page_start a))"

definition ranges_ok :: "loader_state \<Rightarrow> bool" where
  "ranges_ok s \<longleftrightarrow> (map_ranges s = None \<longrightarrow> map_ranges_count s = 0)"

text \<open>The system calls succeed.\<close>

definition all_ok :: answers where
  "all_ok = \<lparr>mmap_ok = True, realloc_ok = True\<rparr>"

section \<open>Page arithmetic\<close>

lemma page_start_unat: "unat (page_start a) = unat a div 4096 * 4096"
proof -
  have "unat (a div PAGE) = unat a div 4096"
    by (simp add: PAGE_def unat_div_distrib)
  moreover have "unat a < 2 ^ 32"
    using unsigned_less [of a] by simp
  then have "unat a div 4096 * 4096 < 2 ^ 32"
    by (intro le_less_trans [OF div_times_less_eq_dividend])
  ultimately show ?thesis
    by (simp add: page_start_def PAGE_def unat_word_ariths)
qed

lemma page_start_eq_iff: "page_start a = page_start b \<longleftrightarrow> unat a div 4096 = unat b div 4096"
  by (simp add: word_unat_eq_iff page_start_unat)

lemma page_start_idem: "page_start (page_start a) = page_start a"
  by (simp add: page_start_eq_iff page_start_unat)

lemma less_mod_aux: "(x :: nat) mod 4096 < 4096"
  by simp

lemma unat_minus_le: "unat y \<le> unat x \<Longrightarrow> unat (x - y :: u32) = unat x - unat y"
  by (simp add: unat_sub_if' word_le_nat_alt)

lemma page_split: "unat a = unat (page_start a) + unat a mod 4096"
  by (simp add: page_start_unat div_mult_mod_eq)

lemma good_ends:
  assumes "good_segment file seg"
  shows "unat (ph_vaddr seg + ph_filesz seg) = unat (ph_vaddr seg) + unat (ph_filesz seg)"
    "unat (ph_vaddr seg + ph_memsz seg) = unat (ph_vaddr seg) + unat (ph_memsz seg)"
    "unat (ph_filesz seg) \<le> unat (ph_memsz seg)"
proof -
  have s: "unat (ph_vaddr seg) + unat (ph_memsz seg) \<le> 2 ^ 32 - 4096" "unat (ph_filesz seg) \<le> unat (ph_memsz seg)"
    using assms by (simp_all add: good_segment_def word_le_nat_alt)
  then show "unat (ph_vaddr seg + ph_filesz seg) = unat (ph_vaddr seg) + unat (ph_filesz seg)"
    "unat (ph_vaddr seg + ph_memsz seg) = unat (ph_vaddr seg) + unat (ph_memsz seg)"
    "unat (ph_filesz seg) \<le> unat (ph_memsz seg)"
    by (simp_all add: unat_word_ariths)
qed

lemma page_end_unat:
  assumes "good_segment file seg" "in_segment seg fa"
  shows "unat (page_start fa + PAGE) = unat (page_start fa) + 4096"
proof -
  have "unat fa < 2 ^ 32 - 4096"
    using assms good_ends(2) [OF assms(1)] by (simp add: in_segment_def good_segment_def word_less_nat_alt)
  moreover have "unat (page_start fa) \<le> unat fa"
    unfolding page_start_unat by simp
  ultimately show ?thesis
    by (simp add: PAGE_def unat_word_ariths)
qed

lemma file_page_nth:
  "unat fo + i < length file \<Longrightarrow> i < 4096 \<Longrightarrow> file_page file fo ! i = file ! (unat fo + i)"
  by (auto simp: file_page_def Let_def read_at_def nth_append)

lemma sum_aux:
  assumes "off = q * 4096 + (r :: nat)" "va = v * 4096 + r" "a = (v + d) * 4096 + i" "va \<le> a"
  shows "q * 4096 + (v + d - v) * 4096 + i = off + (a - va)"
  using assms by simp

text \<open>The offset of the page in the file, and the image byte of an address in it.\<close>

lemma file_offset:
  assumes g: "good_segment file seg" and fa: "in_segment seg fa"
    and a: "page_start a = page_start fa" "ph_vaddr seg \<le> a" "a < ph_vaddr seg + ph_filesz seg"
  shows "file_page file (page_start (ph_offset seg) + (page_start fa - page_start (ph_vaddr seg))) ! (unat a mod 4096) =
    seg_byte file seg a"
proof -
  let ?off = "unat (ph_offset seg)" and ?va = "unat (ph_vaddr seg)" and ?fo = "page_start (ph_offset seg) + (page_start fa - page_start (ph_vaddr seg))"
  note e = good_ends [OF g]
  have va: "?va \<le> unat a" "unat a < ?va + unat (ph_filesz seg)"
    using a(2,3) e(1) by (simp_all add: word_le_nat_alt word_less_nat_alt)
  have pages: "?va div 4096 \<le> unat a div 4096"
    using va(1) by (rule div_le_mono)
  have fa4: "unat fa div 4096 = unat a div 4096"
    using a(1) page_start_eq_iff by metis
  have c: "?off mod 4096 = ?va mod 4096" "?off + unat (ph_filesz seg) \<le> length file" "length file < 2 ^ 31"
    using g by (simp_all add: good_segment_def)
  have d: "unat (page_start fa - page_start (ph_vaddr seg)) = (unat a div 4096 - ?va div 4096) * 4096"
    using pages by (simp add: unat_sub_if' page_start_unat fa4 word_le_nat_alt diff_mult_distrib)
  have sum: "?off div 4096 * 4096 + (unat a div 4096 - ?va div 4096) * 4096 + unat a mod 4096 = ?off + (unat a - ?va)"
  proof -
    obtain d where d: "unat a div 4096 = ?va div 4096 + d"
      using pages le_Suc_ex by blast
    have "?off = ?off div 4096 * 4096 + ?va mod 4096"
      unfolding c(1) [symmetric] by simp
    moreover have "?va = ?va div 4096 * 4096 + ?va mod 4096" "unat a = (?va div 4096 + d) * 4096 + unat a mod 4096"
      unfolding d [symmetric] by simp_all
    ultimately have "?off = ?off div 4096 * 4096 + ?va mod 4096" "?va = ?va div 4096 * 4096 + ?va mod 4096"
      "unat a = (?va div 4096 + d) * 4096 + unat a mod 4096"
      by blast+
    from sum_aux [OF this va(1)] show ?thesis
      unfolding d .
  qed
  have lt: "?off + (unat a - ?va) < length file"
    using va c(2) by linarith
  have fo: "unat ?fo = ?off div 4096 * 4096 + (unat a div 4096 - ?va div 4096) * 4096"
    unfolding unat_word_ariths d page_start_unat using sum lt c(3) by simp
  have "unat (ph_offset seg + (a - ph_vaddr seg)) = ?off + (unat a - ?va)"
    using lt c(3) a(2) by (simp add: unat_word_ariths unat_sub_if' word_le_nat_alt)
  moreover have fi: "unat ?fo + unat a mod 4096 = ?off + (unat a - ?va)"
    unfolding fo using sum .
  ultimately show ?thesis
    using file_page_nth [of ?fo "unat a mod 4096"] a(3) lt unfolding fi by (simp add: seg_byte_def)
qed

lemma length_file_page [simp]: "length (file_page file off) = 4096"
  by (simp add: file_page_def Let_def length_read_at)

section \<open>One fault\<close>

lemma record_range_ok:
  assumes "ranges_ok s"
  shows "\<exists>s'. record_range all_ok m s = Inr (True, s') \<and> pages s' = pages s \<and> ranges_ok s' \<and>
    no_allocations s' = no_allocations s \<and> no_page_faults s' = no_page_faults s \<and>
    no_internal_fragmentation s' = no_internal_fragmentation s"
  using assms by (auto simp: record_range_def all_ok_def ranges_ok_def split: option.split)

text \<open>The contents of the page a fault maps.\<close>

definition page_image :: "u8 list \<Rightarrow> program_header \<Rightarrow> u32 \<Rightarrow> u8 list \<Rightarrow> bool" where
  "page_image file seg base bs \<longleftrightarrow> length bs = 4096 \<and>
     (\<forall>a. page_start a = base \<longrightarrow> ph_vaddr seg \<le> a \<longrightarrow> a < ph_vaddr seg + ph_memsz seg \<longrightarrow>
        bs ! (unat a mod 4096) = seg_byte file seg a)"

lemma zero_bytes_eq:
  assumes "pages s base = Some mp" "prot_write (mp_prot mp) \<or> n = 0"
  shows "\<exists>s'. zero_bytes base start n s = Inr s' \<and>
    s' = s\<lparr>pages := (pages s)(base \<mapsto> mp\<lparr>mp_bytes := if n = 0 then mp_bytes mp
      else take start (mp_bytes mp) @ replicate n 0 @ drop (start + n) (mp_bytes mp)\<rparr>)\<rparr>"
  using assms by (cases "n = 0") (auto simp: zero_bytes_def fun_upd_idem)

lemma map_file_page_ok:
  assumes g: "good_segment file seg" and fa: "in_segment seg fa" "fa < ph_vaddr seg + ph_filesz seg"
    and r: "ranges_ok s"
  shows "\<exists>s' bs. map_file_page all_ok file seg (page_start fa) s = Inr (True, s') \<and>
    pages s' = (pages s)(page_start fa \<mapsto> \<lparr>mp_prot = seg_prot seg, mp_bytes = bs\<rparr>) \<and>
    page_image file seg (page_start fa) bs \<and> ranges_ok s' \<and> no_allocations s' = no_allocations s \<and>
    no_page_faults s' = no_page_faults s \<and> no_internal_fragmentation s' = no_internal_fragmentation s"
proof -
  let ?B = "page_start fa" and ?fe = "ph_vaddr seg + ph_filesz seg" and ?me = "ph_vaddr seg + ph_memsz seg"
  let ?fo = "page_start (ph_offset seg) + (?B - page_start (ph_vaddr seg))"
  let ?fp = "file_page file ?fo"
  let ?s1 = "s\<lparr>pages := (pages s)(?B \<mapsto> \<lparr>mp_prot = seg_prot seg, mp_bytes = ?fp\<rparr>)\<rparr>"
  let ?c = "ph_filesz seg < ph_memsz seg \<and> ?B \<le> ?fe \<and> ?fe < ?B + PAGE"
  let ?st = "unat (?fe - ?B)" and ?n = "unat ((if ?me \<le> ?B + PAGE then ?me - ?B else PAGE) - (?fe - ?B))"
  note e = good_ends [OF g] and pe = page_end_unat [OF g fa(1)]
  have B: "unat ?B \<le> unat fa" "unat fa < unat ?B + 4096"
    unfolding page_start_unat using page_split [of fa] by (simp, metis add_less_cancel_left div_mult_mod_eq mod_less_divisor zero_less_numeral)
  have fe: "unat fa < unat ?fe"
    using fa(2) by (simp add: word_less_nat_alt)
  have st: "?st = unat ?fe - unat ?B"
    using B fe by (simp add: unat_sub_if' word_le_nat_alt)
  define n where "n = (if unat ?me \<le> unat ?B + 4096 then unat ?me else unat ?B + 4096) - unat ?fe"
  have n: "?n = n" if ?c
  proof -
    have lt: "unat ?fe < unat ?B + 4096" "unat ?fe \<le> unat ?me" "unat ?B \<le> unat ?me"
      using that pe e B fe by (simp_all add: word_less_nat_alt word_le_nat_alt)
    have bfe: "unat ?B \<le> unat ?fe"
      using B fe by linarith
    have me: "unat (?me - ?B) = unat ?me - unat ?B"
      using lt by (intro unat_minus_le) simp
    have le: "?me \<le> ?B + PAGE \<longleftrightarrow> unat ?me \<le> unat ?B + 4096"
      using pe by (simp add: word_le_nat_alt)
    show ?thesis
    proof (cases "unat ?me \<le> unat ?B + 4096")
      case True
      have "unat (?me - ?B - (?fe - ?B)) = unat (?me - ?B) - ?st"
        using me st lt(2) by (intro unat_minus_le) linarith
      then show ?thesis
        using True le me st bfe lt by (simp add: n_def)
    next
      case False
      have "unat (PAGE - (?fe - ?B)) = unat PAGE - ?st"
        using st lt(1) bfe by (intro unat_minus_le) (simp add: PAGE_def)
      then show ?thesis
        using False le st bfe lt by (simp add: n_def PAGE_def)
    qed
  qed
  define bs where "bs = (if ?c \<and> n \<noteq> 0 then take ?st ?fp @ replicate n 0 @ drop (?st + n) ?fp else ?fp)"
  have w: "prot_write (seg_prot seg)" if ?c
    using that g by (simp add: good_segment_def)
  have z: "(if ?c then zero_bytes ?B ?st ?n ?s1 else Inr ?s1) =
      Inr (s\<lparr>pages := (pages s)(?B \<mapsto> \<lparr>mp_prot = seg_prot seg, mp_bytes = bs\<rparr>)\<rparr>)"
  proof (cases ?c)
    case True
    then show ?thesis
      using zero_bytes_eq [of ?s1 ?B "\<lparr>mp_prot = seg_prot seg, mp_bytes = ?fp\<rparr>" ?n ?st] w n by (auto simp: bs_def)
  next
    case False
    then show ?thesis
      by (simp only: bs_def if_False simp_thms)
  qed
  let ?s2 = "s\<lparr>pages := (pages s)(?B \<mapsto> \<lparr>mp_prot = seg_prot seg, mp_bytes = bs\<rparr>)\<rparr>"
  have "ranges_ok ?s2"
    using r by (simp add: ranges_ok_def)
  then obtain s' where s': "record_range all_ok ?B ?s2 = Inr (True, s')" "pages s' = pages ?s2" "ranges_ok s'"
    "no_allocations s' = no_allocations s" "no_page_faults s' = no_page_faults s"
    "no_internal_fragmentation s' = no_internal_fragmentation s"
    using record_range_ok [of ?s2 ?B] by auto
  have run: "map_file_page all_ok file seg ?B s = Inr (True, s')"
  proof -
    have "mmap_ok all_ok"
      by (simp add: all_ok_def)
    then show ?thesis
      using s'(1) unfolding map_file_page_def Let_def z by simp
  qed
  have "page_image file seg ?B bs"
    unfolding page_image_def
  proof (intro conjI allI impI)
    have "?st + n \<le> 4096" if ?c
    proof -
      have "unat ?fe < unat ?B + 4096" "unat ?B \<le> unat ?fe"
        using that pe B fe by (simp_all add: word_less_nat_alt)
      moreover have "n \<le> unat ?B + 4096 - unat ?fe"
        by (simp add: n_def diff_le_mono)
      ultimately show ?thesis
        using st by linarith
    qed
    then show "length bs = 4096"
      by (auto simp: bs_def)
    fix a assume a: "page_start a = ?B" "ph_vaddr seg \<le> a" "a < ?me"
    have ai: "unat a mod 4096 = unat a - unat ?B" "unat ?B \<le> unat a" "unat a < unat ?B + 4096"
      using page_split [of a] unfolding a(1) by (simp_all add: less_mod_aux)
    show "bs ! (unat a mod 4096) = seg_byte file seg a"
    proof (cases "a < ?fe")
      case True
      have "bs ! (unat a mod 4096) = ?fp ! (unat a mod 4096)"
        using True ai st unfolding bs_def by (auto simp: nth_append word_less_nat_alt)
      then show ?thesis
        using file_offset [OF g fa(1) a(1,2) True] by simp
    next
      case False
      then have ge: "unat ?fe \<le> unat a" "unat a < unat ?me"
        using a(3) by (simp_all add: word_less_nat_alt)
      then have c: ?c
        using e pe B fe ai by (simp add: word_less_nat_alt word_le_nat_alt)
      have "n \<noteq> 0" "?st \<le> unat a mod 4096" "unat a mod 4096 < ?st + n"
        using ge ai st fe B unfolding n_def by auto
      moreover have "?st \<le> 4096"
        using st c pe by (simp add: word_less_nat_alt) linarith
      moreover have "unat a mod 4096 - ?st < n"
        using calculation(1-3) by linarith
      ultimately show ?thesis
        using c False unfolding bs_def by (simp add: nth_append seg_byte_def)
    qed
  qed
  then show ?thesis
    using run s' by (intro exI [of _ s'] exI [of _ bs]) simp
qed

lemma map_bss_page_ok:
  assumes w: "prot_write (seg_prot seg)" and r: "ranges_ok s"
  shows "\<exists>s'. map_bss_page all_ok seg base s = Inr (True, s') \<and>
    pages s' = (pages s)(base \<mapsto> \<lparr>mp_prot = seg_prot seg, mp_bytes = replicate 4096 0\<rparr>) \<and> ranges_ok s' \<and>
    no_allocations s' = no_allocations s \<and> no_page_faults s' = no_page_faults s \<and>
    no_internal_fragmentation s' = no_internal_fragmentation s"
proof -
  let ?s1 = "s\<lparr>pages := (pages s)(base \<mapsto> \<lparr>mp_prot = seg_prot seg, mp_bytes = replicate 4096 0\<rparr>)\<rparr>"
  have z: "zero_bytes base 0 4096 ?s1 = Inr ?s1"
    using w by (simp add: zero_bytes_def)
  have "ranges_ok ?s1"
    using r by (simp add: ranges_ok_def)
  then obtain s' where s': "record_range all_ok base ?s1 = Inr (True, s')" "pages s' = pages ?s1" "ranges_ok s'"
    "no_allocations s' = no_allocations s" "no_page_faults s' = no_page_faults s"
    "no_internal_fragmentation s' = no_internal_fragmentation s"
    using record_range_ok [of ?s1 base] by auto
  have "mmap_ok all_ok"
    by (simp add: all_ok_def)
  then have "map_bss_page all_ok seg base s = Inr (True, s')"
    using s'(1) unfolding map_bss_page_def z by simp
  then show ?thesis
    using s' by (intro exI [of _ s']) simp
qed

lemma page_image_zero:
  "ph_vaddr seg + ph_filesz seg \<le> page_start fa \<Longrightarrow> page_image file seg (page_start fa) (replicate 4096 0)"
proof -
  assume "ph_vaddr seg + ph_filesz seg \<le> page_start fa"
  then have "\<not> a < ph_vaddr seg + ph_filesz seg" if "page_start a = page_start fa" for a
    using page_split [of a] that by (simp add: word_le_nat_alt word_less_nat_alt)
  then show ?thesis
    by (simp add: page_image_def seg_byte_def)
qed

text \<open>A fault whose page does not mix file bytes with an access to zeros.\<close>

definition clean_fault :: "program_header \<Rightarrow> u32 \<Rightarrow> bool" where
  "clean_fault seg fa \<longleftrightarrow> fa < ph_vaddr seg + ph_filesz seg \<or> ph_vaddr seg + ph_filesz seg \<le> page_start fa"

lemma bss_writable:
  assumes "good_segment file seg" "in_segment seg fa" "\<not> fa < ph_vaddr seg + ph_filesz seg"
  shows "prot_write (seg_prot seg)"
proof -
  have "ph_filesz seg \<noteq> ph_memsz seg"
    using assms(2,3) by (auto simp: in_segment_def)
  moreover have "ph_filesz seg \<le> ph_memsz seg"
    using assms(1) by (simp add: good_segment_def)
  ultimately have "ph_filesz seg < ph_memsz seg"
    by (rule le_neq_trans [rotated 1])
  then show ?thesis
    using assms(1) by (simp add: good_segment_def)
qed

lemma map_segment_ok:
  assumes g: "good_segment file seg" and fa: "in_segment seg fa" "clean_fault seg fa" and r: "ranges_ok s"
  shows "\<exists>s' bs. loader_map_segment all_ok file seg fa s = Inr (0, s') \<and>
    pages s' = (pages s)(page_start fa \<mapsto> \<lparr>mp_prot = seg_prot seg, mp_bytes = bs\<rparr>) \<and>
    page_image file seg (page_start fa) bs \<and> ranges_ok s' \<and> no_allocations s' = no_allocations s + 1 \<and>
    no_page_faults s' = no_page_faults s"
proof -
  have "\<exists>s' bs. (if fa < ph_vaddr seg + ph_filesz seg then map_file_page all_ok file seg (page_start fa) s
        else map_bss_page all_ok seg (page_start fa) s) = Inr (True, s') \<and>
      pages s' = (pages s)(page_start fa \<mapsto> \<lparr>mp_prot = seg_prot seg, mp_bytes = bs\<rparr>) \<and>
      page_image file seg (page_start fa) bs \<and> ranges_ok s' \<and> no_allocations s' = no_allocations s \<and>
      no_page_faults s' = no_page_faults s"
  proof (cases "fa < ph_vaddr seg + ph_filesz seg")
    case True
    then show ?thesis
      using map_file_page_ok [OF g fa(1) True r] by auto
  next
    case False
    then have "ph_vaddr seg + ph_filesz seg \<le> page_start fa"
      using fa(2) by (simp add: clean_fault_def)
    then show ?thesis
      using map_bss_page_ok [OF bss_writable [OF g fa(1) False] r, of "page_start fa"] page_image_zero False by fastforce
  qed
  then obtain s' bs where s': "(if fa < ph_vaddr seg + ph_filesz seg then map_file_page all_ok file seg (page_start fa) s
        else map_bss_page all_ok seg (page_start fa) s) = Inr (True, s')"
      "pages s' = (pages s)(page_start fa \<mapsto> \<lparr>mp_prot = seg_prot seg, mp_bytes = bs\<rparr>)"
      "page_image file seg (page_start fa) bs" "ranges_ok s'" "no_allocations s' = no_allocations s"
      "no_page_faults s' = no_page_faults s"
    by blast
  have "loader_map_segment all_ok file seg fa s = Inr (0, count_page seg (page_start fa) s')"
    unfolding loader_map_segment_def Let_def s'(1) by simp
  moreover have "pages (count_page seg (page_start fa) s') = pages s'" "ranges_ok (count_page seg (page_start fa) s')"
    "no_allocations (count_page seg (page_start fa) s') = no_allocations s' + 1"
    "no_page_faults (count_page seg (page_start fa) s') = no_page_faults s'"
    using s'(4) by (simp_all add: count_page_def Let_def ranges_ok_def)
  ultimately show ?thesis
    using s' by (intro exI [of _ "count_page seg (page_start fa) s'"] exI [of _ bs]) simp
qed

lemma try_load_find:
  "find (\<lambda>seg. in_segment seg fa) segs = Some seg \<Longrightarrow>
   try_load_for_fault ans file segs fa s =
     bindr (loader_map_segment ans file seg fa s) (\<lambda>(r, s1). Inr (if r = 0 then (0, s1) else (-1, s1)))"
  by (induction segs) (auto split: if_splits)

lemma handler_ok:
  assumes "find (\<lambda>seg. in_segment seg fa) segs = Some seg" "good_segment file seg" "clean_fault seg fa" "ranges_ok s"
  shows "\<exists>s' bs. segv_handler all_ok file segs fa s = Inr s' \<and>
    pages s' = (pages s)(page_start fa \<mapsto> \<lparr>mp_prot = seg_prot seg, mp_bytes = bs\<rparr>) \<and>
    page_image file seg (page_start fa) bs \<and> ranges_ok s' \<and> no_allocations s' = no_allocations s + 1 \<and>
    no_page_faults s' = no_page_faults s + 1"
proof -
  let ?s = "s\<lparr>no_page_faults := no_page_faults s + 1\<rparr>"
  have i: "in_segment seg fa"
    using assms(1) by (auto simp: find_Some_iff)
  have "ranges_ok ?s"
    using assms(4) by (simp add: ranges_ok_def)
  from map_segment_ok [OF assms(2) i assms(3) this] obtain s' bs where s':
    "loader_map_segment all_ok file seg fa ?s = Inr (0, s')"
    "pages s' = (pages s)(page_start fa \<mapsto> \<lparr>mp_prot = seg_prot seg, mp_bytes = bs\<rparr>)"
    "page_image file seg (page_start fa) bs" "ranges_ok s'" "no_allocations s' = no_allocations s + 1"
    "no_page_faults s' = no_page_faults s + 1"
    by auto
  then show ?thesis
    by (intro exI [of _ s'] exI [of _ bs]) (simp add: segv_handler_def try_load_find [OF assms(1)])
qed

section \<open>Programs\<close>

text \<open>What a fully loaded image gives: the bytes of the accesses and the final memory.\<close>

fun eager_run :: "(u32 \<Rightarrow> u8) \<Rightarrow> access list \<Rightarrow> u8 list" where
  "eager_run m [] = []"
| "eager_run m (Load a # acs) = m a # eager_run m acs"
| "eager_run m (Store a v # acs) = v # eager_run (m(a := v)) acs"

text \<open>Segments that are well formed and share no page.\<close>

definition good_image :: "u8 list \<Rightarrow> program_header list \<Rightarrow> bool" where
  "good_image file segs \<longleftrightarrow> (\<forall>seg \<in> set segs. ph_type seg = PT_LOAD \<longrightarrow> good_segment file seg) \<and>
     (\<forall>seg \<in> set segs. \<forall>seg' \<in> set segs. \<forall>a b. in_segment seg a \<longrightarrow> in_segment seg' b \<longrightarrow>
        page_start a = page_start b \<longrightarrow> seg = seg')"

text \<open>
  A program that stays inside its segments, writes only where it may, and touches the file part of
  a page that has one before the zeros after it; \<open>P\<close> are the pages touched so far.
\<close>

fun ok_accesses :: "program_header list \<Rightarrow> u32 set \<Rightarrow> access list \<Rightarrow> bool" where
  "ok_accesses segs P [] \<longleftrightarrow> True"
| "ok_accesses segs P (ac # acs) \<longleftrightarrow>
     (case find (\<lambda>seg. in_segment seg (access_addr ac)) segs of
        None \<Rightarrow> False
      | Some seg \<Rightarrow> (case ac of Load a \<Rightarrow> True | Store a v \<Rightarrow> prot_write (seg_prot seg)) \<and>
          (page_start (access_addr ac) \<in> P \<or> clean_fault seg (access_addr ac))) \<and>
     ok_accesses segs (insert (page_start (access_addr ac)) P) acs"

definition lazy_inv :: "u8 list \<Rightarrow> program_header list \<Rightarrow> (u32 \<Rightarrow> u8) \<Rightarrow> u32 set \<Rightarrow> loader_state \<Rightarrow> bool" where
  "lazy_inv file segs m P s \<longleftrightarrow> finite P \<and> ranges_ok s \<and> no_page_faults s = of_nat (card P) \<and>
     no_allocations s = of_nat (card P) \<and> (\<forall>p. p \<notin> P \<longrightarrow> pages s p = None) \<and>
     (\<forall>p \<in> P. \<exists>seg a mp. seg \<in> set segs \<and> in_segment seg a \<and> page_start a = p \<and> pages s p = Some mp \<and>
        mp_prot mp = seg_prot seg \<and> length (mp_bytes mp) = 4096) \<and>
     (\<forall>a seg mp. seg \<in> set segs \<longrightarrow> in_segment seg a \<longrightarrow> pages s (page_start a) = Some mp \<longrightarrow>
        mp_bytes mp ! (unat a mod 4096) = m a) \<and>
     (\<forall>a. page_start a \<notin> P \<longrightarrow> m a = image file segs a)"

lemma find_good:
  assumes "good_image file segs" "find (\<lambda>seg. in_segment seg a) segs = Some seg"
  shows "seg \<in> set segs" "in_segment seg a" "good_segment file seg" "image file segs a = seg_byte file seg a"
proof -
  show "seg \<in> set segs" "in_segment seg a"
    using assms(2) by (auto simp: find_Some_iff)
  then show "good_segment file seg"
    using assms(1) by (simp add: good_image_def in_segment_def)
  show "image file segs a = seg_byte file seg a"
    using assms(2) by (simp add: image_def)
qed

lemma find_unique:
  assumes "good_image file segs" "seg \<in> set segs" "in_segment seg a"
  shows "find (\<lambda>seg. in_segment seg a) segs = Some seg"
proof -
  obtain seg' where f: "find (\<lambda>seg. in_segment seg a) segs = Some seg'"
    using assms(2,3) by (cases "find (\<lambda>seg. in_segment seg a) segs") (auto simp: find_None_iff)
  then have "seg' = seg"
    using find_good(1,2) [OF assms(1) f] assms by (auto simp: good_image_def)
  with f show ?thesis
    by simp
qed

lemma lazy_fault:
  assumes inv: "lazy_inv file segs m P s" and g: "good_image file segs"
    and f: "find (\<lambda>seg. in_segment seg fa) segs = Some seg" and c: "clean_fault seg fa" and n: "page_start fa \<notin> P"
  shows "\<exists>s'. segv_handler all_ok file segs fa s = Inr s' \<and> lazy_inv file segs m (insert (page_start fa) P) s'"
proof -
  note fg = find_good [OF g f]
  have I: "finite P" "ranges_ok s" "no_page_faults s = of_nat (card P)" "no_allocations s = of_nat (card P)"
    "\<And>p. p \<notin> P \<Longrightarrow> pages s p = None"
    "\<And>p. p \<in> P \<Longrightarrow> \<exists>seg a mp. seg \<in> set segs \<and> in_segment seg a \<and> page_start a = p \<and> pages s p = Some mp \<and>
        mp_prot mp = seg_prot seg \<and> length (mp_bytes mp) = 4096"
    "\<And>a seg mp. seg \<in> set segs \<Longrightarrow> in_segment seg a \<Longrightarrow> pages s (page_start a) = Some mp \<Longrightarrow>
        mp_bytes mp ! (unat a mod 4096) = m a"
    "\<And>a. page_start a \<notin> P \<Longrightarrow> m a = image file segs a"
    using inv unfolding lazy_inv_def by blast+
  obtain s' bs where s': "segv_handler all_ok file segs fa s = Inr s'"
    "pages s' = (pages s)(page_start fa \<mapsto> \<lparr>mp_prot = seg_prot seg, mp_bytes = bs\<rparr>)"
    "page_image file seg (page_start fa) bs" "ranges_ok s'" "no_allocations s' = no_allocations s + 1"
    "no_page_faults s' = no_page_faults s + 1"
    using handler_ok [OF f fg(3) c I(2)] by blast
  have card: "card (insert (page_start fa) P) = Suc (card P)"
    using n I(1) by simp
  have "lazy_inv file segs m (insert (page_start fa) P) s'"
    unfolding lazy_inv_def
  proof (intro conjI allI ballI impI)
    fix p assume "p \<in> insert (page_start fa) P"
    then show "\<exists>seg a mp. seg \<in> set segs \<and> in_segment seg a \<and> page_start a = p \<and> pages s' p = Some mp \<and>
        mp_prot mp = seg_prot seg \<and> length (mp_bytes mp) = 4096"
    proof (cases "p = page_start fa")
      case True
      then show ?thesis
        using fg(1,2) s'(2,3) by (intro exI [of _ seg] exI [of _ fa]) (simp add: page_image_def)
    next
      case False
      then show ?thesis
        using I(6) [of p] \<open>p \<in> insert (page_start fa) P\<close> s'(2) by auto
    qed
  next
    fix a sg mp assume a: "sg \<in> set segs" "in_segment sg a" "pages s' (page_start a) = Some mp"
    show "mp_bytes mp ! (unat a mod 4096) = m a"
    proof (cases "page_start a = page_start fa")
      case True
      then have "sg = seg"
        using g a(1,2) fg(1,2) unfolding good_image_def by blast
      moreover have "m a = seg_byte file sg a"
        using find_good(4) [OF g find_unique [OF g a(1,2)]] I(8) [of a] n True by simp
      ultimately show ?thesis
        using True a(2,3) s'(2,3) by (auto simp: page_image_def in_segment_def)
    next
      case False
      then show ?thesis
        using I(7) [OF a(1,2)] a(3) s'(2) by simp
    qed
  qed (use I s' card in \<open>auto simp: ac_simps\<close>)
  with s'(1) show ?thesis
    by blast
qed

lemma lazy_access:
  assumes inv: "lazy_inv file segs m P s" and g: "good_image file segs"
    and f: "find (\<lambda>seg. in_segment seg (access_addr ac)) segs = Some seg" and p: "page_start (access_addr ac) \<in> P"
    and w: "case ac of Load a \<Rightarrow> True | Store a v \<Rightarrow> prot_write (seg_prot seg)"
  shows "\<exists>v s'. do_access ac s = Some (v, s') \<and> eager_run m (ac # acs) = v # eager_run (case ac of Load a \<Rightarrow> m | Store a x \<Rightarrow> m(a := x)) acs \<and>
    lazy_inv file segs (case ac of Load a \<Rightarrow> m | Store a x \<Rightarrow> m(a := x)) P s'"
proof -
  note fg = find_good [OF g f]
  have I: "finite P" "ranges_ok s" "no_page_faults s = of_nat (card P)" "no_allocations s = of_nat (card P)"
    "\<And>p. p \<notin> P \<Longrightarrow> pages s p = None"
    "\<And>p. p \<in> P \<Longrightarrow> \<exists>seg a mp. seg \<in> set segs \<and> in_segment seg a \<and> page_start a = p \<and> pages s p = Some mp \<and>
        mp_prot mp = seg_prot seg \<and> length (mp_bytes mp) = 4096"
    "\<And>a seg mp. seg \<in> set segs \<Longrightarrow> in_segment seg a \<Longrightarrow> pages s (page_start a) = Some mp \<Longrightarrow>
        mp_bytes mp ! (unat a mod 4096) = m a"
    "\<And>a. page_start a \<notin> P \<Longrightarrow> m a = image file segs a"
    using inv unfolding lazy_inv_def by blast+
  obtain sg b mp where sg: "sg \<in> set segs" "in_segment sg b" "page_start b = page_start (access_addr ac)"
    "pages s (page_start (access_addr ac)) = Some mp" "mp_prot mp = seg_prot sg" "length (mp_bytes mp) = 4096"
    using I(6) [OF p] by blast
  have "sg = seg"
    using g sg(1-3) fg(1,2) unfolding good_image_def by blast
  then have prot: "mp_prot mp = seg_prot seg"
    using sg(5) by simp
  have cur: "mp_bytes mp ! (unat (access_addr ac) mod 4096) = m (access_addr ac)"
    using I(7) [OF fg(1,2) sg(4)] .
  show ?thesis
  proof (cases ac)
    case (Load a)
    have "prot_read (seg_prot seg)"
      using fg(3) by (simp add: good_segment_def)
    then show ?thesis
      using Load sg(4) prot cur inv by (simp add: do_access_def)
  next
    case (Store a v)
    have pw: "prot_write (seg_prot seg)"
      using w Store by simp
    let ?mp = "mp\<lparr>mp_bytes := (mp_bytes mp)[unat a mod 4096 := v]\<rparr>"
    let ?s' = "s\<lparr>pages := (pages s)(page_start a \<mapsto> ?mp)\<rparr>"
    have run: "do_access ac s = Some (v, ?s')"
      using Store sg(4) prot pw by (simp add: do_access_def)
    have "lazy_inv file segs (m(a := v)) P ?s'"
      unfolding lazy_inv_def
    proof (intro conjI allI ballI impI)
      fix q assume q: "q \<in> P"
      show "\<exists>seg a mp. seg \<in> set segs \<and> in_segment seg a \<and> page_start a = q \<and> pages ?s' q = Some mp \<and>
        mp_prot mp = seg_prot seg \<and> length (mp_bytes mp) = 4096"
      proof (cases "q = page_start a")
        case True
        then show ?thesis
          using fg(1,2) Store prot sg(6) by (intro exI [of _ seg] exI [of _ a] exI [of _ ?mp]) simp
      next
        case False
        then show ?thesis
          using I(6) [OF q] by simp
      qed
    next
      fix c sg' mp' assume c: "sg' \<in> set segs" "in_segment sg' c" "pages ?s' (page_start c) = Some mp'"
      show "mp_bytes mp' ! (unat c mod 4096) = (m(a := v)) c"
      proof (cases "page_start c = page_start a")
        case True
        then have mp': "mp' = ?mp" and old: "mp_bytes mp ! (unat c mod 4096) = m c"
          using c(3) I(7) [OF c(1,2)] sg(4) Store by simp_all
        have "unat c mod 4096 = unat a mod 4096 \<longleftrightarrow> c = a"
          using True page_split [of c] page_split [of a] by (metis word_unat_eq_iff)
        then show ?thesis
          using old sg(6) unfolding mp' by (cases "c = a") (simp_all add: nth_list_update)
      next
        case False
        then show ?thesis
          using c I(7) [OF c(1,2)] by auto
      qed
    next
      fix c assume "page_start c \<notin> P"
      then show "(m(a := v)) c = image file segs c"
        using I(8) [of c] p Store by auto
    qed (use I Store p in \<open>auto simp: ranges_ok_def\<close>)
    then show ?thesis
      using run Store by simp
  qed
qed

lemma lazy_step:
  assumes inv: "lazy_inv file segs m P s" and g: "good_image file segs" and ok: "ok_accesses segs P (ac # acs)"
  shows "\<exists>v s'. run_access (Suc (Suc n)) all_ok file segs ac s = Some (Inr (v, s')) \<and>
    eager_run m (ac # acs) = v # eager_run (case ac of Load a \<Rightarrow> m | Store a x \<Rightarrow> m(a := x)) acs \<and>
    lazy_inv file segs (case ac of Load a \<Rightarrow> m | Store a x \<Rightarrow> m(a := x)) (insert (page_start (access_addr ac)) P) s'"
proof -
  obtain seg where f: "find (\<lambda>seg. in_segment seg (access_addr ac)) segs = Some seg"
    and w: "case ac of Load a \<Rightarrow> True | Store a v \<Rightarrow> prot_write (seg_prot seg)"
    and c: "page_start (access_addr ac) \<in> P \<or> clean_fault seg (access_addr ac)"
    using ok by (auto split: option.splits)
  show ?thesis
  proof (cases "page_start (access_addr ac) \<in> P")
    case True
    then show ?thesis
      using lazy_access [OF inv g f True w, of acs] by (auto simp: insert_absorb)
  next
    case False
    have "pages s (page_start (access_addr ac)) = None"
      using inv False by (simp add: lazy_inv_def)
    then have d: "do_access ac s = None"
      by (simp add: do_access_def)
    obtain s1 where s1: "segv_handler all_ok file segs (access_addr ac) s = Inr s1"
      "lazy_inv file segs m (insert (page_start (access_addr ac)) P) s1"
      using lazy_fault [OF inv g f _ False] c False by blast
    show ?thesis
      using lazy_access [OF s1(2) g f _ w, of acs] d s1(1) by auto
  qed
qed

lemma lazy_run:
  assumes g: "good_image file segs"
  shows "lazy_inv file segs m P s \<Longrightarrow> ok_accesses segs P acs \<Longrightarrow>
    \<exists>s'. run_program (Suc (Suc n)) all_ok file segs acs s = Some (Inr (eager_run m acs, s')) \<and>
      no_page_faults s' = of_nat (card (P \<union> (page_start \<circ> access_addr) ` set acs)) \<and>
      no_allocations s' = of_nat (card (P \<union> (page_start \<circ> access_addr) ` set acs))"
proof (induction acs arbitrary: m P s)
  case Nil
  then show ?case
    by (simp add: lazy_inv_def)
next
  case (Cons ac acs)
  obtain v s1 where s1: "run_access (Suc (Suc n)) all_ok file segs ac s = Some (Inr (v, s1))"
    "eager_run m (ac # acs) = v # eager_run (case ac of Load a \<Rightarrow> m | Store a x \<Rightarrow> m(a := x)) acs"
    "lazy_inv file segs (case ac of Load a \<Rightarrow> m | Store a x \<Rightarrow> m(a := x)) (insert (page_start (access_addr ac)) P) s1"
    using lazy_step [OF Cons.prems(1) g Cons.prems(2)] by blast
  have "ok_accesses segs (insert (page_start (access_addr ac)) P) acs"
    using Cons.prems(2) by simp
  from Cons.IH [OF s1(3) this] s1(1,2) show ?case
    by (auto simp del: run_access.simps)
qed

section \<open>Properties\<close>

text \<open>
  C17. A program runs on pages mapped on demand exactly as on a fully loaded image: every access gets
  its byte after at most one fault, the bytes are those of the image with the program's own writes,
  and there is one fault and one allocation for each page touched. The image is a good one: offsets
  and addresses agree within a page, the file parts lie inside the file, segments with a zero-filled
  part are writable, all are readable, they end below the last page of the address space, no two of them
  share a page, and the file is smaller than 2 GB. The program accesses only its segments, writes
  only to writable ones, and its first access to a page that holds bytes of the file and zeros is to
  the bytes of the file; C18 shows what happens otherwise.
\<close>

theorem lazy_loading_equals_eager:
  assumes "good_image file segs" "ok_accesses segs {} acs" "2 \<le> fuel"
  shows "\<exists>s'. run_program fuel all_ok file segs acs start_state = Some (Inr (eager_run (image file segs) acs, s')) \<and>
    no_page_faults s' = of_nat (card ((page_start \<circ> access_addr) ` set acs)) \<and>
    no_allocations s' = of_nat (card ((page_start \<circ> access_addr) ` set acs))"
proof -
  have inv: "lazy_inv file segs (image file segs) {} start_state"
    by (simp add: lazy_inv_def start_state_def ranges_ok_def)
  have n: "fuel = Suc (Suc (fuel - 2))"
    using assms(3) by simp
  from lazy_run [OF assms(1) inv assms(2), of "fuel - 2", folded n] show ?thesis
    unfolding Un_empty_left .
qed

text \<open>A file whose only segment holds four bytes, followed by zeros to the end of its page.\<close>

definition demo_seg :: program_header where
  "demo_seg = \<lparr>ph_type = PT_LOAD, ph_offset = 4, ph_vaddr = 0x8048004, ph_filesz = 4, ph_memsz = 16, ph_flags = 6\<rparr>"

definition demo_file :: "u8 list" where
  "demo_file = [0x7F, 0x45, 0x4C, 0x46, 10, 20, 30, 40]"

lemma demo_good: "good_segment demo_file demo_seg"
  by (simp add: good_segment_def demo_seg_def demo_file_def seg_prot_def PF_W_def PF_R_def)

lemma demo_image: "good_image demo_file [demo_seg]"
  by (simp add: good_image_def demo_good)

theorem lazy_loading_equals_eager_witness:
  "\<exists>s'. run_program 2 all_ok demo_file [demo_seg] [Load 0x8048005, Store 0x8048008 7, Load 0x8048008, Load 0x8048009] start_state =
     Some (Inr ([20, 7, 7, 0], s')) \<and> no_page_faults s' = 1"
proof -
  let ?acs = "[Load 0x8048005, Store 0x8048008 7, Load 0x8048008, Load 0x8048009]"
  have ok: "ok_accesses [demo_seg] {} ?acs"
    by (simp add: in_segment_def demo_seg_def seg_prot_def PF_W_def clean_fault_def page_start_def PAGE_def)
  have e: "eager_run (image demo_file [demo_seg]) ?acs = [20, 7, 7, 0]"
    by (simp add: image_def in_segment_def seg_byte_def demo_seg_def demo_file_def)
  have c: "(page_start \<circ> access_addr) ` set ?acs = {0x8048000}"
    by (simp add: page_start_def PAGE_def)
  show ?thesis
    using lazy_loading_equals_eager [OF demo_image ok, of 2] unfolding e c by (fastforce simp del: run_program.simps)
qed

text \<open>
  C18. When the first access to a page is to the zero-filled part of a segment, the handler maps a page
  of zeros although the page also holds bytes of the file: these bytes read as zeros from then on,
  without any further fault.
\<close>

theorem bss_fault_loses_file_bytes:
  assumes "find (\<lambda>seg. in_segment seg fa) segs = Some seg" "good_segment file seg"
    "ph_vaddr seg + ph_filesz seg \<le> fa" "map_ranges s = None \<longrightarrow> map_ranges_count s = 0"
  shows "\<exists>s'. segv_handler all_ok file segs fa s = Inr s' \<and>
    (\<forall>a. page_start a = page_start fa \<longrightarrow> do_access (Load a) s' = Some (0, s'))"
proof -
  let ?s = "s\<lparr>no_page_faults := no_page_faults s + 1\<rparr>"
  have i: "in_segment seg fa" and nf: "\<not> fa < ph_vaddr seg + ph_filesz seg"
    using assms(1,3) by (auto simp: find_Some_iff)
  have "ranges_ok ?s"
    using assms(4) by (simp add: ranges_ok_def)
  from map_bss_page_ok [OF bss_writable [OF assms(2) i nf] this, of "page_start fa"]
  obtain s1 where s1: "map_bss_page all_ok seg (page_start fa) ?s = Inr (True, s1)"
    "pages s1 = (pages s)(page_start fa \<mapsto> \<lparr>mp_prot = seg_prot seg, mp_bytes = replicate 4096 0\<rparr>)"
    by auto
  let ?s' = "count_page seg (page_start fa) s1"
  have "segv_handler all_ok file segs fa s = Inr ?s'"
    using s1(1) nf by (simp add: segv_handler_def try_load_find [OF assms(1)] loader_map_segment_def Let_def)
  moreover have "pages ?s' = pages s1"
    by (simp add: count_page_def Let_def)
  moreover have "prot_read (seg_prot seg)"
    using assms(2) by (simp add: good_segment_def)
  ultimately show ?thesis
    using s1(2) by (intro exI [of _ ?s']) (auto simp: do_access_def)
qed

theorem bss_fault_loses_file_bytes_witness:
  "\<exists>s'. segv_handler all_ok demo_file [demo_seg] 0x8048008 start_state = Inr s' \<and>
     do_access (Load 0x8048005) s' = Some (0, s') \<and> image demo_file [demo_seg] 0x8048005 = 20"
proof -
  have f: "find (\<lambda>seg. in_segment seg 0x8048008) [demo_seg] = Some demo_seg"
    by (simp add: in_segment_def demo_seg_def)
  have "ph_vaddr demo_seg + ph_filesz demo_seg \<le> 0x8048008"
    by (simp add: demo_seg_def)
  from bss_fault_loses_file_bytes [OF f demo_good this, of start_state]
  obtain s' where s': "segv_handler all_ok demo_file [demo_seg] 0x8048008 start_state = Inr s'"
    "\<forall>a. page_start a = page_start 0x8048008 \<longrightarrow> do_access (Load a) s' = Some (0, s')"
    by (auto simp: start_state_def)
  moreover have "page_start 0x8048005 = page_start 0x8048008"
    by (simp add: page_start_def PAGE_def)
  moreover have "image demo_file [demo_seg] 0x8048005 = 20"
    by (simp add: image_def in_segment_def seg_byte_def demo_seg_def demo_file_def)
  ultimately show ?thesis
    by blast
qed

text \<open>
  A write to a page of a read-only segment never ends: the handler finds the segment, maps the
  page again and returns, and the write faults again, so no number of attempts is enough.
\<close>

lemma read_only_write_loops:
  assumes "find (\<lambda>seg. in_segment seg a) segs = Some seg" "good_segment file seg"
    "\<not> prot_write (seg_prot seg)" "map_ranges s = None \<longrightarrow> map_ranges_count s = 0"
    "\<forall>mp. pages s (page_start a) = Some mp \<longrightarrow> \<not> prot_write (mp_prot mp)"
  shows "run_access fuel all_ok file segs (Store a v) s = None"
  using assms(4,5)
proof (induction fuel arbitrary: s)
  case (Suc fuel)
  have i: "in_segment seg a"
    using assms(1) by (auto simp: find_Some_iff)
  have c: "clean_fault seg a"
    using bss_writable [OF assms(2) i] assms(3) by (auto simp: clean_fault_def)
  have d: "do_access (Store a v) s = None"
    using Suc.prems(2) by (auto simp: do_access_def split: option.splits)
  have "ranges_ok s"
    using Suc.prems(1) by (simp add: ranges_ok_def)
  from handler_ok [OF assms(1,2) c this] obtain s' bs where s': "segv_handler all_ok file segs a s = Inr s'"
    "pages s' = (pages s)(page_start a \<mapsto> \<lparr>mp_prot = seg_prot seg, mp_bytes = bs\<rparr>)" "ranges_ok s'"
    by blast
  then have "run_access fuel all_ok file segs (Store a v) s' = None"
    using assms(3) by (intro Suc.IH) (simp_all add: ranges_ok_def)
  then show ?case
    using d s'(1) by simp
qed simp

lemma read_only_write_loops_example:
  "run_access 1000 all_ok demo_file [demo_seg\<lparr>ph_memsz := 4, ph_flags := 5\<rparr>] (Store 0x8048005 1) start_state = None"
  by (rule read_only_write_loops [of _ _ "demo_seg\<lparr>ph_memsz := 4, ph_flags := 5\<rparr>"])
     (simp_all add: in_segment_def demo_seg_def good_segment_def demo_file_def seg_prot_def PF_W_def PF_R_def start_state_def)

text \<open>
  C19. The headers of an ELF file are read back: for every file that holds the header \<open>h\<close> and, at the
  offset \<open>e_phoff\<close> of its header, wherever that is, the table \<open>ps\<close>, the loader gets \<open>h\<close> and the entries
  in order; it refuses a file without the magic number, an offset that is negative as a file position
  and a table that is cut off at the end of the file.
\<close>

theorem headers_roundtrip:
  assumes "holds_ehdr file h" "length ps = unat (eh_phnum h)"
    and table: "unat (eh_phoff h) + 32 * length ps \<le> length file \<Longrightarrow> \<forall>i < length ps. holds_phdr file (unat (eh_phoff h) + 32 * i) (ps ! i)"
  shows "read_headers True True (Some file) =
    (if take 4 (eh_ident h) \<noteq> elf_magic then Inl (Fatal ''not an ELF file'')
     else if sint (eh_phoff h) < 0 then Inl (Fatal ''wrong lseek phdr'')
     else if ps \<noteq> [] \<and> length file < unat (eh_phoff h) + 32 * length ps then Inl (Fatal ''wrong read phdr'')
     else Inr (h, ps))"
proof -
  let ?raw = "read_at file (unat (eh_phoff h)) (length ps * PHDR_SIZE)"
  have d: "decode_ehdr file = h" "length (read_at file 0 EHDR_SIZE) = EHDR_SIZE"
    using decode_holds_ehdr [OF assms(1)] assms(1) by (simp_all add: holds_ehdr_def length_read_at)
  have fits: "length ?raw = length ps * PHDR_SIZE \<and> decode_phdrs (length ps) ?raw = ps"
    if "unat (eh_phoff h) + 32 * length ps \<le> length file"
    using decode_holds_phdrs [OF table [OF that]] by simp
  have empty: "length ?raw = length ps * PHDR_SIZE \<and> decode_phdrs (length ps) ?raw = ps" if "ps = []"
    using that by (simp add: length_read_at)
  have cut: "length ?raw \<noteq> length ps * PHDR_SIZE" if "ps \<noteq> []" "length file < unat (eh_phoff h) + 32 * length ps"
    using that by (cases ps) (auto simp: length_read_at PHDR_SIZE_def)
  have n: "unat (eh_phnum h) = length ps"
    using assms(2) by simp
  show ?thesis
  proof (cases "ps \<noteq> [] \<and> length file < unat (eh_phoff h) + 32 * length ps")
    case True
    then show ?thesis
      using cut by (simp add: read_headers_def Let_def d n)
  next
    case False
    then have "length ?raw = length ps * PHDR_SIZE \<and> decode_phdrs (length ps) ?raw = ps"
      using fits empty by linarith
    with False show ?thesis
      by (auto simp: read_headers_def Let_def d n)
  qed
qed

text \<open>A file whose table starts at byte 60, behind eight bytes that belong to nothing.\<close>

definition demo_elf :: "u8 list" where
  "demo_elf = encode_ehdr \<lparr>eh_ident = elf_magic @ replicate 12 0, eh_entry = 0x8048004, eh_phoff = 60, eh_phnum = 1\<rparr> @
     replicate 8 0xAA @ encode_phdr demo_seg @ [1, 2, 3]"

theorem headers_roundtrip_witness:
  "read_headers True True (Some demo_elf) =
     Inr (\<lparr>eh_ident = elf_magic @ replicate 12 0, eh_entry = 0x8048004, eh_phoff = 60, eh_phnum = 1\<rparr>, [demo_seg])"
proof -
  let ?h = "\<lparr>eh_ident = elf_magic @ replicate 12 0, eh_entry = 0x8048004, eh_phoff = 60, eh_phnum = 1\<rparr>"
  have h: "holds_ehdr demo_elf ?h" "holds_phdr demo_elf 60 demo_seg" "length demo_elf = 95"
    by (simp_all add: demo_elf_def layout_defs demo_seg_def elf_magic_def)
  then show ?thesis
    using headers_roundtrip [OF h(1), of "[demo_seg]"] by (simp add: elf_magic_def)
qed

end
