(* ===== verification/Multithreader.thy ===== *)
theory Multithreader
  imports Cstring
begin

text \<open>
  The parallel loops of group-16-5/simple-multithreader.h: the range is cut into one chunk per thread,
  each thread calls the lambda on its chunk, and the caller joins them all. A run is any interleaving
  of the calls.
\<close>

section \<open>The tasks\<close>

text \<open>The indices \<open>for (int i = start; i < end; i++)\<close> visits, in order.\<close>

function count_up :: "int \<Rightarrow> int \<Rightarrow> int list" where
  "count_up i e = (if i < e then i # count_up (i + 1) e else [])"
  by pat_completeness auto
termination
  by (relation "measure (\<lambda>(i, e). nat (e - i))") auto

declare count_up.simps [simp del]

record thread_data1 =
  td_low :: int
  td_high :: int

record thread_data2 =
  td_low1 :: int
  td_high1 :: int
  td_low2 :: int
  td_high2 :: int

text \<open>The calls of the lambda a thread makes.\<close>

definition runTask1 :: "thread_data1 \<Rightarrow> int list" where
  "runTask1 d = count_up (td_low d) (td_high d)"

definition runTask2 :: "thread_data2 \<Rightarrow> (int \<times> int) list" where
  "runTask2 d = concat (map (\<lambda>i. map (\<lambda>j. (i, j)) (count_up (td_low2 d) (td_high2 d))) (count_up (td_low1 d) (td_high1 d)))"

section \<open>Cutting the range\<close>

text \<open>\<open>int\<close> is 32 bits and its overflow undefined.\<close>

definition int_ok :: "int \<Rightarrow> bool" where
  "int_ok x \<longleftrightarrow> - (2 ^ 31) \<le> x \<and> x < 2 ^ 31"

text \<open>The loop over the threads, with \<open>n\<close> threads to go: begin and end of each chunk.\<close>

fun chunks :: "nat \<Rightarrow> int \<Rightarrow> int \<Rightarrow> int \<Rightarrow> int \<Rightarrow> (int \<times> int) list" where
  "chunks 0 cnt base extra current = []"
| "chunks (Suc n) cnt base extra current =
     (let len = (if cnt < extra then base + 1 else base); x = current + len in
      (current, x) # chunks n (cnt + 1) base extra x)"

definition split_range :: "int \<Rightarrow> int \<Rightarrow> int \<Rightarrow> (int \<times> int) list" where
  "split_range low high numThreads =
     (let total = high - low in chunks (nat numThreads) 0 (total div numThreads) (total mod numThreads) low)"

definition parallel_for1 :: "int \<Rightarrow> int \<Rightarrow> int \<Rightarrow> fault + thread_data1 list" where
  "parallel_for1 low high numThreads0 =
     (let numThreads = (if numThreads0 \<le> 0 then 1 else numThreads0) in
      if low \<ge> high then Inr []
      else if \<not> int_ok (high - low) then Inl Undefined
      else Inr (map (\<lambda>(b, x). \<lparr>td_low = b, td_high = x\<rparr>) (split_range low high numThreads)))"

definition parallel_for2 :: "int \<Rightarrow> int \<Rightarrow> int \<Rightarrow> int \<Rightarrow> int \<Rightarrow> fault + thread_data2 list" where
  "parallel_for2 low1 high1 low2 high2 numThreads0 =
     (let numThreads = (if numThreads0 \<le> 0 then 1 else numThreads0) in
      if low1 \<ge> high1 then Inr []
      else if low2 \<ge> high2 then Inr []
      else if \<not> int_ok (high1 - low1) then Inl Undefined
      else Inr (map (\<lambda>(b, x). \<lparr>td_low1 = b, td_high1 = x, td_low2 = low2, td_high2 = high2\<rparr>)
        (split_range low1 high1 numThreads)))"

text \<open>
  The \<open>main\<close> of the header, which calls the user's: a lambda that captures \<open>y\<close> by reference and sets it,
  then \<open>user_main\<close>, then a lambda that captures nothing. A lambda is what it does to the captured
  variable with what it prints.
\<close>

definition demonstration :: "(int \<Rightarrow> int \<times> string) \<Rightarrow> int \<Rightarrow> int \<times> string" where
  "demonstration lambda y = lambda y"

definition main_wrapper :: "(string list \<Rightarrow> int \<times> string) \<Rightarrow> string list \<Rightarrow> int \<times> string" where
  "main_wrapper user_main argv =
     (let (y, welcome) = demonstration (\<lambda>y. let y' = 5 in
            (y', ''====== Welcome to Assignment-'' @ show_nat (nat y') @ '' of the CSE231(A) ======'' @ [CHR 0x0A])) 1;
          (rc, out) = user_main argv;
          (y, bye) = demonstration (\<lambda>y. (y, ''====== Hope you enjoyed CSE231(A) ======'' @ [CHR 0x0A])) y in
      (rc, welcome @ out @ bye))"

section \<open>Interleavings\<close>

text \<open>Some thread that has not finished makes its next call.\<close>

inductive thread_step :: "('a \<Rightarrow> 's \<Rightarrow> 's) \<Rightarrow> 'a list list \<times> 's \<Rightarrow> 'a list list \<times> 's \<Rightarrow> bool" for f where
  call: "i < length ts \<Longrightarrow> ts ! i = x # xs \<Longrightarrow> thread_step f (ts, s) (ts[i := xs], f x s)"

inductive_cases thread_stepE: "thread_step f (ts, s) c"

text \<open>All threads are joined.\<close>

definition joined :: "'a list list \<Rightarrow> bool" where
  "joined ts \<longleftrightarrow> (\<forall>xs \<in> set ts. xs = [])"

definition calls_left :: "'a list list \<Rightarrow> nat" where
  "calls_left ts = sum_list (map length ts)"

lemma thread_step_length:
  assumes "thread_step f (ts, s) (ts', s')"
  shows "calls_left ts = Suc (calls_left ts')"
  using assms
proof (rule thread_stepE)
  fix i x xs assume i: "i < length ts" "ts ! i = x # xs" "(ts', s') = (ts[i := xs], f x s)"
  have "sum_list (map length (ts[i := xs])) = sum_list (map length ts) + length xs - length (ts ! i)" "length (ts ! i) \<le> sum_list (map length ts)"
    using i(1) by (simp_all add: map_update sum_list_update member_le_sum_list)
  then show ?thesis
    using i by (simp add: calls_left_def)
qed

lemma thread_step_progress: "\<not> joined ts \<Longrightarrow> \<exists>c. thread_step f (ts, s) c"
proof -
  assume "\<not> joined ts"
  then obtain i where "i < length ts" "ts ! i \<noteq> []"
    by (auto simp: joined_def in_set_conv_nth)
  then show ?thesis
    by (cases "ts ! i") (auto intro: thread_step.call)
qed

definition commuting :: "('a \<Rightarrow> 's \<Rightarrow> 's) \<Rightarrow> 'a set \<Rightarrow> bool" where
  "commuting f A \<longleftrightarrow> (\<forall>x \<in> A. \<forall>y \<in> A. \<forall>s. x \<noteq> y \<longrightarrow> f x (f y s) = f y (f x s))"

lemma fold_move:
  assumes "commuting f A" "x \<in> A" "set ys \<subseteq> A"
  shows "fold f ys (f x s) = f x (fold f ys s)"
  using assms(3)
proof (induction ys arbitrary: s)
  case (Cons y ys)
  then have "f y (f x s) = f x (f y s)"
    using assms(1,2) by (cases "x = y") (auto simp: commuting_def)
  then show ?case
    using Cons by simp
qed simp

lemma concat_update:
  "i < length ts \<Longrightarrow> ts ! i = x # xs \<Longrightarrow> \<exists>a b. concat ts = a @ x # b \<and> concat (ts[i := xs]) = a @ b"
proof (induction ts arbitrary: i)
  case (Cons t ts)
  show ?case
  proof (cases i)
    case 0
    then show ?thesis
      using Cons.prems by (intro exI [of _ "[]"] exI [of _ "xs @ concat ts"]) simp
  next
    case (Suc j)
    then have "j < length ts" "ts ! j = x # xs"
      using Cons.prems by simp_all
    from Cons.IH [OF this] obtain a b where "concat ts = a @ x # b" "concat (ts[j := xs]) = a @ b"
      by blast
    then show ?thesis
      using Suc by (intro exI [of _ "t @ a"] exI [of _ b]) simp
  qed
qed simp

lemma thread_step_fold:
  assumes "thread_step f (ts, s) (ts', s')" "commuting f A" "set (concat ts) \<subseteq> A"
  shows "fold f (concat ts') s' = fold f (concat ts) s \<and> set (concat ts') \<subseteq> A"
  using assms(1)
proof (rule thread_stepE)
  fix i x xs assume i: "i < length ts" "ts ! i = x # xs" "(ts', s') = (ts[i := xs], f x s)"
  obtain a b where ab: "concat ts = a @ x # b" "concat (ts[i := xs]) = a @ b"
    using concat_update [OF i(1,2)] by blast
  have "set a \<subseteq> A" "x \<in> A" "set b \<subseteq> A"
    using assms(3) unfolding ab(1) by auto
  then show ?thesis
    using i(3) ab fold_move [OF assms(2), of x a s] by simp
qed

lemma threads_fold:
  assumes "(thread_step f)\<^sup>*\<^sup>* (ts, s) (ts', s')" "commuting f A" "set (concat ts) \<subseteq> A"
  shows "fold f (concat ts') s' = fold f (concat ts) s"
proof -
  have "fold f (concat (fst c)) (snd c) = fold f (concat ts) s \<and> set (concat (fst c)) \<subseteq> A"
    if "(thread_step f)\<^sup>*\<^sup>* (ts, s) c" for c
    using that
  proof (induction rule: rtranclp_induct)
    case (step c d)
    then show ?case
      using thread_step_fold [OF _ assms(2), of "fst c" "snd c" "fst d" "snd d"] by simp
  qed (use assms(3) in simp)
  from this [OF assms(1)] show ?thesis
    by simp
qed

lemma joined_concat: "joined ts \<Longrightarrow> concat ts = []"
  by (simp add: joined_def)

section \<open>The chunks cover the range\<close>

lemma count_up_Nil: "b \<le> a \<Longrightarrow> count_up a b = []"
  by (subst count_up.simps) simp

lemma count_up_append: "a \<le> b \<Longrightarrow> b \<le> c \<Longrightarrow> count_up a b @ count_up b c = count_up a c"
proof (induction "nat (b - a)" arbitrary: a)
  case 0
  then show ?case
    by (simp add: count_up_Nil)
next
  case (Suc n)
  then have "a < b"
    by simp
  then show ?case
    using Suc by (simp add: count_up.simps [of a b] count_up.simps [of a c])
qed

lemma count_up_set: "set (count_up a b) = {a ..< b}"
proof (induction "nat (b - a)" arbitrary: a)
  case 0
  then show ?case
    by (simp add: count_up.simps [of a b])
next
  case (Suc n)
  then have "a < b"
    by simp
  then show ?case
    using Suc by (subst count_up.simps) auto
qed

text \<open>The end of the last chunk.\<close>

definition chunk_sum :: "nat \<Rightarrow> int \<Rightarrow> int \<Rightarrow> int \<Rightarrow> int" where
  "chunk_sum n cnt base extra = int n * base + min (int n) (max 0 (extra - cnt))"

lemma chunks_cover:
  assumes "0 \<le> base"
  shows "concat (map (\<lambda>(b, x). count_up b x) (chunks n cnt base extra current)) =
    count_up current (current + chunk_sum n cnt base extra)"
proof (induction n arbitrary: cnt current)
  case 0
  then show ?case
    by (simp add: chunk_sum_def count_up.simps)
next
  case (Suc n)
  let ?len = "if cnt < extra then base + 1 else base"
  have s: "chunk_sum (Suc n) cnt base extra = ?len + chunk_sum n (cnt + 1) base extra"
    by (auto simp: chunk_sum_def algebra_simps min_def max_def)
  have "0 \<le> chunk_sum n (cnt + 1) base extra"
    using assms by (simp add: chunk_sum_def)
  then show ?case
    unfolding s using Suc [of "cnt + 1" "current + ?len"] assms
    by (auto simp: Let_def count_up_append add.assoc)
qed

lemma split_range_cover:
  assumes "low < high" "0 < n"
  shows "concat (map (\<lambda>(b, x). count_up b x) (split_range low high n)) = count_up low high"
proof -
  let ?t = "high - low"
  have "chunk_sum (nat n) 0 (?t div n) (?t mod n) = n * (?t div n) + ?t mod n"
    using assms by (simp add: chunk_sum_def min_def) (meson not_le pos_mod_bound pos_mod_sign order.strict_trans1)
  then have "chunk_sum (nat n) 0 (?t div n) (?t mod n) = ?t"
    by simp
  moreover have "0 \<le> ?t div n"
    using assms by (simp add: pos_imp_zdiv_nonneg_iff)
  ultimately show ?thesis
    using chunks_cover [of "?t div n" "nat n" 0 "?t mod n" low] by (simp add: split_range_def Let_def)
qed

lemma chunks_sizes:
  "\<forall>(b, x) \<in> set (chunks n cnt base extra current). x - b \<in> {base, base + 1}"
  by (induction n arbitrary: cnt current) (auto simp: Let_def)

lemma length_chunks: "length (chunks n cnt base extra current) = n"
  by (induction n arbitrary: cnt current) (simp_all add: Let_def)

lemma chunks_bounds:
  "0 \<le> base \<Longrightarrow> \<forall>(b, x) \<in> set (chunks n cnt base extra current). current \<le> b \<and> b \<le> x \<and>
     x \<le> current + chunk_sum n cnt base extra"
proof (induction n arbitrary: cnt current)
  case (Suc n)
  define len where "len = (if cnt < extra then base + 1 else base)"
  have s: "chunk_sum (Suc n) cnt base extra = len + chunk_sum n (cnt + 1) base extra"
    by (auto simp: len_def chunk_sum_def algebra_simps min_def max_def)
  have c: "chunks (Suc n) cnt base extra current = (current, current + len) # chunks n (cnt + 1) base extra (current + len)"
    by (simp add: len_def Let_def)
  have "0 \<le> chunk_sum n (cnt + 1) base extra" "0 \<le> len"
    using Suc.prems by (simp_all add: chunk_sum_def len_def)
  then show ?case
    unfolding s c using Suc.IH [of "cnt + 1" "current + len"] Suc.prems by fastforce
qed simp

lemma runTask1_tasks:
  "parallel_for1 low high n = Inr ds \<Longrightarrow> concat (map runTask1 ds) = count_up low high"
proof -
  assume p: "parallel_for1 low high n = Inr ds"
  let ?n = "if n \<le> 0 then 1 else n"
  show ?thesis
  proof (cases "low < high")
    case True
    then have "ds = map (\<lambda>(b, x). \<lparr>td_low = b, td_high = x\<rparr>) (split_range low high ?n)"
      using p by (auto simp: parallel_for1_def Let_def split: if_splits)
    then have "map runTask1 ds = map (\<lambda>(b, x). count_up b x) (split_range low high ?n)"
      by (auto simp: runTask1_def)
    then show ?thesis
      using split_range_cover [OF True, of ?n] by simp
  next
    case False
    then show ?thesis
      using p by (simp add: parallel_for1_def Let_def count_up_Nil)
  qed
qed

lemma concat_map_concat: "concat (map (\<lambda>xs. concat (map g xs)) xss) = concat (map g (concat xss))"
  by (induction xss) simp_all

lemma runTask2_tasks:
  assumes p: "parallel_for2 low1 high1 low2 high2 n = Inr ds"
  shows "concat (map runTask2 ds) = concat (map (\<lambda>i. map (\<lambda>j. (i, j)) (count_up low2 high2)) (count_up low1 high1))"
proof -
  let ?n = "if n \<le> 0 then 1 else n" and ?row = "\<lambda>i. map (\<lambda>j. (i, j)) (count_up low2 high2)"
  consider "low1 \<ge> high1" | "low1 < high1" "low2 \<ge> high2" | "low1 < high1" "low2 < high2"
    by linarith
  then show ?thesis
  proof cases
    case 3
    then have "ds = map (\<lambda>(b, x). \<lparr>td_low1 = b, td_high1 = x, td_low2 = low2, td_high2 = high2\<rparr>) (split_range low1 high1 ?n)"
      using p by (auto simp: parallel_for2_def Let_def split: if_splits)
    then have "map runTask2 ds = map (\<lambda>xs. concat (map ?row xs)) (map (\<lambda>(b, x). count_up b x) (split_range low1 high1 ?n))"
      by (auto simp: runTask2_def)
    then show ?thesis
      using split_range_cover [OF 3(1), of ?n] by (simp only: concat_map_concat) simp
  qed (use p in \<open>simp_all add: parallel_for2_def Let_def count_up_Nil\<close>)
qed

lemma threads_finish: "\<exists>ts' s'. (thread_step f)\<^sup>*\<^sup>* (ts, s) (ts', s') \<and> joined ts'"
proof (induction "calls_left ts" arbitrary: ts s rule: less_induct)
  case less
  show ?case
  proof (cases "joined ts")
    case False
    then obtain ts1 s1 where st: "thread_step f (ts, s) (ts1, s1)"
      using thread_step_progress by (metis prod.exhaust)
    then have "calls_left ts1 < calls_left ts"
      using thread_step_length by fastforce
    from less [OF this] obtain ts' s' where "(thread_step f)\<^sup>*\<^sup>* (ts1, s1) (ts', s')" "joined ts'"
      by blast
    then show ?thesis
      using converse_rtranclp_into_rtranclp [of "thread_step f", OF st] by blast
  qed blast
qed

section \<open>Properties\<close>

text \<open>
  C20. When calls of the lambda at different indices commute, every interleaving of the threads of the
  one-dimensional \<open>parallel_for\<close> that runs to the join ends in the state of the sequential loop, and
  every run can be continued to the join.
\<close>

theorem parallel_for_is_sequential:
  assumes "parallel_for1 low high numThreads = Inr ds" "commuting f {low ..< high}"
    "(thread_step f)\<^sup>*\<^sup>* (map runTask1 ds, s) (ts, s')"
  shows "(joined ts \<longrightarrow> s' = fold f (count_up low high) s) \<and>
    (\<exists>ts'. (thread_step f)\<^sup>*\<^sup>* (ts, s') (ts', fold f (count_up low high) s) \<and> joined ts')"
proof -
  note c = runTask1_tasks [OF assms(1)]
  have sub: "set (concat (map runTask1 ds)) \<subseteq> {low ..< high}"
    unfolding c count_up_set ..
  have fin: "s2 = fold f (count_up low high) s" if "(thread_step f)\<^sup>*\<^sup>* (map runTask1 ds, s) (ts2, s2)" "joined ts2" for ts2 s2
    using threads_fold [OF that(1) assms(2) sub] joined_concat [OF that(2)] unfolding c by simp
  obtain ts2 s2 where "(thread_step f)\<^sup>*\<^sup>* (ts, s') (ts2, s2)" "joined ts2"
    using threads_finish [of f ts s'] by blast
  with assms(3) fin [of ts2 s2] fin [of ts s'] show ?thesis
    by (auto intro: rtranclp_trans)
qed

text \<open>Adding two vectors, as in vector.cpp.\<close>

definition add_at :: "int list \<Rightarrow> int list \<Rightarrow> int \<Rightarrow> int list \<Rightarrow> int list" where
  "add_at a b i c = c[nat i := a ! nat i + b ! nat i]"

lemma add_at_commuting:
  assumes "A \<subseteq> {0..}"
  shows "commuting (add_at a b) A"
proof (unfold commuting_def add_at_def, intro ballI allI impI list_update_swap)
  fix x y assume "x \<in> A" "y \<in> A" "x \<noteq> y"
  moreover from this have "0 \<le> x" "0 \<le> y"
    using assms by auto
  ultimately show "nat y \<noteq> nat x"
    by simp
qed

theorem parallel_for_is_sequential_witness:
  "\<exists>ts'. (thread_step (add_at [1, 2, 3] [10, 20, 30]))\<^sup>*\<^sup>* ([[0, 1], [2]], [0, 0, 0]) (ts', [11, 22, 33]) \<and> joined ts'"
proof -
  have p: "parallel_for1 0 3 2 = Inr [\<lparr>td_low = 0, td_high = 2\<rparr>, \<lparr>td_low = 2, td_high = 3\<rparr>]"
    by (simp add: parallel_for1_def Let_def int_ok_def split_range_def numeral_2_eq_2)
  have t: "map runTask1 [\<lparr>td_low = 0, td_high = 2\<rparr>, \<lparr>td_low = 2, td_high = 3\<rparr>] = [[0, 1], [2]]"
    by (simp add: runTask1_def count_up.simps)
  have f: "fold (add_at [1, 2, 3] [10, 20, 30]) (count_up 0 3) [0, 0, 0] = [11, 22, 33]"
    by (simp add: count_up.simps add_at_def)
  have "{0 ..< 3 :: int} \<subseteq> {0..}"
    by auto
  then show ?thesis
    using parallel_for_is_sequential [OF p add_at_commuting rtranclp.rtrancl_refl, of "[0, 0, 0]" "[1, 2, 3]" "[10, 20, 30]"]
    unfolding t f by auto
qed

text \<open>
  The same for the two-dimensional \<open>parallel_for\<close>, whose sequential loop is the nested one.
\<close>

lemma parallel_for_2d_is_sequential:
  assumes "parallel_for2 low1 high1 low2 high2 numThreads = Inr ds"
    "commuting f ({low1 ..< high1} \<times> {low2 ..< high2})"
    "(thread_step f)\<^sup>*\<^sup>* (map runTask2 ds, s) (ts, s')" "joined ts"
  shows "s' = fold (\<lambda>i. fold (\<lambda>j. f (i, j)) (count_up low2 high2)) (count_up low1 high1) s"
proof -
  note c = runTask2_tasks [OF assms(1)]
  have "set (concat (map runTask2 ds)) \<subseteq> {low1 ..< high1} \<times> {low2 ..< high2}"
    unfolding c by (auto simp: count_up_set)
  from threads_fold [OF assms(3,2) this] joined_concat [OF assms(4)]
  have "s' = fold f (concat (map (\<lambda>i. map (\<lambda>j. (i, j)) (count_up low2 high2)) (count_up low1 high1))) s"
    unfolding c by simp
  moreover have "fold f (concat (map (\<lambda>i. map (\<lambda>j. (i, j)) js) rows)) s =
      fold (\<lambda>i. fold (\<lambda>j. f (i, j)) js) rows s" for js rows s
    by (induction rows arbitrary: s) (simp_all add: fold_map comp_def)
  ultimately show ?thesis
    by simp
qed

lemma parallel_for_2d_is_sequential_example:
  "\<exists>ts. (thread_step (\<lambda>(i, j) t. t + 10 * i + j))\<^sup>*\<^sup>* ([[(0, 0), (0, 1)], [(1, 0), (1, 1)]], 0) (ts, 22 :: int) \<and> joined ts"
proof -
  let ?f = "\<lambda>(i, j) t. t + 10 * i + j :: int"
  let ?ds = "[\<lparr>td_low1 = 0, td_high1 = 1, td_low2 = 0, td_high2 = 2\<rparr>, \<lparr>td_low1 = 1, td_high1 = 2, td_low2 = 0, td_high2 = 2\<rparr>]"
  have p: "parallel_for2 0 2 0 2 2 = Inr ?ds"
    by (simp add: parallel_for2_def Let_def int_ok_def split_range_def numeral_2_eq_2)
  have t: "map runTask2 ?ds = [[(0, 0), (0, 1)], [(1, 0), (1, 1)]]"
    by (simp add: runTask2_def count_up.simps)
  have c: "commuting ?f A" for A
    by (auto simp: commuting_def)
  obtain ts s' where run: "(thread_step ?f)\<^sup>*\<^sup>* (map runTask2 ?ds, 0) (ts, s')" "joined ts"
    using threads_finish [of ?f "map runTask2 ?ds" 0] by blast
  from parallel_for_2d_is_sequential [OF p c run] have "s' = 22"
    by (simp add: count_up.simps)
  with run show ?thesis
    unfolding t by blast
qed

text \<open>
  The chunks of \<open>parallel_for\<close> are as many as the threads, lie inside the range, and their sizes
  differ by at most one.
\<close>

lemma parallel_for_chunks_balanced:
  assumes "low < high" "high - low < 2 ^ 31" "0 < numThreads"
  shows "\<exists>ds. parallel_for1 low high numThreads = Inr ds \<and> length ds = nat numThreads \<and>
    (\<forall>d \<in> set ds. low \<le> td_low d \<and> td_low d \<le> td_high d \<and> td_high d \<le> high \<and>
      td_high d - td_low d \<in> {(high - low) div numThreads, (high - low) div numThreads + 1})"
proof -
  let ?t = "high - low" and ?n = numThreads
  have b: "0 \<le> ?t div ?n" "0 \<le> ?t mod ?n" "?t mod ?n < ?n"
    using assms by (simp_all add: pos_imp_zdiv_nonneg_iff)
  have "chunk_sum (nat ?n) 0 (?t div ?n) (?t mod ?n) = ?n * (?t div ?n) + ?t mod ?n"
    using b assms(3) by (simp add: chunk_sum_def)
  then have sum: "chunk_sum (nat ?n) 0 (?t div ?n) (?t mod ?n) = ?t"
    by simp
  have "parallel_for1 low high ?n = Inr (map (\<lambda>(b, x). \<lparr>td_low = b, td_high = x\<rparr>) (split_range low high ?n))"
    using assms by (simp add: parallel_for1_def Let_def int_ok_def)
  then show ?thesis
    using chunks_bounds [OF b(1), of "nat ?n" 0 "?t mod ?n" low] chunks_sizes [of "nat ?n" 0 "?t div ?n" "?t mod ?n" low]
    unfolding sum by (auto simp: split_range_def Let_def length_chunks)
qed

lemma parallel_for_chunks_balanced_example:
  "\<exists>ds. parallel_for1 0 10 3 = Inr ds \<and> length ds = 3"
  using parallel_for_chunks_balanced [of 0 10 3] by auto

end
