(* ===== verification/Job_Scheduler.thy ===== *)
theory Job_Scheduler
  imports Prelude
begin

text \<open>
  The job scheduler of group-16-3: SimpleShell (simple-shell.c) and SimpleScheduler (scheduler.c) are
  two processes that share a table of jobs (scheduler_shm.h). A state is the shared memory with the
  program point of each process, and a step is one action of either.
\<close>

section \<open>Shared memory\<close>

definition MAX_JOBS :: nat where
  "MAX_JOBS = 100"

record job =
  jpid :: int
  jname :: string
  jstate :: int
  run_time_slices :: int
  wait_time_slices :: int

text \<open>A fresh segment of shared memory holds zeros.\<close>

definition zero_job :: job where
  "zero_job = \<lparr>jpid = 0, jname = [], jstate = 0, run_time_slices = 0, wait_time_slices = 0\<rparr>"

datatype signal = SIGCONT | SIGSTOP | SIGKILL

text \<open>
  The scheduler is at the head of its loop with \<open>queue_len\<close>, or sleeps for a time slice with its
  queue and the number of jobs it started, or has returned.
\<close>

datatype phase = Idle nat | Slice "nat list" nat | Returned

text \<open>
  \<open>jobs\<close> are the first \<open>job_count\<close> entries of the table. \<open>filling\<close> says that the shell has counted
  a new job but not written its fields. \<open>signals\<close> are the signals sent, in order.
\<close>

record sched_sys =
  jobs :: "job list"
  ncpu :: int
  scheduler_running :: bool
  sphase :: phase
  filling :: bool
  signals :: "(int \<times> signal) list"

definition upd_job :: "nat \<Rightarrow> (job \<Rightarrow> job) \<Rightarrow> sched_sys \<Rightarrow> sched_sys" where
  "upd_job i f s = s\<lparr>jobs := (jobs s)[i := f (jobs s ! i)]\<rparr>"

definition send_signal :: "int \<Rightarrow> signal \<Rightarrow> sched_sys \<Rightarrow> sched_sys" where
  "send_signal p sig s = s\<lparr>signals := signals s @ [(p, sig)]\<rparr>"

section \<open>The scheduler\<close>

definition ready_queue :: "sched_sys \<Rightarrow> nat list" where
  "ready_queue s = filter (\<lambda>i. jstate (jobs s ! i) = 0) [0 ..< length (jobs s)]"

definition running_count :: "sched_sys \<Rightarrow> nat list \<Rightarrow> nat" where
  "running_count s q = (if int (length q) < ncpu s then length q else nat (ncpu s))"

fun start_jobs :: "nat list \<Rightarrow> sched_sys \<Rightarrow> sched_sys" where
  "start_jobs [] s = s"
| "start_jobs (i # q) s =
     start_jobs q (upd_job i (\<lambda>j. j\<lparr>jstate := 1\<rparr>) (send_signal (jpid (jobs s ! i)) SIGCONT s))"

text \<open>The first half of an iteration, up to the sleep.\<close>

definition sched_pick :: "sched_sys \<Rightarrow> sched_sys" where
  "sched_pick s =
     (let q = ready_queue s in
      if q = [] then s\<lparr>sphase := Idle 0\<rparr>
      else let r = running_count s q in (start_jobs (take r q) s)\<lparr>sphase := Slice q r\<rparr>)"

text \<open>\<open>exited\<close> are the processes \<open>waitpid\<close> reports; the result counts the jobs that go on.\<close>

fun stop_jobs :: "(int \<Rightarrow> bool) \<Rightarrow> nat list \<Rightarrow> sched_sys \<Rightarrow> nat \<times> sched_sys" where
  "stop_jobs exited [] s = (0, s)"
| "stop_jobs exited (i # q) s =
     (let p = jpid (jobs s ! i) in
      if exited p \<or> \<not> scheduler_running s then
        stop_jobs exited q
          ((if scheduler_running s then id else send_signal p SIGKILL) (upd_job i (\<lambda>j. j\<lparr>jstate := 2\<rparr>) s))
      else
        let (n, s') = stop_jobs exited q
          (upd_job i (\<lambda>j. j\<lparr>run_time_slices := run_time_slices j + 1, jstate := 0\<rparr>) (send_signal p SIGSTOP s))
        in (Suc n, s'))"

text \<open>The second half: the queue that is built here is thrown away, only its length is used.\<close>

definition sched_stop :: "(int \<Rightarrow> bool) \<Rightarrow> nat list \<Rightarrow> nat \<Rightarrow> sched_sys \<Rightarrow> sched_sys" where
  "sched_stop exited q r s =
     (let (n, s') = stop_jobs exited (take r q) s in s'\<lparr>sphase := Idle (n + (length q - r))\<rparr>)"

section \<open>The shell\<close>

datatype command = Submit string | Exit | Unknown

text \<open>The line without its newline.\<close>

definition parse_line :: "string \<Rightarrow> command" where
  "parse_line input =
     (if take 7 input = ''submit '' then Submit (drop 7 input)
      else if input = ''exit'' then Exit else Unknown)"

text \<open>\<open>shm->job_count++\<close> makes the new entry visible before its fields are written.\<close>

definition shell_reserve :: "sched_sys \<Rightarrow> sched_sys" where
  "shell_reserve s = s\<lparr>jobs := jobs s @ [zero_job], filling := True\<rparr>"

definition shell_fill :: "string \<Rightarrow> int \<Rightarrow> sched_sys \<Rightarrow> sched_sys" where
  "shell_fill prog p s = (upd_job (length (jobs s) - 1)
     (\<lambda>j. \<lparr>jpid = p, jname = take 256 prog, jstate = 0, run_time_slices = 0, wait_time_slices = 0\<rparr>) s)\<lparr>filling := False\<rparr>"

definition shell_exit :: "sched_sys \<Rightarrow> sched_sys" where
  "shell_exit s = s\<lparr>scheduler_running := False\<rparr>"

text \<open>The table printed at the end.\<close>

definition job_summary :: "sched_sys \<Rightarrow> (string \<times> int \<times> int \<times> int) list" where
  "job_summary s = map (\<lambda>j. (jname j, jpid j, run_time_slices j, wait_time_slices j)) (jobs s)"

definition init_sys :: "int \<Rightarrow> sched_sys" where
  "init_sys n = \<lparr>jobs = [], ncpu = n, scheduler_running = True, sphase = Idle 0, filling = False, signals = []\<rparr>"

section \<open>Steps\<close>

text \<open>
  With a negative \<open>ncpu\<close> the code indexes its queue with negative numbers, which is undefined: the
  model has no step then.
\<close>

text \<open>\<open>ex\<close> says which processes \<open>waitpid\<close> may report as exited; \<open>lines\<close> are the lines the shell may read.\<close>

inductive sys_step :: "(int \<Rightarrow> bool) set \<Rightarrow> string set \<Rightarrow> sched_sys \<Rightarrow> sched_sys \<Rightarrow> bool" for ex lines where
  pick: "sphase s = Idle n \<Longrightarrow> scheduler_running s \<or> n > 0 \<Longrightarrow> sys_step ex lines s (sched_pick s)"
| return: "sphase s = Idle 0 \<Longrightarrow> \<not> scheduler_running s \<Longrightarrow> sys_step ex lines s (s\<lparr>sphase := Returned\<rparr>)"
| stop: "sphase s = Slice q r \<Longrightarrow> 0 \<le> ncpu s \<Longrightarrow> exited \<in> ex \<Longrightarrow> sys_step ex lines s (sched_stop exited q r s)"
| reserve: "line \<in> lines \<Longrightarrow> parse_line line = Submit prog \<Longrightarrow> scheduler_running s \<Longrightarrow> \<not> filling s \<Longrightarrow>
    length (jobs s) < MAX_JOBS \<Longrightarrow> sys_step ex lines s (shell_reserve s)"
| fill: "filling s \<Longrightarrow> sys_step ex lines s (shell_fill prog p s)"
| exit: "line \<in> lines \<Longrightarrow> parse_line line = Exit \<Longrightarrow> \<not> filling s \<Longrightarrow> sys_step ex lines s (shell_exit s)"

inductive_cases sys_stepE: "sys_step ex lines s t"

inductive sys_reach :: "(int \<Rightarrow> bool) set \<Rightarrow> string set \<Rightarrow> sched_sys \<Rightarrow> sched_sys \<Rightarrow> bool" for ex lines s0 where
  start: "sys_reach ex lines s0 s0"
| step: "sys_reach ex lines s0 s \<Longrightarrow> sys_step ex lines s t \<Longrightarrow> sys_reach ex lines s0 t"

end
