(* ===== verification/Job_Props.thy ===== *)
theory Job_Props
  imports Job_Scheduler
begin

text \<open>Invariants of the job scheduler, and the jobs it never runs.\<close>

section \<open>What the loops change\<close>

definition same_but :: "nat set \<Rightarrow> sched_sys \<Rightarrow> sched_sys \<Rightarrow> bool" where
  "same_but A s t \<longleftrightarrow> length (jobs t) = length (jobs s) \<and> (\<forall>i. i \<notin> A \<longrightarrow> jobs t ! i = jobs s ! i) \<and>
     ncpu t = ncpu s \<and> scheduler_running t = scheduler_running s \<and> sphase t = sphase s \<and> filling t = filling s"

lemma same_but_trans: "same_but A s t \<Longrightarrow> same_but B t u \<Longrightarrow> same_but (A \<union> B) s u"
  by (simp add: same_but_def)

lemma same_but_refl: "same_but A s s"
  by (simp add: same_but_def)

lemma same_but_upd: "same_but {i} s (upd_job i f s)"
  by (simp add: same_but_def upd_job_def)

lemma same_but_signal: "same_but {} s (send_signal p sig s)"
  by (simp add: same_but_def send_signal_def)

lemma upd_job_at: "i < length (jobs s) \<Longrightarrow> jobs (upd_job i f s) ! i = f (jobs s ! i)"
  by (simp add: upd_job_def)

lemma jobs_signal [simp]: "jobs (send_signal p sig s) = jobs s" "scheduler_running (send_signal p sig s) = scheduler_running s"
  by (simp_all add: send_signal_def)

lemma start_jobs_spec:
  assumes "\<forall>i \<in> set q. i < length (jobs s)" "distinct q"
  shows "same_but (set q) s (start_jobs q s) \<and>
    (\<forall>i \<in> set q. jobs (start_jobs q s) ! i = (jobs s ! i)\<lparr>jstate := 1\<rparr>)"
  using assms
proof (induction q arbitrary: s)
  case Nil
  then show ?case
    by (simp add: same_but_refl)
next
  case (Cons i q)
  let ?s = "upd_job i (\<lambda>j. j\<lparr>jstate := 1\<rparr>) (send_signal (jpid (jobs s ! i)) SIGCONT s)"
  have s1: "same_but {i} s ?s"
    using same_but_trans [OF same_but_signal same_but_upd] by simp
  have i: "jobs ?s ! i = (jobs s ! i)\<lparr>jstate := 1\<rparr>"
    using Cons.prems(1) by (simp add: upd_job_at)
  have "\<forall>j \<in> set q. j < length (jobs ?s)"
    using Cons.prems(1) s1 by (simp add: same_but_def)
  from Cons.IH [OF this] have s2: "same_but (set q) ?s (start_jobs q ?s)"
    "\<forall>j \<in> set q. jobs (start_jobs q ?s) ! j = (jobs ?s ! j)\<lparr>jstate := 1\<rparr>"
    using Cons.prems(2) by simp_all
  have "jobs (start_jobs q ?s) ! i = jobs ?s ! i"
    using s2(1) Cons.prems(2) by (simp add: same_but_def)
  moreover have "jobs ?s ! j = jobs s ! j" if "j \<in> set q" for j
    using s1 Cons.prems(2) that by (auto simp: same_but_def)
  ultimately show ?case
    using same_but_trans [OF s1 s2(1)] s2(2) i by auto
qed

lemma stop_jobs_spec:
  assumes "\<forall>i \<in> set q. i < length (jobs s)" "distinct q"
  shows "same_but (set q) s (snd (stop_jobs ex q s)) \<and>
    (\<forall>i \<in> set q. jobs (snd (stop_jobs ex q s)) ! i =
      (if ex (jpid (jobs s ! i)) \<or> \<not> scheduler_running s then (jobs s ! i)\<lparr>jstate := 2\<rparr>
       else (jobs s ! i)\<lparr>run_time_slices := run_time_slices (jobs s ! i) + 1, jstate := 0\<rparr>)) \<and>
    fst (stop_jobs ex q s) = length (filter (\<lambda>i. \<not> (ex (jpid (jobs s ! i)) \<or> \<not> scheduler_running s)) q)"
  using assms
proof (induction q arbitrary: s)
  case Nil
  then show ?case
    by (simp add: same_but_refl)
next
  case (Cons i q)
  let ?c = "ex (jpid (jobs s ! i)) \<or> \<not> scheduler_running s"
  let ?j = "if ?c then (jobs s ! i)\<lparr>jstate := 2\<rparr>
       else (jobs s ! i)\<lparr>run_time_slices := run_time_slices (jobs s ! i) + 1, jstate := 0\<rparr>"
  define s1 where "s1 = (if ?c then (if scheduler_running s then id else send_signal (jpid (jobs s ! i)) SIGKILL) (upd_job i (\<lambda>j. j\<lparr>jstate := 2\<rparr>) s)
      else upd_job i (\<lambda>j. j\<lparr>run_time_slices := run_time_slices j + 1, jstate := 0\<rparr>) (send_signal (jpid (jobs s ! i)) SIGSTOP s))"
  have eq: "stop_jobs ex (i # q) s = (if ?c then stop_jobs ex q s1 else (Suc (fst (stop_jobs ex q s1)), snd (stop_jobs ex q s1)))"
    by (auto simp: s1_def Let_def split: prod.split)
  have sb: "same_but {i} s s1"
    by (auto simp: s1_def same_but_def upd_job_def send_signal_def)
  have at: "jobs s1 ! i = ?j"
    using Cons.prems(1) by (auto simp: s1_def upd_job_at)
  have other: "jobs s1 ! j = jobs s ! j" if "j \<in> set q" for j
    using sb Cons.prems(2) that by (auto simp: same_but_def)
  have run: "scheduler_running s1 = scheduler_running s"
    using sb by (simp add: same_but_def)
  have "\<forall>j \<in> set q. j < length (jobs s1)"
    using Cons.prems(1) sb by (simp add: same_but_def)
  note ih = Cons.IH [OF this]
  have d: "distinct q" "i \<notin> set q"
    using Cons.prems(2) by simp_all
  have keep: "jobs (snd (stop_jobs ex q s1)) ! i = jobs s1 ! i"
    using ih [OF d(1)] d(2) by (simp add: same_but_def)
  have sn: "snd (stop_jobs ex (i # q) s) = snd (stop_jobs ex q s1)"
    unfolding eq by simp
  have fl: "filter (\<lambda>i. \<not> (ex (jpid (jobs s1 ! i)) \<or> \<not> scheduler_running s1)) q =
      filter (\<lambda>i. \<not> (ex (jpid (jobs s ! i)) \<or> \<not> scheduler_running s)) q"
    using other run by (auto intro!: filter_cong)
  have "same_but (set (i # q)) s (snd (stop_jobs ex (i # q) s))"
    using same_but_trans [OF sb ih [OF d(1), THEN conjunct1]] unfolding sn by simp
  moreover have "\<forall>k \<in> set (i # q). jobs (snd (stop_jobs ex (i # q) s)) ! k =
      (if ex (jpid (jobs s ! k)) \<or> \<not> scheduler_running s then (jobs s ! k)\<lparr>jstate := 2\<rparr>
       else (jobs s ! k)\<lparr>run_time_slices := run_time_slices (jobs s ! k) + 1, jstate := 0\<rparr>)"
    using ih [OF d(1)] other keep at run unfolding sn by simp
  moreover have "fst (stop_jobs ex (i # q) s) = length (filter (\<lambda>i. \<not> (ex (jpid (jobs s ! i)) \<or> \<not> scheduler_running s)) (i # q))"
    using ih [OF d(1)] unfolding eq fl by simp
  ultimately show ?case
    by blast
qed

section \<open>The invariant\<close>

definition chosen :: "sched_sys \<Rightarrow> nat set" where
  "chosen s = (case sphase s of Slice q r \<Rightarrow> set (take r q) | _ \<Rightarrow> {})"

text \<open>
  Only jobs of the current slice are in state 1, there are at most \<open>ncpu\<close> of them, and the queue is
  in order.
\<close>

definition sys_ok :: "sched_sys \<Rightarrow> bool" where
  "sys_ok s \<longleftrightarrow> length (jobs s) \<le> MAX_JOBS \<and> (filling s \<longrightarrow> jobs s \<noteq> []) \<and>
     (\<forall>i < length (jobs s). jstate (jobs s ! i) \<in> {0, 1, 2} \<and> 0 \<le> run_time_slices (jobs s ! i) \<and>
        wait_time_slices (jobs s ! i) = 0 \<and> (jstate (jobs s ! i) = 1 \<longrightarrow> i \<in> chosen s)) \<and>
     (\<forall>q r. sphase s = Slice q r \<longrightarrow> distinct q \<and> (\<forall>i \<in> set q. i < length (jobs s)) \<and> int r \<le> ncpu s)"

lemma sys_ok_state:
  "sys_ok s \<Longrightarrow> i < length (jobs s) \<Longrightarrow> jstate (jobs s ! i) \<in> {0, 1, 2}"
  "sys_ok s \<Longrightarrow> i < length (jobs s) \<Longrightarrow> jstate (jobs s ! i) = 1 \<Longrightarrow> i \<in> chosen s"
  unfolding sys_ok_def by blast+

lemma ready_queue_set: "set (ready_queue s) = {i. i < length (jobs s) \<and> jstate (jobs s ! i) = 0}"
  by (auto simp: ready_queue_def)

lemma ready_queue_distinct: "distinct (ready_queue s)"
  by (simp add: ready_queue_def)

lemma running_count_le: "0 \<le> ncpu s \<Longrightarrow> int (running_count s q) \<le> ncpu s"
  by (simp add: running_count_def)

lemma set_take_subset': "set (take n q) \<subseteq> set q"
  by (rule set_take_subset)

lemma pick_ok:
  assumes "sys_ok s" "sphase s = Idle n" "0 \<le> ncpu s"
  shows "sys_ok (sched_pick s)"
proof (cases "ready_queue s = []")
  case True
  then show ?thesis
    using assms by (auto simp: sched_pick_def sys_ok_def chosen_def)
next
  case False
  let ?q = "ready_queue s" and ?r = "running_count s (ready_queue s)"
  have b: "\<forall>i \<in> set (take ?r ?q). i < length (jobs s)" "distinct (take ?r ?q)"
    using set_take_subset' [of ?r ?q] ready_queue_set [of s] ready_queue_distinct [of s] by auto
  note sp = start_jobs_spec [OF b]
  let ?t = "start_jobs (take ?r ?q) s"
  have pick: "sched_pick s = ?t\<lparr>sphase := Slice ?q ?r\<rparr>"
    using False by (simp add: sched_pick_def Let_def)
  have st: "jstate (jobs s ! i) \<noteq> 1" if "i < length (jobs s)" for i
    using assms that by (auto simp: sys_ok_def chosen_def)
  have "jstate (jobs ?t ! i) \<in> {0, 1, 2} \<and> 0 \<le> run_time_slices (jobs ?t ! i) \<and> wait_time_slices (jobs ?t ! i) = 0 \<and>
      (jstate (jobs ?t ! i) = 1 \<longrightarrow> i \<in> set (take ?r ?q))" if "i < length (jobs s)" for i
    using assms(1) sp that st [OF that] by (cases "i \<in> set (take ?r ?q)") (auto simp: sys_ok_def same_but_def)
  moreover have l: "length (jobs ?t) = length (jobs s)" "filling ?t = filling s" "ncpu ?t = ncpu s"
    using sp by (simp_all add: same_but_def)
  moreover have "jobs ?t = [] \<longleftrightarrow> jobs s = []"
    using l(1) by (metis length_0_conv)
  moreover have "length (jobs s) \<le> MAX_JOBS" "filling s \<longrightarrow> jobs s \<noteq> []"
    using assms(1) by (simp_all add: sys_ok_def)
  moreover have "\<forall>i \<in> set ?q. i < length (jobs s)"
    by (simp add: ready_queue_set)
  ultimately show ?thesis
    using ready_queue_distinct [of s] running_count_le [OF assms(3), of ?q]
    unfolding pick sys_ok_def chosen_def by simp
qed

lemma stop_ok:
  assumes "sys_ok s" "sphase s = Slice q r"
  shows "sys_ok (sched_stop exited q r s)"
proof -
  have b: "\<forall>i \<in> set (take r q). i < length (jobs s)" "distinct (take r q)"
    using assms set_take_subset' [of r q] by (auto simp: sys_ok_def)
  note sp = stop_jobs_spec [OF b, of exited]
  let ?t = "snd (stop_jobs exited (take r q) s)"
  have stop: "sched_stop exited q r s = ?t\<lparr>sphase := Idle (fst (stop_jobs exited (take r q) s) + (length q - r))\<rparr>"
    by (simp add: sched_stop_def case_prod_beta)
  have st: "jstate (jobs ?t ! i) \<in> {0, 1, 2} \<and> jstate (jobs ?t ! i) \<noteq> 1 \<and> 0 \<le> run_time_slices (jobs ?t ! i) \<and> wait_time_slices (jobs ?t ! i) = 0"
    if "i < length (jobs s)" for i
    using assms sp that by (cases "i \<in> set (take r q)") (auto simp: sys_ok_def same_but_def chosen_def)
  have l: "length (jobs ?t) = length (jobs s)" "filling ?t = filling s"
    using sp by (simp_all add: same_but_def)
  then have "jobs ?t = [] \<longleftrightarrow> jobs s = []"
    by (metis length_0_conv)
  then show ?thesis
    using assms(1) st l unfolding stop sys_ok_def chosen_def by auto
qed

lemma reserve_ok:
  assumes "sys_ok s" "length (jobs s) < MAX_JOBS"
  shows "sys_ok (shell_reserve s)"
proof -
  have "chosen (shell_reserve s) = chosen s"
    by (simp add: chosen_def shell_reserve_def)
  moreover have "i < length (jobs s) \<or> i = length (jobs s)" if "i < length (jobs (shell_reserve s))" for i
    using that by (auto simp: shell_reserve_def)
  moreover have "sphase s = Slice q r \<Longrightarrow> i \<in> set q \<Longrightarrow> i < Suc (length (jobs s))" for q r i
    using assms(1) unfolding sys_ok_def by (blast intro: less_SucI)
  ultimately show ?thesis
    using assms by (fastforce simp: sys_ok_def shell_reserve_def nth_append zero_job_def)
qed

lemma fill_ok:
  assumes "sys_ok s" "filling s"
  shows "sys_ok (shell_fill prog p s)"
proof -
  let ?i = "length (jobs s) - 1"
  have "?i < length (jobs s)"
    using assms by (simp add: sys_ok_def)
  then have "jobs (shell_fill prog p s) ! k =
      (if k = ?i then \<lparr>jpid = p, jname = take 256 prog, jstate = 0, run_time_slices = 0, wait_time_slices = 0\<rparr> else jobs s ! k)" for k
    by (simp add: shell_fill_def upd_job_def nth_list_update)
  moreover have "length (jobs (shell_fill prog p s)) = length (jobs s)" "chosen (shell_fill prog p s) = chosen s"
    "sphase (shell_fill prog p s) = sphase s" "ncpu (shell_fill prog p s) = ncpu s" "\<not> filling (shell_fill prog p s)"
    by (simp_all add: shell_fill_def upd_job_def chosen_def)
  ultimately show ?thesis
    using assms(1) by (simp add: sys_ok_def)
qed

lemma step_ok:
  assumes "sys_step ex lines s t" "sys_ok s" "0 \<le> ncpu s"
  shows "sys_ok t \<and> ncpu t = ncpu s"
  using assms(1)
proof (cases rule: sys_step.cases)
  case (pick n)
  have "ncpu (sched_pick s) = ncpu s"
  proof -
    have "ncpu (start_jobs q s) = ncpu s" for q s
      by (induction q arbitrary: s) (simp_all add: upd_job_def send_signal_def)
    then show ?thesis
      by (simp add: sched_pick_def Let_def)
  qed
  then show ?thesis
    using pick pick_ok [OF assms(2) _ assms(3)] by simp
next
  case (stop q r exited)
  have "ncpu (snd (stop_jobs e q s)) = ncpu s" for e q s
    by (induction q arbitrary: s) (simp_all add: upd_job_def send_signal_def Let_def case_prod_beta)
  then have "ncpu (sched_stop exited q r s) = ncpu s"
    by (simp add: sched_stop_def case_prod_beta)
  then show ?thesis
    using stop stop_ok [OF assms(2)] by simp
next
  case (reserve line prog)
  then show ?thesis
    using reserve_ok [OF assms(2)] by (simp add: shell_reserve_def)
next
  case (fill prog p)
  then show ?thesis
    using fill_ok [OF assms(2)] by (simp add: shell_fill_def upd_job_def)
qed (use assms(2) in \<open>auto simp: sys_ok_def chosen_def shell_exit_def\<close>)

lemma reach_ok: "sys_reach ex lines s0 s \<Longrightarrow> sys_ok s0 \<Longrightarrow> 0 \<le> ncpu s0 \<Longrightarrow> sys_ok s \<and> ncpu s = ncpu s0"
  by (induction rule: sys_reach.induct) (auto dest: step_ok)

section \<open>Jobs that wait forever\<close>

definition live_below :: "nat \<Rightarrow> sched_sys \<Rightarrow> nat set" where
  "live_below k s = {i. i < k \<and> jstate (jobs s ! i) \<noteq> 2}"

text \<open>Job \<open>k\<close> stays as it is while enough live jobs come before it.\<close>

definition waits :: "nat \<Rightarrow> job \<Rightarrow> sched_sys \<Rightarrow> bool" where
  "waits k j s \<longleftrightarrow> sys_ok s \<and> scheduler_running s \<and> 0 \<le> ncpu s \<and> k < length (jobs s) \<and>
     (filling s \<longrightarrow> k < length (jobs s) - 1) \<and> jobs s ! k = j \<and> ncpu s \<le> int (card (live_below k s)) \<and> k \<notin> chosen s"

lemma take_ready_below:
  assumes "sys_ok s" "sphase s = Idle n" "k < length (jobs s)" "r \<le> card (live_below k s)"
  shows "\<forall>i \<in> set (take r (ready_queue s)). i < k"
proof -
  let ?P = "\<lambda>i. jstate (jobs s ! i) = 0"
  have "[0 ..< length (jobs s)] = [0 ..< k] @ [k ..< length (jobs s)]"
    using assms(3) upt_add_eq_append [of 0 k "length (jobs s) - k"] by simp
  then have q: "ready_queue s = filter ?P [0 ..< k] @ filter ?P [k ..< length (jobs s)]"
    by (simp add: ready_queue_def)
  have "jstate (jobs s ! i) \<noteq> 2 \<longleftrightarrow> ?P i" if "i < k" for i
  proof -
    have "jstate (jobs s ! i) \<in> {0, 1, 2} \<and> jstate (jobs s ! i) \<noteq> 1"
      using sys_ok_state [OF assms(1), of i] assms(2,3) that by (auto simp: chosen_def)
    then show ?thesis
      by auto
  qed
  then have "live_below k s = set (filter ?P [0 ..< k])"
    by (auto simp: live_below_def)
  then have "card (live_below k s) = length (filter ?P [0 ..< k])"
    by (simp only: distinct_card distinct_filter distinct_upt)
  then have "take r (ready_queue s) = take r (filter ?P [0 ..< k])"
    using assms(4) unfolding q by simp
  then show ?thesis
    using set_take_subset [of r "filter ?P [0 ..< k]"] by auto
qed

lemma live_below_mono:
  assumes "\<And>i. i < k \<Longrightarrow> jstate (jobs s ! i) \<noteq> 2 \<Longrightarrow> jstate (jobs t ! i) \<noteq> 2"
  shows "card (live_below k s) \<le> card (live_below k t)"
proof (rule card_mono)
  show "finite (live_below k t)"
    by (simp add: live_below_def)
  show "live_below k s \<subseteq> live_below k t"
    using assms by (auto simp: live_below_def)
qed

lemma pick_waits:
  assumes w: "waits k j s" and ph: "sphase s = Idle n"
  shows "jobs (sched_pick s) ! k = j \<and> length (jobs (sched_pick s)) = length (jobs s) \<and>
    filling (sched_pick s) = filling s \<and> scheduler_running (sched_pick s) = scheduler_running s \<and>
    card (live_below k s) \<le> card (live_below k (sched_pick s)) \<and> k \<notin> chosen (sched_pick s)"
proof (cases "ready_queue s = []")
  case True
  then show ?thesis
    using w by (simp add: sched_pick_def waits_def live_below_def chosen_def)
next
  case False
  let ?q = "ready_queue s" and ?r = "running_count s (ready_queue s)"
  let ?t = "start_jobs (take ?r ?q) s"
  have b: "\<forall>i \<in> set (take ?r ?q). i < length (jobs s)" "distinct (take ?r ?q)"
    using set_take_subset' [of ?r ?q] ready_queue_set [of s] ready_queue_distinct [of s] by auto
  note sp = start_jobs_spec [OF b]
  have pick: "sched_pick s = ?t\<lparr>sphase := Slice ?q ?r\<rparr>"
    using False by (simp add: sched_pick_def Let_def)
  have "?r \<le> card (live_below k s)"
    using w running_count_le [of s ?q] by (simp add: waits_def)
  then have "\<forall>i \<in> set (take ?r ?q). i < k"
    using take_ready_below [OF _ ph] w by (simp add: waits_def)
  then have k: "k \<notin> set (take ?r ?q)"
    by blast
  have "jstate (jobs ?t ! i) \<noteq> 2" if "jstate (jobs s ! i) \<noteq> 2" for i
    using sp that by (cases "i \<in> set (take ?r ?q)") (simp_all add: same_but_def)
  then have "card (live_below k s) \<le> card (live_below k (sched_pick s))"
    unfolding pick by (intro live_below_mono) simp
  then show ?thesis
    using w sp k unfolding pick by (simp add: waits_def same_but_def chosen_def)
qed

lemma stop_waits:
  assumes w: "waits k j s" and ph: "sphase s = Slice q r"
  shows "jobs (sched_stop (\<lambda>_. False) q r s) ! k = j \<and> length (jobs (sched_stop (\<lambda>_. False) q r s)) = length (jobs s) \<and>
    filling (sched_stop (\<lambda>_. False) q r s) = filling s \<and>
    scheduler_running (sched_stop (\<lambda>_. False) q r s) = scheduler_running s \<and>
    card (live_below k s) \<le> card (live_below k (sched_stop (\<lambda>_. False) q r s)) \<and>
    k \<notin> chosen (sched_stop (\<lambda>_. False) q r s)"
proof -
  let ?t = "snd (stop_jobs (\<lambda>_. False) (take r q) s)"
  have b: "\<forall>i \<in> set (take r q). i < length (jobs s)" "distinct (take r q)"
    using w ph set_take_subset' [of r q] by (auto simp: waits_def sys_ok_def)
  note sp = stop_jobs_spec [OF b, of "\<lambda>_. False"]
  have stop: "sched_stop (\<lambda>_. False) q r s = ?t\<lparr>sphase := Idle (fst (stop_jobs (\<lambda>_. False) (take r q) s) + (length q - r))\<rparr>"
    by (simp add: sched_stop_def case_prod_beta)
  have k: "k \<notin> set (take r q)" and run: "scheduler_running s"
    using w ph by (simp_all add: waits_def chosen_def)
  have "jstate (jobs ?t ! i) \<noteq> 2" if "jstate (jobs s ! i) \<noteq> 2" for i
    using sp that run by (cases "i \<in> set (take r q)") (simp_all add: same_but_def)
  then have "card (live_below k s) \<le> card (live_below k (sched_stop (\<lambda>_. False) q r s))"
    unfolding stop by (intro live_below_mono) simp
  then show ?thesis
    using w sp k unfolding stop by (simp add: waits_def same_but_def chosen_def)
qed

lemma waits_step:
  assumes st: "sys_step {\<lambda>_. False} {line. parse_line line \<noteq> Exit} s t" and w: "waits k j s"
  shows "waits k j t"
proof -
  have n: "sys_ok s" "0 \<le> ncpu s"
    using w by (simp_all add: waits_def)
  note ok = step_ok [OF st n]
  show ?thesis
    using st
  proof (cases rule: sys_step.cases)
    case (pick n)
    then show ?thesis
      using pick_waits [OF w pick(2)] ok w by (simp add: waits_def)
  next
    case (stop q r exited)
    then show ?thesis
      using stop_waits [OF w stop(2)] ok w by (simp add: waits_def)
  next
    case (reserve line prog)
    have "live_below k t = live_below k s"
      using w reserve by (auto simp: live_below_def waits_def shell_reserve_def nth_append)
    then show ?thesis
      using w ok reserve by (auto simp: waits_def shell_reserve_def nth_append chosen_def)
  next
    case (fill prog p)
    let ?i = "length (jobs s) - 1"
    have k: "k < ?i"
      using w fill by (simp add: waits_def)
    then have j: "jobs t ! i = jobs s ! i" if "i \<le> k" for i
      using that fill by (simp add: shell_fill_def upd_job_def)
    then have "live_below k t = live_below k s"
      by (auto simp: live_below_def)
    then show ?thesis
      using w ok fill j [of k] by (simp add: waits_def shell_fill_def upd_job_def chosen_def)
  qed (use w in \<open>auto simp: waits_def\<close>)
qed

section \<open>Properties\<close>


definition two_jobs :: sched_sys where
  "two_jobs = shell_fill ''b'' 12 (shell_reserve (shell_fill ''a'' 11 (shell_reserve (init_sys 1))))"

lemma two_jobs_eq: "two_jobs = \<lparr>jobs = [\<lparr>jpid = 11, jname = ''a'', jstate = 0, run_time_slices = 0, wait_time_slices = 0\<rparr>,
    \<lparr>jpid = 12, jname = ''b'', jstate = 0, run_time_slices = 0, wait_time_slices = 0\<rparr>], ncpu = 1, scheduler_running = True,
    sphase = Idle 0, filling = False, signals = []\<rparr>"
  by (simp add: two_jobs_def shell_fill_def shell_reserve_def upd_job_def init_sys_def zero_job_def)

lemma two_jobs_reach: "sys_reach UNIV UNIV (init_sys 1) two_jobs"
proof -
  let ?s1 = "shell_reserve (init_sys 1)" and ?s2 = "shell_fill ''a'' 11 (shell_reserve (init_sys 1))"
  have sub: "parse_line ''submit a'' = Submit ''a''"
    by (simp add: parse_line_def)
  have "sys_reach UNIV UNIV (init_sys 1) ?s1"
    by (rule sys_reach.step [OF sys_reach.start sys_step.reserve [OF _ sub]]) (simp_all add: init_sys_def MAX_JOBS_def)
  then have "sys_reach UNIV UNIV (init_sys 1) ?s2"
    by (rule sys_reach.step [OF _ sys_step.fill]) (simp add: shell_reserve_def)
  then have "sys_reach UNIV UNIV (init_sys 1) (shell_reserve ?s2)"
    by (rule sys_reach.step [OF _ sys_step.reserve [OF _ sub]])
       (simp_all add: shell_fill_def shell_reserve_def upd_job_def init_sys_def MAX_JOBS_def)
  then show ?thesis
    unfolding two_jobs_def by (rule sys_reach.step [OF _ sys_step.fill]) (simp add: shell_reserve_def)
qed




text \<open>
  The shell counts a new job before it writes the job's fields: there is a run in which the
  scheduler sees the empty entry in between and sends \<open>SIGSTOP\<close> to process 0, which stops its whole
  process group, the shell and the scheduler included.
\<close>

lemma half_written_job_is_signalled:
  "\<exists>s. sys_reach {\<lambda>_. False} {''submit a''} (init_sys 1) s \<and> (0, SIGSTOP) \<in> set (signals s)"
proof -
  let ?R = "sys_reach {\<lambda>_. False} {''submit a''} (init_sys 1)" and ?s1 = "shell_reserve (init_sys 1)"
  have sub: "parse_line ''submit a'' = Submit ''a''"
    by (simp add: parse_line_def)
  have s1: "?s1 = \<lparr>jobs = [zero_job], ncpu = 1, scheduler_running = True, sphase = Idle 0, filling = True, signals = []\<rparr>"
    by (simp add: shell_reserve_def init_sys_def)
  have "?R ?s1"
    by (rule sys_reach.step [OF sys_reach.start sys_step.reserve [OF _ sub]]) (simp_all add: init_sys_def MAX_JOBS_def)
  then have r2: "?R (sched_pick ?s1)"
    by (rule sys_reach.step [OF _ sys_step.pick [of _ 0]]) (simp_all add: s1)
  have p: "sched_pick ?s1 = \<lparr>jobs = [zero_job\<lparr>jstate := 1\<rparr>], ncpu = 1, scheduler_running = True, sphase = Slice [0] 1,
      filling = True, signals = [(0, SIGCONT)]\<rparr>"
    by (simp add: s1 sched_pick_def ready_queue_def running_count_def zero_job_def upd_job_def send_signal_def)
  have "?R (sched_stop (\<lambda>_. False) [0] 1 (sched_pick ?s1))"
    by (rule sys_reach.step [OF r2 sys_step.stop]) (simp_all add: p)
  moreover have "(0, SIGSTOP) \<in> set (signals (sched_stop (\<lambda>_. False) [0] 1 (sched_pick ?s1)))"
    by (simp add: p sched_stop_def zero_job_def upd_job_def send_signal_def)
  ultimately show ?thesis
    by blast
qed

end
