(* ===== verification/Job_Exit.thy ===== *)
theory Job_Exit
  imports Job_Props
begin

text \<open>The end of the job scheduler: after \<open>exit\<close> its loop stops, whatever the processes do.\<close>

definition ready_count :: "sched_sys \<Rightarrow> nat" where
  "ready_count s = length (ready_queue s)"

text \<open>What is left to do after \<open>exit\<close>.\<close>

definition to_do :: "sched_sys \<Rightarrow> nat" where
  "to_do s = (case sphase s of
       Returned \<Rightarrow> 0
     | Idle n \<Rightarrow> if n = 0 then 1 else 2 * ready_count s + 2
     | Slice q r \<Rightarrow> 2 * ready_count s + 3)"

lemma ready_count_card: "ready_count s = card {i. i < length (jobs s) \<and> jstate (jobs s ! i) = 0}"
  unfolding ready_count_def using distinct_card [OF ready_queue_distinct] by (simp add: ready_queue_set)

lemma to_do_bound: "length (jobs s) \<le> MAX_JOBS \<Longrightarrow> to_do s \<le> 203"
proof -
  assume "length (jobs s) \<le> MAX_JOBS"
  moreover have "ready_count s \<le> length (jobs s)"
    unfolding ready_count_def ready_queue_def using length_filter_le [of _ "[0 ..< length (jobs s)]"] by simp
  ultimately show ?thesis
    by (auto simp: to_do_def MAX_JOBS_def split: phase.split)
qed

text \<open>The jobs of a slice are not ready when it begins, and killed when it ends.\<close>

lemma pick_ready:
  assumes "1 \<le> ncpu s" "ready_queue s \<noteq> []"
  shows "ready_count (sched_pick s) < ready_count s" "\<exists>q r. sphase (sched_pick s) = Slice q r"
proof -
  let ?q = "ready_queue s" and ?r = "running_count s (ready_queue s)"
  let ?t = "start_jobs (take ?r ?q) s"
  have b: "\<forall>i \<in> set (take ?r ?q). i < length (jobs s)" "distinct (take ?r ?q)"
    using set_take_subset' [of ?r ?q] ready_queue_set [of s] ready_queue_distinct [of s] by auto
  note sp = start_jobs_spec [OF b]
  have pick: "sched_pick s = ?t\<lparr>sphase := Slice ?q ?r\<rparr>"
    using assms(2) by (simp add: sched_pick_def Let_def)
  then show "\<exists>q r. sphase (sched_pick s) = Slice q r"
    by simp
  have "hd ?q \<in> set (take ?r ?q)" "hd ?q \<in> set ?q"
    using assms by (cases ?q; force simp: running_count_def take_Cons')+
  have l: "length (jobs ?t) = length (jobs s)"
    using sp by (simp add: same_but_def)
  have sub: "jstate (jobs s ! i) = 0" if "i < length (jobs s)" "jstate (jobs ?t ! i) = 0" for i
    using sp that by (cases "i \<in> set (take ?r ?q)") (auto simp: same_but_def)
  have "jstate (jobs ?t ! hd ?q) = 1"
    using sp \<open>hd ?q \<in> set (take ?r ?q)\<close> by simp
  moreover have "hd ?q < length (jobs s)" "jstate (jobs s ! hd ?q) = 0"
    using \<open>hd ?q \<in> set ?q\<close> by (simp_all add: ready_queue_set)
  ultimately have "hd ?q \<in> {i. i < length (jobs s) \<and> jstate (jobs s ! i) = 0} - {i. i < length (jobs ?t) \<and> jstate (jobs ?t ! i) = 0}"
    by simp
  moreover have "{i. i < length (jobs ?t) \<and> jstate (jobs ?t ! i) = 0} \<subseteq> {i. i < length (jobs s) \<and> jstate (jobs s ! i) = 0}"
    using l sub by auto
  ultimately have "{i. i < length (jobs ?t) \<and> jstate (jobs ?t ! i) = 0} \<subset> {i. i < length (jobs s) \<and> jstate (jobs s ! i) = 0}"
    by blast
  then have "card {i. i < length (jobs ?t) \<and> jstate (jobs ?t ! i) = 0} < card {i. i < length (jobs s) \<and> jstate (jobs s ! i) = 0}"
    by (intro psubset_card_mono) simp_all
  then show "ready_count (sched_pick s) < ready_count s"
    by (simp add: ready_count_card pick)
qed

lemma stop_ready:
  assumes "sys_ok s" "sphase s = Slice q r" "\<not> scheduler_running s"
  shows "ready_count (sched_stop exited q r s) \<le> ready_count s" "\<exists>n. sphase (sched_stop exited q r s) = Idle n"
proof -
  have b: "\<forall>i \<in> set (take r q). i < length (jobs s)" "distinct (take r q)"
    using assms set_take_subset' [of r q] by (auto simp: sys_ok_def)
  note sp = stop_jobs_spec [OF b, of exited]
  let ?t = "snd (stop_jobs exited (take r q) s)"
  have stop: "sched_stop exited q r s = ?t\<lparr>sphase := Idle (fst (stop_jobs exited (take r q) s) + (length q - r))\<rparr>"
    by (simp add: sched_stop_def case_prod_beta)
  then show "\<exists>n. sphase (sched_stop exited q r s) = Idle n"
    by simp
  have l: "length (jobs ?t) = length (jobs s)"
    using sp by (simp add: same_but_def)
  have "jstate (jobs s ! i) = 0" if "i < length (jobs s)" "jstate (jobs ?t ! i) = 0" for i
    using sp that assms(3) by (cases "i \<in> set (take r q)") (auto simp: same_but_def)
  then have "{i. i < length (jobs ?t) \<and> jstate (jobs ?t ! i) = 0} \<subseteq> {i. i < length (jobs s) \<and> jstate (jobs s ! i) = 0}"
    using l by auto
  then have "card {i. i < length (jobs ?t) \<and> jstate (jobs ?t ! i) = 0} \<le> card {i. i < length (jobs s) \<and> jstate (jobs s ! i) = 0}"
    by (intro card_mono) simp_all
  then show "ready_count (sched_stop exited q r s) \<le> ready_count s"
    by (simp add: ready_count_card stop)
qed

lemma same_running:
  "scheduler_running (sched_pick s) = scheduler_running s" "filling (sched_pick s) = filling s"
  "scheduler_running (sched_stop exited q r s) = scheduler_running s" "filling (sched_stop exited q r s) = filling s"
proof -
  have "scheduler_running (start_jobs q s) = scheduler_running s \<and> filling (start_jobs q s) = filling s" for q s
    by (induction q arbitrary: s) (simp_all add: upd_job_def send_signal_def)
  then show "scheduler_running (sched_pick s) = scheduler_running s" "filling (sched_pick s) = filling s"
    by (simp_all add: sched_pick_def Let_def)
  have "scheduler_running (snd (stop_jobs e q s)) = scheduler_running s \<and> filling (snd (stop_jobs e q s)) = filling s" for e q s
    by (induction q arbitrary: s) (simp_all add: upd_job_def send_signal_def Let_def case_prod_beta)
  then show "scheduler_running (sched_stop exited q r s) = scheduler_running s" "filling (sched_stop exited q r s) = filling s"
    by (simp_all add: sched_stop_def case_prod_beta)
qed

text \<open>The states after \<open>exit\<close>.\<close>

definition ending :: "sched_sys \<Rightarrow> bool" where
  "ending s \<longleftrightarrow> sys_ok s \<and> 1 \<le> ncpu s \<and> \<not> scheduler_running s \<and> \<not> filling s"

lemma ending_step:
  assumes "sys_step ex lines s t" "ending s" "t \<noteq> s"
  shows "ending t \<and> to_do t < to_do s"
proof -
  have e: "sys_ok s" "1 \<le> ncpu s" "\<not> scheduler_running s" "\<not> filling s"
    using assms(2) by (simp_all add: ending_def)
  have t: "sys_ok t" "ncpu t = ncpu s"
    using step_ok [OF assms(1) e(1)] e(2) by simp_all
  from assms(1) show ?thesis
  proof (cases rule: sys_step.cases)
    case (pick n)
    have "n \<noteq> 0"
      using pick e(3) by simp
    then have "to_do t < to_do s"
    proof (cases "ready_queue s = []")
      case True
      then show ?thesis
        using pick \<open>n \<noteq> 0\<close> by (simp add: to_do_def sched_pick_def)
    next
      case False
      then show ?thesis
        using pick \<open>n \<noteq> 0\<close> pick_ready [OF e(2) False] by (auto simp: to_do_def)
    qed
    then show ?thesis
      using t e pick same_running by (simp add: ending_def)
  next
    case (return)
    then show ?thesis
      using t e by (simp add: ending_def to_do_def)
  next
    case (stop q r exited)
    have "to_do t < to_do s"
      using stop stop_ready [OF e(1) _ e(3), of q r exited] by (auto simp: to_do_def)
    then show ?thesis
      using t e stop same_running by (simp add: ending_def)
  qed (use e assms(3) in \<open>auto simp: shell_exit_def\<close>)
qed

lemma ending_progress:
  assumes "ending s" "ex \<noteq> {}" "sphase s \<noteq> Returned"
  shows "\<exists>t. sys_step ex lines s t \<and> t \<noteq> s"
proof -
  obtain exited where ex: "exited \<in> ex"
    using assms(2) by blast
  have e: "sys_ok s" "1 \<le> ncpu s" "\<not> scheduler_running s"
    using assms(1) by (simp_all add: ending_def)
  show ?thesis
  proof (cases "sphase s")
    case (Idle n)
    show ?thesis
    proof (cases n)
      case 0
      then have "sys_step ex lines s (s\<lparr>sphase := Returned\<rparr>)"
        using Idle e(3) by (intro sys_step.return) simp_all
      moreover have "s\<lparr>sphase := Returned\<rparr> \<noteq> s"
        using Idle by (metis phase.distinct(3) sched_sys.select_convs(4) sched_sys.surjective sched_sys.update_convs(4))
      ultimately show ?thesis
        by blast
    next
      case (Suc m)
      have "sys_step ex lines s (sched_pick s)"
        using Idle Suc sys_step.pick [of s n ex lines] by simp
      moreover have "sphase (sched_pick s) \<noteq> sphase s"
        using Idle Suc pick_ready(2) [OF e(2)] by (cases "ready_queue s = []") (auto simp: sched_pick_def)
      ultimately show ?thesis
        by metis
    qed
  next
    case (Slice q r)
    have "sys_step ex lines s (sched_stop exited q r s)"
      using Slice e(2) ex by (intro sys_step.stop) simp_all
    moreover have "sphase (sched_stop exited q r s) \<noteq> sphase s"
      using Slice stop_ready(2) [OF e(1) Slice e(3), of exited] by auto
    ultimately show ?thesis
      by metis
  qed (use assms(3) in simp)
qed

lemma ending_returns:
  assumes "ending s" "ex \<noteq> {}"
  shows "\<exists>t. sys_reach ex lines s t \<and> sphase t = Returned \<and> ending t"
proof -
  have "\<exists>t. sys_reach ex lines s t \<and> sphase t = Returned \<and> ending t" if "sys_reach ex lines s u" "ending u" for u
    using that
  proof (induction "to_do u" arbitrary: u rule: less_induct)
    case less
    show ?case
    proof (cases "sphase u = Returned")
      case False
      then obtain v where v: "sys_step ex lines u v" "v \<noteq> u"
        using ending_progress [OF less.prems(2) assms(2)] by blast
      then show ?thesis
        using less.hyps [of v] ending_step [OF v(1) less.prems(2) v(2)] sys_reach.step [OF less.prems(1) v(1)] by blast
    qed (use less.prems in blast)
  qed
  then show ?thesis
    using assms(1) sys_reach.start by blast
qed

lemma ending_chain:
  "((\<lambda>s t. sys_step ex lines s t \<and> t \<noteq> s) ^^ k) s t \<Longrightarrow> ending s \<Longrightarrow> ending t \<and> k + to_do t \<le> to_do s"
proof (induction k arbitrary: t)
  case (Suc k)
  then obtain u where u: "((\<lambda>s t. sys_step ex lines s t \<and> t \<noteq> s) ^^ k) s u" "sys_step ex lines u t" "t \<noteq> u"
    by auto
  then show ?case
    using Suc.IH [OF u(1) Suc.prems(2)] ending_step [OF u(2) _ u(3)] by fastforce
qed simp

text \<open>The shell is never between counting a job and filling its entry when it ends.\<close>

lemma reach_filling: "sys_reach ex lines s0 s \<Longrightarrow> scheduler_running s0 \<Longrightarrow> scheduler_running s \<or> \<not> filling s"
proof (induction rule: sys_reach.induct)
  case (step s t)
  from step(2) step(3) [OF step(4)] show ?case
    by (cases rule: sys_step.cases) (auto simp: same_running shell_reserve_def shell_fill_def shell_exit_def upd_job_def)
qed simp

text \<open>
  C23. The scheduler ends after \<open>exit\<close>: with at least one processor, from any reachable state in which
  the shell has left its loop, no run goes on for more than 203 steps that change anything, the
  scheduler's loop can always be run to its return, and then no job is marked as running.
\<close>

theorem exit_ends_scheduler:
  assumes "sys_reach ex lines (init_sys n) s" "1 \<le> n" "\<not> scheduler_running s" "ex \<noteq> {}"
  shows "(\<forall>k t. ((\<lambda>s t. sys_step ex lines s t \<and> t \<noteq> s) ^^ k) s t \<longrightarrow> k \<le> 203) \<and>
    (\<exists>t. sys_reach ex lines s t \<and> sphase t = Returned \<and> (\<forall>i < length (jobs t). jstate (jobs t ! i) \<noteq> 1))"
proof -
  have "sys_ok (init_sys n)" "ncpu (init_sys n) = n" "scheduler_running (init_sys n)"
    by (simp_all add: sys_ok_def init_sys_def)
  then have e: "ending s"
    using reach_ok [OF assms(1)] reach_filling [OF assms(1)] assms(2,3) by (simp add: ending_def)
  have "to_do s \<le> 203"
    using e to_do_bound [of s] by (simp add: ending_def sys_ok_def)
  moreover have "jstate (jobs t ! i) \<noteq> 1" if "ending t" "sphase t = Returned" "i < length (jobs t)" for t i
    using that sys_ok_state(2) [of t i] by (auto simp: ending_def chosen_def)
  ultimately show ?thesis
    using ending_chain [OF _ e] ending_returns [OF e assms(4)] by fastforce
qed

text \<open>Two jobs, one of them running, when the shell ends.\<close>

theorem exit_ends_scheduler_witness:
  "\<exists>t. sys_reach UNIV UNIV (shell_exit (sched_pick two_jobs)) t \<and> sphase t = Returned \<and>
     \<not> (\<exists>u. ((\<lambda>s t. sys_step UNIV UNIV s t \<and> t \<noteq> s) ^^ 204) (shell_exit (sched_pick two_jobs)) u)"
proof -
  have "sys_reach UNIV UNIV (init_sys 1) (sched_pick two_jobs)"
    by (rule sys_reach.step [OF two_jobs_reach sys_step.pick [of _ 0]]) (simp_all add: two_jobs_eq)
  moreover have "sys_step UNIV UNIV (sched_pick two_jobs) (shell_exit (sched_pick two_jobs))"
    by (rule sys_step.exit [of "''exit''"]) (simp_all add: parse_line_def same_running two_jobs_eq)
  ultimately have "sys_reach UNIV UNIV (init_sys 1) (shell_exit (sched_pick two_jobs))"
    by (rule sys_reach.step)
  from exit_ends_scheduler [OF this] show ?thesis
    by (fastforce simp: shell_exit_def)
qed

end
