(* ===== verification/Job_Start.thy ===== *)
theory Job_Start
  imports Job_Exit Cstring
begin

text \<open>
  The ends of the programs of group-16-3: how the shell and the scheduler start, how the shell reads its
  commands, and the \<open>main\<close> of a job (dummy_main.h), which waits for the scheduler's signal.
\<close>

section \<open>Starting the shell and the scheduler\<close>

datatype start = Exits string | Runs sched_sys int

text \<open>What \<open>shmget\<close> and \<open>shmat\<close> answer is given as whether they succeed; a child that cannot run the scheduler ends.\<close>

definition shell_start :: "string list \<Rightarrow> bool \<Rightarrow> bool \<Rightarrow> start" where
  "shell_start argv shmget_ok shmat_ok =
     (if length argv \<noteq> 3 then Exits (''Usage: '' @ argv ! 0 @ '' <NCPU> <TSLICE(ms)>'')
      else let ncpu = atoi (argv ! 1); tslice = atoi (argv ! 2) in
        if \<not> shmget_ok then Exits ''shmget''
        else if \<not> shmat_ok then Exits ''shmat''
        else Runs (init_sys ncpu) tslice)"

text \<open>The scheduler attaches to the shell's memory.\<close>

definition scheduler_start :: "bool \<Rightarrow> bool \<Rightarrow> sched_sys \<Rightarrow> start" where
  "scheduler_start shmget_ok shmat_ok s =
     (if \<not> shmget_ok then Exits ''shmget'' else if \<not> shmat_ok then Exits ''shmat'' else Runs (s\<lparr>sphase := Idle 0\<rparr>) 0)"

section \<open>Reading commands\<close>

definition LF :: char where "LF = CHR 0x0A"

text \<open>\<open>fgets\<close>: up to \<open>n - 1\<close> characters, ending after a newline; nothing at the end of the input.\<close>

fun get_chars :: "nat \<Rightarrow> string \<Rightarrow> string \<times> string" where
  "get_chars 0 input = ([], input)"
| "get_chars (Suc n) [] = ([], [])"
| "get_chars (Suc n) (c # cs) =
     (if c = LF then ([c], cs) else let (l, rest) = get_chars n cs in (c # l, rest))"

definition fgets :: "nat \<Rightarrow> string \<Rightarrow> (string \<times> string) option" where
  "fgets n input = (if input = [] then None else Some (get_chars (n - 1) input))"

text \<open>\<open>input[strcspn(input, "\n")] = '\0'\<close>, as the string it leaves.\<close>

definition cut_newline :: "string \<Rightarrow> string" where
  "cut_newline l = takeWhile (\<lambda>c. c \<noteq> LF \<and> c \<noteq> NUL) l"

lemma get_chars_Nil [simp]: "get_chars n [] = ([], [])"
  by (cases n) simp_all

lemma get_chars_rest: "input \<noteq> [] \<Longrightarrow> 0 < n \<Longrightarrow> length (snd (get_chars n input)) < length input"
proof (induction n input rule: get_chars.induct)
  case (3 n c cs)
  then show ?case
    by (cases "n = 0 \<or> cs = []") (auto simp: case_prod_beta less_Suc_eq neq_Nil_conv split: list.splits)
qed simp_all

text \<open>
  The commands of a session, and whether it ends by \<open>exit\<close>: at the end of its input the shell goes on
  asking forever.
\<close>

function session :: "string \<Rightarrow> command list \<times> bool" where
  "session input = (case fgets 256 input of
       None \<Rightarrow> ([], False)
     | Some (l, rest) \<Rightarrow>
         let cmd = parse_line (cut_newline l) in
         if cmd = Exit then ([Exit], True) else let (cmds, e) = session rest in (cmd # cmds, e))"
  by pat_completeness auto
termination
proof (relation "measure length")
  fix input x l rest cmd
  assume "fgets 256 input = Some x" "(l, rest) = x"
  then show "(rest, input) \<in> measure length"
    using get_chars_rest [of input 255] by (auto simp: fgets_def split: if_splits dest: sym)
qed simp

declare session.simps [simp del]

lemma get_chars_line: "LF \<notin> set l \<Longrightarrow> length l < n \<Longrightarrow> get_chars n (l @ LF # rest) = (l @ [LF], rest)"
proof (induction l arbitrary: n)
  case Nil
  then show ?case
    by (cases n) simp_all
next
  case (Cons c l)
  then show ?case
    by (cases n) auto
qed

lemma cut_line: "LF \<notin> set l \<Longrightarrow> NUL \<notin> set l \<Longrightarrow> cut_newline (l @ LF # rest) = l"
  by (induction l) (auto simp: cut_newline_def)

text \<open>Lines that fit the buffer are the commands, up to the first \<open>exit\<close>.\<close>

lemma session_lines:
  assumes "\<forall>l \<in> set ls. LF \<notin> set l \<and> NUL \<notin> set l \<and> length l < 255"
  shows "session (concat (map (\<lambda>l. l @ [LF]) ls)) =
    (let cmds = map parse_line ls; before = takeWhile (\<lambda>c. c \<noteq> Exit) cmds in
     if Exit \<in> set cmds then (before @ [Exit], True) else (cmds, False))"
  using assms
proof (induction ls)
  case (Cons l ls)
  have "fgets 256 (concat (map (\<lambda>l. l @ [LF]) (l # ls))) = Some (l @ [LF], concat (map (\<lambda>l. l @ [LF]) ls))"
    using Cons.prems get_chars_line [of l 255] by (simp add: fgets_def)
  moreover have "cut_newline (l @ [LF]) = l"
    using Cons.prems cut_line [of l "[]"] by simp
  ultimately show ?case
    using Cons by (subst session.simps) (auto simp: Let_def)
qed (simp add: session.simps fgets_def)

text \<open>A longer line is taken for several commands: its tail is parsed on its own.\<close>

lemma long_line_is_two_commands:
  "session (''submit '' @ replicate 248 CHR ''a'' @ ''exit'' @ [LF]) = ([Submit (replicate 248 CHR ''a''), Exit], True)"
  by code_simp

section \<open>The process of a job\<close>

text \<open>
  \<open>pause\<close> returns only after a signal for which the process has a handler; stopping and continuing a
  process does not end it.
\<close>

datatype disposition = Default | Handler

datatype job_point = Starting | Pausing | In_Dummy_Main | Ended

record job_process =
  job_point :: job_point
  on_sigcont :: disposition
  stopped :: bool

definition job_start :: job_process where
  "job_start = \<lparr>job_point = Starting, on_sigcont = Default, stopped = False\<rparr>"

text \<open>What the process does by itself: \<open>signal(SIGCONT, SIG_DFL); pause();\<close>, and later the end of the program.\<close>

definition job_runs :: "job_process \<Rightarrow> job_process" where
  "job_runs p = (case job_point p of
       Starting \<Rightarrow> p\<lparr>on_sigcont := Default, job_point := Pausing\<rparr>
     | In_Dummy_Main \<Rightarrow> p\<lparr>job_point := Ended\<rparr>
     | _ \<Rightarrow> p)"

definition job_signal :: "signal \<Rightarrow> job_process \<Rightarrow> job_process" where
  "job_signal sig p = (case sig of
       SIGSTOP \<Rightarrow> p\<lparr>stopped := True\<rparr>
     | SIGKILL \<Rightarrow> p\<lparr>job_point := Ended\<rparr>
     | SIGCONT \<Rightarrow>
         (if job_point p = Pausing \<and> on_sigcont p = Handler then p\<lparr>stopped := False, job_point := In_Dummy_Main\<rparr>
          else p\<lparr>stopped := False\<rparr>))"

inductive job_step :: "job_process \<Rightarrow> job_process \<Rightarrow> bool" where
  run: "\<not> stopped p \<Longrightarrow> job_step p (job_runs p)"
| signalled: "job_step p (job_signal sig p)"

text \<open>With the default action for \<open>SIGCONT\<close> no signal of the scheduler ends the \<open>pause\<close>: the job's own \<open>main\<close> is never called.\<close>

lemma job_never_starts:
  assumes "job_step\<^sup>*\<^sup>* job_start p"
  shows "job_point p \<noteq> In_Dummy_Main"
proof -
  have "job_point p \<noteq> In_Dummy_Main \<and> on_sigcont p = Default"
    using assms
  proof (induction rule: rtranclp_induct)
    case (step p q)
    from step(2) step(3) show ?case
      by (cases rule: job_step.cases) (auto simp: job_runs_def job_signal_def split: job_point.splits signal.splits)
  qed (simp add: job_start_def)
  then show ?thesis ..
qed

end
