(* ===== verification/Pipe_Shell.thy ===== *)
theory Pipe_Shell
  imports Cstring
begin

text \<open>
  The shell of group-16/simple-shell.c.c (group-16-2 holds the same file): tokens, history, and the
  launch of a command or of a pipeline of two or three. What \<open>fork\<close> and \<open>time\<close> answer is an argument;
  the outcome of a line is what it prints or the argument vectors its processes get.
\<close>

section \<open>State\<close>

definition MAX_INPUT_SIZE :: nat where "MAX_INPUT_SIZE = 1000"
definition MAX_HISTORY_SIZE :: nat where "MAX_HISTORY_SIZE = 500"

text \<open>\<open>history_count\<close> is the length of \<open>history\<close>; the other arrays have 500 entries and a counter each.\<close>

record shell =
  history :: "string list"
  process_pid :: "int list"
  pid_count :: nat
  start_time :: "int list"
  start_count :: nat
  execution_time :: "int list"
  exec_time :: nat

definition init_shell :: shell where
  "init_shell = \<lparr>history = [], process_pid = replicate MAX_HISTORY_SIZE 0, pid_count = 0,
     start_time = replicate MAX_HISTORY_SIZE 0, start_count = 0,
     execution_time = replicate MAX_HISTORY_SIZE 0, exec_time = 0\<rparr>"

section \<open>Strings\<close>

definition trailing :: "char \<Rightarrow> bool" where
  "trailing c \<longleftrightarrow> c \<in> {CHR '' '', CHR 0x09, CHR 0x0A, CHR 0x0D}"

text \<open>The first character after the leading spaces is never removed.\<close>

definition trim :: "string \<Rightarrow> string" where
  "trim str = (case dropWhile (\<lambda>c. c = CHR '' '') str of
     [] \<Rightarrow> [] | c # cs \<Rightarrow> c # rev (dropWhile trailing (rev cs)))"

text \<open>\<open>strtok\<close> with spaces: the words of the line, in order.\<close>

definition parseInput :: "string \<Rightarrow> string list" where
  "parseInput input = words_from [] input"

section \<open>History\<close>

text \<open>Moving every entry down by one; the last entry keeps its value.\<close>

definition shift_array :: "'a list \<Rightarrow> 'a list" where
  "shift_array xs = (if xs = [] then [] else tl xs @ [last xs])"

definition addToHistory :: "string \<Rightarrow> shell \<Rightarrow> shell" where
  "addToHistory command s =
     (if length (history s) < MAX_HISTORY_SIZE then s\<lparr>history := history s @ [command]\<rparr>
      else s\<lparr>history := tl (history s) @ [command], process_pid := shift_array (process_pid s),
         start_time := shift_array (start_time s), execution_time := shift_array (execution_time s)\<rparr>)"

section \<open>Launching\<close>

record answers =
  pipe_ok :: bool
  pid1 :: int
  pid2 :: int
  pid3 :: int
  t_start :: int
  t_end :: int

text \<open>\<open>process_pid[pid_count++] = p\<close>: past the end of the array this overwrites other memory.\<close>

definition record_pid :: "int \<Rightarrow> shell \<Rightarrow> fault + shell" where
  "record_pid p s = (if pid_count s < MAX_HISTORY_SIZE
     then Inr (s\<lparr>process_pid := (process_pid s)[pid_count s := p], pid_count := Suc (pid_count s)\<rparr>) else Inl Undefined)"

definition record_times :: "int \<Rightarrow> int \<Rightarrow> shell \<Rightarrow> fault + shell" where
  "record_times t0 t1 s = (if exec_time s < MAX_HISTORY_SIZE \<and> start_count s < MAX_HISTORY_SIZE
     then Inr (s\<lparr>execution_time := (execution_time s)[exec_time s := t1 - t0], exec_time := Suc (exec_time s),
       start_time := (start_time s)[start_count s := t0], start_count := Suc (start_count s)\<rparr>) else Inl Undefined)"

text \<open>A failing \<open>fork\<close> is reported and the shell goes on.\<close>

definition launch :: "answers \<Rightarrow> shell \<Rightarrow> fault + shell" where
  "launch a s = (if pid1 a < 0 then Inr s
     else bindr (record_pid (pid1 a) s) (record_times (t_start a) (t_end a)))"

text \<open>The two pipeline launchers exit when \<open>pipe\<close> or \<open>fork\<close> fails; the longer one records no process.\<close>

definition launch_pipe :: "answers \<Rightarrow> shell \<Rightarrow> fault + shell" where
  "launch_pipe a s =
     (if \<not> pipe_ok a then Inl (Fatal ''Piping error'')
      else if pid1 a < 0 then Inl (Fatal ''Forking error 1'')
      else if pid2 a < 0 then Inl (Fatal ''Forking error 2'')
      else bindr (record_pid (pid2 a) s) (record_times (t_start a) (t_end a)))"

definition launch_pip2 :: "answers \<Rightarrow> shell \<Rightarrow> fault + shell" where
  "launch_pip2 a s =
     (if \<not> pipe_ok a then Inl (Fatal ''Pipe creation error'')
      else if pid1 a < 0 then Inl (Fatal ''Forking error 1'')
      else if pid2 a < 0 then Inl (Fatal ''Forking error 2'')
      else if pid3 a < 0 then Inl (Fatal ''Forking error 3'')
      else record_times (t_start a) (t_end a) s)"

section \<open>Argument vectors\<close>

text \<open>An entry of a local array of pointers.\<close>

datatype slot = Uninit | Null | Ptr string

definition slots :: "string list \<Rightarrow> nat \<Rightarrow> nat \<Rightarrow> slot" where
  "slots toks nullpos i = (if i = nullpos then Null else if i < length toks then Ptr (toks ! i) else Uninit)"

text \<open>What \<open>execvp\<close> reads: the strings up to the null pointer; an uninitialised entry is undefined.\<close>

fun read_argv :: "nat \<Rightarrow> (nat \<Rightarrow> slot) \<Rightarrow> nat \<Rightarrow> fault + string list" where
  "read_argv 0 arr i = Inl Undefined"
| "read_argv (Suc n) arr i = (case arr i of
     Null \<Rightarrow> Inr [] | Uninit \<Rightarrow> Inl Undefined | Ptr x \<Rightarrow> bindr (read_argv n arr (i + 1)) (\<lambda>xs. Inr (x # xs)))"

text \<open>The program is the first of them, so an empty vector gives \<open>execvp\<close> a null path.\<close>

definition exec_argv :: "(nat \<Rightarrow> slot) \<Rightarrow> fault + string list" where
  "exec_argv arr = bindr (read_argv MAX_INPUT_SIZE arr 0) (\<lambda>xs. if xs = [] then Inl Undefined else Inr xs)"

text \<open>
  \<open>while (strcmp(parameters[temp], "|") != 0)\<close>: the tokens before the bar and those after it; without
  a bar the loop compares the null pointer.
\<close>

fun upto_bar :: "string list \<Rightarrow> fault + (string list \<times> string list)" where
  "upto_bar [] = Inl Undefined"
| "upto_bar (t # ts) = (if t = ''|'' then Inr ([], ts)
     else bindr (upto_bar ts) (\<lambda>(a, b). Inr (t # a, b)))"

section \<open>A line\<close>

datatype outcome =
    Ignored
  | Listed "string list"
  | is_Summary: Summary "(string \<times> int \<times> int \<times> int) list"
  | Refused
  | Ran "(fault + string list) list"

definition summary :: "shell \<Rightarrow> (string \<times> int \<times> int \<times> int) list" where
  "summary s = map (\<lambda>i. (history s ! i, process_pid s ! i, start_time s ! i, execution_time s ! i)) [0 ..< length (history s)]"

text \<open>\<open>counter\<close> is the number of tokens plus one, for the null pointer that ends them.\<close>

definition run_pipeline :: "answers \<Rightarrow> nat \<Rightarrow> string list \<Rightarrow> shell \<Rightarrow> fault + (outcome \<times> shell)" where
  "run_pipeline a bars toks s =
     (let counter = length toks + 1 in
      if bars = 1 then
        bindr (upto_bar toks) (\<lambda>(c1, c2).
        bindr (launch_pipe a s) (\<lambda>s1.
          Inr (Ran [exec_argv (slots c1 (length c1)), exec_argv (slots c2 counter)], s1)))
      else if bars = 2 then
        bindr (upto_bar toks) (\<lambda>(c1, rest).
        bindr (upto_bar rest) (\<lambda>(c2, c3).
        bindr (launch_pip2 a s) (\<lambda>s1.
          Inr (Ran [exec_argv (slots c1 (length c1)), exec_argv (slots c2 counter), exec_argv (slots c3 counter)], s1))))
      else Inr (Refused, s))"

text \<open>One iteration of the loop of \<open>main\<close> on the line that was read.\<close>

definition run_line :: "answers \<Rightarrow> string \<Rightarrow> shell \<Rightarrow> fault + (outcome \<times> shell)" where
  "run_line a line s =
     (let input = takeWhile (\<lambda>c. c \<noteq> CHR 0x0A) line in
      if input = [] then Inr (Ignored, s)
      else if input = ''exit'' then Inr (Summary (summary s), s)
      else if input = ''history'' then Inr (Listed (history s), s)
      else
        let s1 = addToHistory input s; bars = length (filter (\<lambda>c. c = CHR ''|'') input); toks = parseInput input in
        if bars > 0 then run_pipeline a bars toks s1
        else bindr (launch a s1) (\<lambda>s2. Inr (Ran [exec_argv (slots toks (length toks))], s2)))"

text \<open>The loop of \<open>main\<close> ends at the end of the input, or at \<open>exit\<close> after its summary.\<close>

fun run_lines :: "(answers \<times> string) list \<Rightarrow> shell \<Rightarrow> fault + (outcome list \<times> shell)" where
  "run_lines [] s = Inr ([], s)"
| "run_lines ((a, l) # ls) s = bindr (run_line a l s) (\<lambda>(r, s1).
     if is_Summary r then Inr ([r], s1) else bindr (run_lines ls s1) (\<lambda>(rs, s2). Inr (r # rs, s2)))"

end
