(* ===== verification/Pipe_Props.thy ===== *)
theory Pipe_Props
  imports Pipe_Shell
begin

text \<open>
  What the shell of group-16/simple-shell.c.c does with plain commands and with pipelines.
\<close>

section \<open>Tokens\<close>


text \<open>Words with spaces around them: \<open>n\<close> spaces before each word, one more after it.\<close>

definition spaced :: "(nat \<times> string) list \<Rightarrow> nat \<Rightarrow> string" where
  "spaced ws m = concat (map (\<lambda>(n, w). replicate n CHR '' '' @ w @ '' '') ws) @ replicate m CHR '' ''"

lemma parseInput_spaced:
  "\<forall>(n, w) \<in> set ws. w \<noteq> [] \<and> CHR '' '' \<notin> set w \<Longrightarrow> parseInput (spaced ws m) = map snd ws"
proof (induction ws)
  case Nil
  show ?case
    using words_from_spaces [of m "[]"] by (simp add: parseInput_def spaced_def)
next
  case (Cons e ws)
  obtain n w where e: "e = (n, w)" "w \<noteq> []" "CHR '' '' \<notin> set w"
    using Cons.prems by (cases e) auto
  have "spaced (e # ws) m = replicate n CHR '' '' @ w @ CHR '' '' # spaced ws m"
    by (simp add: spaced_def e)
  then have "parseInput (spaced (e # ws) m) = words_from w (CHR '' '' # spaced ws m)"
    by (simp add: parseInput_def words_from_spaces words_from_word e)
  then show ?case
    using Cons e by (simp add: parseInput_def)
qed

section \<open>Argument vectors\<close>

lemma read_argv_terminated:
  "i \<le> length toks \<Longrightarrow> length toks - i < n \<Longrightarrow> read_argv n (slots toks (length toks)) i = Inr (drop i toks)"
proof (induction n arbitrary: i)
  case (Suc n)
  then show ?case
    by (cases "i = length toks") (auto simp: slots_def Cons_nth_drop_Suc)
qed simp

lemma exec_argv_terminated:
  "toks \<noteq> [] \<Longrightarrow> length toks < 1000 \<Longrightarrow> exec_argv (slots toks (length toks)) = Inr toks"
  by (simp add: exec_argv_def MAX_INPUT_SIZE_def read_argv_terminated)

lemma read_argv_unterminated:
  "length toks < p \<Longrightarrow> i \<le> length toks \<Longrightarrow> read_argv n (slots toks p) i = Inl Undefined"
proof (induction n arbitrary: i)
  case (Suc n)
  then show ?case
    by (cases "i = length toks") (auto simp: slots_def)
qed simp

lemma exec_argv_unterminated: "length toks < p \<Longrightarrow> exec_argv (slots toks p) = Inl Undefined"
  by (simp add: exec_argv_def read_argv_unterminated)

lemma upto_bar_lengths: "upto_bar toks = Inr (a, b) \<Longrightarrow> length a + length b < length toks"
proof (induction toks arbitrary: a b)
  case (Cons t toks)
  then show ?case
    by (cases "upto_bar toks") (auto simp: less_Suc_eq split: if_splits)
qed simp

lemma upto_bar_none: "''|'' \<notin> set toks \<Longrightarrow> upto_bar toks = Inl Undefined"
  by (induction toks) auto

section \<open>A session of plain commands\<close>

abbreviation entered :: "string \<Rightarrow> string" where
  "entered line \<equiv> takeWhile (\<lambda>c. c \<noteq> CHR 0x0A) line"

definition plain_line :: "string \<Rightarrow> bool" where
  "plain_line line \<longleftrightarrow> parseInput (entered line) \<noteq> [] \<and> length (entered line) < 999 \<and> CHR ''|'' \<notin> set line \<and>
     entered line \<noteq> ''exit'' \<and> entered line \<noteq> ''history''"

text \<open>The arrays after the plain commands \<open>ls\<close>: entry for entry what each was given.\<close>

definition filled :: "int list \<Rightarrow> int list" where
  "filled xs = xs @ replicate (500 - length xs) 0"

definition session :: "(answers \<times> string) list \<Rightarrow> shell" where
  "session ls = \<lparr>history = map (entered \<circ> snd) ls,
     process_pid = filled (map (pid1 \<circ> fst) ls), pid_count = length ls,
     start_time = filled (map (t_start \<circ> fst) ls), start_count = length ls,
     execution_time = filled (map ((\<lambda>a. t_end a - t_start a) \<circ> fst) ls), exec_time = length ls\<rparr>"

lemma filled_update: "length xs < 500 \<Longrightarrow> (filled xs)[length xs := x] = filled (xs @ [x])"
  by (cases "500 - length xs") (auto simp: filled_def)

lemma filled_nth: "i < length xs \<Longrightarrow> filled xs ! i = xs ! i"
  by (simp add: filled_def nth_append)

lemma run_line_plain:
  assumes "plain_line line" "pid1 a \<ge> 0"
  shows "run_line a line s = (let s1 = addToHistory (entered line) s in
    bindr (bindr (record_pid (pid1 a) s1) (record_times (t_start a) (t_end a)))
      (\<lambda>s2. Inr (Ran [Inr (parseInput (entered line))], s2)))"
proof -
  have "entered line \<noteq> []"
    using assms(1) by (auto simp: plain_line_def parseInput_def)
  moreover have "filter (\<lambda>c. c = CHR ''|'') (entered line) = []"
    using assms(1) by (auto simp: plain_line_def filter_empty_conv dest: set_takeWhileD)
  moreover have "exec_argv (slots (parseInput (entered line)) (length (parseInput (entered line)))) = Inr (parseInput (entered line))"
    using assms(1) length_words [of "[]" "entered line"]
    by (intro exec_argv_terminated) (auto simp: plain_line_def parseInput_def)
  ultimately show ?thesis
    using assms by (simp add: run_line_def launch_def Let_def plain_line_def)
qed

lemma run_line_session:
  assumes "plain_line line" "pid1 a \<ge> 0" "length ls < 500"
  shows "run_line a line (session ls) = Inr (Ran [Inr (parseInput (entered line))], session (ls @ [(a, line)]))"
  using assms(3) unfolding run_line_plain [OF assms(1,2)]
  by (simp add: addToHistory_def record_pid_def record_times_def session_def MAX_HISTORY_SIZE_def filled_update [of "map _ ls", simplified] Let_def)

lemma run_line_session_full:
  assumes "plain_line line" "pid1 a \<ge> 0" "length ls = 500"
  shows "run_line a line (session ls) = Inl Undefined"
  unfolding run_line_plain [OF assms(1,2)] using assms(3)
  by (simp add: addToHistory_def record_pid_def session_def MAX_HISTORY_SIZE_def Let_def)

lemma run_lines_session:
  assumes "\<forall>(a, l) \<in> set ls. plain_line l \<and> pid1 a \<ge> 0" "length rs + length ls \<le> 500"
  shows "run_lines ls (session rs) = Inr (map (\<lambda>(a, l). Ran [Inr (parseInput (entered l))]) ls, session (rs @ ls))"
  using assms
proof (induction ls arbitrary: "rs")
  case (Cons x ls)
  obtain a l where x: "x = (a, l)"
    by (cases x)
  have "run_line a l (session rs) = Inr (Ran [Inr (parseInput (entered l))], session (rs @ [x]))"
    using run_line_session Cons.prems by (simp add: x)
  then show ?case
    using Cons.IH [of "rs @ [x]"] Cons.prems by (simp add: x)
qed simp

lemma run_lines_session_full:
  assumes "\<forall>(a, l) \<in> set ls. plain_line l \<and> pid1 a \<ge> 0" "length rs \<le> 500" "500 < length rs + length ls"
  shows "run_lines ls (session rs) = Inl Undefined"
  using assms
proof (induction ls arbitrary: "rs")
  case (Cons x ls)
  obtain a l where x: "x = (a, l)" "plain_line l" "pid1 a \<ge> 0"
    using Cons.prems by (cases x) auto
  show ?case
  proof (cases "length rs = 500")
    case True
    then show ?thesis
      using run_line_session_full x by simp
  next
    case False
    then have "run_line a l (session rs) = Inr (Ran [Inr (parseInput (entered l))], session (rs @ [x]))"
      using run_line_session [of l a "rs"] x Cons.prems by simp
    then show ?thesis
      using Cons.IH [of "rs @ [x]"] Cons.prems False by (simp add: x)
  qed
qed simp

lemma session_Nil: "init_shell = session []"
  by (simp add: init_shell_def session_def filled_def MAX_HISTORY_SIZE_def)

lemma summary_session: "summary (session ls) =
  map (\<lambda>(a, l). (entered l, pid1 a, t_start a, t_end a - t_start a)) ls"
  by (rule nth_equalityI) (simp_all add: summary_def session_def filled_nth case_prod_beta)

section \<open>Properties\<close>

text \<open>
  C24. A session of plain commands: up to 500 of them run with the words of their line as argument
  vector, and the summary then gives each line its own pid, start and duration. The 501st command
  writes past the end of the table of pids, because its counter never goes back when the history
  is shifted.
\<close>

theorem plain_session:
  assumes "\<forall>(a, l) \<in> set ls. plain_line l \<and> pid1 a \<ge> 0"
  shows "if length ls \<le> 500
    then \<exists>s. run_lines ls init_shell = Inr (map (\<lambda>(a, l). Ran [Inr (parseInput (entered l))]) ls, s) \<and>
      summary s = map (\<lambda>(a, l). (entered l, pid1 a, t_start a, t_end a - t_start a)) ls
    else run_lines ls init_shell = Inl Undefined"
  using run_lines_session [OF assms, of "[]"] run_lines_session_full [OF assms, of "[]"] summary_session [of ls]
  by (simp add: session_Nil)

definition some_answers :: answers where
  "some_answers = \<lparr>pipe_ok = True, pid1 = 7, pid2 = 8, pid3 = 9, t_start = 100, t_end = 103\<rparr>"

theorem plain_session_witness:
  "\<exists>s. run_lines [(some_answers, ''ls  -l''), (some_answers, ''pwd'')] init_shell =
     Inr ([Ran [Inr [''ls'', ''-l'']], Ran [Inr [''pwd'']]], s) \<and>
     summary s = [(''ls  -l'', 7, 100, 3), (''pwd'', 7, 100, 3)]"
proof -
  let ?ls = "[(some_answers, ''ls  -l''), (some_answers, ''pwd'')]"
  have p: "\<forall>(a, l) \<in> set ?ls. plain_line l \<and> pid1 a \<ge> 0"
    by (simp add: plain_line_def parseInput_def some_answers_def)
  show ?thesis
    using plain_session [OF p] by (simp add: parseInput_def some_answers_def)
qed

text \<open>
  A pipeline that runs gives only its first process a terminated argument vector. The null
  pointer of the others is stored one past the number of tokens of the whole line, so they read
  entries of a local array that were never written.
\<close>

lemma pipeline_arguments_unterminated:
  assumes "run_line a line s = Inr (Ran argvs, s')" "CHR ''|'' \<in> set (entered line)"
  shows "length argvs = Suc (length (filter (\<lambda>c. c = CHR ''|'') (entered line))) \<and> (\<forall>x \<in> set (tl argvs). x = Inl Undefined)"
proof -
  let ?bars = "length (filter (\<lambda>c. c = CHR ''|'') (entered line))" and ?toks = "parseInput (entered line)"
  have "?bars > 0"
    using assms(2) by (auto simp: filter_empty_conv)
  then have r: "run_pipeline a ?bars ?toks (addToHistory (entered line) s) = Inr (Ran argvs, s')"
    using assms(1) by (simp add: run_line_def Let_def split: if_splits)
  have b: "length b < Suc (length toks)" if "upto_bar toks = Inr (x, b)" for toks x b
    using upto_bar_lengths [OF that] by simp
  have b2: "length x < Suc (length ?toks) \<and> length b < Suc (length ?toks)"
    if "upto_bar ?toks = Inr (u, v)" "upto_bar v = Inr (x, b)" for u v x b
    using upto_bar_lengths [OF that(1)] upto_bar_lengths [OF that(2)] by simp
  show ?thesis
    using r \<open>?bars > 0\<close> exec_argv_unterminated b b2
    by (auto simp: run_pipeline_def Let_def bindr_eq_Inr_iff split: if_splits)
qed

lemma pipeline_arguments_unterminated_example:
  "\<exists>s'. run_line some_answers ''ls | wc'' init_shell = Inr (Ran [Inr [''ls''], Inl Undefined], s')"
proof -
  let ?b = "exec_argv (slots [''wc''] (Suc (Suc (Suc (Suc 0)))))"
  have e: "exec_argv (slots [''ls''] (Suc 0)) = Inr [''ls'']"
    using exec_argv_terminated [of "[''ls'']"] by simp
  have "\<exists>s'. run_line some_answers ''ls | wc'' init_shell = Inr (Ran [Inr [''ls''], ?b], s')"
    by (simp add: run_line_def Let_def run_pipeline_def launch_pipe_def some_answers_def parseInput_def e
      record_pid_def record_times_def init_shell_def MAX_HISTORY_SIZE_def addToHistory_def)
  then show ?thesis
    using pipeline_arguments_unterminated [of some_answers "''ls | wc''" init_shell "[Inr [''ls''], ?b]"] by auto
qed

end
