(* ===== verification/Network.thy ===== *)
theory Network
  imports Bytes
begin

text \<open>
  The UDP demo of apps/user/udp_demo.c: the CRC-32 and the Internet checksum, the frame it builds and
  what its receiver computes from the frame.
\<close>

section \<open>CRC-32\<close>

text \<open>\<open>mask = -(crc & 1); crc = (crc >> 1) ^ (0xEDB88320 & mask)\<close>\<close>

definition crc_bit :: "u32 \<Rightarrow> u32" where
  "crc_bit crc = drop_bit 1 crc XOR (0xEDB88320 AND - (crc AND 1))"

definition crc_byte :: "u8 \<Rightarrow> u32 \<Rightarrow> u32" where
  "crc_byte b crc = (crc_bit ^^ 8) (crc XOR ucast b)"

definition crc32 :: "u8 list \<Rightarrow> u32" where
  "crc32 message = NOT (fold crc_byte message 0xFFFFFFFF)"

lemma crc_bit_eq: "crc_bit c = (if odd c then drop_bit 1 c XOR 0xEDB88320 else drop_bit 1 c)"
  by (simp add: crc_bit_def and_one_eq mod_2_eq_odd)

lemma crc_bit_xor: "crc_bit (a XOR b) = crc_bit a XOR crc_bit b"
  by (simp add: crc_bit_eq ac_simps even_xor_iff)

lemma crc_bits_xor: "(crc_bit ^^ n) (a XOR b) = (crc_bit ^^ n) a XOR (crc_bit ^^ n) b"
  by (induction n) (simp_all add: crc_bit_xor)

lemma crc_bit_push: "crc_bit (push_bit 1 z) = take_bit 31 z"
proof -
  have "even (push_bit 1 z)"
    by simp
  then have "crc_bit (push_bit 1 z) = drop_bit 1 (push_bit 1 z)"
    by (simp only: crc_bit_eq if_False not_True_eq_False)
  also have "\<dots> = take_bit 31 z"
    by (rule bit_word_eqI) (auto simp: bit_drop_bit_eq bit_push_bit_iff bit_take_bit_iff simp del: push_bit_Suc)
  finally show ?thesis .
qed

lemma crc_bits_push: "n \<le> 32 \<Longrightarrow> (crc_bit ^^ n) (push_bit n y) = take_bit (32 - n) y"
proof (induction n arbitrary: y)
  case 0
  then show ?case
    by (simp add: take_bit_word_eq_self)
next
  case (Suc n)
  have "push_bit (Suc n) y = push_bit n (push_bit 1 y)"
    by (simp add: push_bit_push_bit add.commute)
  then have "(crc_bit ^^ Suc n) (push_bit (Suc n) y) = crc_bit (take_bit (32 - n) (push_bit 1 y))"
    using Suc by simp
  also have "take_bit (32 - n) (push_bit 1 y) = push_bit 1 (take_bit (31 - n) y)"
    using Suc.prems by (simp add: push_bit_take_bit flip: Suc_diff_Suc)
  finally show ?case
    unfolding crc_bit_push by (simp add: min_absorb2)
qed

text \<open>Reading a byte of the word \<open>w\<close>: the bits above it pass through the eight shifts.\<close>

lemma crc_byte_word: "crc_byte (ucast w) s XOR drop_bit 8 w = (crc_bit ^^ 8) (s XOR w)"
proof -
  have "w = ucast (ucast w :: u8) XOR push_bit 8 (drop_bit 8 w)"
    by (rule bit_word_eqI) (auto simp: bit_simps)
  then have "(crc_bit ^^ 8) (s XOR w) = (crc_bit ^^ 8) ((s XOR ucast (ucast w :: u8)) XOR push_bit 8 (drop_bit 8 w))"
    by (simp add: xor.assoc)
  also have "\<dots> = crc_byte (ucast w) s XOR take_bit 24 (drop_bit 8 w)"
    unfolding crc_bits_xor crc_bits_push [of 8, simplified] crc_byte_def by simp
  also have "take_bit 24 (drop_bit 8 w) = drop_bit 8 w"
    by (rule bit_word_eqI) (auto simp: bit_simps dest: bit_imp_le_length)
  finally show ?thesis
    by simp
qed

lemma crc_word: "fold crc_byte (word_bytes w) s = (crc_bit ^^ 32) (s XOR w)"
proof -
  define s1 s2 s3 s4 where "s1 = crc_byte (ucast w) s" and "s2 = crc_byte (ucast (drop_bit 8 w)) s1"
    and "s3 = crc_byte (ucast (drop_bit 16 w)) s2" and "s4 = crc_byte (ucast (drop_bit 24 w)) s3"
  have "s4 XOR drop_bit 32 w = (crc_bit ^^ 8) (s3 XOR drop_bit 24 w)"
    using crc_byte_word [of "drop_bit 24 w" s3] by (simp add: s4_def)
  also have "s3 XOR drop_bit 24 w = (crc_bit ^^ 8) (s2 XOR drop_bit 16 w)"
    using crc_byte_word [of "drop_bit 16 w" s2] by (simp add: s3_def)
  also have "s2 XOR drop_bit 16 w = (crc_bit ^^ 8) (s1 XOR drop_bit 8 w)"
    using crc_byte_word [of "drop_bit 8 w" s1] by (simp add: s2_def)
  also have "s1 XOR drop_bit 8 w = (crc_bit ^^ 8) (s XOR w)"
    using crc_byte_word [of w s] by (simp add: s1_def)
  also have "(crc_bit ^^ 8) ((crc_bit ^^ 8) ((crc_bit ^^ 8) ((crc_bit ^^ 8) (s XOR w)))) = (crc_bit ^^ 32) (s XOR w)"
    using funpow_add [of 8 24 crc_bit] funpow_add [of 8 16 crc_bit] funpow_add [of 8 8 crc_bit] by simp
  finally have "s4 XOR drop_bit 32 w = (crc_bit ^^ 32) (s XOR w)" .
  moreover have "drop_bit 32 w = 0"
    by (rule bit_word_eqI) (auto simp: bit_simps)
  ultimately show ?thesis
    by (simp add: word_bytes_def s1_def s2_def s3_def s4_def)
qed

lemma crc_residue: "(crc_bit ^^ 32) (-1) = 0xDEBB20E3"
proof -
  have "(crc_bit ^^ 8) (-1) = 0x2DFD1072" "(crc_bit ^^ 8) 0x2DFD1072 = 0xBE26ED00" "(crc_bit ^^ 8) 0xBE26ED00 = 0xBE26ED" "(crc_bit ^^ 8) 0xBE26ED = 0xDEBB20E3"
    by code_simp+
  then show ?thesis
    using funpow_add [of 8 24 crc_bit] funpow_add [of 8 16 crc_bit] funpow_add [of 8 8 crc_bit] by simp
qed

section \<open>The Internet checksum\<close>

lemma unat_ucast: "unat (ucast (w :: 'a::len word) :: 'b::len word) = unat w mod 2 ^ LENGTH('b)"
  by (simp add: unsigned_ucast_eq take_bit_eq_mod)

fun sum_pairs :: "u32 \<Rightarrow> u8 list \<Rightarrow> u32" where
  "sum_pairs r (hi # lo # bs) = sum_pairs (r + (push_bit 8 (ucast hi) OR ucast lo)) bs"
| "sum_pairs r bs = r"

lemma low_half: "unat (r AND 0xFFFF :: u32) = unat r mod 65536"
proof -
  have "r AND 0xFFFF = take_bit 16 r"
    by (simp add: take_bit_eq_mask mask_eq_exp_minus_1)
  then show ?thesis
    by (simp add: take_bit_eq_mod unat_mod)
qed

lemma high_half: "unat (drop_bit 16 r :: u32) = unat r div 65536"
  by (simp add: drop_bit_eq_div unat_div)

lemma halves_add: "unat ((r AND 0xFFFF) + drop_bit 16 r :: u32) = unat r mod 65536 + unat r div 65536"
proof -
  have "unat r < 2 ^ 32"
    using unsigned_less [of r] by simp
  then have "unat r div 65536 < 65536"
    by (simp add: div_less_iff_less_mult)
  moreover have "unat r mod 65536 < 65536"
    by simp
  moreover have "a + b < 2 ^ 32" if "a < 65536" "b < 65536" for a b :: nat
    using that by simp
  ultimately have "unat r mod 65536 + unat r div 65536 < 2 ^ 32"
    by blast
  then show ?thesis
    by (simp add: unat_word_ariths low_half high_half)
qed

text \<open>\<open>while (r >> 16) r = (r & 0xffff) + (r >> 16)\<close>\<close>

function add_overflows :: "u32 \<Rightarrow> u32" where
  "add_overflows r = (if drop_bit 16 r \<noteq> 0 then add_overflows ((r AND 0xFFFF) + drop_bit 16 r) else r)"
  by pat_completeness auto
termination
proof (relation "measure unat")
  fix r :: u32 assume "drop_bit 16 r \<noteq> 0"
  then have "unat r div 65536 \<noteq> 0"
    using high_half [of r] by (metis unat_eq_zero)
  then have "unat r mod 65536 + unat r div 65536 < unat r"
    using div_mult_mod_eq [of "unat r" 65536] by linarith
  then show "((r AND 0xFFFF) + drop_bit 16 r, r) \<in> measure unat"
    by (simp add: halves_add)
qed simp

declare add_overflows.simps [simp del]

definition checksum :: "u32 \<Rightarrow> u8 list \<Rightarrow> bool \<Rightarrow> u16" where
  "checksum r bs complete =
     (let r1 = add_overflows (sum_pairs r bs);
          r2 = (if complete then (let n = NOT r1 AND 0xFFFF in if n = 0 then 0xFFFF else n) else r1) in
      ucast r2)"

text \<open>The folded sum is the sum modulo 65535, and zero only for zero.\<close>

lemma add_overflows_spec:
  "unat (add_overflows r) < 65536 \<and> unat (add_overflows r) mod 65535 = unat r mod 65535 \<and> (add_overflows r = 0 \<longleftrightarrow> r = 0)"
proof (induction r rule: add_overflows.induct)
  case (1 r)
  let ?n = "(r AND 0xFFFF) + drop_bit 16 r"
  show ?case
  proof (cases "drop_bit 16 r = 0")
    case True
    then have "unat r div 65536 = 0"
      using high_half [of r] by simp
    then have "unat r < 65536"
      by (simp add: div_eq_0_iff)
    then show ?thesis
      using True by (simp add: add_overflows.simps [of r])
  next
    case False
    have "unat r = unat r mod 65536 + unat r div 65536 + 65535 * (unat r div 65536)"
      using div_mult_mod_eq [of "unat r" 65536] by linarith
    then have m: "unat r mod 65535 = unat ?n mod 65535"
      unfolding halves_add by (metis mod_mult_self2)
    have "unat r div 65536 \<noteq> 0"
      using False high_half [of r] by (metis unat_eq_zero)
    then have "unat ?n \<noteq> 0" "unat r \<noteq> 0"
      unfolding halves_add by (auto intro: ccontr)
    then have "?n \<noteq> 0" "r \<noteq> 0"
      by auto
    then show ?thesis
      using 1 False m by (simp add: add_overflows.simps [of r])
  qed
qed

fun pair_sum :: "u8 list \<Rightarrow> nat" where
  "pair_sum (hi # lo # bs) = unat hi * 256 + unat lo + pair_sum bs"
| "pair_sum bs = 0"

lemma pair_word: "unat (push_bit 8 (ucast (hi :: u8)) OR ucast (lo :: u8) :: u32) = unat hi * 256 + unat lo"
proof -
  have l: "unat hi < 256" "unat lo < 256"
    using unsigned_less [of hi] unsigned_less [of lo] by simp_all
  have "push_bit 8 (ucast hi) OR ucast lo = push_bit 8 (ucast hi) + (ucast lo :: u32)"
    by (rule disjunctive_add_eq_or [symmetric]) (rule bit_word_eqI, auto simp: bit_simps dest: bit_imp_le_length)
  also have "unat \<dots> = unat hi * 256 + unat lo"
    using l by (simp add: unat_word_ariths push_bit_eq_mult unat_ucast)
  finally show ?thesis .
qed

lemma sum_pairs_unat: "unat r + pair_sum bs < 2 ^ 32 \<Longrightarrow> unat (sum_pairs r bs) = unat r + pair_sum bs"
proof (induction r bs rule: sum_pairs.induct)
  case (1 r hi lo bs)
  have "unat (r + (push_bit 8 (ucast hi) OR ucast lo)) = unat r + (unat hi * 256 + unat lo)"
    using 1(2) by (simp add: unat_word_ariths pair_word)
  then show ?case
    using 1 by simp
qed auto

lemma pair_sum_append: "even (length as) \<Longrightarrow> pair_sum (as @ bs) = pair_sum as + pair_sum bs"
  by (induction as rule: pair_sum.induct) auto

lemma pair_sum_bound: "pair_sum bs \<le> 32768 * length bs"
proof (induction bs rule: pair_sum.induct)
  case (1 hi lo bs)
  have "unat hi < 256" "unat lo < 256"
    using unsigned_less [of hi] unsigned_less [of lo] by simp_all
  then show ?case
    using 1 by simp
qed auto

section \<open>A checksum in its place\<close>

text \<open>A number as the bytes \<open>__builtin_bswap16\<close> and \<open>__builtin_bswap32\<close> leave in memory.\<close>

definition be16 :: "u16 \<Rightarrow> u8 list" where
  "be16 x = [ucast (drop_bit 8 x), ucast x]"

definition be32 :: "u32 \<Rightarrow> u8 list" where
  "be32 x = rev (word_bytes x)"

lemma pair_sum_be16: "pair_sum (be16 x) = unat x"
proof -
  have "unat x < 65536"
    using unsigned_less [of x] by simp
  then have "unat x div 256 < 256"
    by (simp add: div_less_iff_less_mult)
  then have "unat (ucast (drop_bit 8 x) :: u8) = unat x div 256" "unat (ucast x :: u8) = unat x mod 256"
    by (simp_all add: unat_ucast drop_bit_eq_div unat_div)
  then show ?thesis
    by (simp add: be16_def)
qed

lemma not_low_half: "unat (NOT r AND 0xFFFF :: u32) = 65535 - unat r mod 65536"
proof -
  have m: "(0xFFFF :: u32) = mask 16"
    by (simp add: mask_eq_exp_minus_1)
  have "(NOT r AND 0xFFFF) + (r AND 0xFFFF) = (NOT r AND 0xFFFF) OR (r AND 0xFFFF)"
    unfolding m by (rule disjunctive_add_eq_or) (rule bit_word_eqI, auto simp: bit_simps)
  also have "\<dots> = 0xFFFF"
    unfolding m by (rule bit_word_eqI) (auto simp: bit_simps)
  finally have e: "unat ((NOT r AND 0xFFFF) + (r AND 0xFFFF)) = 65535"
    by simp
  have "unat (NOT r AND 0xFFFF) < 65536" "unat (r AND 0xFFFF) < 65536"
    using low_half [of "NOT r"] low_half [of r] by simp_all
  then have "unat ((NOT r AND 0xFFFF) + (r AND 0xFFFF)) = unat (NOT r AND 0xFFFF) + unat (r AND 0xFFFF)"
    by (simp add: unat_word_ariths)
  then show ?thesis
    using e low_half [of r] by linarith
qed

lemma checksum_sum: "unat (checksum r bs False) = unat (add_overflows (sum_pairs r bs))"
  using add_overflows_spec [of "sum_pairs r bs"] by (simp add: checksum_def Let_def unat_ucast)

lemma checksum_complete:
  "unat (checksum r bs True) = (let s = unat (add_overflows (sum_pairs r bs)) in if s = 65535 then 65535 else 65535 - s)"
proof -
  let ?f = "add_overflows (sum_pairs r bs)"
  have "unat ?f < 65536"
    using add_overflows_spec by blast
  then have n: "unat (NOT ?f AND 0xFFFF) = 65535 - unat ?f"
    using not_low_half [of ?f] by simp
  have "NOT ?f AND 0xFFFF = 0 \<longleftrightarrow> unat (NOT ?f AND 0xFFFF) = 0"
    by (simp only: unsigned_eq_0_iff)
  also have "\<dots> \<longleftrightarrow> unat ?f = 65535"
    using n \<open>unat ?f < 65536\<close> by linarith
  finally have u: "unat (if NOT ?f AND 0xFFFF = 0 then 0xFFFF else NOT ?f AND 0xFFFF) =
      (if unat ?f = 65535 then 65535 else 65535 - unat ?f)"
    using n by simp
  have e: "checksum r bs True = ucast (if NOT ?f AND 0xFFFF = 0 then 0xFFFF else NOT ?f AND 0xFFFF)"
    unfolding checksum_def Let_def by (simp only: if_True)
  show ?thesis
    unfolding e unat_ucast u Let_def by simp
qed

lemma mod_zero_top: "f mod 65535 = 0 \<Longrightarrow> f < 65536 \<Longrightarrow> f \<noteq> 0 \<Longrightarrow> f = 65535" for f :: nat
proof -
  assume f: "f mod 65535 = 0" "f < 65536" "f \<noteq> 0"
  then obtain q where q: "f = 65535 * q"
    by (meson dvdE mod_0_imp_dvd)
  with f show ?thesis
    by (cases "q = 1") simp_all
qed

text \<open>
  A checksum computed with its own place zero, over a prefix summed before: the folded sum of
  everything is 0xFFFF.
\<close>

lemma checksum_verifies:
  assumes ev: "even (length ps)" "even (length as)" "even (length bs)"
    and len: "length ps + length as + length bs < 65500"
    and c: "c = checksum (ucast (checksum 0 ps False)) (as @ [0, 0] @ bs) True"
  shows "add_overflows (sum_pairs 0 (ps @ as @ be16 c @ bs)) = 0xFFFF"
proof -
  define P A B where "P = pair_sum ps" and "A = pair_sum as" and "B = pair_sum bs"
  have bd: "P + A + B < 32768 * 65500"
    using pair_sum_bound [of ps] pair_sum_bound [of as] pair_sum_bound [of bs] len by (simp add: P_def A_def B_def)
  define r where "r = (ucast (checksum 0 ps False) :: u32)"
  have "unat (add_overflows (sum_pairs 0 ps)) < 65536"
    using add_overflows_spec by blast
  then have "unat r = unat (add_overflows (sum_pairs 0 ps))"
    by (simp add: r_def unat_ucast checksum_sum)
  moreover have "unat (sum_pairs 0 ps) = P"
    using sum_pairs_unat [of 0 ps] bd by (simp add: P_def)
  ultimately have r: "unat r < 65536" "unat r mod 65535 = P mod 65535"
    using add_overflows_spec [of "sum_pairs 0 ps"] by simp_all
  have ab: "pair_sum (as @ [0, 0] @ bs) = A + B"
    using pair_sum_append [OF ev(2)] by (simp add: A_def B_def)
  define s where "s = unat (add_overflows (sum_pairs r (as @ [0, 0] @ bs)))"
  have "unat (sum_pairs r (as @ [0, 0] @ bs)) = unat r + (A + B)"
    using sum_pairs_unat [of r "as @ [0, 0] @ bs"] bd r(1) ab by simp
  then have s: "s < 65536" "s mod 65535 = (unat r + (A + B)) mod 65535"
    using add_overflows_spec [of "sum_pairs r (as @ [0, 0] @ bs)"] by (simp_all add: s_def)
  have cs: "unat c = (if s = 65535 then 65535 else 65535 - s)"
    unfolding c r_def [symmetric] checksum_complete s_def [symmetric] by (simp add: Let_def)
  have c0: "0 < unat c" "(s + unat c) mod 65535 = 0" "unat c < 65536"
    using s(1) cs by auto
  let ?all = "ps @ as @ be16 c @ bs"
  have "pair_sum ?all = P + A + unat c + B"
    using pair_sum_append [OF ev(1)] pair_sum_append [OF ev(2)] pair_sum_append [of "be16 c" bs] pair_sum_be16 [of c]
    by (simp add: P_def A_def B_def be16_def)
  then have t: "unat (sum_pairs 0 ?all) = P + A + unat c + B"
    using sum_pairs_unat [of 0 ?all] bd c0(3) by simp
  have "(P + (A + B) + unat c) mod 65535 = (unat r + (A + B) + unat c) mod 65535"
    using r(2) by (metis mod_add_left_eq)
  also have "\<dots> = (s + unat c) mod 65535"
    using s(2) by (metis mod_add_left_eq)
  finally have "(P + (A + B) + unat c) mod 65535 = 0"
    using c0(2) by simp
  then have z: "unat (sum_pairs 0 ?all) mod 65535 = 0" "sum_pairs 0 ?all \<noteq> 0"
    using t c0(1) by (simp_all add: algebra_simps) auto
  have "unat (add_overflows (sum_pairs 0 ?all)) = 65535"
    using add_overflows_spec [of "sum_pairs 0 ?all"] z by (intro mod_zero_top) (auto simp: unsigned_eq_0_iff)
  then show ?thesis
    by (simp add: word_unat_eq_iff)
qed

section \<open>The frame\<close>

definition IPTOINT :: "u32 \<Rightarrow> u32 \<Rightarrow> u32 \<Rightarrow> u32 \<Rightarrow> u32" where
  "IPTOINT a b c d = push_bit 24 a OR push_bit 16 b OR push_bit 8 c OR d"

definition eth_header :: "u8 list" where
  "eth_header = [0x98, 0x48, 0x27, 0x51, 0x53, 0x1e] @ [0x10, 0xe2, 0xd5, 0x00, 0x00, 0x00] @ be16 0x0800"

definition ip_header :: "u32 \<Rightarrow> u32 \<Rightarrow> nat \<Rightarrow> u16 \<Rightarrow> u8 list" where
  "ip_header src dst n csum = [0x45, 0] @ be16 (of_nat (20 + 8 + n)) @ be16 0 @ be16 0x4000 @ [64, 0x11] @
     be16 csum @ be32 src @ be32 dst"

definition udp_header :: "u32 \<Rightarrow> u32 \<Rightarrow> nat \<Rightarrow> u16 \<Rightarrow> u8 list" where
  "udp_header sport dport n csum = be16 (ucast sport) @ be16 (ucast dport) @ be16 (of_nat (8 + n)) @ be16 csum"

definition checksum_fields :: "u32 \<Rightarrow> u32 \<Rightarrow> nat \<Rightarrow> u8 list" where
  "checksum_fields src dst n = be32 src @ be32 dst @ [0, 0x11] @ be16 (of_nat (8 + n))"

definition ip_checksum :: "u32 \<Rightarrow> u32 \<Rightarrow> nat \<Rightarrow> u16" where
  "ip_checksum src dst n = checksum 0 (ip_header src dst n 0) True"

definition udp_checksum :: "u32 \<Rightarrow> u32 \<Rightarrow> u32 \<Rightarrow> u32 \<Rightarrow> u8 list \<Rightarrow> u16" where
  "udp_checksum src dst sport dport payload =
     checksum (ucast (checksum 0 (checksum_fields src dst (length payload)) False))
       (udp_header sport dport (length payload) 0 @ payload) True"

definition udp_frame :: "u32 \<Rightarrow> u32 \<Rightarrow> u32 \<Rightarrow> u32 \<Rightarrow> u8 list \<Rightarrow> fault + u8 list" where
  "udp_frame src dst sport dport payload =
     (if odd (length payload) then Inl (Fatal ''Please send a message with even length'')
      else Inr (eth_header @ ip_header src dst (length payload) (ip_checksum src dst (length payload)) @
        udp_header sport dport (length payload) (udp_checksum src dst sport dport payload) @ payload))"

text \<open>The bytes of the transmit buffer on the hardware, the CRC after the frame; it skips 8 bytes.\<close>

definition tx_bytes :: "u8 list \<Rightarrow> u8 list" where
  "tx_bytes frame = frame @ word_bytes (crc32 (drop 8 frame))"

text \<open>The message of the program, with its final null character, and its addresses.\<close>

definition hello_msg :: "u8 list" where
  "hello_msg = map of_char ''Hello from egos-2000!'' @ [0x0A, 0x0D, 0]"

definition hello_frame :: "fault + u8 list" where
  "hello_frame = udp_frame (IPTOINT 192 168 1 50) (IPTOINT 192 168 0 212) 8001 8002 hello_msg"

section \<open>Property\<close>



end
