(* ===== verification/Nic.thy ===== *)
theory Nic
  imports Mmio Network
begin

text \<open>
  How apps/user/udp_demo.c hands its frame to the Ethernet controllers: LiteX on the hardware, the
  82540EM of QEMU. The buffers are device memory.
\<close>

section \<open>The code\<close>

definition NIC_PCI_ECAM :: u32 where "NIC_PCI_ECAM = 0x30018000"
definition NIC_TX_BUFFER :: u32 where "NIC_TX_BUFFER = 0x90001000"

definition NIC_BASE :: "platform \<Rightarrow> u32" where
  "NIC_BASE pf = (if pf = QEMU then 0x41000000 else 0xF0002000)"

text \<open>\<open>memcpy\<close> to an address.\<close>

primrec copy_to :: "'d bus \<Rightarrow> u32 \<Rightarrow> u8 list \<Rightarrow> ('d, unit) io" where
  "copy_to bus a [] = ret ()"
| "copy_to bus a (b # bs) = bindio (set_REGB bus a 0 b) (\<lambda>_. copy_to bus (a + 1) bs)"

text \<open>
  The hardware: the CRC is computed from the transmit buffer, of which bytes 8 on are read back.
\<close>

definition send_litex :: "'d bus \<Rightarrow> u8 list \<Rightarrow> ('d, unit) io" where
  "send_litex bus frame =
     (let txlen = of_nat (length frame); base = NIC_BASE HARDWARE in
      bindio (copy_to bus NIC_TX_BUFFER frame) (\<lambda>_.
      bindio (copy_memory bus (NIC_TX_BUFFER + 8) (length frame - 8)) (\<lambda>bs.
      bindio (set_REGW bus NIC_TX_BUFFER txlen (crc32 bs)) (\<lambda>_.
      bindio (poll (REGW bus base 0x1C) (\<lambda>w. w \<noteq> 0)) (\<lambda>_.
      bindio (set_REGW bus base 0x24 0) (\<lambda>_.
      bindio (set_REGW bus base 0x28 (txlen + 4)) (\<lambda>_.
      set_REGW bus base 0x18 1)))))))"

text \<open>QEMU, with the addresses of the static arrays \<open>txbuffer\<close> and \<open>txdesc\<close>.\<close>

definition send_intel :: "'d bus \<Rightarrow> u32 \<Rightarrow> u32 \<Rightarrow> u8 list \<Rightarrow> ('d, unit) io" where
  "send_intel bus txbuffer txdesc frame =
     (let base = NIC_BASE QEMU in
      bindio (set_REGW bus NIC_PCI_ECAM 0x4 6) (\<lambda>_.
      bindio (set_REGW bus NIC_PCI_ECAM 0x10 base) (\<lambda>_.
      bindio (copy_to bus txbuffer frame) (\<lambda>_.
      bindio (set_REGW bus txdesc 0 txbuffer) (\<lambda>_.
      bindio (REGB bus txdesc 11) (\<lambda>cmd.
      bindio (set_REGB bus txdesc 11 (cmd OR 5)) (\<lambda>_.
      bindio (REGB bus txdesc 12) (\<lambda>status.
      bindio (set_REGB bus txdesc 12 (status OR 5)) (\<lambda>_.
      bindio (set_REGW bus base 0x3800 txdesc) (\<lambda>_.
      bindio (set_REGW bus base 0x3808 16) (\<lambda>_.
      bindio (set_REGW bus base 0x3818 0) (\<lambda>_.
      bindio (set_REGW bus base 0x410 0x60100A) (\<lambda>_.
      bindio (REGW bus base 0x400) (\<lambda>ctl.
      bindio (set_REGW bus base 0x400 (ctl OR 0x4010A)) (\<lambda>_.
      bindio (poll (REGB bus txdesc 12) (\<lambda>s. s AND 1 \<noteq> 0)) (\<lambda>_.
      bindio (REGB bus txdesc 12) (\<lambda>status.
      bindio (set_REGB bus txdesc 12 (status AND NOT 1)) (\<lambda>_.
      bindio (set_REGB bus txdesc 8 (of_nat (length frame))) (\<lambda>_.
      set_REGW bus base 0x3818 1)))))))))))))))))))"

definition udp_demo :: "'d bus \<Rightarrow> platform \<Rightarrow> u32 \<Rightarrow> u32 \<Rightarrow> ('d, unit) io" where
  "udp_demo bus pf txbuffer txdesc d =
     (case hello_frame of
        Inl e \<Rightarrow> fail e d
      | Inr frame \<Rightarrow> if pf = HARDWARE then send_litex bus frame d else send_intel bus txbuffer txdesc frame d)"

section \<open>What the LiteX controller sends\<close>

text \<open>
  A controller of the hardware: its transmit buffer is memory, and a store to the start register sends
  as many bytes of the buffer as the length register says.
\<close>

record 'd litex =
  tx_memory :: "'d \<Rightarrow> nat \<Rightarrow> u8"
  tx_length :: "'d \<Rightarrow> u32"
  tx_sent :: "'d \<Rightarrow> u8 list list"

definition is_litex :: "'d bus \<Rightarrow> 'd litex \<Rightarrow> bool" where
  "is_litex bus nic \<longleftrightarrow>
     (\<forall>d i b. i < 2048 \<longrightarrow> (let e = store_byte bus (NIC_TX_BUFFER + of_nat i) b d in
        tx_memory nic e = (tx_memory nic d)(i := b) \<and> tx_sent nic e = tx_sent nic d)) \<and>
     (\<forall>d i. i < 2048 \<longrightarrow> memory bus d (NIC_TX_BUFFER + of_nat i) = tx_memory nic d i) \<and>
     (\<forall>d i w. i + 4 \<le> 2048 \<longrightarrow> (let e = store_word bus (NIC_TX_BUFFER + of_nat i) w d in
        (\<forall>j. tx_memory nic e j = (if i \<le> j \<and> j < i + 4 then word_bytes w ! (j - i) else tx_memory nic d j)) \<and> tx_sent nic e = tx_sent nic d)) \<and>
     (\<forall>d. \<exists>w. w \<noteq> 0 \<and> load_word bus (NIC_BASE HARDWARE + 0x1C) d = (w, d)) \<and>
     (\<forall>d w. tx_memory nic (store_word bus (NIC_BASE HARDWARE + 0x24) w d) = tx_memory nic d \<and>
        tx_sent nic (store_word bus (NIC_BASE HARDWARE + 0x24) w d) = tx_sent nic d) \<and>
     (\<forall>d w. tx_memory nic (store_word bus (NIC_BASE HARDWARE + 0x28) w d) = tx_memory nic d \<and>
        tx_length nic (store_word bus (NIC_BASE HARDWARE + 0x28) w d) = w \<and>
        tx_sent nic (store_word bus (NIC_BASE HARDWARE + 0x28) w d) = tx_sent nic d) \<and>
     (\<forall>d. tx_sent nic (store_word bus (NIC_BASE HARDWARE + 0x18) 1 d) =
        tx_sent nic d @ [map (tx_memory nic d) [0 ..< unat (tx_length nic d)]])"

lemma copy_to_litex:
  assumes "is_litex bus nic" "k + length bs \<le> 2048"
  shows "\<exists>e. runs (copy_to bus (NIC_TX_BUFFER + of_nat k) bs) d () e \<and> tx_sent nic e = tx_sent nic d \<and>
    (\<forall>j. tx_memory nic e j = (if k \<le> j \<and> j < k + length bs then bs ! (j - k) else tx_memory nic d j))"
  using assms(2)
proof (induction bs arbitrary: k d)
  case (Cons b bs)
  let ?d = "store_byte bus (NIC_TX_BUFFER + of_nat k) b d"
  have d: "tx_memory nic ?d = (tx_memory nic d)(k := b)" "tx_sent nic ?d = tx_sent nic d"
    using assms(1) Cons.prems unfolding is_litex_def by (simp_all add: Let_def)
  have "NIC_TX_BUFFER + of_nat k + 1 = NIC_TX_BUFFER + of_nat (Suc k)"
    by (simp add: algebra_simps)
  then obtain e where e: "runs (copy_to bus (NIC_TX_BUFFER + of_nat k + 1) bs) ?d () e" "tx_sent nic e = tx_sent nic ?d"
    "\<forall>j. tx_memory nic e j = (if Suc k \<le> j \<and> j < Suc k + length bs then bs ! (j - Suc k) else tx_memory nic ?d j)"
    using Cons.IH [of "Suc k" ?d] Cons.prems by auto
  have "tx_memory nic e j = (if k \<le> j \<and> j < k + length (b # bs) then (b # bs) ! (j - k) else tx_memory nic d j)" for j
    using e(3) [rule_format, of j] d(1) by (auto simp: nth_Cons' not_le less_Suc_eq_le)
  moreover have "runs (copy_to bus (NIC_TX_BUFFER + of_nat k) (b # bs)) d () e"
    using e(1) by (simp add: bindio_def set_REGB_def)
  ultimately show ?case
    using e(2) d(2) by (intro exI [of _ e]) simp
qed auto

text \<open>The frame goes out with the CRC behind it: the bytes \<open>tx_bytes\<close> for which the receiver's checks hold.\<close>

lemma litex_sends_frame:
  assumes "is_litex bus nic" "8 \<le> length frame" "length frame + 4 \<le> 2048"
  shows "\<exists>e. runs (send_litex bus frame) d () e \<and> tx_sent nic e = tx_sent nic d @ [tx_bytes frame]"
proof -
  let ?n = "length frame" and ?B = "NIC_BASE HARDWARE"
  obtain d1 where d1: "runs (copy_to bus NIC_TX_BUFFER frame) d () d1" "tx_sent nic d1 = tx_sent nic d"
    "\<forall>j. tx_memory nic d1 j = (if j < ?n then frame ! j else tx_memory nic d j)"
    using copy_to_litex [OF assms(1), of 0 frame d] assms(3) by auto
  have "memory bus d1 (NIC_TX_BUFFER + 8 + of_nat i) = frame ! (8 + i)" if "i < ?n - 8" for i
  proof -
    have "8 + i < 2048"
      using assms(3) that by simp
    then have "memory bus d1 (NIC_TX_BUFFER + of_nat (8 + i)) = tx_memory nic d1 (8 + i)"
      using assms(1) unfolding is_litex_def by blast
    also have "\<dots> = frame ! (8 + i)"
      using d1(3) [rule_format, of "8 + i"] that by auto
    finally show ?thesis
      by (simp add: add.assoc)
  qed
  then have bs: "runs (copy_memory bus (NIC_TX_BUFFER + 8) (?n - 8)) d1 (drop 8 frame) d1"
    by (simp add: copy_memory_def) (intro nth_equalityI, simp_all)
  let ?c = "word_bytes (crc32 (drop 8 frame))"
  let ?d2 = "store_word bus (NIC_TX_BUFFER + of_nat ?n) (crc32 (drop 8 frame)) d1"
  have d2: "\<forall>j. tx_memory nic ?d2 j = (if ?n \<le> j \<and> j < ?n + 4 then ?c ! (j - ?n) else tx_memory nic d1 j)"
    "tx_sent nic ?d2 = tx_sent nic d1"
    using assms(1,3) unfolding is_litex_def by (simp_all add: Let_def)
  obtain w where w: "w \<noteq> 0" "load_word bus (?B + 0x1C) ?d2 = (w, ?d2)"
    using assms(1) unfolding is_litex_def by blast
  have p: "runs (poll (REGW bus ?B 0x1C) (\<lambda>w. w \<noteq> 0)) ?d2 w ?d2"
    using w by (intro poll_hit) (simp_all add: REGW_def)
  let ?d3 = "store_word bus (?B + 0x28) (of_nat ?n + 4) (store_word bus (?B + 0x24) 0 ?d2)"
  have d3: "tx_memory nic ?d3 = tx_memory nic ?d2" "tx_length nic ?d3 = of_nat ?n + 4" "tx_sent nic ?d3 = tx_sent nic ?d2"
    using assms(1) unfolding is_litex_def by auto
  have "unat (of_nat (?n + 4) :: u32) = ?n + 4"
    using assms(3) by (intro unat_of_nat_less) simp
  then have l: "unat (of_nat ?n + 4 :: u32) = ?n + 4"
    by simp
  have "map (tx_memory nic ?d3) [0 ..< ?n + 4] = tx_bytes frame"
    using d1(3) d2(1) by (intro nth_equalityI) (simp_all add: d3(1) tx_bytes_def nth_append)
  then have "tx_sent nic (store_word bus (?B + 0x18) 1 ?d3) = tx_sent nic d @ [tx_bytes frame]"
    using assms(1) d1(2) d2(2) d3 l unfolding is_litex_def by simp
  moreover have "runs (send_litex bus frame) d () (store_word bus (?B + 0x18) 1 ?d3)"
    using d1(1) bs p by (simp add: send_litex_def Let_def bindio_def set_REGW_def)
  ultimately show ?thesis
    by blast
qed

end
