(* ===== verification/Mydisk.thy ===== *)
theory Mydisk
  imports Ramdisk
begin

text \<open>
  The file system of library/file/file0.c as it is handed out: every inode is a window of 128 blocks
  of the store below. It keeps files apart as long as offsets stay below 128.
\<close>

section \<open>The code\<close>

definition DUMMY_DISK_OFFSET :: "u32 \<Rightarrow> u32 \<Rightarrow> u32" where
  "DUMMY_DISK_OFFSET ino offset = ino * 128 + offset"

definition mydisk_read :: "'s inode_store \<Rightarrow> 's \<Rightarrow> u32 \<Rightarrow> u32 \<Rightarrow> fault + block option" where
  "mydisk_read below s ino offset = st_read below s 0 (DUMMY_DISK_OFFSET ino offset)"

definition mydisk_write :: "'s inode_store \<Rightarrow> 's \<Rightarrow> u32 \<Rightarrow> u32 \<Rightarrow> block \<Rightarrow> fault + (int \<times> 's)" where
  "mydisk_write below s ino offset b = st_write below s 0 (DUMMY_DISK_OFFSET ino offset) b"

definition mydisk_getsize :: "'s \<Rightarrow> u32 \<Rightarrow> fault + int" where
  "mydisk_getsize s ino = Inl (Fatal ''mydisk_getsize not implemented'')"

definition mydisk_setsize :: "'s \<Rightarrow> u32 \<Rightarrow> u32 \<Rightarrow> fault + (int \<times> 's)" where
  "mydisk_setsize s ino nblocks = Inl (Fatal ''mydisk_setsize not implemented'')"

definition mydisk_create :: "'s \<Rightarrow> u32 \<Rightarrow> u32 \<Rightarrow> fault + (int \<times> 's)" where
  "mydisk_create s below_ino ninodes = Inr (0, s)"

definition mydisk_init :: "'s inode_store \<Rightarrow> u32 \<Rightarrow> 's inode_store" where
  "mydisk_init below below_ino = \<lparr>st_getsize = mydisk_getsize, st_setsize = mydisk_setsize,
     st_read = mydisk_read below, st_write = mydisk_write below\<rparr>"

section \<open>Windows\<close>

definition in_window :: "u32 \<Rightarrow> u32 \<Rightarrow> u32 \<Rightarrow> bool" where
  "in_window nblks ino offset \<longleftrightarrow> offset < 128 \<and> unat ino * 128 + unat offset < unat nblks"

lemma window_offset:
  assumes "in_window nblks ino offset"
  shows "unat (DUMMY_DISK_OFFSET ino offset) = unat ino * 128 + unat offset" "DUMMY_DISK_OFFSET ino offset < nblks"
proof -
  have l: "unat ino * 128 + unat offset < 2 ^ 32"
  proof -
    have "unat nblks < 2 ^ LENGTH(32)"
      by (rule unsigned_less)
    then show ?thesis
      using assms by (simp add: in_window_def)
  qed
  then show "unat (DUMMY_DISK_OFFSET ino offset) = unat ino * 128 + unat offset"
    by (simp add: DUMMY_DISK_OFFSET_def unat_word_ariths)
  then show "DUMMY_DISK_OFFSET ino offset < nblks"
    using assms by (simp add: in_window_def word_less_nat_alt)
qed

lemma window_inj:
  assumes "in_window n i x" "in_window n j y" "DUMMY_DISK_OFFSET i x = DUMMY_DISK_OFFSET j y"
  shows "i = j \<and> x = y"
proof -
  have b: "unat x < 128" "unat y < 128"
    using assms(1,2) by (simp_all add: in_window_def word_less_nat_alt)
  have "unat i * 128 + unat x = unat j * 128 + unat y"
    using window_offset(1) [OF assms(1)] window_offset(1) [OF assms(2)] assms(3) by simp
  then have "unat i = unat j"
    using b by linarith
  then have "unat x = unat y"
    using \<open>unat i * 128 + unat x = unat j * 128 + unat y\<close> by simp
  then show ?thesis
    using \<open>unat i = unat j\<close> by (simp add: word_unat_eq_iff)
qed

context block_store
begin

lemma mydisk_write_read:
  assumes z: "ino = 0" and inv: "inv s" and w: "in_window nblks i x" and b: "length b = 128"
  shows "\<exists>s'. mydisk_write store s i x b = Inr (0, s') \<and> inv s' \<and>
    (\<forall>j y. in_window nblks j y \<longrightarrow> mydisk_read store s' j y = (if j = i \<and> y = x then Inr (Some b) else mydisk_read store s j y))"
proof -
  obtain s' where s': "st_write store s ino (DUMMY_DISK_OFFSET i x) b = Inr (0, s')" "inv s'"
    "\<And>o'. o' < nblks \<Longrightarrow> content s' o' = (if o' = DUMMY_DISK_OFFSET i x then b else content s o')"
    using store_writeE [OF inv window_offset(2) [OF w] b] by metis
  have "mydisk_read store s' j y = (if j = i \<and> y = x then Inr (Some b) else mydisk_read store s j y)"
    if "in_window nblks j y" for j y
    using store_read [OF s'(2) window_offset(2) [OF that]] store_read [OF inv window_offset(2) [OF that]]
      s'(3) [OF window_offset(2) [OF that]] window_inj [OF that w] z by (auto simp: mydisk_read_def)
  then show ?thesis
    using s'(1,2) z unfolding mydisk_write_def by blast
qed

end

section \<open>On the ramdisk\<close>

text \<open>
  Over the image builder's ramdisk a write to a block of a file is read back, and every other block
  of every file is read as before.
\<close>

lemma mydisk_keeps_files:
  assumes "ram_inv s" "in_window RAM_NBLOCKS i x" "length b = 128"
  shows "\<exists>s'. st_write (mydisk_init ramdisk 0) s i x b = Inr (0, s') \<and> ram_inv s' \<and>
    (\<forall>j y. in_window RAM_NBLOCKS j y \<longrightarrow> st_read (mydisk_init ramdisk 0) s' j y =
       (if j = i \<and> y = x then Inr (Some b) else st_read (mydisk_init ramdisk 0) s j y))"
  using ram.mydisk_write_read [OF refl assms] unfolding mydisk_init_def inode_store.simps by blast

text \<open>Block 128 of an inode is block 0 of the next one.\<close>

lemma mydisk_windows_touch: "mydisk_read below s ino 128 = mydisk_read below s (ino + 1) 0"
  by (simp add: mydisk_read_def DUMMY_DISK_OFFSET_def algebra_simps)

end
