(* ===== verification/Video.thy ===== *)
theory Video
  imports Mkfs_Image Mmio
begin

text \<open>
  The video demo of apps/user/video_demo.c: it copies the picture that mkfs has put behind the servers
  from the flash memory to the frame buffer, last row first.
\<close>

section \<open>The code\<close>

definition FLASH_ROM_BASE :: "platform \<Rightarrow> u32" where
  "FLASH_ROM_BASE pf = (if pf = QEMU then 0x22000000 else 0x20400000)"

definition VIDEO_FRAME_BASE :: "platform \<Rightarrow> u32" where
  "VIDEO_FRAME_BASE pf = (if pf = QEMU then 0x42000000 else 0x80600000)"

definition HRES :: nat where "HRES = 800"
definition VRES :: nat where "VRES = 600"

text \<open>The first value of \<open>rgb\<close>: the last pixel of the picture.\<close>

definition rgb_start :: "platform \<Rightarrow> u32" where
  "rgb_start pf = FLASH_ROM_BASE pf + of_nat (EGOS_BIN_MAX_NBYTE * 5) + of_nat (56 + HRES * VRES * 3) - 3"

definition pixel_value :: "(u32 \<Rightarrow> u8) \<Rightarrow> u32 \<Rightarrow> u32" where
  "pixel_value flash rgb = ucast (flash rgb) OR push_bit 8 (ucast (flash (rgb + 1))) OR push_bit 16 (ucast (flash (rgb + 2)))"

definition pixel_addr :: "platform \<Rightarrow> nat \<Rightarrow> nat \<Rightarrow> u32" where
  "pixel_addr pf i j = VIDEO_FRAME_BASE pf + 4 * (of_nat i * of_nat HRES + (of_nat HRES - of_nat j))"

text \<open>The body of the two loops, on the words of memory and \<open>rgb\<close>.\<close>

definition video_step :: "(u32 \<Rightarrow> u8) \<Rightarrow> platform \<Rightarrow> nat \<times> nat \<Rightarrow> (u32 \<Rightarrow> u32) \<times> u32 \<Rightarrow> (u32 \<Rightarrow> u32) \<times> u32" where
  "video_step flash pf = (\<lambda>(i, j) (frames, rgb). (frames(pixel_addr pf i j := pixel_value flash rgb), rgb - 3))"

definition video_demo :: "(u32 \<Rightarrow> u8) \<Rightarrow> platform \<Rightarrow> (u32 \<Rightarrow> u32) \<Rightarrow> u32 \<Rightarrow> u32" where
  "video_demo flash pf frames = fst (fold (video_step flash pf) (List.product [0 ..< VRES] [0 ..< HRES]) (frames, rgb_start pf))"

section \<open>The loops\<close>

text \<open>The \<open>n\<close>-th iteration writes word \<open>pixel_index n\<close> of the frame buffer.\<close>

definition pixel_index :: "nat \<Rightarrow> nat" where
  "pixel_index n = n div 800 * 800 + (800 - n mod 800)"

lemma pixel_index_split: "y < 800 \<Longrightarrow> pixel_index (r * 800 + y) = r * 800 + (800 - y)"
  by (simp add: pixel_index_def)

lemma pixel_index_eq:
  assumes "c < 800"
  shows "pixel_index (r * 800 + (799 - c)) = r * 800 + c + 1"
proof -
  have "799 - c < 800" "800 - (799 - c) = c + 1"
    using assms by simp_all
  then show ?thesis
    by (simp only: pixel_index_split add.assoc)
qed

lemma pixel_index_inj: "pixel_index n = pixel_index k \<Longrightarrow> n = k"
proof -
  assume e: "pixel_index n = pixel_index k"
  have d: "n div 800 = (pixel_index n - 1) div 800 \<and> n mod 800 = 799 - (pixel_index n - 1) mod 800" for n
  proof -
    define z where "z = 799 - n mod 800"
    have m: "n mod 800 < 800"
      by simp
    then have z: "z < 800" "799 - z = n mod 800" "800 - n mod 800 = z + 1"
      unfolding z_def by linarith+
    then have "pixel_index n - 1 = n div 800 * 800 + z"
      by (simp add: pixel_index_def)
    then show ?thesis
      using z by simp
  qed
  have "n div 800 = k div 800" "n mod 800 = k mod 800"
    using d [of n] d [of k] e by metis+
  then show ?thesis
    by (metis div_mult_mod_eq)
qed

lemma pixel_index_bounds: "n < 480000 \<Longrightarrow> 1 \<le> pixel_index n \<and> pixel_index n \<le> 480000"
proof -
  assume "n < 480000"
  then have "n div 800 \<le> 599"
    by (simp add: less_mult_imp_div_less flip: less_Suc_eq_le)
  moreover have "n mod 800 < 800"
    by simp
  ultimately show ?thesis
    unfolding pixel_index_def by linarith
qed

lemma pixel_addr_index: "pixel_addr pf (n div 800) (n mod 800) = VIDEO_FRAME_BASE pf + of_nat (4 * pixel_index n)"
proof -
  have "n mod 800 \<le> 800"
    by simp
  then have "of_nat HRES - of_nat (n mod 800) = (of_nat (800 - n mod 800) :: u32)"
    by (simp add: HRES_def)
  then show ?thesis
    by (simp add: pixel_addr_def pixel_index_def HRES_def)
qed

lemma frame_word_inj:
  assumes "x \<le> 480000" "y \<le> 480000" "VIDEO_FRAME_BASE pf + of_nat (4 * x) = VIDEO_FRAME_BASE pf + of_nat (4 * y)"
  shows "x = y"
proof -
  have u: "unat (of_nat (4 * z) :: u32) = 4 * z" if "z \<le> 480000" for z
    using that by (intro unat_of_nat_less) simp
  have "(of_nat (4 * x) :: u32) = of_nat (4 * y)"
    using assms(3) by (simp only: add_left_cancel)
  then have "unat (of_nat (4 * x) :: u32) = unat (of_nat (4 * y) :: u32)"
    by simp
  then show ?thesis
    using u [OF assms(1)] u [OF assms(2)] by simp
qed

abbreviation frame_word :: "platform \<Rightarrow> nat \<Rightarrow> u32" where
  "frame_word pf n \<equiv> VIDEO_FRAME_BASE pf + of_nat (4 * pixel_index n)"

lemma loop_spec:
  assumes "k \<le> 480000"
  shows "\<exists>w. fold (video_step flash pf) (map (\<lambda>n. (n div 800, n mod 800)) [0 ..< k]) (frames, rgb) = (w, rgb - 3 * of_nat k) \<and>
    (\<forall>n < k. w (frame_word pf n) = pixel_value flash (rgb - 3 * of_nat n)) \<and>
    (\<forall>a. (\<forall>n < k. a \<noteq> frame_word pf n) \<longrightarrow> w a = frames a)"
  using assms
proof (induction k)
  case (Suc k)
  then obtain w where w: "fold (video_step flash pf) (map (\<lambda>n. (n div 800, n mod 800)) [0 ..< k]) (frames, rgb) = (w, rgb - 3 * of_nat k)"
    "\<forall>n < k. w (frame_word pf n) = pixel_value flash (rgb - 3 * of_nat n)"
    "\<forall>a. (\<forall>n < k. a \<noteq> frame_word pf n) \<longrightarrow> w a = frames a"
    by auto
  let ?w = "w(frame_word pf k := pixel_value flash (rgb - 3 * of_nat k))"
  have "frame_word pf n \<noteq> frame_word pf k" if "n < k" for n
    using that Suc.prems pixel_index_inj [of n k] pixel_index_bounds [of n] pixel_index_bounds [of k]
      frame_word_inj [of "pixel_index n" "pixel_index k" pf] by auto
  then have "\<forall>n < Suc k. ?w (frame_word pf n) = pixel_value flash (rgb - 3 * of_nat n)"
    using w(2) by (simp add: less_Suc_eq)
  moreover have "\<forall>a. (\<forall>n < Suc k. a \<noteq> frame_word pf n) \<longrightarrow> ?w a = frames a"
    using w(3) by (simp add: less_Suc_eq)
  moreover have "video_step flash pf (k div 800, k mod 800) (w, rgb - 3 * of_nat k) = (?w, rgb - 3 * of_nat k - 3)"
    by (simp add: video_step_def pixel_addr_index)
  then have "fold (video_step flash pf) (map (\<lambda>n. (n div 800, n mod 800)) [0 ..< Suc k]) (frames, rgb) =
      (?w, rgb - 3 * of_nat (Suc k))"
    by (simp add: w(1) algebra_simps)
  ultimately show ?case
    by blast
qed simp

lemma all_pixels: "List.product [0 ..< VRES] [0 ..< HRES] = map (\<lambda>n. (n div 800, n mod 800)) [0 ..< 480000]"
proof (rule nth_equalityI)
  show "length (List.product [0 ..< VRES] [0 ..< HRES]) = length (map (\<lambda>n. (n div 800, n mod 800)) [0 ..< 480000])"
    by (simp add: HRES_def VRES_def)
  fix n
  assume "n < length (List.product [0 ..< VRES] [0 ..< HRES])"
  then have n: "n < 480000"
    by (simp add: HRES_def VRES_def)
  then have "n div 800 < 600"
    by (simp add: less_mult_imp_div_less)
  with n show "List.product [0 ..< VRES] [0 ..< HRES] ! n = map (\<lambda>n. (n div 800, n mod 800)) [0 ..< 480000] ! n"
    by (simp add: product_nth HRES_def VRES_def)
qed

section \<open>What is shown\<close>

text \<open>
  The three bytes of a pixel of the picture, whose rows go from bottom to top. The code takes the pixels
  to start at byte 56 of the file.
\<close>

definition bmp_pixel :: "u8 list \<Rightarrow> nat \<Rightarrow> nat \<Rightarrow> u32" where
  "bmp_pixel bmp r c = (let k = 56 + 3 * ((599 - r) * 800 + c) in
     ucast (bmp ! k) OR push_bit 8 (ucast (bmp ! (k + 1))) OR push_bit 16 (ucast (bmp ! (k + 2))))"

lemma pixel_of_picture:
  assumes "length bmp = 56 + 1440000" "\<forall>x < length bmp. flash (FLASH_ROM_BASE pf + of_nat (EGOS_BIN_MAX_NBYTE * 5 + x)) = bmp ! x"
    "r < 600" "c < 800"
  shows "pixel_value flash (rgb_start pf - 3 * of_nat (r * 800 + (799 - c))) = bmp_pixel bmp r c"
proof -
  define k n where "k = 56 + 3 * ((599 - r) * 800 + c)" and "n = r * 800 + (799 - c)"
  have "(599 - r) * 800 + c + n = 479999"
    using assms(3,4) by (simp add: n_def diff_mult_distrib)
  then have kn: "k + 3 * n = 1440053" "k + 2 < length bmp"
    using assms(1) by (simp_all add: k_def)
  then have "of_nat (k + 3 * n) = (of_nat 1440053 :: u32)"
    by simp
  then have "(of_nat k :: u32) = 1440053 - 3 * of_nat n"
    by (simp add: eq_diff_eq)
  then have a: "rgb_start pf - 3 * of_nat n = FLASH_ROM_BASE pf + of_nat (EGOS_BIN_MAX_NBYTE * 5 + k)"
    by (simp add: rgb_start_def HRES_def VRES_def)
  have b: "flash (FLASH_ROM_BASE pf + of_nat (EGOS_BIN_MAX_NBYTE * 5 + k) + of_nat i) = bmp ! (k + i)" if "i \<le> 2" for i
    using assms(2) [rule_format, of "k + i"] kn that by (simp add: add.assoc)
  show ?thesis
    using b [of 0] b [of 1] b [of 2] a unfolding pixel_value_def bmp_pixel_def Let_def n_def [symmetric] k_def [symmetric]
    by simp
qed



end
