(* ===== verification/Malloc.thy ===== *)
theory Malloc
  imports Prelude
begin

text \<open>
  The heap of library/libc/malloc.c: \<open>_sbrk\<close>, on which the C library's \<open>malloc\<close> rests. The end of the
  heap is the linker's. A heap that would grow too large ends in a memory exception.
\<close>

definition sbrk :: "u32 \<Rightarrow> i32 \<Rightarrow> u32 \<Rightarrow> fault + (u32 \<times> u32)" where
  "sbrk heap_end n brk =
     (if brk + n > heap_end then Inl (Fatal ''_sbrk: heap grows too large'') else Inr (brk, brk + n))"

text \<open>A sequence of calls: the regions handed out, as their start and size.\<close>

fun sbrks :: "u32 \<Rightarrow> i32 list \<Rightarrow> u32 \<Rightarrow> fault + ((u32 \<times> i32) list \<times> u32)" where
  "sbrks heap_end [] brk = Inr ([], brk)"
| "sbrks heap_end (n # ns) brk =
     bindr (sbrk heap_end n brk) (\<lambda>(old, brk1). bindr (sbrks heap_end ns brk1) (\<lambda>(rs, brk2). Inr ((old, n) # rs, brk2)))"

lemma sbrk_grows:
  assumes "brk \<le> heap_end" "unat heap_end + unat n < 2 ^ 32" "sbrk heap_end n brk = Inr (old, brk1)"
  shows "old = brk \<and> unat brk1 = unat brk + unat n \<and> brk1 \<le> heap_end"
proof -
  have "unat brk + unat n < 2 ^ 32"
    using assms(1,2) by (simp add: word_le_nat_alt)
  then show ?thesis
    using assms(3) by (auto simp: sbrk_def unat_word_ariths split: if_splits)
qed

text \<open>Where no size wraps around, the regions lie one behind the other in the heap.\<close>

lemma sbrks_consecutive:
  assumes "brk \<le> heap_end" "\<forall>n \<in> set ns. unat heap_end + unat n < 2 ^ 32" "sbrks heap_end ns brk = Inr (rs, brk1)"
  shows "map snd rs = ns \<and> brk1 \<le> heap_end \<and> unat brk1 = unat brk + sum_list (map unat ns) \<and>
    (\<forall>i < length rs. unat (fst (rs ! i)) = unat brk + sum_list (map unat (take i ns)))"
  using assms
proof (induction ns arbitrary: brk rs brk1)
  case (Cons n ns)
  obtain b rs' where s: "sbrk heap_end n brk = Inr (brk, b)" "sbrks heap_end ns b = Inr (rs', brk1)" "rs = (brk, n) # rs'"
    using Cons.prems(3) by (auto simp: bindr_eq_Inr_iff sbrk_def split: if_splits)
  have b: "unat b = unat brk + unat n" "b \<le> heap_end"
    using sbrk_grows [OF Cons.prems(1) _ s(1)] Cons.prems(2) by auto
  have "map snd rs' = ns \<and> brk1 \<le> heap_end \<and> unat brk1 = unat b + sum_list (map unat ns) \<and>
    (\<forall>i < length rs'. unat (fst (rs' ! i)) = unat b + sum_list (map unat (take i ns)))"
    using Cons.IH [OF b(2) _ s(2)] Cons.prems(2) by simp
  then show ?case
    using b(1) by (auto simp: s(3) nth_Cons' take_Cons')
qed simp

text \<open>The check is made after the addition: a very large size wraps around and is granted.\<close>

lemma huge_size_is_granted: "sbrk 0x80300000 0x7FE00000 0x80280000 = Inr (0x80280000, 0x80000)"
  by (simp add: sbrk_def)

end
