(* ===== verification/Demo_Programs.thy ===== *)
theory Demo_Programs
  imports Malloc Mmu
begin

text \<open>
  The programs that the loaders, the shells and egos run as examples: fib.c (of group-16, where it
  computes with \<open>int\<close>, and of group-16-3, where it computes with \<open>long long\<close>), sum.c of group-16-4, and
  the two commands of egos that are meant to crash (apps/user/crash1.c and crash2.c).
\<close>

section \<open>fib.c\<close>

text \<open>A signed addition of \<open>w\<close> bits: an overflow is undefined in C.\<close>

definition c_signed :: "nat \<Rightarrow> int \<Rightarrow> fault + int" where
  "c_signed w x = (if - (2 ^ (w - 1)) \<le> x \<and> x < 2 ^ (w - 1) then Inr x else Inl Undefined)"

function fib :: "nat \<Rightarrow> int \<Rightarrow> fault + int" where
  "fib w n = (if n < 2 then Inr n
     else bindr (fib w (n - 1)) (\<lambda>a. bindr (fib w (n - 2)) (\<lambda>b. c_signed w (a + b))))"
  by pat_completeness auto
termination
  by (relation "measure (\<lambda>(w, n). nat n)") auto

declare fib.simps [simp del]

definition fib_int :: "int \<Rightarrow> fault + int" where
  "fib_int = fib 32"

definition fib_long_long :: "int \<Rightarrow> fault + int" where
  "fib_long_long = fib 64"

fun fibonacci :: "nat \<Rightarrow> nat" where
  "fibonacci 0 = 0"
| "fibonacci (Suc 0) = 1"
| "fibonacci (Suc (Suc n)) = fibonacci (Suc n) + fibonacci n"

text \<open>The two numbers that the next one is the sum of: a linear way to the same values.\<close>

fun fib_pair :: "nat \<Rightarrow> nat \<times> nat" where
  "fib_pair 0 = (0, 1)"
| "fib_pair (Suc n) = (case fib_pair n of (a, b) \<Rightarrow> (b, a + b))"

lemma fib_pair_fibonacci: "fib_pair n = (fibonacci n, fibonacci (Suc n))"
  by (induction n) auto

lemma fib_pair_numeral: "fib_pair (numeral k) = (case fib_pair (pred_numeral k) of (a, b) \<Rightarrow> (b, a + b))"
  by (simp add: numeral_eq_Suc)

lemma fib_pair_one: "fib_pair 1 = (1, 1)"
  by (simp add: One_nat_def)

lemma c_signed_nat: "c_signed w (int k) = (if k < 2 ^ (w - 1) then Inr (int k) else Inl Undefined)"
proof -
  have "- (2 ^ (w - 1)) \<le> int k"
    by (rule order_trans [of _ 0]) auto
  moreover have "int k < 2 ^ (w - 1) \<longleftrightarrow> k < 2 ^ (w - 1)"
    by (metis of_nat_less_iff of_nat_numeral of_nat_power)
  ultimately show ?thesis
    by (simp add: c_signed_def)
qed

text \<open>The recursion computes the Fibonacci numbers as long as they fit, and overflows from the first that does not.\<close>

lemma fib_fibonacci:
  assumes "2 \<le> w"
  shows "fib w (int n) = c_signed w (int (fibonacci n))"
proof (induction n rule: fibonacci.induct)
  case (3 n)
  have "fib w (int (Suc (Suc n))) =
      bindr (fib w (int (Suc n))) (\<lambda>a. bindr (fib w (int n)) (\<lambda>b. c_signed w (a + b)))"
    by (subst fib.simps) (simp add: add.commute)
  also have "\<dots> = c_signed w (int (fibonacci (Suc (Suc n))))"
    unfolding 3 by (auto simp: c_signed_nat simp flip: of_nat_add)
  finally show ?case .
next
  case 2
  have "(1 :: nat) < 2 ^ (w - 1)"
    using assms by (intro one_less_power) auto
  then show ?case
    using c_signed_nat [of w 1] by (simp add: fib.simps)
qed (simp add: fib.simps c_signed_nat [of w 0, simplified])

lemma fib_int_40: "fib_int 40 = Inr 102334155"
proof -
  have "fib_pair 40 = (102334155, 165580141)"
    by (simp add: fib_pair_numeral fib_pair_one del: One_nat_def)
  then have "fibonacci 40 = 102334155"
    by (simp add: fib_pair_fibonacci)
  then show ?thesis
    using fib_fibonacci [of 32 40] by (simp add: fib_int_def c_signed_def)
qed

text \<open>\<open>int\<close> holds the numbers up to the 46th; \<open>long long\<close> still holds the 90th.\<close>

lemma fib_int_overflows: "fib_int 46 = Inr 1836311903" "fib_int 47 = Inl Undefined" "fib_long_long 90 = Inr 2880067194370816120"
proof -
  have "fib_pair 46 = (1836311903, 2971215073)" "fib_pair 90 = (2880067194370816120, 4660046610375530309)"
    by (simp_all add: fib_pair_numeral fib_pair_one del: One_nat_def)
  then have "fibonacci 46 = 1836311903" "fibonacci 47 = 2971215073" "fibonacci 90 = 2880067194370816120"
    by (simp_all add: fib_pair_fibonacci)
  then show "fib_int 46 = Inr 1836311903" "fib_int 47 = Inl Undefined" "fib_long_long 90 = Inr 2880067194370816120"
    using fib_fibonacci [of 32 46] fib_fibonacci [of 32 47] fib_fibonacci [of 64 90]
    by (simp_all add: fib_int_def fib_long_long_def c_signed_def)
qed

section \<open>sum.c\<close>

definition SUM_SIZE :: nat where
  "SUM_SIZE = 1024"

text \<open>The two loops of \<open>_start\<close> from index \<open>i\<close>, on the array \<open>A\<close> and on \<open>sum\<close>.\<close>

function fill_array :: "nat \<Rightarrow> i32 list \<Rightarrow> i32 list" where
  "fill_array i A = (if i < SUM_SIZE then fill_array (Suc i) (A[i := 2]) else A)"
  by pat_completeness auto
termination
  by (relation "measure (\<lambda>(i, A). SUM_SIZE - i)") auto

function sum_array :: "nat \<Rightarrow> i32 list \<Rightarrow> i32 \<Rightarrow> i32" where
  "sum_array i A acc = (if i < SUM_SIZE then sum_array (Suc i) A (acc + A ! i) else acc)"
  by pat_completeness auto
termination
  by (relation "measure (\<lambda>(i, A, acc). SUM_SIZE - i)") auto

declare fill_array.simps [simp del] sum_array.simps [simp del]

definition sum_start :: i32 where
  "sum_start = sum_array 0 (fill_array 0 (replicate SUM_SIZE 0)) 0"

lemma fill_array_spec:
  assumes "i \<le> SUM_SIZE" "length A = SUM_SIZE"
  shows "fill_array i A = take i A @ replicate (SUM_SIZE - i) 2"
  using assms
proof (induction "SUM_SIZE - i" arbitrary: i A)
  case (Suc n)
  then have i: "i < SUM_SIZE"
    by simp
  have "fill_array i A = take (Suc i) (A[i := 2]) @ replicate (SUM_SIZE - Suc i) 2"
    using Suc.hyps(1) [of "Suc i" "A[i := 2]"] Suc.hyps(2) Suc.prems i by (subst fill_array.simps) simp
  also have "\<dots> = take i A @ 2 # replicate (SUM_SIZE - Suc i) 2"
    using i Suc.prems(2) by (simp add: take_Suc_conv_app_nth)
  also have "\<dots> = take i A @ replicate (SUM_SIZE - i) 2"
    using i by (metis Suc_diff_Suc replicate_Suc)
  finally show ?case .
qed (simp add: fill_array.simps)

lemma sum_array_spec:
  assumes "i \<le> SUM_SIZE" "length A = SUM_SIZE"
  shows "sum_array i A acc = acc + sum_list (drop i A)"
  using assms
proof (induction "SUM_SIZE - i" arbitrary: i acc)
  case (Suc n)
  then have i: "i < SUM_SIZE"
    by simp
  have "sum_array i A acc = (acc + A ! i) + sum_list (drop (Suc i) A)"
    using Suc.hyps(1) [of "Suc i" "acc + A ! i"] Suc.hyps(2) Suc.prems i by (subst sum_array.simps) simp
  then show ?case
    using i Suc.prems(2) by (simp add: Cons_nth_drop_Suc [symmetric])
qed (simp add: sum_array.simps)

lemma sum_start_2048: "sum_start = 2048"
  using fill_array_spec [of 0 "replicate SUM_SIZE 0"]
    sum_array_spec [of 0 "replicate SUM_SIZE 2" 0]
  by (simp add: sum_start_def sum_list_replicate SUM_SIZE_def)

section \<open>The commands that crash\<close>

text \<open>
  crash1.c asks for 32 megabytes. \<open>malloc\<close> is the C library's; whatever it keeps for itself, it asks
  \<open>_sbrk\<close> for at least the size.
\<close>

definition CRASH1_SIZE :: i32 where
  "CRASH1_SIZE = 32 * 1024 * 1024"

text \<open>The heap of an application ends at \<open>APPS_ARG\<close>, as the linker script library/elf/app.lds has it.\<close>

lemma crash1_ends_in_fatal:
  assumes "brk \<le> APPS_ARG" "APPS_ENTRY \<le> brk" "CRASH1_SIZE \<le> n" "n \<le> 2 * CRASH1_SIZE"
  shows "sbrk APPS_ARG n brk = Inl (Fatal ''_sbrk: heap grows too large'')"
proof -
  have "unat (brk + n) = unat brk + unat n"
    using assms by (simp add: unat_word_ariths word_le_nat_alt CRASH1_SIZE_def APPS_ARG_def)
  then have "brk + n > APPS_ARG"
    using assms by (simp add: word_less_nat_alt word_le_nat_alt CRASH1_SIZE_def APPS_ARG_def APPS_ENTRY_def)
  then show ?thesis
    by (simp add: sbrk_def)
qed

text \<open>crash2.c, run by the current process: \<open>memset\<close> clears the memory of all page frames.\<close>

definition crash2 :: "mmu_state \<Rightarrow> mmu_state" where
  "crash2 m = m\<lparr>mem := \<lambda>a. if APPS_PAGES_BASE \<le> a \<and> a < RAM_END then replicate 1024 0 else mem m a\<rparr>"

lemma frame_in_range: "i < APPS_PAGES_CNT \<Longrightarrow> APPS_PAGES_BASE \<le> PAGE_ID_TO_ADDR (of_nat i) \<and> PAGE_ID_TO_ADDR (of_nat i) < RAM_END"
  by (simp add: PAGE_ID_TO_ADDR_def APPS_PAGES_BASE_def RAM_END_def PAGE_SIZE_def APPS_PAGES_CNT_eq
      word_le_nat_alt word_less_nat_alt unat_word_ariths unat_of_nat_less)

text \<open>
  With the software TLB every page of every other process is lost, whereas the program that ran
  the loop keeps the pages it works on.
\<close>

lemma crash2_erases_others:
  assumes "length (page_info_table m) = APPS_PAGES_CNT" "p \<noteq> curr_vm_pid m"
  shows "vmem (crash2 m) p va = map_option (\<lambda>_. replicate 1024 0) (vmem m p va)"
proof -
  have f: "frame_of (crash2 m) p va = frame_of m p va"
    by (simp add: frame_of_def crash2_def)
  show ?thesis
  proof (cases "frame_of m p va")
    case (Some i)
    then have "i < APPS_PAGES_CNT"
      using frame_of_Some [OF Some] assms(1) by simp
    then show ?thesis
      using assms(2) f Some frame_in_range [of i] by (simp add: vmem_def) (simp add: crash2_def)
  qed (simp add: vmem_def f)
qed

lemma crash2_keeps_own:
  assumes "va < APPS_PAGES_BASE"
  shows "vmem (crash2 m) (curr_vm_pid m) va = vmem m (curr_vm_pid m) va"
  using assms by (simp add: vmem_def crash2_def frame_of_def not_le [symmetric])

end
