(* ===== verification/Spec2Isabelle.thy ===== *)
theory Spec2Isabelle
  imports Apps_Text Boot Entry_Loader Syscall_Lib Smart_Props Multithreader Job_Start Pipe_Props Nic Mydisk Video Demo_Programs
begin

text \<open>
  Verification library for the Operating Systems Components Suite: egos-2000, a teaching operating
  system for RISC-V (src/egos-2000), and the course projects beside it (src/group-16, group-16-3,
  group-16-4, group-16-5).

  The system. The earth layer of egos-2000 (earth/) wraps the hardware: the serial line, the disk, the
  timer and the memory management unit. The grass layer (grass/) is the kernel: the process table with
  its multilevel feedback queue, the trap handlers and message passing. Four servers (apps/system/)
  are processes that receive messages: processes are created by sys_proc.c, the terminal is
  sys_terminal.c, files are sys_file.c and the shell is sys_shell.c. Applications (apps/user/) reach
  them through library/syscall. The disk image is made on the development machine by tools/mkfs.c with
  the same file system code (library/file/file1.c) that the file server runs. The course projects are
  programs of their own: shells, a job scheduler, two ELF loaders and a header for parallel loops.

  Conventions (\<open>Prelude\<close>). A C \<open>uint\<close> is a 32-bit word and wraps as it does in C; \<open>int\<close>
  is a 32-bit word read with \<open>sint\<close> where its sign matters. An operation that may stop the
  program has the type \<open>fault + 'a\<close>: \<open>FATAL\<close>, \<open>panic\<close> and a failed \<open>assert\<close> give \<open>Fatal\<close>,
  and an access outside an object gives \<open>Undefined\<close>. A structure is a record, a pointer to an
  element of an array is its index, and a loop is recursion over what is left of it.

  Storage.
  \<^item> \<open>Inode_Store\<close>: struct inode_store (library/file/inode.h) and the locale \<open>block_store\<close> with the
    laws of a store of blocks. \<open>Ramdisk\<close>: ramread and ramwrite of tools/mkfs.c, which keep them.
    \<open>Mydisk\<close>: library/file/file0.c.
  \<^item> \<open>Treedisk\<close>: every function of library/file/file1.c. \<open>Treedisk_Tree\<close>, \<open>Treedisk_Walk\<close>,
    \<open>Treedisk_Spec\<close>, \<open>Treedisk_Ops\<close> and \<open>Treedisk_Create\<close> prove inside \<open>block_store\<close> that it
    implements a map from inode numbers to files; \<open>Filesystem\<close> takes this to the ramdisk. The walks
    recurse over the level of the tree, which is at most five: 128 to the power five exceeds 32 bits.
  \<^item> \<open>Directory\<close>: dir_lookup (library/syscall/servers.c) and the texts mkfs writes for it.
    \<open>Sys_File\<close>: the requests of apps/system/sys_file.c over the disk. \<open>Mkfs\<close>: how tools/mkfs.c
    fills the image, and that the file server's clients find it there. \<open>Mkfs_Image\<close>: the images its
    main function writes, with the binaries where the loaders read them.
  \<^item> \<open>Apps\<close>, \<open>Apps_Props\<close>, \<open>Apps_Text\<close>: the commands cd, ls, cat, echo, loop, grep and wcl.

  Processes.
  \<^item> \<open>Process\<close> (grass/process.c), \<open>Kernel\<close> (grass/kernel.c), \<open>Kernel_Inv\<close> (the invariant of
    the process table), \<open>Kernel_Props\<close> (grass/init.c, reachable states, the scheduler and the queue).
    The machine is a record of the functions in struct earth.
  \<^item> \<open>Mmu\<close>: earth/cpu_mmu.c, the software TLB against one private memory for each process, and the
    Sv32 page tables. \<open>Sv32\<close>: the walk the processor makes through these tables, and that they map
    exactly the identity regions. \<open>Machine\<close>: the locale \<open>user_memory\<close> between the kernel and the memory
    management, interpreted on the software TLB. \<open>Syscall_Lib\<close>: library/syscall/syscall.c on top.
  \<^item> \<open>Elf\<close>, \<open>Elf_Load\<close>, \<open>Elf_Props\<close>: the loader of library/elf/elf.c, down to the bytes a new
    process sees.
  \<^item> \<open>Sys_Shell\<close>, \<open>Sys_Process\<close>, \<open>Sys_Props\<close>: the shell and the process server, and their
    protocol as a step relation over the kernel.
  \<^item> \<open>Boot\<close>: earth/boot.c with the control registers its parts write, the jump of grass/init.c, and
    that the first process is entered with the timer interrupt enabled, in user mode where page tables
    translate and in machine mode with the software TLB.
  \<^item> \<open>Malloc\<close>: the heap of library/libc/malloc.c.
  \<^item> \<open>Terminal\<close>: the line editor and apps/system/sys_terminal.c. \<open>Print\<close>: library/libc/print.c.

  Devices.
  \<^item> \<open>Mmio\<close>: loads and stores of device registers. The device is a parameter, a state and what an
    access does to it. A loop that polls a register is a \<open>partial_function\<close>: its value is \<open>None\<close>
    when it never ends, so a theorem that gives a result says that the driver returns.
  \<^item> \<open>Timer\<close> (earth/cpu_intr.c), \<open>Dev_Tty\<close> (earth/dev_tty.c), \<open>Dev_Disk\<close> (earth/dev_disk.c)
    and, for apps/user/udp_demo.c, \<open>Network\<close> (the frame and its checksums) and \<open>Nic\<close> (the
    registers). The laws of a device that a theorem needs (an SD card that keeps its protocol, a clock
    that does not run backwards, an idle Ethernet controller) are stated as definitions beside it.
  \<^item> \<open>Video\<close>: apps/user/video_demo.c, from the picture mkfs puts in the ROM to the frame buffer.

  Course projects.
  \<^item> \<open>Pipe_Shell\<close>, \<open>Pipe_Props\<close>: the shell of group-16 (group-16-2 holds the same file).
  \<^item> \<open>Job_Scheduler\<close>, \<open>Job_Props\<close>, \<open>Job_Exit\<close>: the shell and the scheduler of group-16-3 as two
    processes that interleave on shared memory. \<open>Job_Start\<close>: how both start, how a command is read
    from the line, and the job process of dummy_main.h.
  \<^item> \<open>Elf_File\<close>: reading ELF headers. \<open>Smart_Loader\<close>, \<open>Smart_Props\<close>: the loader of group-16-4,
    which maps pages on demand. An access is retried with a fuel: 2 attempts suffice for every access
    the loader can serve, and an access that faults again after the handler returned faults forever.
    \<open>Entry_Loader\<close>: the loader of group-16.
  \<^item> \<open>Multithreader\<close>: group-16-5, as all interleavings of the threads.
  \<^item> \<open>Demo_Programs\<close>: the programs that the loaders and egos run: fib, sum and the two crashing commands.

  Not modelled: the assembly in earth/boot.s and grass/kernel.s (the boot lock, the stacks, and the
  register save and restore around kernel_entry, which takes the saved registers and the trap's cause
  as arguments); the messages printed during boot; group-16-4/test.c, which computes with floating point
  numbers; the functions left empty for students and the code without bodies in
  group-16/starter/with-bonus.
\<close>

end
